(* ===== verification/Prelude.thy ===== *)
theory Prelude
  imports Main "HOL-Library.Word"
begin

text \<open>
  Shared vocabulary of the development: the named collections of facts, the standard-library
  operations the sources call (\<open>ranges::lower_bound\<close>, \<open>ranges::upper_bound\<close>, the sorted
  vector behind \<open>base::flat_set\<close>), bounded machine integers, and the generic list and word
  lemmas the component theories rely on.
\<close>

named_theorems model_defs \<open>definitions of small accessors, unfolded freely\<close>
named_theorems slice_simps \<open>simplification rules for slices and their spans\<close>
named_theorems wire_simps \<open>byte-level encodings and their inverses\<close>

subsection \<open>Binary search in a partitioned sequence\<close>

text \<open>
  \<open>ranges::lower_bound(list, value, less, proj)\<close> is the index of the first element whose
  projection is not below the value, \<open>ranges::upper_bound\<close> that of the first element whose
  projection is above it. Both are only specified on sequences partitioned by the test; there
  the index is the length of the prefix that passes the test.
\<close>

definition lower_bound_idx :: "('a \<Rightarrow> 'k::linorder) \<Rightarrow> 'k \<Rightarrow> 'a list \<Rightarrow> nat" where
  "lower_bound_idx proj k xs = length (takeWhile (\<lambda>a. proj a < k) xs)"

definition upper_bound_idx :: "('a \<Rightarrow> 'k::linorder) \<Rightarrow> 'k \<Rightarrow> 'a list \<Rightarrow> nat" where
  "upper_bound_idx proj k xs = length (takeWhile (\<lambda>a. proj a \<le> k) xs)"

lemma take_length_takeWhile [simp]: "take (length (takeWhile P xs)) xs = takeWhile P xs"
  by (induction xs) auto

lemma drop_length_takeWhile [simp]: "drop (length (takeWhile P xs)) xs = dropWhile P xs"
  by (induction xs) auto

lemma lower_bound_idx_le: "lower_bound_idx proj k xs \<le> length xs"
  by (simp add: lower_bound_idx_def length_takeWhile_le)

lemma upper_bound_idx_le: "upper_bound_idx proj k xs \<le> length xs"
  by (simp add: upper_bound_idx_def length_takeWhile_le)

lemma takeWhile_filter_mono:
  assumes "sorted_wrt R xs" and "\<And>a b. a \<in> set xs \<Longrightarrow> b \<in> set xs \<Longrightarrow> R a b \<Longrightarrow> P b \<Longrightarrow> P a"
  shows "takeWhile P xs = filter P xs \<and> dropWhile P xs = filter (\<lambda>x. \<not> P x) xs"
  using assms
proof (induction xs)
  case Nil
  then show ?case by simp
next
  case (Cons x xs)
  have IH: "takeWhile P xs = filter P xs \<and> dropWhile P xs = filter (\<lambda>x. \<not> P x) xs"
    by (rule Cons.IH) (use Cons.prems in auto)
  show ?case
  proof (cases "P x")
    case True
    with IH show ?thesis by simp
  next
    case False
    then have "\<forall>y \<in> set xs. \<not> P y"
      using Cons.prems(1) Cons.prems(2) [of x] by auto
    with False show ?thesis by (simp add: filter_empty_conv)
  qed
qed

subsection \<open>The sorted vector of \<open>base::flat_set\<close>\<close>

text \<open>
  A \<open>base::flat_set\<close> is iterated in increasing order and holds no element twice: it is
  modelled by the strictly increasing list of its elements.
\<close>

abbreviation strictly_sorted :: "'a::linorder list \<Rightarrow> bool" where
  "strictly_sorted \<equiv> sorted_wrt (<)"

definition flat_insert :: "'a::linorder \<Rightarrow> 'a list \<Rightarrow> 'a list" where
  "flat_insert x xs = (if x \<in> set xs then xs else insort x xs)"

definition flat_merge :: "'a::linorder list \<Rightarrow> 'a list \<Rightarrow> 'a list" where
  "flat_merge xs more = fold flat_insert more xs"

definition flat_remove :: "'a \<Rightarrow> 'a list \<Rightarrow> 'a list" where
  "flat_remove x xs = filter (\<lambda>y. y \<noteq> x) xs"

lemma strictly_sorted_iff: "strictly_sorted xs \<longleftrightarrow> sorted xs \<and> distinct xs"
  by (rule strict_sorted_iff)

lemma set_flat_insert [simp]: "set (flat_insert x xs) = insert x (set xs)"
  by (auto simp: flat_insert_def set_insort_key)

lemma strictly_sorted_flat_insert [simp]:
  "strictly_sorted xs \<Longrightarrow> strictly_sorted (flat_insert x xs)"
  by (simp add: flat_insert_def strictly_sorted_iff sorted_insort distinct_insort)

lemma set_flat_merge [simp]: "set (flat_merge xs more) = set xs \<union> set more"
  by (induction more arbitrary: xs) (auto simp: flat_merge_def)

lemma strictly_sorted_flat_merge [simp]:
  "strictly_sorted xs \<Longrightarrow> strictly_sorted (flat_merge xs more)"
  by (induction more arbitrary: xs) (auto simp: flat_merge_def)

lemma set_flat_remove [simp]: "set (flat_remove x xs) = set xs - {x}"
  by (auto simp: flat_remove_def)

lemma strictly_sorted_flat_remove [simp]:
  "strictly_sorted xs \<Longrightarrow> strictly_sorted (flat_remove x xs)"
  by (simp add: flat_remove_def sorted_wrt_filter)

lemma strictly_sorted_length: "strictly_sorted xs \<Longrightarrow> length xs = card (set xs)"
  by (simp add: strictly_sorted_iff distinct_card)

lemma strictly_sorted_eqI:
  "strictly_sorted xs \<Longrightarrow> strictly_sorted ys \<Longrightarrow> set xs = set ys \<Longrightarrow> xs = ys"
  by (rule strict_sorted_equal)

lemma strictly_sorted_last_ge:
  "strictly_sorted xs \<Longrightarrow> x \<in> set xs \<Longrightarrow> x \<le> last xs"
  by (induction xs) (auto split: if_splits intro: less_imp_le)

lemma strictly_sorted_hd_le:
  "strictly_sorted xs \<Longrightarrow> x \<in> set xs \<Longrightarrow> hd xs \<le> x"
  by (cases xs) (auto intro: less_imp_le)

end
