(* ===== verification/Slices.thy ===== *)
theory Slices
  imports Prelude
begin

text \<open>
  Loaded slices of an ordered list of messages. Both \<open>Storage::SparseIdsList\<close>
  (\<open>storage/storage_sparse_ids_list.cpp\<close>) and \<open>Data::MessagesList\<close>
  (\<open>data/data_messages.cpp\<close>) keep a sorted set of slices; a slice is a range of positions
  with no unloaded message inside and the messages known in it. The slice operations are the
  same code in both files, once over \<open>MsgId\<close> and once over \<open>MessagePosition\<close>; they are
  modelled here over any linear order. A failed \<open>Expects\<close> is the result \<open>None\<close>.
\<close>

record 'm mrange =
  "from" :: 'm
  till :: 'm

record 'm slice =
  messages :: "'m list"
  srange :: "'m mrange"

record 'm slice_update =
  upd_messages :: "'m list option"
  upd_range :: "'m mrange"
  upd_count :: "int option"

definition slice_merge ::
    "'m::linorder slice \<Rightarrow> 'm list \<Rightarrow> 'm mrange \<Rightarrow> 'm slice option" where
  "slice_merge s moreMessages moreNoSkipRange =
     (if from moreNoSkipRange \<le> till (srange s) \<and> from (srange s) \<le> till moreNoSkipRange
      then Some \<lparr>messages = flat_merge (messages s) moreMessages,
                 srange = \<lparr>from = min (from (srange s)) (from moreNoSkipRange),
                           till = max (till (srange s)) (till moreNoSkipRange)\<rparr>\<rparr>
      else None)"

fun merge_all :: "'m::linorder slice \<Rightarrow> 'm slice list \<Rightarrow> 'm slice option" where
  "merge_all s [] = Some s"
| "merge_all s (t # ts) =
     Option.bind (slice_merge s (messages t) (srange t)) (\<lambda>s'. merge_all s' ts)"

text \<open>
  \<open>uniteAndAdd\<close> merges the messages into the slice at \<open>uniteFrom\<close>, then the slices up to
  \<open>uniteTill\<close> into it, and erases those. The result is the new slice list, the united slice
  (what \<open>update\<close> points to) and the number of messages added.
\<close>

definition uniteAndAdd ::
    "'m::linorder slice list \<Rightarrow> nat \<Rightarrow> nat \<Rightarrow> 'm list \<Rightarrow> 'm mrange
      \<Rightarrow> ('m slice list \<times> 'm slice \<times> int) option" where
  "uniteAndAdd sl uniteFrom uniteTill msgs noSkipRange =
     (case take (uniteTill - uniteFrom) (drop uniteFrom sl) of
        [] \<Rightarrow> None
      | s # rest \<Rightarrow>
          Option.bind (slice_merge s msgs noSkipRange) (\<lambda>s1.
          Option.bind (merge_all s1 rest) (\<lambda>s2.
            Some (take uniteFrom sl @ s2 # drop uniteTill sl, s2,
                  int (length (messages s2)) - int (length (messages s))))))"

text \<open>\<open>base::flat_set<Slice>::emplace\<close>: the key of a slice is \<open>range.from\<close>.\<close>

definition slices_emplace ::
    "'m::linorder slice list \<Rightarrow> 'm slice \<Rightarrow> 'm slice list \<times> 'm slice" where
  "slices_emplace sl s =
     (let k = lower_bound_idx (\<lambda>t. from (srange t)) (from (srange s)) sl in
      case drop k sl of
        [] \<Rightarrow> (sl @ [s], s)
      | t # _ \<Rightarrow> (if from (srange t) = from (srange s) then (sl, t)
                  else (take k sl @ s # drop k sl, s)))"

definition unite_from :: "'m::linorder slice list \<Rightarrow> 'm mrange \<Rightarrow> nat" where
  "unite_from sl r = lower_bound_idx (\<lambda>s. till (srange s)) (from r) sl"

definition unite_till :: "'m::linorder slice list \<Rightarrow> 'm mrange \<Rightarrow> nat" where
  "unite_till sl r = upper_bound_idx (\<lambda>s. from (srange s)) (till r) sl"

text \<open>
  The common part of \<open>addRangeItemsAndCountNew\<close>: unite the slices that meet the range, or
  add a new slice.
\<close>

definition uniteOrInsert ::
    "'m::linorder slice list \<Rightarrow> 'm list \<Rightarrow> 'm mrange
      \<Rightarrow> ('m slice list \<times> 'm slice \<times> int) option" where
  "uniteOrInsert sl msgs r =
     (if unite_from sl r < unite_till sl r
      then uniteAndAdd sl (unite_from sl r) (unite_till sl r) msgs r
      else let (sl', s) = slices_emplace sl \<lparr>messages = flat_merge [] msgs, srange = r\<rparr>
           in Some (sl', s, int (length (messages s))))"

subsection \<open>Well-formed slices\<close>

definition span :: "'m::linorder slice \<Rightarrow> 'm set" where
  "span s = {from (srange s) .. till (srange s)}"

definition slice_ok :: "'m::linorder slice \<Rightarrow> bool" where
  "slice_ok s \<longleftrightarrow> strictly_sorted (messages s) \<and> from (srange s) \<le> till (srange s)
     \<and> set (messages s) \<subseteq> span s"

definition slices_ok :: "'m::linorder slice list \<Rightarrow> bool" where
  "slices_ok sl \<longleftrightarrow> (\<forall>s \<in> set sl. slice_ok s)
     \<and> sorted_wrt (\<lambda>a b. till (srange a) < from (srange b)) sl"

text \<open>What the slices know, and which positions they cover without gaps.\<close>

definition known :: "'m slice list \<Rightarrow> 'm set" where
  "known sl = (\<Union>s \<in> set sl. set (messages s))"

definition covered :: "'m::linorder slice list \<Rightarrow> 'm set" where
  "covered sl = (\<Union>s \<in> set sl. span s)"

lemma known_simps [simp]:
  "known [] = {}" "known (s # sl) = set (messages s) \<union> known sl"
  "known (sl @ sl') = known sl \<union> known sl'"
  by (auto simp: known_def)

lemma covered_simps [simp]:
  "covered [] = {}" "covered (s # sl) = span s \<union> covered sl"
  "covered (sl @ sl') = covered sl \<union> covered sl'"
  by (auto simp: covered_def)

lemma slice_okD:
  assumes "slice_ok s"
  shows "strictly_sorted (messages s)" "from (srange s) \<le> till (srange s)"
    "set (messages s) \<subseteq> span s" "m \<in> set (messages s) \<Longrightarrow> from (srange s) \<le> m \<and> m \<le> till (srange s)"
  using assms by (auto simp: slice_ok_def span_def)

lemma slices_ok_Nil [simp]: "slices_ok []"
  by (simp add: slices_ok_def)

lemma slices_ok_append:
  "slices_ok (xs @ ys) \<longleftrightarrow> slices_ok xs \<and> slices_ok ys
     \<and> (\<forall>x \<in> set xs. \<forall>y \<in> set ys. till (srange x) < from (srange y))"
  by (auto simp: slices_ok_def sorted_wrt_append)

lemma slices_ok_Cons:
  "slices_ok (x # ys) \<longleftrightarrow> slice_ok x \<and> slices_ok ys
     \<and> (\<forall>y \<in> set ys. till (srange x) < from (srange y))"
  by (auto simp: slices_ok_def)

lemma slices_ok_slice: "slices_ok sl \<Longrightarrow> s \<in> set sl \<Longrightarrow> slice_ok s"
  by (simp add: slices_ok_def)

text \<open>The hull of two overlapping ranges is their union.\<close>

lemma hull_union:
  fixes a :: "'m::linorder"
  assumes "a \<le> b" "c \<le> d" "c \<le> b" "a \<le> d"
  shows "{min a c .. max b d} = {a..b} \<union> {c..d}"
  using assms by (auto simp: min_def max_def split: if_splits)

lemma slice_merge_Some:
  assumes "slice_ok s" "from r \<le> till r" "set msgs \<subseteq> {from r .. till r}"
    and "from r \<le> till (srange s)" "from (srange s) \<le> till r"
  obtains s' where "slice_merge s msgs r = Some s'" "slice_ok s'"
    "set (messages s') = set (messages s) \<union> set msgs" "span s' = span s \<union> {from r .. till r}"
proof -
  let ?s = "\<lparr>messages = flat_merge (messages s) msgs,
     srange = \<lparr>from = min (from (srange s)) (from r), till = max (till (srange s)) (till r)\<rparr>\<rparr>"
  have sp: "span ?s = span s \<union> {from r .. till r}"
    using assms by (simp add: span_def hull_union slice_okD)
  have "slice_ok ?s"
    unfolding slice_ok_def sp using assms
    by (auto simp: slice_okD min_le_iff_disj le_max_iff_disj dest: slice_okD(3))
  moreover have "slice_merge s msgs r = Some ?s"
    using assms by (simp add: slice_merge_def)
  ultimately show thesis using sp that by simp
qed

lemma span_bounds:
  assumes "span s \<subseteq> span t" "slice_ok s"
  shows "from (srange t) \<le> from (srange s)" "till (srange s) \<le> till (srange t)"
proof -
  have "from (srange s) \<in> span s" "till (srange s) \<in> span s"
    using slice_okD(2) [OF assms(2)] by (auto simp: span_def)
  then show "from (srange t) \<le> from (srange s)" "till (srange s) \<le> till (srange t)"
    using assms(1) by (auto simp: span_def)
qed

text \<open>Uniting never fails an \<open>Expects\<close> when every slice meets the first one.\<close>

lemma merge_all_Some:
  assumes "slice_ok s" "\<forall>t \<in> set ts. slice_ok t \<and> from (srange t) \<le> till (srange s)
      \<and> from (srange s) \<le> till (srange t)"
  shows "\<exists>s'. merge_all s ts = Some s' \<and> slice_ok s'
     \<and> set (messages s') = set (messages s) \<union> known ts \<and> span s' = span s \<union> covered ts"
  using assms
proof (induction ts arbitrary: s)
  case Nil
  then show ?case by simp
next
  case (Cons t ts)
  have t: "slice_ok t" "from (srange t) \<le> till (srange s)" "from (srange s) \<le> till (srange t)"
    using Cons.prems by auto
  obtain s1 where s1: "slice_merge s (messages t) (srange t) = Some s1" "slice_ok s1"
      "set (messages s1) = set (messages s) \<union> set (messages t)" "span s1 = span s \<union> span t"
    using slice_merge_Some [OF Cons.prems(1) slice_okD(2) [OF t(1)] _ t(2,3), of "messages t"]
      slice_okD(3) [OF t(1)] by (metis span_def)
  have "from (srange s1) \<le> from (srange s)" "till (srange s) \<le> till (srange s1)"
    using span_bounds [of s s1] Cons.prems(1) s1(4) by auto
  then have "\<forall>u \<in> set ts. slice_ok u \<and> from (srange u) \<le> till (srange s1)
      \<and> from (srange s1) \<le> till (srange u)"
    using Cons.prems(2) by (auto intro: order_trans)
  from Cons.IH [OF s1(2) this] s1 show ?case by (auto simp: Un_assoc)
qed

subsection \<open>Uniting or inserting keeps the slices well formed\<close>

text \<open>
  The two binary searches cut the slice list into the slices before the range, those that
  meet it and those after it.
\<close>

lemma slices_split3:
  assumes ok: "slices_ok sl" and r: "from r \<le> till r"
  obtains A B C where "sl = A @ B @ C"
    "unite_from sl r = length A" "unite_till sl r = length (A @ B)"
    "\<forall>s \<in> set A. till (srange s) < from r"
    "\<forall>s \<in> set B. from r \<le> till (srange s) \<and> from (srange s) \<le> till r"
    "\<forall>s \<in> set C. till r < from (srange s)"
proof -
  let ?P = "\<lambda>s. till (srange s) < from r" and ?Q = "\<lambda>s. from (srange s) \<le> till r"
  let ?R = "\<lambda>a b. till (srange a) < from (srange b)"
  have le: "from (srange s) \<le> till (srange s)" if "s \<in> set sl" for s
    using slices_ok_slice [OF ok that] by (rule slice_okD)
  have srt: "sorted_wrt ?R sl" using ok by (simp add: slices_ok_def)
  have P: "takeWhile ?P sl = filter ?P sl \<and> dropWhile ?P sl = filter (\<lambda>s. \<not> ?P s) sl"
    by (rule takeWhile_filter_mono [OF srt]) (use le in fastforce)
  have Q: "takeWhile ?Q sl = filter ?Q sl \<and> dropWhile ?Q sl = filter (\<lambda>s. \<not> ?Q s) sl"
    by (rule takeWhile_filter_mono [OF srt]) (use le in fastforce)
  let ?A = "takeWhile ?P sl" and ?B = "takeWhile ?Q (dropWhile ?P sl)" and ?C = "dropWhile ?Q sl"
  have PQ: "?Q s" if "s \<in> set sl" "?P s" for s
    using le [OF that(1)] that(2) r by (meson dual_order.strict_trans2 less_imp_le order_trans)
  have AB: "takeWhile ?Q sl = ?A @ ?B"
  proof -
    have "\<forall>s \<in> set ?A. ?Q s"
      using PQ by (auto dest: set_takeWhileD)
    then have "takeWhile ?Q (?A @ dropWhile ?P sl) = ?A @ ?B"
      by (intro takeWhile_append2) auto
    then show ?thesis by simp
  qed
  have "sl = takeWhile ?Q sl @ ?C" by simp
  with AB have eq: "sl = ?A @ ?B @ ?C" by simp
  have B: "\<forall>s \<in> set ?B. \<not> ?P s \<and> ?Q s"
  proof
    fix s assume "s \<in> set ?B"
    then have "?Q s" "s \<in> set (dropWhile ?P sl)" by (auto dest: set_takeWhileD)
    then show "\<not> ?P s \<and> ?Q s" using P by simp
  qed
  have C: "\<forall>s \<in> set ?C. \<not> ?Q s" using Q by simp
  show thesis
  proof (rule that [OF eq])
    show "unite_from sl r = length ?A" by (simp add: unite_from_def lower_bound_idx_def)
    show "unite_till sl r = length (?A @ ?B)"
      by (simp only: unite_till_def upper_bound_idx_def AB)
    show "\<forall>s \<in> set ?A. till (srange s) < from r" by (auto dest: set_takeWhileD)
    show "\<forall>s \<in> set ?B. from r \<le> till (srange s) \<and> from (srange s) \<le> till r"
      using B unfolding not_less .
    show "\<forall>s \<in> set ?C. till r < from (srange s)" using C unfolding not_le .
  qed
qed

lemma slices_emplace_between:
  assumes "slices_ok (A @ C)" "slice_ok s"
    and "\<forall>t \<in> set A. till (srange t) < from (srange s)"
    and "\<forall>t \<in> set C. till (srange s) < from (srange t)"
  shows "slices_emplace (A @ C) s = (A @ s # C, s)"
proof -
  have A: "\<forall>t \<in> set A. from (srange t) < from (srange s)"
    using assms(1,3) slice_okD(2) by (fastforce simp: slices_ok_append slices_ok_def)
  have C: "\<forall>t \<in> set C. from (srange s) < from (srange t)"
    using assms(4) slice_okD(2) [OF assms(2)] by (auto intro: le_less_trans)
  have "takeWhile (\<lambda>t. from (srange t) < from (srange s)) (A @ C) = A"
  proof (cases C)
    case Nil
    then show ?thesis using A by (simp add: takeWhile_append)
  next
    case (Cons t ts)
    with C have "\<not> from (srange t) < from (srange s)" by fastforce
    then show ?thesis using A Cons by (simp add: takeWhile_append)
  qed
  then have k: "lower_bound_idx (\<lambda>t. from (srange t)) (from (srange s)) (A @ C) = length A"
    by (simp add: lower_bound_idx_def)
  show ?thesis
  proof (cases C)
    case Nil
    then show ?thesis using k by (simp add: slices_emplace_def Let_def)
  next
    case (Cons t ts)
    with C have "from (srange t) \<noteq> from (srange s)" by auto
    then show ?thesis using k Cons by (simp add: slices_emplace_def Let_def)
  qed
qed

text \<open>
  The effect of adding a range, in terms of what is known and covered: no \<open>Expects\<close> fails,
  the slices stay well formed, exactly the given messages and positions are added.
\<close>

text \<open>A slice that covers the touched ones and the new range fits between the untouched ones.\<close>

lemma slices_ok_replace:
  assumes ok: "slices_ok (A @ B @ C)"
    and A: "\<forall>s \<in> set A. till (srange s) < from r" and C: "\<forall>s \<in> set C. till r < from (srange s)"
    and s: "slice_ok s" "span s = covered B \<union> {from r .. till r}"
  shows "slices_ok (A @ s # C)"
proof -
  have okA: "slices_ok A" and okC: "slices_ok C"
    and AB: "\<forall>x \<in> set A. \<forall>y \<in> set B. till (srange x) < from (srange y)"
    and BC: "\<forall>x \<in> set B. \<forall>y \<in> set C. till (srange x) < from (srange y)"
    and AC: "\<forall>x \<in> set A. \<forall>y \<in> set C. till (srange x) < from (srange y)"
    using ok by (auto simp: slices_ok_append)
  have ends: "from (srange s) \<in> covered B \<union> {from r .. till r}"
      "till (srange s) \<in> covered B \<union> {from r .. till r}"
    using slice_okD(2) [OF s(1)] unfolding s(2) [symmetric] by (auto simp: span_def)
  from ends(1) consider "from r \<le> from (srange s)" | b where "b \<in> set B" "from (srange b) \<le> from (srange s)"
    unfolding covered_def span_def by auto
  then have sA: "\<forall>x \<in> set A. till (srange x) < from (srange s)"
    using A AB by cases (blast intro: less_le_trans)+
  from ends(2) consider "till (srange s) \<le> till r" | b where "b \<in> set B" "till (srange s) \<le> till (srange b)"
    unfolding covered_def span_def by auto
  then have "\<forall>y \<in> set C. till (srange s) < from (srange y)"
    using C BC by cases (blast intro: le_less_trans)+
  with sA show ?thesis
    using okA okC AC s(1) by (auto simp: slices_ok_append slices_ok_Cons)
qed

text \<open>Merging the new messages into the first touched slice and the others into it.\<close>

lemma merge_touched:
  assumes okB: "slices_ok (b # bs)" and r: "from r \<le> till r" and ms: "set msgs \<subseteq> {from r .. till r}"
    and B: "\<forall>s \<in> set (b # bs). from r \<le> till (srange s) \<and> from (srange s) \<le> till r"
  obtains s1 s2 where "slice_merge b msgs r = Some s1" "merge_all s1 bs = Some s2" "slice_ok s2"
    "set (messages s2) = known (b # bs) \<union> set msgs" "span s2 = covered (b # bs) \<union> {from r .. till r}"
proof -
  have b: "slice_ok b" "from r \<le> till (srange b)" "from (srange b) \<le> till r"
    using okB B by (auto simp: slices_ok_def)
  obtain s1 where s1: "slice_merge b msgs r = Some s1" "slice_ok s1"
      "set (messages s1) = set (messages b) \<union> set msgs" "span s1 = span b \<union> {from r .. till r}"
    by (rule slice_merge_Some [OF b(1) r ms b(2,3)])
  have hull: "from (srange s1) \<le> from r" "till r \<le> till (srange s1)"
    using s1(4) r by (auto simp: span_def set_eq_iff)
  have "\<forall>t \<in> set bs. slice_ok t \<and> from (srange t) \<le> till (srange s1)
      \<and> from (srange s1) \<le> till (srange t)"
  proof
    fix t assume "t \<in> set bs"
    then have "slice_ok t" "from r \<le> till (srange t)" "from (srange t) \<le> till r"
      using B okB by (auto simp: slices_ok_def)
    with hull show "slice_ok t \<and> from (srange t) \<le> till (srange s1)
        \<and> from (srange s1) \<le> till (srange t)" by (meson order_trans)
  qed
  from merge_all_Some [OF s1(2) this] obtain s2 where s2: "merge_all s1 bs = Some s2"
      "slice_ok s2" "set (messages s2) = set (messages s1) \<union> known bs"
      "span s2 = span s1 \<union> covered bs"
    by blast
  show thesis by (rule that [OF s1(1) s2(1,2)]) (use s1(3,4) s2(3,4) in auto)
qed

lemma uniteOrInsert_ok:
  assumes ok: "slices_ok sl" and r: "from r \<le> till r" and ms: "set msgs \<subseteq> {from r .. till r}"
  obtains A B C s n where "sl = A @ B @ C" "uniteOrInsert sl msgs r = Some (A @ s # C, s, n)"
    "slices_ok (A @ s # C)" "set (messages s) = known B \<union> set msgs"
    "span s = covered B \<union> {from r .. till r}"
    "n = int (card (known B \<union> set msgs)) - int (case B of [] \<Rightarrow> 0 | b # _ \<Rightarrow> length (messages b))"
    "\<forall>t \<in> set B. from r \<le> till (srange t) \<and> from (srange t) \<le> till r"
proof -
  obtain A B C where sl: "sl = A @ B @ C"
    and uf: "unite_from sl r = length A" and ut: "unite_till sl r = length (A @ B)"
    and A: "\<forall>s \<in> set A. till (srange s) < from r"
    and B: "\<forall>s \<in> set B. from r \<le> till (srange s) \<and> from (srange s) \<le> till r"
    and C: "\<forall>s \<in> set C. till r < from (srange s)"
    by (rule slices_split3 [OF ok r])
  note fit = slices_ok_replace [OF ok [unfolded sl] A C]
  show thesis
  proof (cases B)
    case Nil
    let ?s = "\<lparr>messages = flat_merge [] msgs, srange = r\<rparr>"
    have s: "slice_ok ?s" "span ?s = covered B \<union> {from r .. till r}"
      using r ms Nil by (auto simp: slice_ok_def span_def)
    have "slices_ok (A @ C)" using ok sl Nil by simp
    then have "slices_emplace (A @ C) ?s = (A @ ?s # C, ?s)"
      by (rule slices_emplace_between) (simp_all add: s A C)
    moreover have "unite_from (A @ C) r = unite_till (A @ C) r" using uf ut sl Nil by simp
    ultimately have "uniteOrInsert sl msgs r = Some (A @ ?s # C, ?s, int (length (messages ?s)))"
      unfolding sl Nil by (simp add: uniteOrInsert_def)
    moreover have "length (messages ?s) = card (set msgs)"
      using strictly_sorted_length [of "flat_merge [] msgs"] by simp
    ultimately have "uniteOrInsert sl msgs r = Some (A @ ?s # C, ?s, int (card (set msgs)))"
      by simp
    then show thesis by (rule that [OF sl _ fit [OF s]]) (simp_all add: s(2) Nil)
  next
    case (Cons b bs)
    have okB: "slices_ok (b # bs)" using ok unfolding sl Cons slices_ok_append by blast
    obtain s1 s2 where s2: "slice_merge b msgs r = Some s1" "merge_all s1 bs = Some s2" "slice_ok s2"
        "set (messages s2) = known B \<union> set msgs" "span s2 = covered B \<union> {from r .. till r}"
      using merge_touched [OF okB r ms] B unfolding Cons by blast
    have len: "length (messages s2) = card (known B \<union> set msgs)"
      using strictly_sorted_length [OF slice_okD(1) [OF s2(3)]] s2(4) by simp
    have "uniteOrInsert sl msgs r
        = Some (A @ s2 # C, s2, int (length (messages s2)) - int (length (messages b)))"
      using Cons sl uf ut s2(1,2) by (simp add: uniteOrInsert_def uniteAndAdd_def)
    then show thesis by (rule that [OF sl _ fit [OF s2(3,5)] s2(4,5)])
      (use B in \<open>simp_all add: len Cons\<close>)
  qed
qed

subsection \<open>A partial view of the server's list\<close>

text \<open>
  The list the server holds is a set \<open>S\<close> of positions. The slices are a view of \<open>S\<close> when
  every slice holds exactly the part of \<open>S\<close> in its range.
\<close>

definition slices_view :: "'m::linorder set \<Rightarrow> 'm slice list \<Rightarrow> bool" where
  "slices_view S sl \<longleftrightarrow> slices_ok sl \<and> (\<forall>s \<in> set sl. set (messages s) = S \<inter> span s)"

lemma slices_view_Nil [simp]: "slices_view S []"
  by (simp add: slices_view_def)

lemma slices_view_ok: "slices_view S sl \<Longrightarrow> slices_ok sl"
  by (simp add: slices_view_def)

lemma slices_view_known: "slices_view S sl \<Longrightarrow> known sl = S \<inter> covered sl"
  by (auto simp: slices_view_def known_def covered_def)

lemma slice_ok_length: "slice_ok s \<Longrightarrow> length (messages s) = card (set (messages s))"
  by (simp add: slice_okD(1) strictly_sorted_length)

lemma slices_view_slice:
  assumes "slices_view S sl" "s \<in> set sl"
  shows "slice_ok s" "set (messages s) = S \<inter> span s" "length (messages s) = card (S \<inter> span s)"
  using assms slice_ok_length [of s] by (auto simp: slices_view_def slices_ok_def)

text \<open>
  The server's list may have grown inside the range (a message was added): the slices outside
  the range are still a view, and the range is reloaded.
\<close>

lemma uniteOrInsert_view:
  assumes v: "slices_view S sl" and r: "from r \<le> till r" and ms: "set msgs = S' \<inter> {from r .. till r}"
    and out: "S' - {from r .. till r} = S - {from r .. till r}" and sub: "S \<subseteq> S'"
  obtains A B C s n where "sl = A @ B @ C" "uniteOrInsert sl msgs r = Some (A @ s # C, s, n)"
    "slices_view S' (A @ s # C)" "span s = covered B \<union> {from r .. till r}"
    "n = int (card (S' \<inter> span s)) - int (case B of [] \<Rightarrow> 0 | b # _ \<Rightarrow> card (S \<inter> span b))"
    "\<forall>t \<in> set B. from r \<le> till (srange t) \<and> from (srange t) \<le> till r"
proof -
  have ms': "set msgs \<subseteq> {from r .. till r}" using ms by blast
  obtain A B C s n where u: "sl = A @ B @ C" "uniteOrInsert sl msgs r = Some (A @ s # C, s, n)"
    "slices_ok (A @ s # C)" "set (messages s) = known B \<union> set msgs"
    "span s = covered B \<union> {from r .. till r}"
    "n = int (card (known B \<union> set msgs)) - int (case B of [] \<Rightarrow> 0 | b # _ \<Rightarrow> length (messages b))"
    and meet: "\<forall>t \<in> set B. from r \<le> till (srange t) \<and> from (srange t) \<le> till r"
    by (rule uniteOrInsert_ok [OF slices_view_ok [OF v] r ms'])
  have B: "known B = S \<inter> covered B"
    using v by (auto simp: slices_view_def u(1) known_def covered_def)
  have eq: "known B \<union> set msgs = S' \<inter> span s"
    using out sub unfolding B ms u(5) by blast
  have other: "set (messages t) = S' \<inter> span t" if "t \<in> set A \<union> set C" for t
  proof -
    have "span t \<inter> span s = {}"
      using u(3) that by (fastforce simp: slices_ok_append slices_ok_Cons span_def)
    then have "S \<inter> span t = S' \<inter> span t" using out unfolding u(5) by blast
    then show ?thesis using v that by (auto simp: slices_view_def u(1))
  qed
  have "slices_view S' (A @ s # C)"
    using u(3) u(4) eq other by (auto simp: slices_view_def)
  moreover have "length (messages b) = card (S \<inter> span b)" if "b \<in> set B" for b
    using slices_view_slice(3) [OF v] that by (simp add: u(1))
  then have "n = int (card (S' \<inter> span s)) - int (case B of [] \<Rightarrow> 0 | b # _ \<Rightarrow> card (S \<inter> span b))"
    using u(6) eq by (cases B) auto
  ultimately show thesis by (rule that [OF u(1,2) _ u(5) _ meet])
qed

lemma slices_view_remove:
  assumes "slices_view S sl"
  shows "slices_view (S - {m}) (map (\<lambda>s. s\<lparr>messages := flat_remove m (messages s)\<rparr>) sl)"
proof -
  have "slice_ok (s\<lparr>messages := flat_remove m (messages s)\<rparr>)" if "slice_ok s" for s
    using that by (auto simp: slice_ok_def span_def)
  then show ?thesis using assms
    by (auto simp: slices_view_def slices_ok_def sorted_wrt_map span_def)
qed

text \<open>Looking a position up: the slice that covers it, if there is one.\<close>

definition find_slice :: "'m::linorder slice list \<Rightarrow> 'm \<Rightarrow> nat option" where
  "find_slice sl m =
     (let k = lower_bound_idx (\<lambda>s. till (srange s)) m sl in
      if k < length sl \<and> from (srange (sl ! k)) \<le> m then Some k else None)"

lemma find_slice_Some:
  assumes "slices_ok sl" "find_slice sl m = Some k"
  shows "k < length sl" "m \<in> span (sl ! k)"
proof -
  let ?P = "\<lambda>s. till (srange s) < m"
  have k: "k = length (takeWhile ?P sl)" "k < length sl" "from (srange (sl ! k)) \<le> m"
    using assms(2) by (auto simp: find_slice_def lower_bound_idx_def Let_def split: if_splits)
  then have "\<not> ?P (sl ! k)" using nth_length_takeWhile by blast
  with k show "k < length sl" "m \<in> span (sl ! k)" by (auto simp: span_def)
qed

lemma find_slice_None:
  assumes ok: "slices_ok sl" and none: "find_slice sl m = None"
  shows "m \<notin> covered sl"
proof
  assume "m \<in> covered sl"
  then obtain s where s: "s \<in> set sl" "from (srange s) \<le> m" "m \<le> till (srange s)"
    by (auto simp: covered_def span_def)
  let ?P = "\<lambda>s. till (srange s) < m"
  let ?k = "length (takeWhile ?P sl)"
  have "\<not> ?P s" using s by auto
  have tw: "takeWhile ?P sl = filter ?P sl \<and> dropWhile ?P sl = filter (\<lambda>s. \<not> ?P s) sl"
    by (rule takeWhile_filter_mono [where R = "\<lambda>a b. till (srange a) < from (srange b)"])
      (use ok in \<open>fastforce simp: slices_ok_def slice_ok_def\<close>)+
  then have sd: "s \<in> set (dropWhile ?P sl)" using s(1) \<open>\<not> ?P s\<close> by auto
  then have kl: "?k < length sl"
    by (metis drop_length_takeWhile drop_all empty_iff empty_set not_less)
  then have dk: "dropWhile ?P sl = sl ! ?k # drop (Suc ?k) sl"
    by (metis Cons_nth_drop_Suc drop_length_takeWhile)
  have "from (srange (sl ! ?k)) \<le> m"
  proof (cases "s = sl ! ?k")
    case False
    then have "s \<in> set (drop (Suc ?k) sl)" using sd dk by auto
    moreover have "slices_ok (dropWhile ?P sl)"
      using ok by (metis slices_ok_append takeWhile_dropWhile_id)
    ultimately have "till (srange (sl ! ?k)) < from (srange s)" "slice_ok (sl ! ?k)"
      using dk by (auto simp: slices_ok_Cons)
    then show ?thesis using s(2) slice_okD(2) by (meson less_imp_le order_trans)
  qed (use s in simp)
  then show False using none kl by (simp add: find_slice_def lower_bound_idx_def)
qed

subsection \<open>A window of a slice\<close>

record 'm ids_query =
  aroundId :: 'm
  limitBefore :: int
  limitAfter :: int

record 'm ids_result =
  res_count :: "int option"
  skippedBefore :: "int option"
  skippedAfter :: "int option"
  messageIds :: "'m list"

definition empty_result :: "'m ids_result" where
  "empty_result = \<lparr>res_count = None, skippedBefore = None, skippedAfter = None, messageIds = []\<rparr>"

text \<open>
  \<open>queryFromSlice\<close>, with \<open>lo\<close> and \<open>hi\<close> the ends of the full range (\<open>0\<close> and
  \<open>ServerMaxMsgId\<close> in one class, \<open>MinMessagePosition\<close> and \<open>MaxMessagePosition\<close> in the
  other). \<open>ids\<close> is the subrange \<open>[position - before, position + equalOrAfter)\<close>.
\<close>

definition queryFromSlice ::
    "'m \<Rightarrow> 'm \<Rightarrow> int option \<Rightarrow> 'm::linorder ids_query \<Rightarrow> 'm slice \<Rightarrow> 'm ids_result" where
  "queryFromSlice lo hi count q s =
     (let position = lower_bound_idx (\<lambda>m. m) (aroundId q) (messages s);
          haveBefore = int position;
          haveEqualOrAfter = int (length (messages s)) - int position;
          before = min haveBefore (limitBefore q);
          equalOrAfter = min haveEqualOrAfter (limitAfter q + 1);
          ids = take (nat (before + equalOrAfter)) (drop (nat (haveBefore - before)) (messages s));
          ms = flat_merge [] ids;
          sb = (if from (srange s) = lo then Some (haveBefore - before) else None);
          sa = (if till (srange s) = hi then Some (haveEqualOrAfter - equalOrAfter) else None)
      in case count of
           None \<Rightarrow> \<lparr>res_count = None, skippedBefore = sb, skippedAfter = sa, messageIds = ms\<rparr>
         | Some c \<Rightarrow>
             (case (sb, sa) of
                (None, Some a) \<Rightarrow> \<lparr>res_count = count, skippedBefore = Some (c - a - int (length ms)),
                                  skippedAfter = sa, messageIds = ms\<rparr>
              | (Some b, None) \<Rightarrow> \<lparr>res_count = count, skippedBefore = sb,
                                  skippedAfter = Some (c - b - int (length ms)), messageIds = ms\<rparr>
              | _ \<Rightarrow> \<lparr>res_count = count, skippedBefore = sb, skippedAfter = sa, messageIds = ms\<rparr>))"

text \<open>
  What a window around \<open>a\<close> promises of the server's list \<open>S\<close>: it holds messages of \<open>S\<close> with
  none left out between one of them and \<open>a\<close>, and the two counters say how many
  messages of \<open>S\<close> lie before and after the window.
\<close>

definition window_of :: "'m::linorder set \<Rightarrow> 'm \<Rightarrow> 'm ids_result \<Rightarrow> bool" where
  "window_of S a res \<longleftrightarrow>
     strictly_sorted (messageIds res) \<and> set (messageIds res) \<subseteq> S
     \<and> (\<forall>x \<in> set (messageIds res). \<forall>m \<in> S.
          x \<le> m \<and> m < a \<or> a \<le> m \<and> m \<le> x \<longrightarrow> m \<in> set (messageIds res))
     \<and> (\<forall>n. skippedBefore res = Some n \<longrightarrow>
          n + int (length (filter (\<lambda>m. m < a) (messageIds res))) = int (card {m \<in> S. m < a}))
     \<and> (\<forall>n. skippedAfter res = Some n \<longrightarrow>
          n + int (length (filter (\<lambda>m. a \<le> m) (messageIds res))) = int (card {m \<in> S. a \<le> m}))"

lemma strictly_sorted_split:
  assumes "strictly_sorted ms"
  shows "takeWhile (\<lambda>m. m < a) ms = filter (\<lambda>m. m < a) ms"
    "dropWhile (\<lambda>m. m < a) ms = filter (\<lambda>m. a \<le> m) ms"
  using takeWhile_filter_mono [where R = "(<)" and P = "\<lambda>m. m < a", OF assms]
  by (auto simp: not_less intro: less_trans)

lemma flat_merge_id: "strictly_sorted ms \<Longrightarrow> flat_merge [] ms = ms"
  by (rule strictly_sorted_eqI) auto

lemma sorted_wrt_take_drop: "sorted_wrt R xs \<Longrightarrow> sorted_wrt R (take k (drop j xs))"
  by (intro sorted_wrt_take sorted_wrt_drop)

lemma window_of_gap:
  assumes "window_of S a res" "x \<in> set (messageIds res)" "y \<in> set (messageIds res)"
    and "m \<in> S" "x \<le> m" "m \<le> y"
  shows "m \<in> set (messageIds res)"
proof -
  have "x \<le> m \<and> m < a \<or> a \<le> m \<and> m \<le> y" using assms(5,6) by auto
  then show ?thesis using assms(1-4) unfolding window_of_def by blast
qed

text \<open>A suffix of a strictly sorted list is closed upwards, a prefix downwards.\<close>

lemma take_less_drop:
  "strictly_sorted xs \<Longrightarrow> x \<in> set (take k xs) \<Longrightarrow> y \<in> set (drop k xs) \<Longrightarrow> x < y"
  using sorted_wrt_append [of "(<)" "take k xs" "drop k xs"] by simp

lemma in_take_or_drop: "m \<in> set xs \<Longrightarrow> m \<in> set (take k xs) \<or> m \<in> set (drop k xs)"
  using set_append [of "take k xs" "drop k xs"] by simp

lemma suffix_closed:
  assumes "strictly_sorted xs" "x \<in> set (drop k xs)" "m \<in> set xs" "x \<le> m"
  shows "m \<in> set (drop k xs)"
  using assms in_take_or_drop [of m xs k] take_less_drop [of xs m k x] by fastforce

lemma prefix_closed:
  assumes "strictly_sorted xs" "x \<in> set (take k xs)" "m \<in> set xs" "m \<le> x"
  shows "m \<in> set (take k xs)"
  using assms in_take_or_drop [of m xs k] take_less_drop [of xs x k m] by fastforce

text \<open>The list level of a window: \<open>nb\<close> elements below \<open>a\<close> and \<open>na\<close> from \<open>a\<close> on.\<close>

definition window_ids :: "'m::linorder \<Rightarrow> nat \<Rightarrow> nat \<Rightarrow> 'm list \<Rightarrow> 'm list" where
  "window_ids a nb na ms =
     (let xs = filter (\<lambda>m. m < a) ms; ys = filter (\<lambda>m. a \<le> m) ms
      in drop (length xs - nb) xs @ take na ys)"

lemma filter_split:
  assumes "strictly_sorted ms"
  shows "ms = filter (\<lambda>m. m < a) ms @ filter (\<lambda>m. a \<le> m) ms"
  using takeWhile_dropWhile_id [of "\<lambda>m. m < a" ms] by (simp only: strictly_sorted_split [OF assms])

lemma window_ids_slice:
  assumes srt: "strictly_sorted ms" and nb: "nb \<le> length (filter (\<lambda>m. m < a) ms)"
  shows "take (nb + na) (drop (length (filter (\<lambda>m. m < a) ms) - nb) ms) = window_ids a nb na ms"
proof -
  let ?xs = "filter (\<lambda>m. m < a) ms" and ?ys = "filter (\<lambda>m. a \<le> m) ms"
  have "take (nb + na) (drop (length ?xs - nb) (?xs @ ?ys)) = drop (length ?xs - nb) ?xs @ take na ?ys"
    using nb by simp
  then show ?thesis using filter_split [OF srt, of a] by (simp add: window_ids_def Let_def)
qed

lemma window_ids_props:
  assumes srt: "strictly_sorted ms" and nb: "nb \<le> length (filter (\<lambda>m. m < a) ms)"
    and na: "na \<le> length (filter (\<lambda>m. a \<le> m) ms)"
  shows "strictly_sorted (window_ids a nb na ms)" "set (window_ids a nb na ms) \<subseteq> set ms"
    "length (filter (\<lambda>m. m < a) (window_ids a nb na ms)) = nb"
    "length (filter (\<lambda>m. a \<le> m) (window_ids a nb na ms)) = na"
    "length (window_ids a nb na ms) = nb + na"
    "\<lbrakk>x \<in> set (window_ids a nb na ms); m \<in> set ms; x \<le> m \<and> m < a \<or> a \<le> m \<and> m \<le> x\<rbrakk>
       \<Longrightarrow> m \<in> set (window_ids a nb na ms)"
proof -
  define xs ys where "xs = filter (\<lambda>m. m < a) ms" and "ys = filter (\<lambda>m. a \<le> m) ms"
  let ?xs = "drop (length xs - nb) xs" and ?ys = "take na ys"
  have W: "window_ids a nb na ms = ?xs @ ?ys"
    by (simp add: window_ids_def Let_def xs_def ys_def)
  have sx: "strictly_sorted xs" and sy: "strictly_sorted ys"
    using srt by (simp_all add: xs_def ys_def sorted_wrt_filter)
  have lx: "\<forall>m \<in> set ?xs. m < a" "\<forall>m \<in> set ?xs. \<not> a \<le> m"
    and ly: "\<forall>m \<in> set ?ys. a \<le> m" "\<forall>m \<in> set ?ys. \<not> m < a"
    by (auto simp: xs_def ys_def not_less not_le dest!: in_set_takeD in_set_dropD)
  show "strictly_sorted (window_ids a nb na ms)"
    unfolding W sorted_wrt_append
    using sorted_wrt_drop [OF sx] sorted_wrt_take [OF sy] lx ly by (auto intro: less_le_trans)
  show "set (window_ids a nb na ms) \<subseteq> set ms"
    unfolding W by (auto simp: xs_def ys_def dest!: in_set_takeD in_set_dropD)
  show "length (filter (\<lambda>m. m < a) (window_ids a nb na ms)) = nb"
    unfolding W filter_append filter_True [OF lx(1)] filter_False [OF ly(2)]
    using nb by (simp add: xs_def)
  show "length (filter (\<lambda>m. a \<le> m) (window_ids a nb na ms)) = na"
    unfolding W filter_append filter_False [OF lx(2)] filter_True [OF ly(1)]
    using na by (simp add: ys_def)
  show "length (window_ids a nb na ms) = nb + na"
    unfolding W using nb na by (simp add: xs_def ys_def)
  assume x: "x \<in> set (window_ids a nb na ms)" and m: "m \<in> set ms"
    and o: "x \<le> m \<and> m < a \<or> a \<le> m \<and> m \<le> x"
  show "m \<in> set (window_ids a nb na ms)"
  proof (cases "m < a")
    case True
    then have "x \<in> set ?xs" "m \<in> set xs" "x \<le> m" using o x m ly by (auto simp: W xs_def)
    then show ?thesis using suffix_closed [OF sx] by (simp add: W)
  next
    case False
    then have "x \<in> set ?ys" "m \<in> set ys" "m \<le> x" using o x m lx by (auto simp: W ys_def)
    then show ?thesis using prefix_closed [OF sy] by (simp add: W)
  qed
qed

text \<open>The result of \<open>queryFromSlice\<close>, field by field.\<close>

lemma queryFromSlice_fields:
  fixes s :: "'m::linorder slice"
  defines "xs q \<equiv> filter (\<lambda>m. m < aroundId q) (messages s)"
    and "ys q \<equiv> filter (\<lambda>m. aroundId q \<le> m) (messages s)"
  assumes srt: "strictly_sorted (messages s)"
    and nb: "nb \<le> length (xs q)" "int nb = min (int (length (xs q))) (limitBefore q)"
    and na: "na \<le> length (ys q)" "int na = min (int (length (ys q))) (limitAfter q + 1)"
  shows "messageIds (queryFromSlice lo hi count q s) = window_ids (aroundId q) nb na (messages s)"
    "skippedBefore (queryFromSlice lo hi count q s) =
       (if from (srange s) = lo then Some (int (length (xs q)) - int nb)
        else if till (srange s) = hi then
          map_option (\<lambda>c. c - (int (length (ys q)) - int na) - int (nb + na)) count
        else None)"
    "skippedAfter (queryFromSlice lo hi count q s) =
       (if till (srange s) = hi then Some (int (length (ys q)) - int na)
        else if from (srange s) = lo then
          map_option (\<lambda>c. c - (int (length (xs q)) - int nb) - int (nb + na)) count
        else None)"
    "res_count (queryFromSlice lo hi count q s) = count"
proof -
  let ?W = "window_ids (aroundId q) nb na (messages s)"
  have pos: "lower_bound_idx (\<lambda>m. m) (aroundId q) (messages s) = length (xs q)"
    by (simp add: lower_bound_idx_def strictly_sorted_split [OF srt] xs_def)
  have "length (messages s) = length (xs q) + length (ys q)"
    using arg_cong [where f = length, OF filter_split [OF srt, of "aroundId q"]]
    by (simp add: xs_def ys_def)
  then have len: "int (length (messages s)) - int (length (xs q)) = int (length (ys q))" by simp
  have idx: "nat (int nb + int na) = nb + na" "nat (int (length (xs q)) - int nb) = length (xs q) - nb"
    using nb(1) by auto
  have ids: "take (nb + na) (drop (length (xs q) - nb) (messages s)) = ?W"
    using window_ids_slice [OF srt] nb(1) by (simp add: xs_def)
  have W: "strictly_sorted ?W" "length ?W = nb + na"
    using window_ids_props [OF srt] nb(1) na(1) by (simp_all add: xs_def ys_def)
  note unfolds = queryFromSlice_def Let_def pos nb(2) [symmetric] len na(2) [symmetric] idx ids
    flat_merge_id [OF W(1)] W(2)
  show "messageIds (queryFromSlice lo hi count q s) = ?W" unfolding unfolds
    by (cases count; cases "from (srange s) = lo"; cases "till (srange s) = hi") simp_all
  show "skippedBefore (queryFromSlice lo hi count q s) =
       (if from (srange s) = lo then Some (int (length (xs q)) - int nb)
        else if till (srange s) = hi then
          map_option (\<lambda>c. c - (int (length (ys q)) - int na) - int (nb + na)) count
        else None)" unfolding unfolds
    by (cases count; cases "from (srange s) = lo"; cases "till (srange s) = hi") simp_all
  show "skippedAfter (queryFromSlice lo hi count q s) =
       (if till (srange s) = hi then Some (int (length (ys q)) - int na)
        else if from (srange s) = lo then
          map_option (\<lambda>c. c - (int (length (xs q)) - int nb) - int (nb + na)) count
        else None)" unfolding unfolds
    by (cases count; cases "from (srange s) = lo"; cases "till (srange s) = hi") simp_all
  show "res_count (queryFromSlice lo hi count q s) = count" unfolding unfolds
    by (cases count; cases "from (srange s) = lo"; cases "till (srange s) = hi") simp_all
qed

lemma skipped_arith:
  fixes x y w p t n :: int
  assumes "(if A then Some (x - b) else if B then map_option (\<lambda>c. c - (y - a) - w) count else None)
      = Some n"
    and "A \<Longrightarrow> x = p" "B \<Longrightarrow> y = t - p" "w = b + a" "\<And>c. count = Some c \<Longrightarrow> c = t"
  shows "n + b = p"
proof (cases A)
  case True
  with assms show ?thesis by simp
next
  case False
  with assms(1) obtain c where c: "B" "count = Some c" "n = c - (y - a) - w"
    by (cases B; cases count) simp_all
  with assms(3-5) show ?thesis by simp
qed

lemma queryFromSlice_window:
  fixes S :: "'m::linorder set"
  assumes ok: "slice_ok s" and v: "set (messages s) = S \<inter> span s"
    and a: "aroundId q \<in> span s" and fin: "finite S" and S: "S \<subseteq> {lo..hi}"
    and lim: "0 \<le> limitBefore q" "0 \<le> limitAfter q"
    and count: "\<forall>c. count = Some c \<longrightarrow> c = int (card S)"
  shows "window_of S (aroundId q) (queryFromSlice lo hi count q s)"
proof -
  let ?a = "aroundId q" and ?ms = "messages s"
  let ?xs = "filter (\<lambda>m. m < ?a) ?ms" and ?ys = "filter (\<lambda>m. ?a \<le> m) ?ms"
  define nb na where "nb = nat (min (int (length ?xs)) (limitBefore q))"
    and "na = nat (min (int (length ?ys)) (limitAfter q + 1))"
  have n: "nb \<le> length ?xs" "int nb = min (int (length ?xs)) (limitBefore q)"
    "na \<le> length ?ys" "int na = min (int (length ?ys)) (limitAfter q + 1)"
    using lim by (auto simp: nb_def na_def)
  have srt: "strictly_sorted ?ms" using ok by (rule slice_okD)
  note F = queryFromSlice_fields [OF srt n] and P = window_ids_props [OF srt n(1,3)]
  have cxs: "length ?xs = card {m \<in> S \<inter> span s. m < ?a}"
    and cys: "length ?ys = card {m \<in> S \<inter> span s. ?a \<le> m}"
    using strictly_sorted_length [OF sorted_wrt_filter [OF srt]] by (simp_all only: set_filter v)
  have below: "length ?xs = card {m \<in> S. m < ?a}" if "from (srange s) = lo"
    unfolding cxs by (rule arg_cong [where f = card]) (use S a that in \<open>force simp: span_def\<close>)
  have above: "length ?ys = card {m \<in> S. ?a \<le> m}" if "till (srange s) = hi"
    unfolding cys by (rule arg_cong [where f = card]) (use S a that in \<open>force simp: span_def\<close>)
  have total: "card S = card {m \<in> S. m < ?a} + card {m \<in> S. ?a \<le> m}"
    using fin by (subst card_Un_disjoint [symmetric]) (auto intro: arg_cong [where f = card])
  have near: "m \<in> set (window_ids ?a nb na ?ms)"
    if "x \<in> set (window_ids ?a nb na ?ms)" "m \<in> S" "x \<le> m \<and> m < ?a \<or> ?a \<le> m \<and> m \<le> x" for x m
  proof (rule P(6) [OF that(1) _ that(3)])
    have "x \<in> span s" using that(1) P(2) v by blast
    then show "m \<in> set ?ms" using that(2,3) v a by (auto simp: span_def)
  qed
  have sub: "set (window_ids ?a nb na ?ms) \<subseteq> S" using P(2) v by blast
  have sb: "n + int nb = int (card {m \<in> S. m < ?a})"
    if "skippedBefore (queryFromSlice lo hi count q s) = Some n" for n
    by (rule skipped_arith [OF that [unfolded F(2)]]) (use below above total count in simp_all)
  have sa: "n + int na = int (card {m \<in> S. ?a \<le> m})"
    if "skippedAfter (queryFromSlice lo hi count q s) = Some n" for n
    by (rule skipped_arith [OF that [unfolded F(3)]]) (use below above total count in simp_all)
  show ?thesis
    unfolding window_of_def F(1) P(3,4)
  proof (intro conjI ballI allI impI)
    show "strictly_sorted (window_ids ?a nb na ?ms)" "set (window_ids ?a nb na ?ms) \<subseteq> S"
      by (fact P(1) sub)+
  qed (fact near sb sa)+
qed

subsection \<open>Counting a new message\<close>

text \<open>
  The count the code computes for a new message: \<open>uniteAndAdd\<close> compares with the size of the
  first united slice only, which is exact when the further ones hold no message.
\<close>

lemma added_one:
  assumes fin: "finite S" and x: "x \<in> R" "S \<inter> R = {}" and rest: "S \<inter> covered (tl B) = {}"
  shows "int (card (insert x S \<inter> (covered B \<union> R)))
     - int (case B of [] \<Rightarrow> 0 | b # _ \<Rightarrow> card (S \<inter> span b)) = 1"
proof -
  have eq: "insert x S \<inter> (covered B \<union> R) = insert x (S \<inter> covered B)" and "x \<notin> S"
    using x by auto
  moreover have "card (S \<inter> covered B) = (case B of [] \<Rightarrow> 0 | b # _ \<Rightarrow> card (S \<inter> span b))"
    using rest by (cases B) (auto simp: Int_Un_distrib)
  ultimately show ?thesis using fin by simp
qed

text \<open>Of the slices that meet a range from \<open>x\<close> on, only the first can hold messages below \<open>x\<close>.\<close>

lemma united_rest:
  assumes "slices_ok B" "\<forall>t \<in> set B. x \<le> till (srange t)" "m \<in> covered (tl B)"
  shows "x < m"
proof (cases B)
  case Nil
  then show ?thesis using assms(3) by simp
next
  case (Cons b bs)
  then obtain t where t: "t \<in> set bs" "from (srange t) \<le> m"
    using assms(3) by (auto simp: covered_def span_def)
  then have "x \<le> till (srange b)" "till (srange b) < from (srange t)"
    using assms(1,2) Cons by (auto simp: slices_ok_Cons)
  then show ?thesis using t(2) by order
qed

lemma added_newest:
  assumes "slices_ok B" "\<forall>t \<in> set B. x \<le> till (srange t)"
    and "\<forall>m \<in> S. m < x" "finite S" "x \<in> R" "R \<subseteq> {x..}"
  shows "int (card (insert x S \<inter> (covered B \<union> R)))
     - int (case B of [] \<Rightarrow> 0 | b # _ \<Rightarrow> card (S \<inter> span b)) = 1"
  by (rule added_one) (use assms united_rest [OF assms(1,2)] in fastforce)+

subsection \<open>Removing a message, forgetting the end\<close>

text \<open>Removing a message changes at most the slice that covers it.\<close>

lemma removeOne_slices:
  assumes ok: "slices_ok sl"
  shows "(case find_slice sl m of
       Some k \<Rightarrow> sl[k := (sl ! k)\<lparr>messages := flat_remove m (messages (sl ! k))\<rparr>]
     | None \<Rightarrow> sl) = map (\<lambda>s. s\<lparr>messages := flat_remove m (messages s)\<rparr>) sl" (is "?L = ?R")
proof -
  have notin: "s\<lparr>messages := flat_remove m (messages s)\<rparr> = s" if "m \<notin> set (messages s)" for s
    using that by (cases s) (auto simp: flat_remove_def intro!: filter_True)
  show ?thesis
  proof (cases "find_slice sl m")
    case None
    then have "m \<notin> known sl"
      using find_slice_None [OF ok] ok by (auto simp: known_def covered_def slices_ok_def slice_ok_def)
    then have "map (\<lambda>s. s\<lparr>messages := flat_remove m (messages s)\<rparr>) sl = sl"
      using notin by (intro map_idI) (auto simp: known_def)
    then show ?thesis using None by simp
  next
    case (Some k)
    note k = find_slice_Some [OF ok Some]
    have "m \<notin> set (messages (sl ! i))" if i: "i < length sl" "i \<noteq> k" for i
    proof -
      have "span (sl ! i) \<inter> span (sl ! k) = {}"
        using ok k(1) i sorted_wrt_nth_less [of _ sl i k] sorted_wrt_nth_less [of _ sl k i]
        by (cases "i < k") (fastforce simp: slices_ok_def span_def)+
      then show ?thesis using k(2) slices_ok_slice [OF ok nth_mem [OF i(1)]] by (auto simp: slice_ok_def)
    qed
    then show ?thesis using Some k(1) notin
      by (auto simp: nth_list_update intro!: nth_equalityI notin [symmetric])
  qed
qed

text \<open>\<open>invalidateBottom\<close> forgets that the last slice reaches the newest message.\<close>

definition cut_bottom :: "'m \<Rightarrow> 'm slice list \<Rightarrow> 'm slice list" where
  "cut_bottom hi sl =
     (if sl \<noteq> [] \<and> till (srange (last sl)) = hi
      then butlast sl @ [(last sl)\<lparr>srange := (srange (last sl))
             \<lparr>till := (if messages (last sl) = [] then from (srange (last sl))
                       else last (messages (last sl)))\<rparr>\<rparr>]
      else sl)"

lemma cut_bottom_view:
  assumes v: "slices_view S sl"
  shows "slices_view S (cut_bottom hi sl) \<and> covered (cut_bottom hi sl) \<subseteq> covered sl"
proof (cases "sl \<noteq> [] \<and> till (srange (last sl)) = hi")
  case False
  then show ?thesis using v by (auto simp: cut_bottom_def)
next
  case True
  let ?b = "butlast sl" and ?s = "last sl"
  let ?t = "if messages ?s = [] then from (srange ?s) else last (messages ?s)"
  let ?s' = "?s\<lparr>srange := (srange ?s)\<lparr>till := ?t\<rparr>\<rparr>"
  have sl: "sl = ?b @ [?s]" using True by simp
  have s: "slice_ok ?s" "set (messages ?s) = S \<inter> span ?s" using slices_view_slice [OF v] True by auto
  have t: "from (srange ?s) \<le> ?t" "?t \<le> till (srange ?s)" "\<forall>m \<in> set (messages ?s). m \<le> ?t"
    using slice_okD(2,4) [OF s(1)] strictly_sorted_last_ge [OF slice_okD(1) [OF s(1)]] by auto
  have sub: "span ?s' \<subseteq> span ?s" using t(2) by (auto simp: span_def)
  have "set (messages ?s') \<subseteq> span ?s'" using t(3) slice_okD(4) [OF s(1)] by (auto simp: span_def)
  then have "slice_ok ?s'" "set (messages ?s') = S \<inter> span ?s'"
    using s t(1) sub slice_okD(1) by (auto simp: slice_ok_def)
  moreover have "slices_ok (?b @ [?s])" "\<forall>u \<in> set ?b. set (messages u) = S \<inter> span u"
    using v sl by (auto simp: slices_view_def dest: in_set_butlastD)
  ultimately have "slices_view S (?b @ [?s'])"
    by (auto simp: slices_view_def slices_ok_append slices_ok_Cons)
  moreover have "covered (?b @ [?s']) \<subseteq> covered sl" by (subst (3) sl) (use sub in auto)
  ultimately show ?thesis using True by (simp add: cut_bottom_def)
qed

end
