(* ===== verification/Server_View.thy ===== *)
theory Server_View
  imports Slices
begin

text \<open>
  The contract between a cached list and the server whose list it mirrors. A cache offers
  operations that may fail an assertion (\<open>None\<close>); each operation reports something about the
  server's list, which is legal when the report is true. The law is that a legal operation
  succeeds and leaves the cache a view of the server's new list. \<open>Storage::SparseIdsList\<close> and
  \<open>Data::MessagesList\<close> are its two instances.
\<close>

fun run_ops :: "('op \<Rightarrow> 'st \<Rightarrow> 'st option) \<Rightarrow> 'op list \<Rightarrow> 'st \<Rightarrow> 'st option" where
  "run_ops step [] st = Some st"
| "run_ops step (oper # ops) st = Option.bind (step oper st) (run_ops step ops)"

fun run_server :: "('op \<Rightarrow> 's \<Rightarrow> 's) \<Rightarrow> 'op list \<Rightarrow> 's \<Rightarrow> 's" where
  "run_server server [] S = S"
| "run_server server (oper # ops) S = run_server server ops (server oper S)"

fun legal_run :: "('op \<Rightarrow> 's \<Rightarrow> bool) \<Rightarrow> ('op \<Rightarrow> 's \<Rightarrow> 's) \<Rightarrow> 'op list \<Rightarrow> 's \<Rightarrow> bool" where
  "legal_run legal server [] S \<longleftrightarrow> True"
| "legal_run legal server (oper # ops) S \<longleftrightarrow>
     legal oper S \<and> legal_run legal server ops (server oper S)"

locale server_view =
  fixes step :: "'op \<Rightarrow> 'st \<Rightarrow> 'st option"
    and server :: "'op \<Rightarrow> 'm::linorder set \<Rightarrow> 'm set"
    and legal :: "'op \<Rightarrow> 'm set \<Rightarrow> bool"
    and view :: "'m set \<Rightarrow> 'st \<Rightarrow> bool"
    and peek :: "'st \<Rightarrow> 'm ids_query \<Rightarrow> 'm ids_result"
  assumes step_view:
      "view S st \<Longrightarrow> legal oper S \<Longrightarrow> \<exists>st'. step oper st = Some st' \<and> view (server oper S) st'"
    and peek_window:
      "view S st \<Longrightarrow> 0 \<le> limitBefore q \<Longrightarrow> 0 \<le> limitAfter q
        \<Longrightarrow> window_of S (aroundId q) (peek st q)"
begin

lemma run_view:
  "view S st \<Longrightarrow> legal_run legal server ops S
     \<Longrightarrow> \<exists>st'. run_ops step ops st = Some st' \<and> view (run_server server ops S) st'"
proof (induction ops arbitrary: S st)
  case Nil
  then show ?case by simp
next
  case (Cons oper ops)
  then obtain st1 where "step oper st = Some st1" "view (server oper S) st1"
    using step_view by fastforce
  with Cons show ?case by fastforce
qed

lemma run_peek:
  assumes "view S st" "legal_run legal server ops S" "0 \<le> limitBefore q" "0 \<le> limitAfter q"
  shows "\<exists>st'. run_ops step ops st = Some st'
     \<and> window_of (run_server server ops S) (aroundId q) (peek st' q)"
  using run_view [OF assms(1,2)] peek_window [OF _ assms(3,4)] by blast

end

end
