(* ===== verification/Message_Ids.thy ===== *)
theory Message_Ids
  imports Prelude
begin

unbundle bit_operations_syntax

text \<open>
  Message and peer identifiers (\<open>data/data_msg_id.h\<close>, \<open>data/data_peer_id.{h,cpp}\<close>).
  \<open>MsgId\<close> wraps an \<open>int64\<close>: the constants below stay inside that range, so it is an \<open>int\<close>.
  Negative ids are cut into blocks for client-side messages, stories and special positions.
  \<open>PeerId\<close> is a \<open>uint64\<close> with the kind of the peer in bits 48 to 55: it is a \<open>64 word\<close>.
  A failed \<open>Expects\<close> is \<open>None\<close>.
\<close>

subsection \<open>Message ids\<close>

type_synonym MsgId = int
type_synonym StoryId = int

definition StartClientMsgId :: MsgId where "StartClientMsgId = 1 - 2 ^ 58"
definition ClientMsgIds :: int where "ClientMsgIds = 2 ^ 31"
definition EndClientMsgId :: MsgId where "EndClientMsgId = StartClientMsgId + ClientMsgIds"
definition StartStoryMsgId :: MsgId where "StartStoryMsgId = EndClientMsgId + 1"
definition ServerMaxStoryId :: StoryId where "ServerMaxStoryId = 2 ^ 30"
definition StoryMsgIds :: int where "StoryMsgIds = ServerMaxStoryId"
definition EndStoryMsgId :: MsgId where "EndStoryMsgId = StartStoryMsgId + StoryMsgIds"
definition ServerMaxMsgId :: MsgId where "ServerMaxMsgId = 2 ^ 56"
definition ScheduledMaxMsgId :: MsgId where "ScheduledMaxMsgId = ServerMaxMsgId + 2 ^ 32"
definition ShortcutMaxMsgId :: MsgId where "ShortcutMaxMsgId = ScheduledMaxMsgId + 2 ^ 32"
definition ShowAtUnreadMsgId :: MsgId where "ShowAtUnreadMsgId = 0"
definition SpecialMsgIdShift :: int where "SpecialMsgIdShift = EndStoryMsgId"
definition ShowAtTheEndMsgId :: MsgId where "ShowAtTheEndMsgId = SpecialMsgIdShift + 1"
definition SwitchAtTopMsgId :: MsgId where "SwitchAtTopMsgId = SpecialMsgIdShift + 2"
definition ShowAndStartBotMsgId :: MsgId where "ShowAndStartBotMsgId = SpecialMsgIdShift + 4"
definition ShowAndMaybeStartBotMsgId :: MsgId where
  "ShowAndMaybeStartBotMsgId = SpecialMsgIdShift + 5"
definition ShowForChooseMessagesMsgId :: MsgId where
  "ShowForChooseMessagesMsgId = SpecialMsgIdShift + 6"

lemmas msg_id_consts = StartClientMsgId_def ClientMsgIds_def EndClientMsgId_def
  StartStoryMsgId_def ServerMaxStoryId_def StoryMsgIds_def EndStoryMsgId_def ServerMaxMsgId_def
  ScheduledMaxMsgId_def ShortcutMaxMsgId_def ShowAtUnreadMsgId_def SpecialMsgIdShift_def
  ShowAtTheEndMsgId_def SwitchAtTopMsgId_def ShowAndStartBotMsgId_def
  ShowAndMaybeStartBotMsgId_def ShowForChooseMessagesMsgId_def

definition IsClientMsgId :: "MsgId \<Rightarrow> bool" where
  "IsClientMsgId i \<longleftrightarrow> StartClientMsgId \<le> i \<and> i < EndClientMsgId"

definition ClientMsgIndex :: "MsgId \<Rightarrow> int option" where
  "ClientMsgIndex i = (if IsClientMsgId i then Some (i - StartClientMsgId) else None)"

definition ClientMsgByIndex :: "int \<Rightarrow> MsgId option" where
  "ClientMsgByIndex index = (if 0 \<le> index then Some (StartClientMsgId + index) else None)"

definition IsStoryMsgId :: "MsgId \<Rightarrow> bool" where
  "IsStoryMsgId i \<longleftrightarrow> StartStoryMsgId \<le> i \<and> i < EndStoryMsgId"

definition StoryIdFromMsgId :: "MsgId \<Rightarrow> StoryId option" where
  "StoryIdFromMsgId i = (if IsStoryMsgId i then Some (i - StartStoryMsgId) else None)"

definition StoryIdToMsgId :: "StoryId \<Rightarrow> MsgId option" where
  "StoryIdToMsgId i = (if 0 \<le> i then Some (StartStoryMsgId + i) else None)"

definition IsServerMsgId :: "MsgId \<Rightarrow> bool" where
  "IsServerMsgId i \<longleftrightarrow> 0 < i \<and> i < ServerMaxMsgId"

lemma ServerMaxMsgId_pos: "0 \<le> ServerMaxMsgId"
  by (simp add: ServerMaxMsgId_def)

text \<open>A block of message ids numbered from its start, as client messages and stories are.\<close>

locale id_block =
  fixes is_id :: "MsgId \<Rightarrow> bool"
    and to_index :: "MsgId \<Rightarrow> int option"
    and from_index :: "int \<Rightarrow> MsgId option"
    and start size :: int
  assumes is_id: "is_id i \<longleftrightarrow> start \<le> i \<and> i < start + size"
    and to_index: "to_index i = (if is_id i then Some (i - start) else None)"
    and from_index: "from_index n = (if 0 \<le> n then Some (start + n) else None)"
    and size: "size \<le> 2 ^ 31"
begin

lemma index_roundtrip:
  assumes "is_id i"
  shows "\<exists>n. to_index i = Some n \<and> 0 \<le> n \<and> n < 2 ^ 31 \<and> from_index n = Some i"
  using assms size by (auto simp: is_id to_index from_index)

lemma id_roundtrip:
  assumes "0 \<le> n" "n < size"
  shows "\<exists>i. from_index n = Some i \<and> is_id i \<and> to_index i = Some n"
  using assms by (auto simp: is_id to_index from_index)

end

interpretation client: id_block IsClientMsgId ClientMsgIndex ClientMsgByIndex
    StartClientMsgId ClientMsgIds
  by unfold_locales
    (auto simp: IsClientMsgId_def ClientMsgIndex_def ClientMsgByIndex_def msg_id_consts)

interpretation story: id_block IsStoryMsgId StoryIdFromMsgId StoryIdToMsgId
    StartStoryMsgId StoryMsgIds
  by unfold_locales
    (auto simp: IsStoryMsgId_def StoryIdFromMsgId_def StoryIdToMsgId_def msg_id_consts)

text \<open>
  Client message ids and story ids convert to 32-bit indices and back without loss: every
  client (story) message id has an index that fits a non-negative \<open>int32\<close> and gives the id
  back, and every index in the block gives an id of the block that gives the index back.
\<close>

theorem msg_id_blocks_roundtrip:
  "(IsClientMsgId i \<longrightarrow> (\<exists>n. ClientMsgIndex i = Some n \<and> 0 \<le> n \<and> n < 2 ^ 31
       \<and> ClientMsgByIndex n = Some i))
   \<and> (IsStoryMsgId i \<longrightarrow> (\<exists>n. StoryIdFromMsgId i = Some n \<and> 0 \<le> n \<and> n < 2 ^ 31
       \<and> StoryIdToMsgId n = Some i))
   \<and> (0 \<le> k \<and> k < ClientMsgIds \<longrightarrow> (\<exists>j. ClientMsgByIndex k = Some j \<and> IsClientMsgId j
       \<and> ClientMsgIndex j = Some k))
   \<and> (0 \<le> k \<and> k < StoryMsgIds \<longrightarrow> (\<exists>j. StoryIdToMsgId k = Some j \<and> IsStoryMsgId j
       \<and> StoryIdFromMsgId j = Some k))"
  by (intro conjI impI client.index_roundtrip story.index_roundtrip client.id_roundtrip
      story.id_roundtrip) simp_all

theorem msg_id_blocks_roundtrip_witness:
  "IsClientMsgId (1 - 2 ^ 58) \<and> (\<exists>n. ClientMsgIndex (1 - 2 ^ 58) = Some n \<and> n < 2 ^ 31)"
proof -
  have c: "IsClientMsgId (1 - 2 ^ 58)" by (simp add: IsClientMsgId_def msg_id_consts)
  then show ?thesis using msg_id_blocks_roundtrip [of "1 - 2 ^ 58" 0] by blast
qed

text \<open>
  The meanings of a message id never overlap: an id is at most one of a server message, a
  client message and a story, the special positions (\<open>ShowAtTheEndMsgId\<close> and the others) and
  \<open>ShowAtUnreadMsgId\<close> are none of them, and the negation of a server id is none of them either.
\<close>

theorem msg_id_kinds_disjoint:
  "length (filter (\<lambda>p. p i) [IsServerMsgId, IsClientMsgId, IsStoryMsgId,
       (\<lambda>j. j \<in> {ShowAtTheEndMsgId, SwitchAtTopMsgId, ShowAndStartBotMsgId,
           ShowAndMaybeStartBotMsgId, ShowForChooseMessagesMsgId, ShowAtUnreadMsgId}),
       (\<lambda>j. IsServerMsgId (- j))]) \<le> 1"
  by (auto simp: IsServerMsgId_def IsClientMsgId_def IsStoryMsgId_def msg_id_consts)

subsection \<open>Peer ids\<close>

type_synonym BareId = "64 word"

text \<open>\<open>ChatIdType<Shift>\<close>: the four instantiations \<open>UserId\<close>, \<open>ChatId\<close>, \<open>ChannelId\<close>, \<open>FakeChatId\<close>.\<close>

datatype chat_kind = UserId | ChatId | ChannelId | FakeChatId

fun kShift :: "chat_kind \<Rightarrow> BareId" where
  "kShift UserId = 0"
| "kShift ChatId = 1"
| "kShift ChannelId = 2"
| "kShift FakeChatId = 0x7F"

definition kReservedBit :: BareId where "kReservedBit = 0x80"

definition kChatTypeMask :: BareId where "kChatTypeMask = 0xFFFFFFFFFFFF"

definition PeerId_of :: "chat_kind \<Rightarrow> BareId \<Rightarrow> BareId" where
  "PeerId_of k bare = bare OR push_bit 48 (kShift k)"

definition peer_is :: "chat_kind \<Rightarrow> BareId \<Rightarrow> bool" where
  "peer_is k value \<longleftrightarrow> drop_bit 48 value AND 0xFF = kShift k"

definition peer_to :: "chat_kind \<Rightarrow> BareId \<Rightarrow> BareId" where
  "peer_to k value = (if peer_is k value then value AND kChatTypeMask else 0)"

definition peerToBareMTPInt :: "BareId \<Rightarrow> BareId" where
  "peerToBareMTPInt value = value AND kChatTypeMask"

text \<open>The constructors of \<open>Peer\<close> in the API scheme.\<close>

datatype MTPpeer = peerUser BareId | peerChat BareId | peerChannel BareId

fun peerFromMTP :: "MTPpeer \<Rightarrow> BareId" where
  "peerFromMTP (peerUser i) = PeerId_of UserId i"
| "peerFromMTP (peerChat i) = PeerId_of ChatId i"
| "peerFromMTP (peerChannel i) = PeerId_of ChannelId i"

definition peerToMTP :: "BareId \<Rightarrow> MTPpeer" where
  "peerToMTP i =
     (if peer_is UserId i then peerUser (peerToBareMTPInt i)
      else if peer_is ChatId i then peerChat (peerToBareMTPInt i)
      else if peer_is ChannelId i then peerChannel (peerToBareMTPInt i)
      else peerUser 0)"

definition DeserializePeerId :: "64 word \<Rightarrow> BareId" where
  "DeserializePeerId serialized =
     (let flag = push_bit 48 kReservedBit;
          legacy = (serialized AND push_bit 48 kReservedBit = 0);
          PeerIdMask = 0xFFFFFFFF; PeerIdTypeMask = 0xF00000000;
          PeerIdUserShift = 0x000000000; PeerIdChatShift = 0x100000000;
          PeerIdChannelShift = 0x200000000; PeerIdFakeShift = 0xF00000000
      in if \<not> legacy then serialized AND NOT flag
         else if serialized AND PeerIdTypeMask = PeerIdUserShift
           then PeerId_of UserId (serialized AND PeerIdMask)
         else if serialized AND PeerIdTypeMask = PeerIdChatShift
           then PeerId_of ChatId (serialized AND PeerIdMask)
         else if serialized AND PeerIdTypeMask = PeerIdChannelShift
           then PeerId_of ChannelId (serialized AND PeerIdMask)
         else if serialized AND PeerIdTypeMask = PeerIdFakeShift
           then PeerId_of FakeChatId (serialized AND PeerIdMask)
         else 0)"

definition SerializePeerId :: "BareId \<Rightarrow> 64 word option" where
  "SerializePeerId i =
     (if i AND push_bit 48 kReservedBit = 0 then Some (i OR push_bit 48 kReservedBit) else None)"

lemma kChatTypeMask_mask: "x AND kChatTypeMask = take_bit 48 x"
  by (simp add: kChatTypeMask_def take_bit_eq_mask mask_eq_exp_minus_1)

lemma low_byte_mask: "(x :: BareId) AND 0xFF = take_bit 8 x"
  by (simp add: take_bit_eq_mask mask_eq_exp_minus_1)

lemma bare_id_bits:
  assumes "bare < 2 ^ 48"
  shows "take_bit 48 (bare :: BareId) = bare" "drop_bit 48 bare = 0"
proof -
  have "uint bare < 2 ^ 48" using assms by (simp add: word_less_def)
  then have "uint (take_bit 48 bare) = uint bare"
    by (simp add: unsigned_take_bit_eq take_bit_int_eq_self)
  then show "take_bit 48 bare = bare" by (simp add: word_uint_eq_iff)
  then show "drop_bit 48 bare = 0"
    by (metis drop_bit_take_bit take_bit_0 diff_self_eq_0)
qed

lemma peer_is_PeerId_of:
  assumes "bare < 2 ^ 48"
  shows "peer_is k' (PeerId_of k bare) \<longleftrightarrow> k' = k"
  using bare_id_bits [OF assms]
  by (cases k; cases k') (simp_all add: peer_is_def PeerId_of_def drop_bit_or)

lemma peerToBare_PeerId_of:
  assumes "bare < 2 ^ 48"
  shows "peerToBareMTPInt (PeerId_of k bare) = bare"
  using bare_id_bits [OF assms]
  by (cases k) (simp_all add: peerToBareMTPInt_def kChatTypeMask_mask PeerId_of_def take_bit_or)

text \<open>
  A peer id built from a user, chat, channel or fake-chat id below \<open>2^48\<close> is recognised as
  exactly that kind, gives the bare id back for it and 0 for every other kind.
\<close>

theorem peer_id_roundtrip:
  assumes "bare < 2 ^ 48"
  shows "(peer_is k' (PeerId_of k bare) \<longleftrightarrow> k' = k)
    \<and> peer_to k' (PeerId_of k bare) = (if k' = k then bare else 0)"
  using peer_is_PeerId_of [OF assms] peerToBare_PeerId_of [OF assms]
  by (auto simp: peer_to_def peerToBareMTPInt_def)

theorem peer_id_roundtrip_witness:
  "(12345 :: BareId) < 2 ^ 48 \<and> peer_to ChannelId (PeerId_of ChannelId 12345) = 12345
   \<and> peer_to UserId (PeerId_of ChannelId 12345) = 0"
proof -
  have b: "(12345 :: BareId) < 2 ^ 48" by simp
  show ?thesis using b peer_id_roundtrip [OF b] by simp
qed

text \<open>
  Peers convert to the API scheme and back: for bare ids below \<open>2^48\<close>, \<open>peerToMTP\<close> inverts
  \<open>peerFromMTP\<close>, and a peer id that is no user, chat or channel becomes \<open>peerUser 0\<close>.
\<close>

theorem peer_mtp_roundtrip:
  "(bare < 2 ^ 48 \<longrightarrow> peerToMTP (peerFromMTP (peerUser bare)) = peerUser bare
     \<and> peerToMTP (peerFromMTP (peerChat bare)) = peerChat bare
     \<and> peerToMTP (peerFromMTP (peerChannel bare)) = peerChannel bare
     \<and> peerToMTP (PeerId_of FakeChatId bare) = peerUser 0)"
  by (simp add: peerToMTP_def peer_is_PeerId_of peerToBare_PeerId_of)

theorem peer_mtp_roundtrip_witness:
  "(77 :: BareId) < 2 ^ 48 \<and> peerToMTP (peerFromMTP (peerChat 77)) = peerChat 77"
  using peer_mtp_roundtrip [of 77] by simp

text \<open>
  Serialized peer ids round trip: a peer id with the reserved bit clear serializes, the
  result has the reserved bit set (so it is never read as a legacy value), and deserializing
  gives the peer id back.
\<close>

theorem serialize_peer_roundtrip:
  assumes "i AND push_bit 48 kReservedBit = 0"
  shows "\<exists>s. SerializePeerId i = Some s \<and> s AND push_bit 48 kReservedBit \<noteq> 0
    \<and> DeserializePeerId s = i"
proof -
  let ?f = "push_bit 48 kReservedBit"
  have f: "?f \<noteq> 0" by (simp add: kReservedBit_def)
  have "(i OR ?f) AND ?f = ?f" by (simp add: bit.conj_disj_distrib2)
  moreover have "\<not> (bit i n \<and> bit ?f n)" for n
    using assms by (metis bit_and_iff bit_0_eq bot_apply bot_bool_def)
  then have "(i OR ?f) AND NOT ?f = i"
    by (intro bit_word_eqI) (auto simp: bit_and_iff bit_or_iff bit_not_iff)
  ultimately show ?thesis using assms f by (simp add: SerializePeerId_def DeserializePeerId_def Let_def)
qed

theorem serialize_peer_roundtrip_witness:
  "(0x2000000000007 :: BareId) AND push_bit 48 kReservedBit = 0
   \<and> (\<exists>s. SerializePeerId 0x2000000000007 = Some s \<and> DeserializePeerId s = 0x2000000000007)"
proof -
  have z: "(0x2000000000007 :: BareId) AND push_bit 48 kReservedBit = 0"
    by (simp add: kReservedBit_def)
  then show ?thesis using serialize_peer_roundtrip [OF z] by blast
qed

text \<open>
  Legacy serializations still decode: for a 32-bit id the old layout, with the kind in bits
  32 to 35 and no reserved bit, gives the peer id of the same kind and the same bare id.
\<close>

theorem deserialize_legacy:
  assumes "bare < 2 ^ 32"
  shows "DeserializePeerId bare = PeerId_of UserId bare
    \<and> DeserializePeerId (0x100000000 OR bare) = PeerId_of ChatId bare
    \<and> DeserializePeerId (0x200000000 OR bare) = PeerId_of ChannelId bare
    \<and> DeserializePeerId (0xF00000000 OR bare) = PeerId_of FakeChatId bare"
proof -
  have "uint bare < 2 ^ 32" using assms by (simp add: word_less_def)
  then have "uint (take_bit 32 bare) = uint bare"
    by (simp add: unsigned_take_bit_eq take_bit_int_eq_self)
  then have m: "bare AND 0xFFFFFFFF = bare"
    by (simp add: word_uint_eq_iff take_bit_eq_mask mask_eq_exp_minus_1)
  have z: "bare AND c = 0" if "0xFFFFFFFF AND c = 0" for c
  proof -
    have "bare AND c = (bare AND 0xFFFFFFFF) AND c" by (simp only: m)
    also have "\<dots> = bare AND (0xFFFFFFFF AND c)" by (rule and.assoc)
    finally show ?thesis by (simp add: that)
  qed
  note simps = DeserializePeerId_def Let_def kReservedBit_def bit.conj_disj_distrib2 m z
  show ?thesis by (simp add: simps)
qed

theorem deserialize_legacy_witness:
  "(7 :: BareId) < 2 ^ 32 \<and> DeserializePeerId (0x200000000 OR 7) = PeerId_of ChannelId 7"
  using deserialize_legacy [of 7] by simp

end
