(* ===== verification/Sparse_Ids.thy ===== *)
theory Sparse_Ids
  imports Server_View Message_Ids
begin

text \<open>
  \<open>Storage::SparseIdsList\<close> (\<open>storage/storage_sparse_ids_list.{h,cpp}\<close>): the message ids of
  one shared-media list of a chat, loaded in slices. State: the optional total count and the
  slices. The \<open>_sliceUpdated\<close> event stream is the update returned by \<open>addRange\<close>; a failed
  \<open>Expects\<close> is \<open>None\<close>. \<open>MsgId\<close> wraps an \<open>int64\<close> that is only compared here, so it is an
  \<open>int\<close>; \<open>_count\<close> is an \<open>int\<close> whose overflow is undefined behaviour.
\<close>

record sparse_ids =
  si_count :: "int option"
  si_slices :: "MsgId slice list"

definition full_msg_range :: "MsgId mrange" where
  "full_msg_range = \<lparr>from = 0, till = ServerMaxMsgId\<rparr>"

definition sparse_init :: sparse_ids where
  "sparse_init = \<lparr>si_count = None, si_slices = []\<rparr>"

definition addRangeItemsAndCountNew ::
    "MsgId slice list \<Rightarrow> MsgId list \<Rightarrow> MsgId mrange
      \<Rightarrow> (MsgId slice list \<times> MsgId slice option \<times> int) option" where
  "addRangeItemsAndCountNew sl msgs r =
     (if \<not> from r \<le> till r then None
      else if from r = till r \<and> msgs = [] then Some (sl, None, 0)
      else map_option (\<lambda>(sl', s, n). (sl', Some s, n)) (uniteOrInsert sl msgs r))"

text \<open>
  The part of \<open>addRange\<close> for a single slice. \<open>messages.size()\<close> is unsigned, so the test
  against a negative count fails.
\<close>

definition single_slice_fix ::
    "MsgId slice list \<Rightarrow> int option \<Rightarrow> MsgId slice list \<times> int option" where
  "single_slice_fix sl count =
     (case sl of
        [s] \<Rightarrow>
          (let s' = (case count of
                       Some c \<Rightarrow> if 0 \<le> c \<and> c \<le> int (length (messages s))
                                 then s\<lparr>srange := full_msg_range\<rparr> else s
                     | None \<Rightarrow> s)
           in ([s'], if srange s' = full_msg_range then Some (int (length (messages s'))) else count))
      | _ \<Rightarrow> (sl, count))"

definition addRange ::
    "sparse_ids \<Rightarrow> MsgId list \<Rightarrow> MsgId mrange \<Rightarrow> int option \<Rightarrow> bool
      \<Rightarrow> (sparse_ids \<times> MsgId slice_update) option" where
  "addRange st msgs noSkipRange count incrementCount =
     (if count \<noteq> None \<and> incrementCount then None
      else case addRangeItemsAndCountNew (si_slices st) msgs noSkipRange of
        None \<Rightarrow> None
      | Some (sl', upd, added) \<Rightarrow>
          (let count1 = (case count of
                 Some c \<Rightarrow> Some c
               | None \<Rightarrow> (case si_count st of
                     Some c \<Rightarrow> if incrementCount \<and> added > 0 then Some (c + added) else Some c
                   | None \<Rightarrow> None));
               (sl2, count2) = single_slice_fix sl' count1;
               count3 = (case (count2, upd) of
                   (Some c, Some s) \<Rightarrow> Some (max c (int (length (messages s))))
                 | _ \<Rightarrow> count2)
           in Some (\<lparr>si_count = count3, si_slices = sl2\<rparr>,
                    \<lparr>upd_messages = map_option messages upd,
                     upd_range = (case upd of Some s \<Rightarrow> srange s | None \<Rightarrow> \<lparr>from = 0, till = 0\<rparr>),
                     upd_count = count3\<rparr>)))"

definition addNew :: "sparse_ids \<Rightarrow> MsgId \<Rightarrow> (sparse_ids \<times> MsgId slice_update) option" where
  "addNew st messageId =
     addRange st [messageId] \<lparr>from = messageId, till = ServerMaxMsgId\<rparr> None True"

definition addExisting ::
    "sparse_ids \<Rightarrow> MsgId \<Rightarrow> MsgId mrange \<Rightarrow> (sparse_ids \<times> MsgId slice_update) option" where
  "addExisting st messageId noSkipRange = addRange st [messageId] noSkipRange None False"

definition addSlice ::
    "sparse_ids \<Rightarrow> MsgId list \<Rightarrow> MsgId mrange \<Rightarrow> int option
      \<Rightarrow> (sparse_ids \<times> MsgId slice_update) option" where
  "addSlice st ids noSkipRange count = addRange st ids noSkipRange count False"

definition removeOne :: "sparse_ids \<Rightarrow> MsgId \<Rightarrow> sparse_ids" where
  "removeOne st messageId =
     st\<lparr>si_slices := (case find_slice (si_slices st) messageId of
          Some k \<Rightarrow> (si_slices st)[k := (si_slices st ! k)
             \<lparr>messages := flat_remove messageId (messages (si_slices st ! k))\<rparr>]
        | None \<Rightarrow> si_slices st),
        si_count := map_option (\<lambda>c. c - 1) (si_count st)\<rparr>"

definition removeAll :: "sparse_ids \<Rightarrow> sparse_ids" where
  "removeAll st = \<lparr>si_count = Some 0, si_slices = [\<lparr>messages = [], srange = full_msg_range\<rparr>]\<rparr>"

definition invalidateBottom :: "sparse_ids \<Rightarrow> sparse_ids" where
  "invalidateBottom st =
     \<lparr>si_count = None, si_slices = cut_bottom ServerMaxMsgId (si_slices st)\<rparr>"

definition snapshot :: "sparse_ids \<Rightarrow> MsgId ids_query \<Rightarrow> MsgId ids_result" where
  "snapshot st q =
     (case (if aroundId q \<noteq> 0 then find_slice (si_slices st) (aroundId q) else None) of
        Some k \<Rightarrow> queryFromSlice 0 ServerMaxMsgId (si_count st) q (si_slices st ! k)
      | None \<Rightarrow> (case si_count st of
            Some c \<Rightarrow> empty_result\<lparr>res_count := Some c\<rparr>
          | None \<Rightarrow> empty_result))"

text \<open>\<open>query\<close> emits at most one result and then completes: the list of emitted values.\<close>

definition query :: "sparse_ids \<Rightarrow> MsgId ids_query \<Rightarrow> MsgId ids_result list" where
  "query st q =
     (let now = snapshot st q in
      if messageIds now \<noteq> [] \<or> res_count now \<noteq> None then [now] else [])"

definition sparse_empty :: "sparse_ids \<Rightarrow> bool" where
  "sparse_empty st \<longleftrightarrow> (\<forall>s \<in> set (si_slices st). messages s = [])"

subsection \<open>The list as a view of the server's list\<close>

definition sparse_view :: "MsgId set \<Rightarrow> sparse_ids \<Rightarrow> bool" where
  "sparse_view S st \<longleftrightarrow> finite S \<and> S \<subseteq> {0..ServerMaxMsgId} \<and> slices_view S (si_slices st)
     \<and> covered (si_slices st) \<subseteq> {0..ServerMaxMsgId}
     \<and> (\<forall>c. si_count st = Some c \<longrightarrow> c = int (card S))"

lemma sparse_viewD:
  assumes "sparse_view S st"
  shows "finite S" "S \<subseteq> {0..ServerMaxMsgId}" "slices_view S (si_slices st)"
    "slices_ok (si_slices st)" "covered (si_slices st) \<subseteq> {0..ServerMaxMsgId}"
    "si_count st = Some c \<Longrightarrow> c = int (card S)"
  using assms by (auto simp: sparse_view_def slices_view_def)

lemma sparse_view_init: "finite S \<Longrightarrow> S \<subseteq> {0..ServerMaxMsgId} \<Longrightarrow> sparse_view S sparse_init"
  by (simp add: sparse_view_def sparse_init_def)

text \<open>Widening the only slice to the full range is sound: its messages are then all of \<open>S\<close>.\<close>

lemma single_slice_fix_view:
  assumes S: "finite S" "S \<subseteq> {0..ServerMaxMsgId}" and v: "slices_view S sl"
    and cov: "covered sl \<subseteq> {0..ServerMaxMsgId}" and c: "\<forall>c. count = Some c \<longrightarrow> c = int (card S)"
    and eq: "single_slice_fix sl count = (sl2, count2)"
  shows "slices_view S sl2 \<and> covered sl2 \<subseteq> {0..ServerMaxMsgId}
     \<and> (\<forall>c. count2 = Some c \<longrightarrow> c = int (card S)) \<and> covered sl \<subseteq> covered sl2"
proof -
  have full: "set (messages s) = S" if s: "sl = [s]" "count = Some c" "c \<le> int (length (messages s))" for s c
  proof -
    have "s \<in> set sl" using s(1) by simp
    then have sub: "set (messages s) \<subseteq> S" and len: "length (messages s) = card (set (messages s))"
      using slices_view_slice(1,2) [OF v] slice_ok_length by blast+
    have "card (set (messages s)) = card S"
      using c s(2,3) len card_mono [OF S(1) sub] by fastforce
    then show ?thesis by (rule card_subset_eq [OF S(1) sub])
  qed
  have one: "set (messages s) = S \<and> length (messages s) = card S"
    if "sl = [s]" "srange s = full_msg_range" for s
    using slices_view_slice [OF v, of s] that S(2)
    by (simp add: span_def full_msg_range_def Int_absorb2)
  have widen: "slices_view S [s\<lparr>srange := full_msg_range\<rparr>] \<and> length (messages s) = card S"
    if "sl = [s]" "set (messages s) = S" for s
    using slices_view_slice(1) [OF v, of s] slice_ok_length that S ServerMaxMsgId_pos
    by (auto simp: slices_view_def slices_ok_def slice_ok_def span_def full_msg_range_def)
  consider (other) "\<nexists>s. sl = [s]" | (single) s where "sl = [s]" by blast
  then show ?thesis
  proof cases
    case other
    then have "sl2 = sl" "count2 = count"
      using eq by (auto simp: single_slice_fix_def split: list.splits)
    then show ?thesis
      using v cov c by simp
  next
    case single
    show ?thesis
    proof (cases "\<exists>c. count = Some c \<and> 0 \<le> c \<and> c \<le> int (length (messages s))")
      case True
      then have "sl2 = [s\<lparr>srange := full_msg_range\<rparr>]" "count2 = Some (int (length (messages s)))"
        "set (messages s) = S"
        using eq single full by (auto simp: single_slice_fix_def)
      then show ?thesis using widen [OF single] single cov
        by (simp add: span_def full_msg_range_def)
    next
      case False
      then have "sl2 = [s]" "count2 = (if srange s = full_msg_range
          then Some (int (length (messages s))) else count)"
        using eq single by (auto simp: single_slice_fix_def split: option.splits if_splits)
      then show ?thesis using v cov c one [OF single] single by auto
    qed
  qed
qed

text \<open>
  Adding a range of the server's list, which may have grown inside the range. The count is
  given by the caller, kept, or incremented by what was added.
\<close>

definition next_count :: "sparse_ids \<Rightarrow> int option \<Rightarrow> bool \<Rightarrow> int \<Rightarrow> int option" where
  "next_count st count incrementCount added = (case count of
       Some c \<Rightarrow> Some c
     | None \<Rightarrow> (case si_count st of
           Some c \<Rightarrow> if incrementCount \<and> added > 0 then Some (c + added) else Some c
         | None \<Rightarrow> None))"

lemma addRange_core:
  assumes S: "finite S" "S \<subseteq> {0..ServerMaxMsgId}"
    and items: "addRangeItemsAndCountNew (si_slices st) msgs r = Some (sl', upd, added)"
    and v: "slices_view S sl'" "covered sl' \<subseteq> {0..ServerMaxMsgId}"
    and upd: "\<forall>s. upd = Some s \<longrightarrow> s \<in> set sl'"
    and inc: "count = None \<or> \<not> inc"
    and cnt: "\<forall>c. next_count st count inc added = Some c \<longrightarrow> c = int (card S)"
  shows "\<exists>st' u. addRange st msgs r count inc = Some (st', u) \<and> sparse_view S st'
    \<and> covered sl' \<subseteq> covered (si_slices st')"
proof -
  obtain sl2 count2 where fx: "single_slice_fix sl' (next_count st count inc added) = (sl2, count2)"
    by force
  note F = single_slice_fix_view [OF S v cnt fx]
  define count3 where "count3 = (case (count2, upd) of
      (Some c, Some s) \<Rightarrow> Some (max c (int (length (messages s)))) | _ \<Rightarrow> count2)"
  have "int (length (messages s)) \<le> int (card S)" if "upd = Some s" for s
    using slices_view_slice [OF v(1)] upd that S(1) by (auto intro: card_mono)
  then have c3: "\<forall>c. count3 = Some c \<longrightarrow> c = int (card S)"
    using F by (auto simp: count3_def split: option.splits)
  have "\<exists>u. addRange st msgs r count inc = Some (\<lparr>si_count = count3, si_slices = sl2\<rparr>, u)"
    using inc items fx unfolding next_count_def
    by (auto simp: addRange_def count3_def Let_def)
  then show ?thesis using F c3 S by (auto simp: sparse_view_def)
qed

lemma addRange_view:
  assumes v: "sparse_view S st"
    and r: "from r \<le> till r" "{from r .. till r} \<subseteq> {0..ServerMaxMsgId}"
    and S': "finite S'" "S' \<subseteq> {0..ServerMaxMsgId}" "S \<subseteq> S'"
      "S' - {from r .. till r} = S - {from r .. till r}"
    and ms: "set msgs = S' \<inter> {from r .. till r}"
    and ne: "from r < till r \<or> msgs \<noteq> []"
    and inc: "count = None \<or> \<not> inc"
    and cnt: "\<forall>c. count = Some c \<longrightarrow> c = int (card S')"
    and grown: "count = None \<Longrightarrow> S' = S \<or> inc \<and> S' = insert (from r) S \<and> (\<forall>m \<in> S. m < from r)"
    and same: "inc \<Longrightarrow> S' \<noteq> S"
  shows "\<exists>st' u. addRange st msgs r count inc = Some (st', u) \<and> sparse_view S' st'
    \<and> covered (si_slices st) \<union> {from r .. till r} \<subseteq> covered (si_slices st')"
proof -
  note D = sparse_viewD [OF v]
  obtain A B C s n where u: "si_slices st = A @ B @ C"
      "uniteOrInsert (si_slices st) msgs r = Some (A @ s # C, s, n)" "slices_view S' (A @ s # C)"
      "span s = covered B \<union> {from r .. till r}"
      "n = int (card (S' \<inter> span s)) - int (case B of [] \<Rightarrow> 0 | b # _ \<Rightarrow> card (S \<inter> span b))"
      "\<forall>t \<in> set B. from r \<le> till (srange t) \<and> from (srange t) \<le> till r"
    by (rule uniteOrInsert_view [OF D(3) r(1) ms S'(4,3)])
  have items: "addRangeItemsAndCountNew (si_slices st) msgs r = Some (A @ s # C, Some s, n)"
    using r(1) ne u(2) by (auto simp: addRangeItemsAndCountNew_def)
  have cov: "covered (A @ s # C) = covered (si_slices st) \<union> {from r .. till r}"
    by (auto simp: u(1,4))
  have n: "n = 1" if "S' = insert (from r) S" "\<forall>m \<in> S. m < from r"
    unfolding u(5,4) that(1)
    by (rule added_newest) (use D(1,4) u(1,6) r(1) that(2) in \<open>auto simp: slices_ok_append\<close>)
  have "next_count st count inc n = Some c \<Longrightarrow> c = int (card S')" for c
    using cnt grown same n D(1,6)
    by (cases "S' = S") (auto simp: next_count_def split: option.splits if_splits)
  then have "\<forall>c. next_count st count inc n = Some c \<longrightarrow> c = int (card S')" by blast
  from addRange_core [OF S'(1,2) items u(3) _ _ inc this, unfolded cov] D(5) r(2)
  show ?thesis by simp
qed

lemma removeOne_view:
  assumes v: "sparse_view S st" and m: "m \<in> S \<or> si_count st = None"
  shows "sparse_view (S - {m}) (removeOne st m)"
proof -
  note D = sparse_viewD [OF v]
  have cov: "covered (map (\<lambda>s. s\<lparr>messages := flat_remove m (messages s)\<rparr>) sl) = covered sl" for sl
    by (simp add: covered_def span_def)
  have "card (S - {m}) = card S - 1 \<and> 0 < card S" if "m \<in> S"
    using that D(1) by (auto simp: card_gt_0_iff)
  then show ?thesis
    using D m slices_view_remove [OF D(3)]
    by (auto simp: sparse_view_def removeOne_def removeOne_slices [OF D(4)] cov)
qed

lemma invalidateBottom_view: "sparse_view S st \<Longrightarrow> sparse_view S (invalidateBottom st)"
  using cut_bottom_view [of S "si_slices st" ServerMaxMsgId]
  by (auto simp: sparse_view_def invalidateBottom_def)

lemma removeAll_view: "sparse_view {} (removeAll st)"
  by (simp add: sparse_view_def removeAll_def slices_view_def slices_ok_def slice_ok_def
      span_def full_msg_range_def ServerMaxMsgId_pos)

lemma snapshot_window:
  assumes v: "sparse_view S st" and lim: "0 \<le> limitBefore q" "0 \<le> limitAfter q"
  shows "window_of S (aroundId q) (snapshot st q)"
proof -
  note D = sparse_viewD [OF v]
  have none: "window_of S (aroundId q) r" if "skippedBefore r = None" "skippedAfter r = None"
      "messageIds r = []" for r
    using that by (simp add: window_of_def)
  show ?thesis
  proof (cases "if aroundId q \<noteq> 0 then find_slice (si_slices st) (aroundId q) else None")
    case None
    then show ?thesis by (auto simp: snapshot_def none empty_result_def split: option.splits)
  next
    case (Some k)
    then have f: "find_slice (si_slices st) (aroundId q) = Some k" by (auto split: if_splits)
    note k = find_slice_Some [OF D(4) f]
    have "window_of S (aroundId q)
        (queryFromSlice 0 ServerMaxMsgId (si_count st) q (si_slices st ! k))"
      by (rule queryFromSlice_window)
        (use slices_view_slice [OF D(3) nth_mem [OF k(1)]] k(2) D(1,2,6) lim in auto)
    then show ?thesis using Some by (simp add: snapshot_def)
  qed
qed

subsection \<open>Runs of operations against the server\<close>

datatype sparse_op =
    AddNew MsgId
  | AddExisting MsgId "MsgId mrange"
  | AddSlice "MsgId list" "MsgId mrange" "int option"
  | RemoveOne MsgId
  | RemoveAll
  | InvalidateBottom

fun sparse_step :: "sparse_op \<Rightarrow> sparse_ids \<Rightarrow> sparse_ids option" where
  "sparse_step (AddNew m) st = map_option fst (addNew st m)"
| "sparse_step (AddExisting m r) st = map_option fst (addExisting st m r)"
| "sparse_step (AddSlice ids r c) st = map_option fst (addSlice st ids r c)"
| "sparse_step (RemoveOne m) st = Some (removeOne st m)"
| "sparse_step RemoveAll st = Some (removeAll st)"
| "sparse_step InvalidateBottom st = Some (invalidateBottom st)"

text \<open>What an operation reports of the server's list: how the list changed, and that the report is true.\<close>

fun sparse_server :: "sparse_op \<Rightarrow> MsgId set \<Rightarrow> MsgId set" where
  "sparse_server (AddNew m) S = insert m S"
| "sparse_server (RemoveOne m) S = S - {m}"
| "sparse_server RemoveAll S = {}"
| "sparse_server _ S = S"

definition valid_range :: "MsgId mrange \<Rightarrow> bool" where
  "valid_range r \<longleftrightarrow> 0 \<le> from r \<and> from r \<le> till r \<and> till r \<le> ServerMaxMsgId"

fun sparse_legal :: "sparse_op \<Rightarrow> MsgId set \<Rightarrow> bool" where
  "sparse_legal (AddNew m) S \<longleftrightarrow> 0 \<le> m \<and> m \<le> ServerMaxMsgId \<and> (\<forall>x \<in> S. x < m)"
| "sparse_legal (AddExisting m r) S \<longleftrightarrow> valid_range r \<and> S \<inter> {from r .. till r} = {m}"
| "sparse_legal (AddSlice ids r c) S \<longleftrightarrow> valid_range r \<and> set ids = S \<inter> {from r .. till r}
     \<and> (case c of None \<Rightarrow> True | Some n \<Rightarrow> n = int (card S))"
| "sparse_legal (RemoveOne m) S \<longleftrightarrow> m \<in> S"
| "sparse_legal RemoveAll S \<longleftrightarrow> True"
| "sparse_legal InvalidateBottom S \<longleftrightarrow> True"

lemma addSlice_view:
  assumes v: "sparse_view S st" and legal: "sparse_legal (AddSlice ids r c) S"
  shows "\<exists>st' u. addSlice st ids r c = Some (st', u) \<and> sparse_view S st'"
proof (cases "from r < till r \<or> ids \<noteq> []")
  case True
  have "\<exists>st' u. addRange st ids r c False = Some (st', u) \<and> sparse_view S st'
      \<and> covered (si_slices st) \<union> {from r .. till r} \<subseteq> covered (si_slices st')"
    by (rule addRange_view [OF v]) (use True legal sparse_viewD [OF v] in
        \<open>auto simp: valid_range_def split: option.splits\<close>)
  then show ?thesis by (auto simp: addSlice_def)
next
  case False
  then have items: "addRangeItemsAndCountNew (si_slices st) ids r = Some (si_slices st, None, 0)"
    using legal by (auto simp: addRangeItemsAndCountNew_def valid_range_def)
  have "\<exists>st' u. addRange st ids r c False = Some (st', u) \<and> sparse_view S st'
      \<and> covered (si_slices st) \<subseteq> covered (si_slices st')"
    by (rule addRange_core [OF _ _ items]) (use legal sparse_viewD [OF v] in
        \<open>auto simp: next_count_def split: option.splits\<close>)
  then show ?thesis by (auto simp: addSlice_def)
qed

lemma addNew_view:
  assumes v: "sparse_view S st" and legal: "sparse_legal (AddNew m) S"
  shows "\<exists>st' u. addNew st m = Some (st', u) \<and> sparse_view (insert m S) st'
    \<and> {m..ServerMaxMsgId} \<subseteq> covered (si_slices st')"
proof -
  let ?r = "\<lparr>from = m, till = ServerMaxMsgId\<rparr>"
  have "\<exists>st' u. addRange st [m] ?r None True = Some (st', u) \<and> sparse_view (insert m S) st'
      \<and> covered (si_slices st) \<union> {from ?r .. till ?r} \<subseteq> covered (si_slices st')"
    by (rule addRange_view [OF v]) (use legal sparse_viewD [OF v] in force)+
  then show ?thesis by (auto simp: addNew_def)
qed

lemma addExisting_view:
  assumes v: "sparse_view S st" and legal: "sparse_legal (AddExisting m r) S"
  shows "\<exists>st' u. addExisting st m r = Some (st', u) \<and> sparse_view S st'"
proof -
  have "\<exists>st' u. addRange st [m] r None False = Some (st', u) \<and> sparse_view S st'
      \<and> covered (si_slices st) \<union> {from r .. till r} \<subseteq> covered (si_slices st')"
    by (rule addRange_view [OF v]) (use legal sparse_viewD [OF v] in \<open>auto simp: valid_range_def\<close>)
  then show ?thesis by (auto simp: addExisting_def)
qed

lemma sparse_step_view:
  assumes "sparse_view S st" "sparse_legal oper S"
  shows "\<exists>st'. sparse_step oper st = Some st' \<and> sparse_view (sparse_server oper S) st'"
proof (cases oper)
  case (AddNew m)
  with assms addNew_view show ?thesis by fastforce
next
  case (AddExisting m r)
  with assms addExisting_view show ?thesis by fastforce
next
  case (AddSlice ids r c)
  with assms addSlice_view show ?thesis by fastforce
next
  case (RemoveOne m)
  with assms removeOne_view show ?thesis by simp
qed (use assms removeAll_view invalidateBottom_view in simp_all)

interpretation sparse: server_view sparse_step sparse_server sparse_legal sparse_view snapshot
  by unfold_locales (simp_all add: sparse_step_view snapshot_window)

text \<open>
  C3. Whatever sequence of new messages, loaded slices, removals and invalidations a
  \<open>SparseIdsList\<close> receives, as long as each is a true report about the server's list at that
  moment, no assertion fails and every later \<open>snapshot\<close> is a true window of the server's list:
  its ids are server ids with none left out between them, and whenever \<open>skippedBefore\<close> or
  \<open>skippedAfter\<close> is given it is the exact number of server messages before or after the window.
\<close>

theorem sparse_snapshot_correct:
  assumes "finite S" "S \<subseteq> {0..ServerMaxMsgId}"
    and "legal_run sparse_legal sparse_server ops S"
    and "0 \<le> limitBefore q" "0 \<le> limitAfter q"
  shows "\<exists>st. run_ops sparse_step ops sparse_init = Some st
     \<and> window_of (run_server sparse_server ops S) (aroundId q) (snapshot st q)"
  using sparse.run_peek [OF sparse_view_init [OF assms(1,2)] assms(3-5)] .

definition example_query :: "MsgId ids_query" where
  "example_query = \<lparr>aroundId = 5, limitBefore = 1, limitAfter = 1\<rparr>"

definition example_ops :: "sparse_op list" where
  "example_ops = [AddSlice [3, 5] \<lparr>from = 2, till = 6\<rparr> (Some 3), AddNew 7, RemoveOne 3]"

theorem sparse_snapshot_correct_witness:
  "legal_run sparse_legal sparse_server example_ops {1, 3, 5}
   \<and> (\<exists>st. run_ops sparse_step example_ops sparse_init = Some st
      \<and> window_of {1, 5, 7} 5 (snapshot st example_query)
      \<and> messageIds (snapshot st example_query) = [5])"
proof -
  let ?S = "{1, 3, 5} :: MsgId set"
  have l: "legal_run sparse_legal sparse_server example_ops ?S"
    by (simp add: example_ops_def valid_range_def ServerMaxMsgId_def)
  have fin: "run_server sparse_server example_ops ?S = {1, 5, 7}"
    by (auto simp: example_ops_def)
  have "\<exists>st. run_ops sparse_step example_ops sparse_init = Some st
      \<and> window_of (run_server sparse_server example_ops ?S) (aroundId example_query)
          (snapshot st example_query)"
    by (rule sparse_snapshot_correct [OF _ _ l]) (simp_all add: example_query_def ServerMaxMsgId_def)
  then obtain st where st: "run_ops sparse_step example_ops sparse_init = Some st"
      "window_of {1, 5, 7} 5 (snapshot st example_query)"
    unfolding fin by (auto simp: example_query_def)
  have "map_option (\<lambda>st. messageIds (snapshot st example_query))
      (run_ops sparse_step example_ops sparse_init) = Some [5]"
    by code_simp
  with st l show ?thesis by auto
qed

end
