(* ===== verification/Messages_List.thy ===== *)
theory Messages_List
  imports Server_View Message_Ids
begin

text \<open>
  \<open>Data::MessagesList\<close> (\<open>data/data_messages.{h,cpp}\<close>): the loaded slices of a list of
  messages ordered by date. A position is a date with a full message id; positions are compared
  by date, then peer, then message. The slice operations are those of \<open>Slices\<close>, the ends of
  the full range are \<open>MinMessagePosition\<close> and \<open>MaxMessagePosition\<close>. The event stream
  \<open>_sliceUpdated\<close> is the update an operation returns (\<open>None\<close> inside: nothing is fired); a
  failed \<open>Expects\<close> is \<open>None\<close>.
\<close>

subsection \<open>Positions\<close>

datatype FullMsgId = FullMsgId (full_peer: BareId) (full_msg: MsgId)

datatype MessagePosition = MessagePosition (pos_id: FullMsgId) (pos_date: int)

definition FullMsgId_before :: "FullMsgId \<Rightarrow> FullMsgId \<Rightarrow> bool" where
  "FullMsgId_before a b \<longleftrightarrow> full_peer a < full_peer b
     \<or> full_peer a = full_peer b \<and> full_msg a < full_msg b"

definition FullMsgId_upto :: "FullMsgId \<Rightarrow> FullMsgId \<Rightarrow> bool" where
  "FullMsgId_upto a b \<longleftrightarrow> full_peer a < full_peer b
     \<or> full_peer a = full_peer b \<and> full_msg a \<le> full_msg b"

instantiation FullMsgId :: linorder
begin

definition less_FullMsgId :: "FullMsgId \<Rightarrow> FullMsgId \<Rightarrow> bool" where
  "less_FullMsgId = FullMsgId_before"

definition less_eq_FullMsgId :: "FullMsgId \<Rightarrow> FullMsgId \<Rightarrow> bool" where
  "less_eq_FullMsgId = FullMsgId_upto"

instance
  by standard (auto simp: less_FullMsgId_def less_eq_FullMsgId_def FullMsgId_before_def FullMsgId_upto_def
      FullMsgId.expand)

end

text \<open>\<open>operator<\<close> of a position, and \<open>a <= b\<close> as \<open>!(b < a)\<close>.\<close>

definition MessagePosition_before :: "MessagePosition \<Rightarrow> MessagePosition \<Rightarrow> bool" where
  "MessagePosition_before a b =
     (if pos_date a < pos_date b then True
      else if pos_date b < pos_date a then False
      else pos_id a < pos_id b)"

definition MessagePosition_upto :: "MessagePosition \<Rightarrow> MessagePosition \<Rightarrow> bool" where
  "MessagePosition_upto a b \<longleftrightarrow> \<not> MessagePosition_before b a"

instantiation MessagePosition :: linorder
begin

definition less_MessagePosition :: "MessagePosition \<Rightarrow> MessagePosition \<Rightarrow> bool" where
  "less_MessagePosition = MessagePosition_before"

definition less_eq_MessagePosition :: "MessagePosition \<Rightarrow> MessagePosition \<Rightarrow> bool" where
  "less_eq_MessagePosition = MessagePosition_upto"

instance
  by standard (auto simp: less_MessagePosition_def less_eq_MessagePosition_def MessagePosition_before_def
      MessagePosition_upto_def MessagePosition.expand split: if_splits)

end

lemmas position_order_defs = less_MessagePosition_def less_eq_MessagePosition_def MessagePosition_before_def
  MessagePosition_upto_def

definition position_valid :: "MessagePosition \<Rightarrow> bool" where
  "position_valid p \<longleftrightarrow> full_msg (pos_id p) \<noteq> 0"

definition MinMessagePosition :: MessagePosition where
  "MinMessagePosition = MessagePosition (FullMsgId 0 1) 0"

definition MaxMessagePosition :: MessagePosition where
  "MaxMessagePosition = MessagePosition (FullMsgId 0 (ServerMaxMsgId - 1)) (2 ^ 31 - 1)"

definition FullMessagesRange :: "MessagePosition mrange" where
  "FullMessagesRange = \<lparr>from = MinMessagePosition, till = MaxMessagePosition\<rparr>"

definition no_position :: MessagePosition where
  "no_position = MessagePosition (FullMsgId 0 0) 0"

subsection \<open>The list\<close>

record messages_list =
  ml_count :: "int option"
  ml_slices :: "MessagePosition slice list"

definition ml_init :: messages_list where
  "ml_init = \<lparr>ml_count = None, ml_slices = []\<rparr>"

definition addRangeItemsAndCountNew ::
    "MessagePosition slice list \<Rightarrow> MessagePosition list \<Rightarrow> MessagePosition mrange
      \<Rightarrow> (MessagePosition slice list \<times> MessagePosition slice \<times> int) option" where
  "addRangeItemsAndCountNew sl msgs noSkipRange =
     (if \<not> from noSkipRange \<le> till noSkipRange then None else uniteOrInsert sl msgs noSkipRange)"

definition addRange ::
    "messages_list \<Rightarrow> MessagePosition list \<Rightarrow> MessagePosition mrange \<Rightarrow> int option \<Rightarrow> bool
      \<Rightarrow> (messages_list \<times> MessagePosition slice_update) option" where
  "addRange st msgs noSkipRange count incrementCount =
     (if count \<noteq> None \<and> incrementCount then None
      else case addRangeItemsAndCountNew (ml_slices st) msgs noSkipRange of
        None \<Rightarrow> None
      | Some (sl', upd, added) \<Rightarrow>
          (let count1 = (case count of
                 Some c \<Rightarrow> Some c
               | None \<Rightarrow> (case ml_count st of
                     Some c \<Rightarrow> if incrementCount \<and> added > 0 then Some (c + added) else Some c
                   | None \<Rightarrow> None));
               count2 = (case sl' of
                   [s] \<Rightarrow> if srange s = FullMessagesRange then Some (int (length (messages s)))
                          else count1
                 | _ \<Rightarrow> count1)
           in Some (\<lparr>ml_count = count2, ml_slices = sl'\<rparr>,
                    \<lparr>upd_messages = Some (messages upd), upd_range = srange upd, upd_count = count2\<rparr>)))"

definition addOne ::
    "messages_list \<Rightarrow> MessagePosition \<Rightarrow> (messages_list \<times> MessagePosition slice_update) option" where
  "addOne st messageId = addRange st [messageId] \<lparr>from = messageId, till = messageId\<rparr> None True"

definition addNew ::
    "messages_list \<Rightarrow> MessagePosition \<Rightarrow> (messages_list \<times> MessagePosition slice_update) option" where
  "addNew st messageId =
     addRange st [messageId] \<lparr>from = messageId, till = MaxMessagePosition\<rparr> None True"

definition addSlice ::
    "messages_list \<Rightarrow> MessagePosition list \<Rightarrow> MessagePosition mrange \<Rightarrow> int option
      \<Rightarrow> (messages_list \<times> MessagePosition slice_update) option" where
  "addSlice st ids noSkipRange count = addRange st ids noSkipRange count False"

definition removeOne ::
    "messages_list \<Rightarrow> MessagePosition \<Rightarrow> messages_list \<times> MessagePosition slice_update option" where
  "removeOne st messageId =
     (let count = map_option (\<lambda>c. c - 1) (ml_count st)
      in case find_slice (ml_slices st) messageId of
           Some k \<Rightarrow>
             (let s = (ml_slices st ! k)\<lparr>messages := flat_remove messageId (messages (ml_slices st ! k))\<rparr>
              in (\<lparr>ml_count = count, ml_slices = (ml_slices st)[k := s]\<rparr>,
                  Some \<lparr>upd_messages = Some (messages s), upd_range = srange s, upd_count = count\<rparr>))
         | None \<Rightarrow> (st\<lparr>ml_count := count\<rparr>, None))"

text \<open>The loop of \<open>removeLessThan\<close>: the slices left and the number of messages removed.\<close>

fun drop_less_than ::
    "MessagePosition \<Rightarrow> MessagePosition slice list \<Rightarrow> MessagePosition slice list \<times> int" where
  "drop_less_than m [] = ([], 0)"
| "drop_less_than m (s # sl) =
     (if till (srange s) \<le> m
      then let (sl', removed) = drop_less_than m sl in (sl', int (length (messages s)) + removed)
      else if from (srange s) \<le> m
      then let k = lower_bound_idx (\<lambda>x. x) m (messages s)
           in (\<lparr>messages = drop k (messages s),
                srange = (srange s)\<lparr>from := MinMessagePosition\<rparr>\<rparr> # sl, int k)
      else (s # sl, 0))"

definition removeLessThan :: "messages_list \<Rightarrow> MessagePosition \<Rightarrow> messages_list" where
  "removeLessThan st messageId =
     (let (sl, removed) = drop_less_than messageId (ml_slices st)
      in \<lparr>ml_count = (if removed \<noteq> 0 then map_option (\<lambda>c. c - removed) (ml_count st) else ml_count st),
          ml_slices = sl\<rparr>)"

definition invalidate :: "messages_list \<Rightarrow> messages_list" where
  "invalidate st = \<lparr>ml_count = None, ml_slices = []\<rparr>"

definition invalidateBottom :: "messages_list \<Rightarrow> messages_list" where
  "invalidateBottom st = \<lparr>ml_count = None, ml_slices = cut_bottom MaxMessagePosition (ml_slices st)\<rparr>"

definition queryCurrent ::
    "messages_list \<Rightarrow> MessagePosition ids_query \<Rightarrow> MessagePosition ids_result" where
  "queryCurrent st q =
     (if \<not> position_valid (aroundId q) then empty_result
      else case find_slice (ml_slices st) (aroundId q) of
             Some k \<Rightarrow> queryFromSlice MinMessagePosition MaxMessagePosition (ml_count st) q (ml_slices st ! k)
           | None \<Rightarrow> empty_result)"

text \<open>\<open>query\<close> and \<open>viewer\<close> pass a result on only when it says something.\<close>

definition result_given :: "MessagePosition ids_result \<Rightarrow> bool" where
  "result_given r \<longleftrightarrow> res_count r \<noteq> None \<or> messageIds r \<noteq> []"

definition query :: "messages_list \<Rightarrow> MessagePosition ids_query \<Rightarrow> MessagePosition ids_result list" where
  "query st q = (let current = queryCurrent st q in if result_given current then [current] else [])"

definition snapshot :: "messages_list \<Rightarrow> MessagePosition ids_query \<Rightarrow> MessagePosition ids_result" where
  "snapshot st q = queryCurrent st q"

definition messages_empty :: "messages_list \<Rightarrow> bool" where
  "messages_empty st \<longleftrightarrow> (\<forall>s \<in> set (ml_slices st). messages s = [])"

text \<open>
  \<open>viewer\<close>: the results for the state at subscription and for the state at each later update,
  without those that say nothing. The states are given as the list of the list's states at
  those moments.
\<close>

definition viewer ::
    "messages_list list \<Rightarrow> MessagePosition ids_query \<Rightarrow> MessagePosition ids_result list" where
  "viewer sts q = filter result_given (map (\<lambda>st. queryCurrent st q) sts)"

subsection \<open>The list as a view of the server's list\<close>

abbreviation all_positions :: "MessagePosition set" where
  "all_positions \<equiv> {MinMessagePosition..MaxMessagePosition}"

definition ml_view :: "MessagePosition set \<Rightarrow> messages_list \<Rightarrow> bool" where
  "ml_view S st \<longleftrightarrow> finite S \<and> S \<subseteq> all_positions \<and> slices_view S (ml_slices st)
     \<and> (\<forall>c. ml_count st = Some c \<longrightarrow> c = int (card S))"

lemma ml_viewD:
  assumes "ml_view S st"
  shows "finite S" "S \<subseteq> all_positions" "slices_view S (ml_slices st)"
    "slices_ok (ml_slices st)" "ml_count st = Some c \<Longrightarrow> c = int (card S)"
  using assms by (auto simp: ml_view_def slices_view_def)

lemma ml_view_init: "finite S \<Longrightarrow> S \<subseteq> all_positions \<Longrightarrow> ml_view S ml_init"
  by (simp add: ml_view_def ml_init_def)

text \<open>
  How the server's list may have changed with a range that is added: not at all, by a newest
  message, or by one message anywhere when the range is that message.
\<close>

definition grows_by :: "MessagePosition mrange \<Rightarrow> bool \<Rightarrow> MessagePosition set \<Rightarrow> MessagePosition set \<Rightarrow> bool" where
  "grows_by r inc S S' \<longleftrightarrow> (if inc then S' = insert (from r) S \<and> from r \<notin> S
       \<and> ((\<forall>m \<in> S. m < from r) \<or> till r = from r) else S' = S)"

lemma grows_by_added:
  assumes g: "grows_by r True S S'" and r: "from r \<le> till r" and fin: "finite S" and ok: "slices_ok B"
    and B: "\<forall>t \<in> set B. from r \<le> till (srange t) \<and> from (srange t) \<le> till r"
  shows "int (card (S' \<inter> (covered B \<union> {from r .. till r})))
     - int (case B of [] \<Rightarrow> 0 | b # _ \<Rightarrow> card (S \<inter> span b)) = 1"
proof -
  have S': "S' = insert (from r) S" "from r \<notin> S" using g by (auto simp: grows_by_def)
  have "S \<inter> covered (tl B) = {}" 
  proof (cases "till r = from r")
    case True
    have "tl B = []"
    proof (rule ccontr)
      assume "tl B \<noteq> []"
      then obtain b c bs where "B = b # c # bs" by (metis list.exhaust_sel tl_Nil)
      then have "till (srange b) < from (srange c)" "from r \<le> till (srange b)" "from (srange c) \<le> till r"
        using ok B by (auto simp: slices_ok_Cons)
      with True show False by simp
    qed
    then show ?thesis by simp
  next
    case False
    then have "\<forall>m \<in> S. m < from r" using g by (auto simp: grows_by_def)
    moreover have "\<forall>m \<in> covered (tl B). from r < m" using united_rest [OF ok] B by blast
    ultimately show ?thesis by force
  qed
  moreover have "S \<inter> {from r .. till r} = {}" using g by (force simp: grows_by_def)
  ultimately show ?thesis unfolding S'(1) using r fin by (intro added_one) auto
qed

lemma ml_addRange_view:
  assumes v: "ml_view S st" and r: "from r \<le> till r" "from r \<in> all_positions"
    and g: "grows_by r inc S S'"
    and ms: "set msgs = S' \<inter> {from r .. till r}"
    and cnt: "case count of None \<Rightarrow> True | Some c \<Rightarrow> \<not> inc \<and> c = int (card S')"
  shows "\<exists>st' u. addRange st msgs r count inc = Some (st', u) \<and> ml_view S' st'"
proof -
  note D = ml_viewD [OF v]
  have S': "finite S'" "S' \<subseteq> all_positions" "S \<subseteq> S'" "S' - {from r .. till r} = S - {from r .. till r}"
    using g D(1,2) r by (auto simp: grows_by_def split: if_splits)
  obtain A B C s n where u: "ml_slices st = A @ B @ C"
      "uniteOrInsert (ml_slices st) msgs r = Some (A @ s # C, s, n)" "slices_view S' (A @ s # C)"
      "span s = covered B \<union> {from r .. till r}"
      "n = int (card (S' \<inter> span s)) - int (case B of [] \<Rightarrow> 0 | b # _ \<Rightarrow> card (S \<inter> span b))"
      "\<forall>t \<in> set B. from r \<le> till (srange t) \<and> from (srange t) \<le> till r"
    by (rule uniteOrInsert_view [OF D(3) r(1) ms S'(4,3)])
  have okB: "slices_ok B" using D(4) u(1) by (simp add: slices_ok_append)
  have n: "inc \<Longrightarrow> n = 1 \<and> card S' = Suc (card S)"
    using grows_by_added [of r S S' B] g r(1) D(1) okB u(4-6) by (auto simp: grows_by_def)
  have full: "length (messages t) = card S'" if "A @ s # C = [t]" "srange t = FullMessagesRange" for t
    using slices_view_slice [OF u(3), of t] that S'(2)
    by (simp add: span_def FullMessagesRange_def Int_absorb2)
  have "\<exists>u c. addRange st msgs r count inc = Some (\<lparr>ml_count = c, ml_slices = A @ s # C\<rparr>, u)
      \<and> (c = None \<or> c = Some (int (card S')))"
    using r(1) u(2) n full cnt D(5) g
    by (auto simp: addRange_def addRangeItemsAndCountNew_def Let_def grows_by_def
        split: option.splits list.splits if_splits)
  then show ?thesis using u(3) S' by (auto simp: ml_view_def)
qed

lemma ml_removeOne_view:
  assumes v: "ml_view S st" and m: "m \<in> S"
  shows "ml_view (S - {m}) (fst (removeOne st m))"
proof -
  note D = ml_viewD [OF v]
  have "fst (removeOne st m) = \<lparr>ml_count = map_option (\<lambda>c. c - 1) (ml_count st),
      ml_slices = map (\<lambda>s. s\<lparr>messages := flat_remove m (messages s)\<rparr>) (ml_slices st)\<rparr>"
    using removeOne_slices [OF D(4), of m]
    by (auto simp: removeOne_def Let_def split: option.splits)
  moreover have "card (S - {m}) = card S - 1 \<and> 0 < card S"
    using m D(1) by (auto simp: card_gt_0_iff)
  ultimately show ?thesis
    using D slices_view_remove [OF D(3)] by (auto simp: ml_view_def)
qed

lemma ml_invalidateBottom_view: "ml_view S st \<Longrightarrow> ml_view S (invalidateBottom st)"
  using cut_bottom_view [of S "ml_slices st" MaxMessagePosition]
  by (auto simp: ml_view_def invalidateBottom_def)

lemma queryCurrent_window:
  assumes v: "ml_view S st" and lim: "0 \<le> limitBefore q" "0 \<le> limitAfter q"
  shows "window_of S (aroundId q) (queryCurrent st q)"
proof (cases "position_valid (aroundId q) \<and> find_slice (ml_slices st) (aroundId q) \<noteq> None")
  case False
  then have "queryCurrent st q = empty_result" by (auto simp: queryCurrent_def)
  then show ?thesis by (simp add: window_of_def empty_result_def)
next
  case True
  note D = ml_viewD [OF v]
  obtain k where f: "find_slice (ml_slices st) (aroundId q) = Some k" using True by blast
  note k = find_slice_Some [OF D(4) f]
  have "window_of S (aroundId q)
      (queryFromSlice MinMessagePosition MaxMessagePosition (ml_count st) q (ml_slices st ! k))"
    by (rule queryFromSlice_window)
      (use slices_view_slice [OF D(3) nth_mem [OF k(1)]] k(2) D(1,2,5) lim in auto)
  then show ?thesis using True f by (simp add: queryCurrent_def)
qed

subsection \<open>Runs of operations against the server\<close>

datatype ml_op =
    AddOne MessagePosition
  | AddNew MessagePosition
  | AddSlice "MessagePosition list" "MessagePosition mrange" "int option"
  | RemoveOne MessagePosition
  | Invalidate
  | InvalidateBottom

fun ml_step :: "ml_op \<Rightarrow> messages_list \<Rightarrow> messages_list option" where
  "ml_step (AddOne m) st = map_option fst (addOne st m)"
| "ml_step (AddNew m) st = map_option fst (addNew st m)"
| "ml_step (AddSlice ids r c) st = map_option fst (addSlice st ids r c)"
| "ml_step (RemoveOne m) st = Some (fst (removeOne st m))"
| "ml_step Invalidate st = Some (invalidate st)"
| "ml_step InvalidateBottom st = Some (invalidateBottom st)"

fun ml_server :: "ml_op \<Rightarrow> MessagePosition set \<Rightarrow> MessagePosition set" where
  "ml_server (AddOne m) S = insert m S"
| "ml_server (AddNew m) S = insert m S"
| "ml_server (RemoveOne m) S = S - {m}"
| "ml_server _ S = S"

fun ml_legal :: "ml_op \<Rightarrow> MessagePosition set \<Rightarrow> bool" where
  "ml_legal (AddOne m) S \<longleftrightarrow> m \<in> all_positions \<and> m \<notin> S"
| "ml_legal (AddNew m) S \<longleftrightarrow> m \<in> all_positions \<and> (\<forall>x \<in> S. x < m)"
| "ml_legal (AddSlice ids r c) S \<longleftrightarrow> from r \<in> all_positions \<and> from r \<le> till r
     \<and> set ids = S \<inter> {from r .. till r} \<and> (case c of None \<Rightarrow> True | Some n \<Rightarrow> n = int (card S))"
| "ml_legal (RemoveOne m) S \<longleftrightarrow> m \<in> S"
| "ml_legal Invalidate S \<longleftrightarrow> True"
| "ml_legal InvalidateBottom S \<longleftrightarrow> True"

lemma ml_step_view:
  assumes v: "ml_view S st" and l: "ml_legal oper S"
  shows "\<exists>st'. ml_step oper st = Some st' \<and> ml_view (ml_server oper S) st'"
proof (cases oper)
  case (AddOne m)
  have "\<exists>st' u. addRange st [m] \<lparr>from = m, till = m\<rparr> None True = Some (st', u) \<and> ml_view (insert m S) st'"
    by (rule ml_addRange_view [OF v]) (use l AddOne in \<open>auto simp: grows_by_def\<close>)
  with AddOne show ?thesis by (auto simp: addOne_def)
next
  case (AddNew m)
  have "\<exists>st' u. addRange st [m] \<lparr>from = m, till = MaxMessagePosition\<rparr> None True = Some (st', u)
      \<and> ml_view (insert m S) st'"
    by (rule ml_addRange_view [OF v]) (use l AddNew in \<open>force simp: grows_by_def\<close>)+
  with AddNew show ?thesis by (auto simp: addNew_def)
next
  case (AddSlice ids r c)
  have "\<exists>st' u. addRange st ids r c False = Some (st', u) \<and> ml_view S st'"
    by (rule ml_addRange_view [OF v]) (use l AddSlice in \<open>auto simp: grows_by_def split: option.splits\<close>)
  with AddSlice show ?thesis by (auto simp: addSlice_def)
next
  case (RemoveOne m)
  with v l ml_removeOne_view show ?thesis by simp
next
  case Invalidate
  with v show ?thesis by (simp add: ml_view_def invalidate_def)
qed (use v ml_invalidateBottom_view in simp)

interpretation messages: server_view ml_step ml_server ml_legal ml_view queryCurrent
  by unfold_locales (simp_all add: ml_step_view queryCurrent_window)

text \<open>
  C23. The same contract for \<open>Data::MessagesList\<close>, ordered by date, peer and message: after any
  sequence of true reports (a message inserted anywhere, a newest message, loaded slices,
  removals, full and bottom invalidations) no assertion fails and \<open>queryCurrent\<close> is a true window
  of the server's list with exact numbers of skipped messages.
\<close>

theorem messages_query_correct:
  assumes "finite S" "S \<subseteq> {MinMessagePosition..MaxMessagePosition}"
    and "legal_run ml_legal ml_server ops S"
    and "0 \<le> limitBefore q" "0 \<le> limitAfter q"
  shows "\<exists>st. run_ops ml_step ops ml_init = Some st
     \<and> window_of (run_server ml_server ops S) (aroundId q) (queryCurrent st q)"
  using messages.run_peek [OF ml_view_init [OF assms(1,2)] assms(3-5)] .

definition example_position :: "int \<Rightarrow> MessagePosition" where
  "example_position n = MessagePosition (FullMsgId 7 n) (100 + n)"

definition example_ops :: "ml_op list" where
  "example_ops = [AddNew (example_position 2), AddOne (example_position 1), RemoveOne (example_position 2)]"

definition example_query :: "MessagePosition ids_query" where
  "example_query = \<lparr>aroundId = example_position 1, limitBefore = 2, limitAfter = 2\<rparr>"

theorem messages_query_correct_witness:
  "\<exists>st. run_ops ml_step example_ops ml_init = Some st
      \<and> window_of {example_position 1} (example_position 1) (queryCurrent st example_query)"
proof -
  have l: "legal_run ml_legal ml_server example_ops {}"
    by (simp add: example_ops_def example_position_def MinMessagePosition_def MaxMessagePosition_def
        position_order_defs)
  have fin: "run_server ml_server example_ops {} = {example_position 1}"
    by (auto simp: example_ops_def example_position_def)
  have "\<exists>st. run_ops ml_step example_ops ml_init = Some st
      \<and> window_of (run_server ml_server example_ops {}) (aroundId example_query) (queryCurrent st example_query)"
    by (rule messages_query_correct [OF _ _ l]) (simp_all add: example_query_def)
  then show ?thesis unfolding fin by (simp add: example_query_def)
qed

subsection \<open>Dropping the beginning of the list\<close>

text \<open>
  The messages the loop of \<open>removeLessThan\<close> counts as removed: the loaded ones before the
  position, and the message at the position itself when a slice ends exactly there.
\<close>

definition counted_removed ::
    "MessagePosition \<Rightarrow> MessagePosition set \<Rightarrow> MessagePosition slice list \<Rightarrow> MessagePosition set" where
  "counted_removed m S sl =
     {x \<in> S. x < m \<and> x \<in> covered sl} \<union> {x \<in> S. x = m \<and> (\<exists>s \<in> set sl. till (srange s) = m)}"

lemma lower_bound_split:
  assumes "strictly_sorted (xs :: 'a::linorder list)"
  shows "set (drop (lower_bound_idx (\<lambda>x. x) m xs) xs) = {x \<in> set xs. m \<le> x}
    \<and> lower_bound_idx (\<lambda>x. x) m xs = card {x \<in> set xs. x < m}"
proof -
  have tw: "takeWhile (\<lambda>x. x < m) xs = filter (\<lambda>x. x < m) xs
      \<and> dropWhile (\<lambda>x. x < m) xs = filter (\<lambda>x. \<not> x < m) xs"
    by (rule takeWhile_filter_mono [OF assms]) auto
  moreover have "length (filter (\<lambda>x. x < m) xs) = card {x \<in> set xs. x < m}"
    using strictly_sorted_length [OF sorted_wrt_filter [OF assms], of "\<lambda>x. x < m"] by simp
  moreover have "drop (lower_bound_idx (\<lambda>x. x) m xs) xs = dropWhile (\<lambda>x. x < m) xs"
    by (simp add: lower_bound_idx_def)
  ultimately show ?thesis by (auto simp: lower_bound_idx_def simp del: drop_length_takeWhile)
qed

lemma slices_after:
  assumes "slices_ok (s # sl)" "x \<in> covered sl"
  shows "till (srange s) < x"
  using assms by (fastforce simp: slices_ok_Cons covered_def span_def)

lemma drop_less_than_view:
  assumes v: "slices_view S sl" and fin: "finite S" and m: "MinMessagePosition \<le> m" "S \<subseteq> {MinMessagePosition..}"
    and d: "drop_less_than m sl = (sl', removed)"
  shows "slices_view {x \<in> S. m \<le> x} sl' \<and> removed = int (card (counted_removed m S sl))"
  using v d
proof (induction sl arbitrary: sl' removed)
  case Nil
  then show ?case by (simp add: counted_removed_def)
next
  case (Cons s sl)
  have ok: "slices_ok (s # sl)" and s: "slice_ok s" "set (messages s) = S \<inter> span s"
      "length (messages s) = card (S \<inter> span s)" and v: "slices_view S sl"
    using Cons.prems(1) slices_view_slice [OF Cons.prems(1), of s]
    by (auto simp: slices_view_def slices_ok_Cons)
  have after: "till (srange s) < x" if "x \<in> covered sl" for x by (rule slices_after [OF ok that])
  have later: "x \<in> covered sl" if "t \<in> set sl" "x = till (srange t) \<or> x = from (srange t)" for t x
    using that v slice_okD(2) [of t] by (force simp: covered_def span_def slices_view_def slices_ok_def)
  have keep: "slices_view {x \<in> S. m \<le> x} sl" if "\<forall>x \<in> covered sl. m \<le> x"
    using v that by (fastforce simp: slices_view_def covered_def)
  consider (gone) "till (srange s) \<le> m" | (cut) "m < till (srange s)" "from (srange s) \<le> m"
    | (kept) "m < from (srange s)" by force
  then show ?case
  proof cases
    case gone
    obtain sl1 n where r: "drop_less_than m sl = (sl1, n)" by force
    note IH = Cons.IH [OF v r]
    have "counted_removed m S (s # sl) = (S \<inter> span s) \<union> counted_removed m S sl"
      using gone slice_okD(2) [OF s(1)] by (force simp: counted_removed_def span_def)
    moreover have "(S \<inter> span s) \<inter> counted_removed m S sl = {}"
      using after later by (fastforce simp: counted_removed_def span_def)
    moreover have "finite (counted_removed m S sl)" using fin by (simp add: counted_removed_def)
    ultimately have "card (counted_removed m S (s # sl)) = length (messages s) + card (counted_removed m S sl)"
      using fin s(3) by (simp add: card_Un_disjoint)
    then show ?thesis using IH gone r Cons.prems(2) by auto
  next
    case cut
    let ?k = "lower_bound_idx (\<lambda>x. x) m (messages s)"
    let ?s = "\<lparr>messages = drop ?k (messages s), srange = (srange s)\<lparr>from := MinMessagePosition\<rparr>\<rparr>"
    note lb = lower_bound_split [OF slice_okD(1) [OF s(1)], of m]
    have eq: "sl' = ?s # sl" "removed = int ?k" using Cons.prems(2) cut by (auto simp: Let_def split: if_splits)
    have le: "m \<le> x" if "x \<in> covered sl" for x using after [OF that] cut by simp
    have "set (messages ?s) = {x \<in> S. m \<le> x} \<inter> span ?s"
      using lb s(2) cut m by (force simp: span_def)
    moreover have "slice_ok ?s"
      using calculation slice_okD(1) [OF s(1)] cut m by (auto simp: slice_ok_def sorted_wrt_drop)
    ultimately have "slices_view {x \<in> S. m \<le> x} sl'"
      using keep le v ok unfolding eq(1) by (auto simp: slices_view_def slices_ok_Cons)
    moreover have "counted_removed m S (s # sl) = {x \<in> set (messages s). x < m}"
      using s(2) cut le later after by (fastforce simp: counted_removed_def)
    ultimately show ?thesis using lb eq(2) by simp
  next
    case kept
    have far: "m < x" if "x \<in> covered (s # sl)" for x
      using that after kept slice_okD(2) [OF s(1)] by (fastforce simp: span_def)
    have "slices_view {x \<in> S. m \<le> x} (s # sl)"
      using Cons.prems(1) far by (fastforce simp: slices_view_def covered_def)
    moreover have "counted_removed m S (s # sl) = {}"
      using far later slice_okD(2) [OF s(1)] kept by (fastforce simp: counted_removed_def span_def)
    moreover have "sl' = s # sl \<and> removed = 0"
      using Cons.prems(2) kept slice_okD(2) [OF s(1)] by (auto split: if_splits)
    ultimately show ?thesis by simp
  qed
qed

text \<open>
  \<open>removeLessThan\<close> after the server dropped every message before a position: the slices left
  are a true view of what remains. The count it keeps is decreased by the loaded messages
  before the position and, when a slice ends exactly at the position, by the message there as
  well; it is the true count exactly when the removed messages were all loaded and no such
  slice holds the message at the position.
\<close>

theorem removeLessThan_view:
  assumes v: "ml_view S st" and m: "MinMessagePosition \<le> m"
  shows "slices_view {x \<in> S. m \<le> x} (ml_slices (removeLessThan st m))
    \<and> (\<forall>c. ml_count st = Some c \<longrightarrow>
         ml_count (removeLessThan st m) = Some (c - int (card (counted_removed m S (ml_slices st))))
         \<and> (counted_removed m S (ml_slices st) = {x \<in> S. x < m} \<longrightarrow>
              ml_view {x \<in> S. m \<le> x} (removeLessThan st m)))"
proof -
  note D = ml_viewD [OF v]
  obtain sl removed where d: "drop_less_than m (ml_slices st) = (sl, removed)" by force
  have lo: "S \<subseteq> {MinMessagePosition..}" using D(2) by auto
  note dv = drop_less_than_view [OF D(3) D(1) m lo d]
  have st: "ml_slices (removeLessThan st m) = sl"
    "ml_count (removeLessThan st m) = map_option (\<lambda>c. c - removed) (ml_count st)"
    using d by (cases "ml_count st"; simp add: removeLessThan_def)+
  have "S = {x \<in> S. x < m} \<union> {x \<in> S. m \<le> x}" by auto
  then have "card S = card {x \<in> S. x < m} + card {x \<in> S. m \<le> x}"
    using D(1) by (metis (no_types, lifting) card_Un_disjoint disjoint_iff finite_Un leD mem_Collect_eq)
  then show ?thesis
    using dv st D by (auto simp: ml_view_def)
qed

definition example_list :: messages_list where
  "example_list = \<lparr>ml_count = Some 2, ml_slices = [\<lparr>messages = [example_position 1, example_position 5],
     srange = \<lparr>from = example_position 1, till = example_position 8\<rparr>\<rparr>]\<rparr>"

theorem removeLessThan_view_witness:
  "slices_view {x \<in> {example_position 1, example_position 5}. example_position 3 \<le> x}
     (ml_slices (removeLessThan example_list (example_position 3)))
   \<and> ml_count (removeLessThan example_list (example_position 3)) = Some 1"
proof -
  let ?S = "{example_position 1, example_position 5}"
  have "ml_view ?S example_list"
    by (auto simp: ml_view_def example_list_def example_position_def slices_view_def slices_ok_def
        slice_ok_def span_def MinMessagePosition_def MaxMessagePosition_def
        position_order_defs)
  from removeLessThan_view [OF this, of "example_position 3"]
  have "slices_view {x \<in> ?S. example_position 3 \<le> x}
     (ml_slices (removeLessThan example_list (example_position 3)))"
    by (simp add: MinMessagePosition_def example_position_def
        position_order_defs)
  moreover have "ml_count (removeLessThan example_list (example_position 3)) = Some 1"
    by code_simp
  ultimately show ?thesis by simp
qed

end
