(* ===== verification/Slice_Builder.thy ===== *)
theory Slice_Builder
  imports Sparse_Ids Messages_List
begin

text \<open>
  \<open>SparseIdsSliceBuilder\<close> (\<open>data/data_sparse_ids.cpp\<close>) and \<open>MessagesSliceBuilder\<close>
  (\<open>data/data_messages.cpp\<close>): what a viewer of a list shows around a key. The builder merges the
  results and updates of a list, keeps at most \<open>limitBefore\<close> messages before the key and
  \<open>limitAfter + 1\<close> from it on, and asks for more around a position when it has too few. The two
  classes are the same code over \<open>MsgId\<close> and over \<open>MessagePosition\<close>; the differences are
  parameters: \<open>valid\<close> (the test \<open>!_key\<close>), the ends \<open>lo\<close>, \<open>hi\<close> of the full range and the
  \<open>nil\<close> position. A failed \<open>Assert\<close> is \<open>None\<close>. The event stream \<open>_insufficientAround\<close> is the
  field \<open>requests\<close>, appended to. Unsigned and signed sizes are compared as integers, the counts
  the list hands out being non-negative; the old ends \<open>wasMinId\<close> and \<open>wasMaxId\<close> are an option,
  \<open>-1\<close> or the impossible position of the code being no id of a list. The field \<open>_range\<close> of the
  second class is written and never read.
\<close>

datatype load_direction = Around | Before | After

record 'm builder =
  b_key :: 'm
  b_ids :: "'m list"
  b_fullCount :: "int option"
  b_skippedBefore :: "int option"
  b_skippedAfter :: "int option"
  b_limitBefore :: int
  b_limitAfter :: int
  requests :: "('m \<times> load_direction) list"

definition builder_init :: "'m \<Rightarrow> int \<Rightarrow> int \<Rightarrow> 'm builder" where
  "builder_init key before after =
     \<lparr>b_key = key, b_ids = [], b_fullCount = None, b_skippedBefore = None, b_skippedAfter = None,
      b_limitBefore = before, b_limitAfter = after, requests = []\<rparr>"

definition requestMessages :: "load_direction \<Rightarrow> 'm builder \<Rightarrow> 'm builder" where
  "requestMessages direction b =
     b\<lparr>requests := requests b @
        [if b_ids b = [] then (b_key b, Around)
         else if direction = Before then (hd (b_ids b), Before)
         else (last (b_ids b), After)]\<rparr>"

definition requestMessagesCount :: "'m \<Rightarrow> 'm builder \<Rightarrow> 'm builder" where
  "requestMessagesCount nil b = b\<lparr>requests := requests b @ [(nil, Around)]\<rparr>"

text \<open>
  \<open>removeFromBegin\<close> and \<open>removeFromEnd\<close> are computed before the erasures, as the code does;
  erasing the beginning does not change what is erased at the end.
\<close>

definition limit_begin :: "int \<Rightarrow> 'm builder \<Rightarrow> 'm builder \<times> bool" where
  "limit_begin removeFromBegin b =
     (if removeFromBegin > 0
      then (b\<lparr>b_ids := drop (nat removeFromBegin) (b_ids b),
              b_skippedBefore := map_option (\<lambda>n. n + removeFromBegin) (b_skippedBefore b)\<rparr>, False)
      else if removeFromBegin < 0 \<and> (case b_skippedBefore b of None \<Rightarrow> True | Some n \<Rightarrow> n > 0)
      then (requestMessages Before b, True)
      else (b, False))"

definition limit_end :: "int \<Rightarrow> 'm builder \<Rightarrow> 'm builder \<times> bool" where
  "limit_end removeFromEnd b =
     (if removeFromEnd > 0
      then (b\<lparr>b_ids := take (length (b_ids b) - nat removeFromEnd) (b_ids b),
              b_skippedAfter := map_option (\<lambda>n. n + removeFromEnd) (b_skippedAfter b)\<rparr>, False)
      else if removeFromEnd < 0 \<and> (case b_skippedAfter b of None \<Rightarrow> True | Some n \<Rightarrow> n > 0)
      then (requestMessages After b, True)
      else (b, False))"

definition sliceToLimits :: "('m::linorder \<Rightarrow> bool) \<Rightarrow> 'm \<Rightarrow> 'm builder \<Rightarrow> 'm builder" where
  "sliceToLimits valid nil b =
     (if \<not> valid (b_key b)
      then (if b_fullCount b = None then requestMessagesCount nil b else b)
      else let around = lower_bound_idx (\<lambda>m. m) (b_key b) (b_ids b);
               removeFromBegin = int around - b_limitBefore b;
               removeFromEnd = int (length (b_ids b)) - int around - b_limitAfter b - 1;
               (b1, r1) = limit_begin removeFromBegin b;
               (b2, r2) = limit_end removeFromEnd b1
           in if b_fullCount b2 = None \<and> \<not> (r1 \<or> r2) then requestMessagesCount nil b2 else b2)"

definition fill_skipped :: "'m builder \<Rightarrow> 'm builder" where
  "fill_skipped b =
     (case b_fullCount b of
        None \<Rightarrow> b
      | Some c \<Rightarrow>
          (case (b_skippedBefore b, b_skippedAfter b) of
             (Some x, None) \<Rightarrow> b\<lparr>b_skippedAfter := Some (c - x - int (length (b_ids b)))\<rparr>
           | (None, Some y) \<Rightarrow> b\<lparr>b_skippedBefore := Some (c - y - int (length (b_ids b)))\<rparr>
           | _ \<Rightarrow> b))"

definition fillSkippedAndSliceToLimits ::
    "('m::linorder \<Rightarrow> bool) \<Rightarrow> 'm \<Rightarrow> 'm builder \<Rightarrow> 'm builder" where
  "fillSkippedAndSliceToLimits valid nil b = sliceToLimits valid nil (fill_skipped b)"

text \<open>The position of an id in the flat set (\<open>_ids.find(oldId)\<close>), \<open>None\<close> when the \<open>Assert\<close> fails.\<close>

definition find_index :: "'m \<Rightarrow> 'm list \<Rightarrow> nat option" where
  "find_index x xs = (if x \<in> set xs then Some (length (takeWhile (\<lambda>y. y \<noteq> x) xs)) else None)"

definition adjustSkippedBefore :: "'m list \<Rightarrow> 'm \<Rightarrow> int \<Rightarrow> int option" where
  "adjustSkippedBefore ids oldId oldSkippedBefore =
     map_option (\<lambda>i. max (oldSkippedBefore - int i) 0) (find_index oldId ids)"

definition adjustSkippedAfter :: "'m list \<Rightarrow> 'm \<Rightarrow> int \<Rightarrow> int option" where
  "adjustSkippedAfter ids oldId oldSkippedAfter =
     map_option (\<lambda>i. max (oldSkippedAfter - (int (length ids) - int i - 1)) 0) (find_index oldId ids)"

text \<open>
  The value of a skipped counter after a merge: the given one adjusted from the end of the new
  messages, else the old one adjusted from the old end, else none. \<open>None\<close> is a failed assertion.
\<close>

definition next_skipped ::
    "('m list \<Rightarrow> 'm \<Rightarrow> int \<Rightarrow> int option) \<Rightarrow> 'm list \<Rightarrow> 'm \<Rightarrow> int option \<Rightarrow> 'm option \<Rightarrow> int option
      \<Rightarrow> int option option" where
  "next_skipped adjust ids newEnd given oldEnd old =
     (case given of
        Some n \<Rightarrow> map_option Some (adjust ids newEnd n)
      | None \<Rightarrow> (case (oldEnd, old) of
            (Some e, Some n) \<Rightarrow> map_option Some (adjust ids e n)
          | _ \<Rightarrow> Some None))"

definition mergeSliceData ::
    "('m::linorder \<Rightarrow> bool) \<Rightarrow> 'm \<Rightarrow> int option \<Rightarrow> 'm list \<Rightarrow> int option \<Rightarrow> int option
      \<Rightarrow> 'm builder \<Rightarrow> 'm builder option" where
  "mergeSliceData valid nil count msgs before after b =
     (if msgs = [] then
        (let b = (if count \<noteq> None \<and> b_fullCount b \<noteq> count
                  then (if the count \<le> int (length (b_ids b))
                        then b\<lparr>b_fullCount := Some (int (length (b_ids b))),
                               b_skippedBefore := Some 0, b_skippedAfter := Some 0\<rparr>
                        else b\<lparr>b_fullCount := count\<rparr>)
                  else b)
         in Some (fillSkippedAndSliceToLimits valid nil b))
      else
        (let wasMin = (if b_ids b = [] then None else Some (hd (b_ids b)));
             wasMax = (if b_ids b = [] then None else Some (last (b_ids b)));
             ids = flat_merge (b_ids b) msgs
         in Option.bind (next_skipped adjustSkippedBefore ids (hd msgs) before
                           wasMin (b_skippedBefore b)) (\<lambda>sb.
            Option.bind (next_skipped adjustSkippedAfter ids (last msgs) after
                           wasMax (b_skippedAfter b)) (\<lambda>sa.
              Some (fillSkippedAndSliceToLimits valid nil
                (b\<lparr>b_fullCount := (if count \<noteq> None then count else b_fullCount b), b_ids := ids,
                   b_skippedBefore := sb, b_skippedAfter := sa\<rparr>))))))"

definition applyInitial ::
    "('m::linorder \<Rightarrow> bool) \<Rightarrow> 'm \<Rightarrow> 'm ids_result \<Rightarrow> 'm builder \<Rightarrow> 'm builder option" where
  "applyInitial valid nil result b =
     mergeSliceData valid nil (res_count result) (messageIds result)
       (skippedBefore result) (skippedAfter result) b"

definition intersects :: "'m::linorder mrange \<Rightarrow> 'm mrange \<Rightarrow> bool" where
  "intersects range1 range2 \<longleftrightarrow> from range1 \<le> till range2 \<and> from range2 \<le> till range1"

text \<open>The result is \<open>None\<close> when an assertion fails, else the value returned and the builder.\<close>

definition applyUpdate ::
    "('m::linorder \<Rightarrow> bool) \<Rightarrow> 'm \<Rightarrow> 'm \<Rightarrow> 'm \<Rightarrow> 'm slice_update \<Rightarrow> 'm builder \<Rightarrow> (bool \<times> 'm builder) option" where
  "applyUpdate valid nil lo hi upd b =
     (let needMergeMessages = (upd_messages upd \<noteq> None) \<and> intersects (upd_range upd)
            \<lparr>from = (if b_ids b = [] then b_key b else hd (b_ids b)),
             till = (if b_ids b = [] then b_key b else last (b_ids b))\<rparr>
      in if \<not> needMergeMessages \<and> upd_count upd = None then Some (False, b)
         else map_option (Pair True)
           (mergeSliceData valid nil (upd_count upd)
             (if needMergeMessages then the (upd_messages upd) else [])
             (if from (upd_range upd) = lo then Some 0 else None)
             (if till (upd_range upd) = hi then Some 0 else None) b))"

text \<open>The common part of \<open>removeOne\<close>: the flag \<open>changed\<close> and the builder.\<close>

definition remove_from_builder :: "'m::linorder \<Rightarrow> 'm builder \<Rightarrow> bool \<times> 'm builder" where
  "remove_from_builder messageId b =
     (let (changed, b) = (case b_fullCount b of
            Some c \<Rightarrow> if c > 0 then (True, b\<lparr>b_fullCount := Some (c - 1)\<rparr>) else (False, b)
          | None \<Rightarrow> (False, b))
      in if messageId \<in> set (b_ids b)
         then (True, b\<lparr>b_ids := flat_remove messageId (b_ids b)\<rparr>)
         else if b_ids b \<noteq> [] then
           (case (hd (b_ids b) > messageId, b_skippedBefore b, last (b_ids b) < messageId, b_skippedAfter b) of
              (True, Some n, _, _) \<Rightarrow> if n > 0 then (True, b\<lparr>b_skippedBefore := Some (n - 1)\<rparr>) else (changed, b)
            | (False, _, True, Some n) \<Rightarrow> if n > 0 then (True, b\<lparr>b_skippedAfter := Some (n - 1)\<rparr>) else (changed, b)
            | _ \<Rightarrow> (changed, b))
         else (changed, b))"

text \<open>\<open>MessagesSliceBuilder::removeOne\<close> stops there, \<open>SparseIdsSliceBuilder::removeOne\<close> asks for more.\<close>

definition sparse_removeOne :: "MsgId \<Rightarrow> MsgId builder \<Rightarrow> bool \<times> MsgId builder" where
  "sparse_removeOne messageId b =
     (case remove_from_builder messageId b of
        (True, b) \<Rightarrow> (True, sliceToLimits (\<lambda>k. k \<noteq> 0) 0 b)
      | (False, b) \<Rightarrow> (False, b))"

definition messages_removeOne ::
    "MessagePosition \<Rightarrow> MessagePosition builder \<Rightarrow> bool \<times> MessagePosition builder" where
  "messages_removeOne messageId b = remove_from_builder messageId b"

definition builder_removeAll :: "'m builder \<Rightarrow> bool \<times> 'm builder" where
  "builder_removeAll b =
     (True, b\<lparr>b_ids := [], b_fullCount := Some 0, b_skippedBefore := Some 0, b_skippedAfter := Some 0\<rparr>)"

text \<open>\<open>invalidateBottom\<close> of one class, \<open>bottomInvalidated\<close> of the other.\<close>

definition builder_invalidateBottom ::
    "('m::linorder \<Rightarrow> bool) \<Rightarrow> 'm \<Rightarrow> 'm builder \<Rightarrow> bool \<times> 'm builder" where
  "builder_invalidateBottom valid nil b =
     (True, sliceToLimits valid nil (b\<lparr>b_fullCount := None, b_skippedAfter := None\<rparr>))"

definition messages_invalidated :: "MessagePosition builder \<Rightarrow> bool \<times> MessagePosition builder" where
  "messages_invalidated b =
     (False, sliceToLimits position_valid no_position
        (b\<lparr>b_fullCount := None, b_skippedBefore := None, b_skippedAfter := None, b_ids := []\<rparr>))"

text \<open>The two classes, at their own parameters.\<close>

definition sparse_applyInitial :: "MsgId ids_result \<Rightarrow> MsgId builder \<Rightarrow> MsgId builder option" where
  "sparse_applyInitial = applyInitial (\<lambda>k. k \<noteq> 0) 0"

definition sparse_applyUpdate :: "MsgId slice_update \<Rightarrow> MsgId builder \<Rightarrow> (bool \<times> MsgId builder) option" where
  "sparse_applyUpdate = applyUpdate (\<lambda>k. k \<noteq> 0) 0 0 ServerMaxMsgId"

definition messages_applyInitial ::
    "MessagePosition ids_result \<Rightarrow> MessagePosition builder \<Rightarrow> MessagePosition builder option" where
  "messages_applyInitial = applyInitial position_valid no_position"

definition messages_applyUpdate ::
    "MessagePosition slice_update \<Rightarrow> MessagePosition builder \<Rightarrow> (bool \<times> MessagePosition builder) option" where
  "messages_applyUpdate =
     applyUpdate position_valid no_position MinMessagePosition MaxMessagePosition"

text \<open>\<open>MessagesSliceBuilder::snapshot\<close>: the ids and the id nearest to the key.\<close>

record messages_slice =
  ms_ids :: "FullMsgId list"
  nearestToAround :: FullMsgId
  ms_skippedBefore :: "int option"
  ms_skippedAfter :: "int option"
  ms_fullCount :: "int option"

definition messages_snapshot :: "MessagePosition builder \<Rightarrow> messages_slice" where
  "messages_snapshot b =
     \<lparr>ms_ids = map pos_id (b_ids b),
      nearestToAround = (case filter (\<lambda>p. p \<ge> b_key b) (b_ids b) of
          p # _ \<Rightarrow> pos_id p
        | [] \<Rightarrow> (if b_ids b = [] then FullMsgId 0 0 else pos_id (last (b_ids b)))),
      ms_skippedBefore = b_skippedBefore b, ms_skippedAfter = b_skippedAfter b,
      ms_fullCount = b_fullCount b\<rparr>"

subsection \<open>What a builder promises\<close>

text \<open>
  The ids shown around the key \<open>k\<close> are anchored in the server's list \<open>S\<close>: sorted, and none of
  \<open>S\<close> is left out between one of them and the key.
\<close>

definition anchored :: "'m::linorder set \<Rightarrow> 'm \<Rightarrow> 'm list \<Rightarrow> bool" where
  "anchored S k ids \<longleftrightarrow> strictly_sorted ids \<and> set ids \<subseteq> S
     \<and> (\<forall>x \<in> set ids. \<forall>m \<in> S. x \<le> m \<and> m < k \<or> k \<le> m \<and> m \<le> x \<longrightarrow> m \<in> set ids)"

definition below :: "'m::linorder set \<Rightarrow> 'm \<Rightarrow> int" where
  "below S x = int (card {m \<in> S. m < x})"

definition above :: "'m::linorder set \<Rightarrow> 'm \<Rightarrow> int" where
  "above S x = int (card {m \<in> S. x < m})"

definition hidden_below :: "'m::linorder set \<Rightarrow> 'm \<Rightarrow> 'm list \<Rightarrow> int" where
  "hidden_below S k ids = below S (if ids = [] then k else hd ids)"

definition hidden_above :: "'m::linorder set \<Rightarrow> 'm \<Rightarrow> 'm list \<Rightarrow> int" where
  "hidden_above S k ids = (if ids = [] then int (card {m \<in> S. k \<le> m}) else above S (last ids))"

definition builder_view :: "'m::linorder set \<Rightarrow> 'm builder \<Rightarrow> bool" where
  "builder_view S b \<longleftrightarrow> anchored S (b_key b) (b_ids b)
     \<and> (\<forall>c. b_fullCount b = Some c \<longrightarrow> c = int (card S))
     \<and> (\<forall>n. b_skippedBefore b = Some n \<longrightarrow> n = hidden_below S (b_key b) (b_ids b))
     \<and> (\<forall>n. b_skippedAfter b = Some n \<longrightarrow> n = hidden_above S (b_key b) (b_ids b))"

lemma hidden_simps [simp]:
  "ids \<noteq> [] \<Longrightarrow> hidden_below S k ids = below S (hd ids)" "ids \<noteq> [] \<Longrightarrow> hidden_above S k ids = above S (last ids)"
  "0 \<le> hidden_below S k ids" "0 \<le> hidden_above S k ids"
  by (simp_all add: hidden_below_def hidden_above_def below_def above_def)

lemma anchored_gapless:
  assumes "anchored S k ids" "x \<in> set ids" "y \<in> set ids" "m \<in> S" "x \<le> m" "m \<le> y"
  shows "m \<in> set ids"
proof (cases "m < k")
  case True
  then show ?thesis using assms unfolding anchored_def by blast
next
  case False
  then have "k \<le> m" by simp
  then show ?thesis using assms unfolding anchored_def by blast
qed

lemma sorted_nth_split:
  assumes s: "strictly_sorted (xs :: 'm::linorder list)" and i: "i < length xs"
  shows "{m \<in> set xs. m < xs ! i} = set (take i xs) \<and> {m \<in> set xs. xs ! i < m} = set (drop (Suc i) xs)"
proof -
  have xs: "xs = take i xs @ xs ! i # drop (Suc i) xs" by (rule id_take_nth_drop [OF i])
  have "sorted_wrt (<) (take i xs @ xs ! i # drop (Suc i) xs)" using s xs by simp
  then have "\<forall>a \<in> set (take i xs). a < xs ! i" "\<forall>a \<in> set (drop (Suc i) xs). xs ! i < a"
    by (auto simp: sorted_wrt_append)
  moreover have "set xs = set (take i xs) \<union> {xs ! i} \<union> set (drop (Suc i) xs)"
    by (subst xs) simp
  ultimately show ?thesis by (auto dest: less_asym)
qed

lemma below_shift:
  assumes a: "anchored S k ids" and fin: "finite S" and i: "i < length ids"
  shows "below S (ids ! i) = below S (hd ids) + int i"
proof -
  have s: "strictly_sorted ids" "set ids \<subseteq> S" using a by (auto simp: anchored_def)
  have h: "hd ids \<in> set ids" "ids ! i \<in> set ids" using i by (auto intro: hd_in_set)
  have le: "hd ids \<le> ids ! i" by (rule strictly_sorted_hd_le [OF s(1) h(2)])
  have "{m \<in> S. m < ids ! i} = {m \<in> S. m < hd ids} \<union> {m \<in> set ids. m < ids ! i}"
    using le s anchored_gapless [OF a h] strictly_sorted_hd_le [OF s(1)] by force
  moreover have "{m \<in> S. m < hd ids} \<inter> {m \<in> set ids. m < ids ! i} = {}"
    using strictly_sorted_hd_le [OF s(1)] by force
  moreover have "card {m \<in> set ids. m < ids ! i} = i"
    using sorted_nth_split [OF s(1) i] i distinct_card [of "take i ids"] s(1)
    by (simp add: strictly_sorted_iff)
  ultimately show ?thesis using fin by (simp add: below_def card_Un_disjoint)
qed

lemma above_shift:
  assumes a: "anchored S k ids" and fin: "finite S" and i: "i < length ids"
  shows "above S (ids ! i) = above S (last ids) + (int (length ids) - int i - 1)"
proof -
  have s: "strictly_sorted ids" "set ids \<subseteq> S" using a by (auto simp: anchored_def)
  have ne: "ids \<noteq> []" using i by auto
  have h: "last ids \<in> set ids" "ids ! i \<in> set ids" using i ne by auto
  have le: "ids ! i \<le> last ids" by (rule strictly_sorted_last_ge [OF s(1) h(2)])
  have "{m \<in> S. ids ! i < m} = {m \<in> S. last ids < m} \<union> {m \<in> set ids. ids ! i < m}"
    using le s anchored_gapless [OF a h(2,1)] strictly_sorted_last_ge [OF s(1)] by force
  moreover have "{m \<in> S. last ids < m} \<inter> {m \<in> set ids. ids ! i < m} = {}"
    using strictly_sorted_last_ge [OF s(1)] by force
  moreover have "card {m \<in> set ids. ids ! i < m} = length ids - Suc i"
    using sorted_nth_split [OF s(1) i] distinct_card [of "drop (Suc i) ids"] s(1)
    by (simp add: strictly_sorted_iff)
  ultimately show ?thesis using fin i by (simp add: above_def card_Un_disjoint)
qed

lemma anchored_sides:
  assumes a: "anchored S k ids" and fin: "finite S" and ne: "ids \<noteq> []"
  shows "int (card {m \<in> S. m < k}) = below S (hd ids) + int (length (filter (\<lambda>m. m < k) ids))
    \<and> int (card {m \<in> S. k \<le> m}) = above S (last ids) + int (length (filter (\<lambda>m. k \<le> m) ids))"
proof -
  have s: "strictly_sorted ids" "set ids \<subseteq> S" using a by (auto simp: anchored_def)
  have h: "hd ids \<in> set ids" "last ids \<in> set ids" using ne by auto
  note le = strictly_sorted_hd_le [OF s(1)] strictly_sorted_last_ge [OF s(1)]
  have len: "length (filter P ids) = card {m \<in> set ids. P m}" for P
    using strictly_sorted_length [OF sorted_wrt_filter [OF s(1)], of P] by simp
  have "{m \<in> S. m < k} = {m \<in> S. m < hd ids} \<union> {m \<in> set ids. m < k}"
  proof -
    have "m \<in> set ids" if "m \<in> S" "m < k" "\<not> m < hd ids" for m
      using a h(1) that unfolding anchored_def by (meson not_less)
    moreover have "m < k" if "m \<in> S" "m < hd ids" for m
    proof (rule ccontr)
      assume "\<not> m < k"
      then have "m \<in> set ids" using a h(1) that unfolding anchored_def by (meson less_imp_le not_less)
      then show False using le(1) that(2) by force
    qed
    ultimately show ?thesis using s(2) by blast
  qed
  moreover have "{m \<in> S. k \<le> m} = {m \<in> S. last ids < m} \<union> {m \<in> set ids. k \<le> m}"
  proof -
    have "m \<in> set ids" if "m \<in> S" "k \<le> m" "\<not> last ids < m" for m
      using a h(2) that unfolding anchored_def by (meson not_less)
    moreover have "k \<le> m" if "m \<in> S" "last ids < m" for m
    proof (rule ccontr)
      assume "\<not> k \<le> m"
      then have "m \<in> set ids" using a h(2) that unfolding anchored_def by (meson less_imp_le not_le)
      then show False using le(2) that(2) by force
    qed
    ultimately show ?thesis using s(2) by blast
  qed
  moreover have "{m \<in> S. m < hd ids} \<inter> {m \<in> set ids. m < k} = {}"
    "{m \<in> S. last ids < m} \<inter> {m \<in> set ids. k \<le> m} = {}" using le by force+
  ultimately show ?thesis
    using fin len by (simp add: below_def above_def card_Un_disjoint)
qed

text \<open>The shown messages and the hidden ones are all of them, on both sides of the key.\<close>

lemma hidden_sides:
  assumes a: "anchored S k ids" and fin: "finite S"
  shows "int (card {m \<in> S. m < k}) = hidden_below S k ids + int (length (filter (\<lambda>m. m < k) ids))"
    "int (card {m \<in> S. k \<le> m}) = hidden_above S k ids + int (length (filter (\<lambda>m. k \<le> m) ids))"
  using anchored_sides [OF a fin] by (cases "ids = []"; simp add: hidden_below_def hidden_above_def below_def)+

lemma anchored_total:
  assumes a: "anchored S k ids" and fin: "finite S"
  shows "int (card S) = hidden_below S k ids + int (length ids) + hidden_above S k ids"
proof -
  have "S = {m \<in> S. m < k} \<union> {m \<in> S. k \<le> m}" "{m \<in> S. m < k} \<inter> {m \<in> S. k \<le> m} = {}" by auto
  then have "card S = card {m \<in> S. m < k} + card {m \<in> S. k \<le> m}" using fin by (metis card_Un_disjoint finite_Un)
  moreover have "length (filter (\<lambda>m. m < k) ids) + length (filter (\<lambda>m. k \<le> m) ids) = length ids"
    using sum_length_filter_compl [of "\<lambda>m. m < k" ids] by (simp add: not_less)
  ultimately show ?thesis using hidden_sides [OF a fin] by linarith
qed

lemma find_index_nth:
  assumes "x \<in> set xs"
  shows "\<exists>i. find_index x xs = Some i \<and> i < length xs \<and> xs ! i = x"
proof -
  let ?i = "length (takeWhile (\<lambda>y. y \<noteq> x) xs)"
  have "?i < length xs"
    using assms by (induction xs) auto
  then show ?thesis using assms nth_length_takeWhile [of "\<lambda>y. y \<noteq> x" xs] by (simp add: find_index_def)
qed

lemma adjusted_before:
  assumes "anchored S k ids" "finite S" "x \<in> set ids"
  shows "adjustSkippedBefore ids x (below S x) = Some (below S (hd ids))"
proof -
  obtain i where i: "find_index x ids = Some i" "i < length ids" "ids ! i = x"
    using find_index_nth [OF assms(3)] by blast
  have "below S x = below S (hd ids) + int i" using below_shift [OF assms(1,2) i(2)] i(3) by simp
  moreover have "0 \<le> below S (hd ids)" by (simp add: below_def)
  ultimately show ?thesis by (simp add: adjustSkippedBefore_def i(1))
qed

lemma adjusted_after:
  assumes "anchored S k ids" "finite S" "x \<in> set ids"
  shows "adjustSkippedAfter ids x (above S x) = Some (above S (last ids))"
proof -
  obtain i where i: "find_index x ids = Some i" "i < length ids" "ids ! i = x"
    using find_index_nth [OF assms(3)] by blast
  have "above S x = above S (last ids) + (int (length ids) - int i - 1)"
    using above_shift [OF assms(1,2) i(2)] i(3) by simp
  moreover have "0 \<le> above S (last ids)" by (simp add: above_def)
  ultimately show ?thesis by (simp add: adjustSkippedAfter_def i(1))
qed

subsection \<open>Filling the counters and cutting to the limits\<close>

lemma fill_skipped_view:
  assumes "builder_view S b" "finite S"
  shows "builder_view S (fill_skipped b) \<and> b_ids (fill_skipped b) = b_ids b
    \<and> b_key (fill_skipped b) = b_key b \<and> b_limitBefore (fill_skipped b) = b_limitBefore b
    \<and> b_limitAfter (fill_skipped b) = b_limitAfter b \<and> requests (fill_skipped b) = requests b"
  using assms anchored_total [of S "b_key b" "b_ids b"]
  by (auto simp: builder_view_def fill_skipped_def split: option.splits)

lemma lower_bound_anchored:
  assumes "strictly_sorted (ids :: 'm::linorder list)"
  shows "take (lower_bound_idx (\<lambda>m. m) k ids) ids = filter (\<lambda>m. m < k) ids
    \<and> drop (lower_bound_idx (\<lambda>m. m) k ids) ids = filter (\<lambda>m. k \<le> m) ids"
proof -
  have "takeWhile (\<lambda>m. m < k) ids = filter (\<lambda>m. m < k) ids
      \<and> dropWhile (\<lambda>m. m < k) ids = filter (\<lambda>m. \<not> m < k) ids"
    by (rule takeWhile_filter_mono [OF assms]) auto
  then show ?thesis
    unfolding lower_bound_idx_def take_length_takeWhile drop_length_takeWhile not_less .
qed

lemma anchored_drop:
  assumes a: "anchored S k ids" and n: "n \<le> lower_bound_idx (\<lambda>m. m) k ids"
  shows "anchored S k (drop n ids)"
proof -
  have s: "strictly_sorted ids" "set ids \<subseteq> S" using a by (auto simp: anchored_def)
  have split: "set ids = set (take n ids) \<union> set (drop n ids)"
    by (metis append_take_drop_id set_append)
  have lt: "\<forall>x \<in> set (take n ids). \<forall>y \<in> set (drop n ids). x < y"
    using s(1) append_take_drop_id [of n ids] by (metis sorted_wrt_append)
  have "set (take n ids) \<subseteq> set (take (lower_bound_idx (\<lambda>m. m) k ids) ids)"
    by (rule set_take_subset_set_take [OF n])
  then have "\<forall>x \<in> set (take n ids). x < k" using lower_bound_anchored [OF s(1), of k] by auto
  then have "m \<in> set (drop n ids)" if "x \<in> set (drop n ids)" "m \<in> S"
      "x \<le> m \<and> m < k \<or> k \<le> m \<and> m \<le> x" for x m
    using that a split lt unfolding anchored_def by (metis UnCI UnE leD)
  then show ?thesis
    using s split unfolding anchored_def by (auto simp: sorted_wrt_drop)
qed

lemma anchored_take:
  assumes a: "anchored S k ids" and n: "lower_bound_idx (\<lambda>m. m) k ids \<le> n"
  shows "anchored S k (take n ids)"
proof -
  have s: "strictly_sorted ids" "set ids \<subseteq> S" using a by (auto simp: anchored_def)
  have split: "set ids = set (take n ids) \<union> set (drop n ids)"
    by (metis append_take_drop_id set_append)
  have lt: "\<forall>x \<in> set (take n ids). \<forall>y \<in> set (drop n ids). x < y"
    using s(1) append_take_drop_id [of n ids] by (metis sorted_wrt_append)
  have "set (drop n ids) \<subseteq> set (drop (lower_bound_idx (\<lambda>m. m) k ids) ids)"
    by (rule set_drop_subset_set_drop [OF n])
  then have "\<forall>x \<in> set (drop n ids). k \<le> x" using lower_bound_anchored [OF s(1), of k] by auto
  then have "m \<in> set (take n ids)" if "x \<in> set (take n ids)" "m \<in> S"
      "x \<le> m \<and> m < k \<or> k \<le> m \<and> m \<le> x" for x m
    using that a split lt unfolding anchored_def by (metis UnCI UnE leD)
  then show ?thesis
    using s split unfolding anchored_def by (auto simp: sorted_wrt_take)
qed

lemma filter_halves:
  "\<forall>m \<in> set xs. P m \<Longrightarrow> \<forall>m \<in> set ys. \<not> P m \<Longrightarrow> filter P (xs @ ys) = xs"
  "\<forall>m \<in> set xs. \<not> P m \<Longrightarrow> \<forall>m \<in> set ys. P m \<Longrightarrow> filter P (xs @ ys) = ys"
  by simp_all

lemma sides_cut:
  assumes s: "strictly_sorted (ids :: 'm::linorder list)"
  shows "n \<le> lower_bound_idx (\<lambda>m. m) k ids \<Longrightarrow> filter (\<lambda>m. m < k) (drop n ids) = drop n (filter (\<lambda>m. m < k) ids)
      \<and> filter (\<lambda>m. k \<le> m) (drop n ids) = filter (\<lambda>m. k \<le> m) ids"
    "lower_bound_idx (\<lambda>m. m) k ids \<le> n \<Longrightarrow> filter (\<lambda>m. m < k) (take n ids) = filter (\<lambda>m. m < k) ids
      \<and> filter (\<lambda>m. k \<le> m) (take n ids) = take (n - lower_bound_idx (\<lambda>m. m) k ids) (filter (\<lambda>m. k \<le> m) ids)"
    "length (filter (\<lambda>m. m < k) ids) = lower_bound_idx (\<lambda>m. m) k ids"
proof -
  let ?n = "lower_bound_idx (\<lambda>m. m) k ids" and ?x = "filter (\<lambda>m. m < k) ids" and ?y = "filter (\<lambda>m. k \<le> m) ids"
  have xy: "ids = ?x @ ?y" "length ?x = ?n"
    using lower_bound_anchored [OF s, of k] append_take_drop_id [of ?n ids] lower_bound_idx_le [of "\<lambda>m. m" k ids]
    by (metis, metis length_take min_absorb2)
  have x: "\<forall>m \<in> set (drop i ?x). m < k" "\<forall>m \<in> set ?x. \<not> k \<le> m" "\<forall>m \<in> set (drop i ?x). \<not> k \<le> m" for i
    by (auto dest!: in_set_dropD simp: not_le)
  have y: "\<forall>m \<in> set (take i ?y). k \<le> m" "\<forall>m \<in> set ?y. \<not> m < k" "\<forall>m \<in> set (take i ?y). \<not> m < k" for i
    by (auto dest!: in_set_takeD simp: not_less)
  show "filter (\<lambda>m. m < k) (drop n ids) = drop n ?x \<and> filter (\<lambda>m. k \<le> m) (drop n ids) = ?y" if "n \<le> ?n"
  proof -
    have d: "drop n ids = drop n ?x @ ?y"
      using arg_cong [OF xy(1), of "drop n"] that by (simp only: drop_append xy(2)) simp
    show ?thesis unfolding d using filter_halves(1) [OF x(1) y(2), of n] filter_halves(2) [OF x(3), of ?y n] by simp
  qed
  show "filter (\<lambda>m. m < k) (take n ids) = ?x \<and> filter (\<lambda>m. k \<le> m) (take n ids) = take (n - ?n) ?y" if "?n \<le> n"
  proof -
    have t: "take n ids = ?x @ take (n - ?n) ?y"
      using arg_cong [OF xy(1), of "take n"] that xy(2) by simp
    show ?thesis
      unfolding t using filter_halves(1) [OF _ y(3), of ?x "n - ?n"] filter_halves(2) [OF x(2) y(1), of "n - ?n"] by simp
  qed
  show "length ?x = ?n" by (rule xy(2))
qed

lemma limit_begin_view:
  assumes v: "builder_view S b" and fin: "finite S"
    and r: "r \<le> int (lower_bound_idx (\<lambda>m. m) (b_key b) (b_ids b))"
  shows "builder_view S (fst (limit_begin r b))"
proof (cases "r > 0")
  case False
  then show ?thesis using v by (simp add: limit_begin_def requestMessages_def builder_view_def)
next
  case True
  let ?n = "nat r" and ?k = "b_key b" and ?ids = "b_ids b"
  have a: "anchored S ?k ?ids" using v by (simp add: builder_view_def)
  then have s: "strictly_sorted ?ids" by (simp add: anchored_def)
  have n: "?n \<le> lower_bound_idx (\<lambda>m. m) ?k ?ids" using r by simp
  have d: "anchored S ?k (drop ?n ?ids)" by (rule anchored_drop [OF a n])
  have "int (length (drop ?n (filter (\<lambda>m. m < ?k) ?ids))) = int (length (filter (\<lambda>m. m < ?k) ?ids)) - r"
    using n True sides_cut(3) [OF s, of ?k] by simp
  then have "hidden_below S ?k (drop ?n ?ids) = hidden_below S ?k ?ids + r"
    "hidden_above S ?k (drop ?n ?ids) = hidden_above S ?k ?ids"
    using hidden_sides [OF a fin] hidden_sides [OF d fin] sides_cut(1) [OF s n] by simp_all
  then show ?thesis using True v d by (auto simp: limit_begin_def builder_view_def)
qed

lemma limit_end_view:
  assumes v: "builder_view S b" and fin: "finite S"
    and r: "r \<le> int (length (b_ids b)) - int (lower_bound_idx (\<lambda>m. m) (b_key b) (b_ids b))"
  shows "builder_view S (fst (limit_end r b))"
proof (cases "r > 0")
  case False
  then show ?thesis using v by (simp add: limit_end_def requestMessages_def builder_view_def)
next
  case True
  let ?k = "b_key b" and ?ids = "b_ids b"
  let ?lb = "lower_bound_idx (\<lambda>m. m) ?k ?ids"
  let ?n = "length ?ids - nat r"
  have a: "anchored S ?k ?ids" using v by (simp add: builder_view_def)
  then have s: "strictly_sorted ?ids" by (simp add: anchored_def)
  have n: "?lb \<le> ?n" using r True by linarith
  have t: "anchored S ?k (take ?n ?ids)" by (rule anchored_take [OF a n])
  have "length (filter (\<lambda>m. ?k \<le> m) ?ids) = length ?ids - ?lb"
    using sum_length_filter_compl [of "\<lambda>m. m < ?k" ?ids] sides_cut(3) [OF s, of ?k] by (simp add: not_less)
  then have "int (length (take (?n - ?lb) (filter (\<lambda>m. ?k \<le> m) ?ids))) = int (length (filter (\<lambda>m. ?k \<le> m) ?ids)) - r"
    using n True r lower_bound_idx_le [of "\<lambda>m. m" ?k ?ids] by (simp add: min_def) linarith
  then have "hidden_below S ?k (take ?n ?ids) = hidden_below S ?k ?ids"
    "hidden_above S ?k (take ?n ?ids) = hidden_above S ?k ?ids + r"
    using hidden_sides [OF a fin] hidden_sides [OF t fin] sides_cut(2) [OF s n] by simp_all
  then show ?thesis using True v t by (auto simp: limit_end_def builder_view_def)
qed

lemma lower_bound_drop:
  "n \<le> lower_bound_idx (\<lambda>m. m) k ids \<Longrightarrow>
   lower_bound_idx (\<lambda>m. m) k (drop n ids) = lower_bound_idx (\<lambda>m. m) k ids - n"
proof (induction ids arbitrary: n)
  case (Cons x ids)
  then show ?case by (cases n) (auto simp: lower_bound_idx_def split: if_splits)
qed (simp add: lower_bound_idx_def)

text \<open>The builder after the two cuts, before the count is asked for.\<close>

definition cut_to_limits :: "'m::linorder builder \<Rightarrow> 'm builder" where
  "cut_to_limits b =
     (let around = lower_bound_idx (\<lambda>m. m) (b_key b) (b_ids b)
      in fst (limit_end (int (length (b_ids b)) - int around - b_limitAfter b - 1)
           (fst (limit_begin (int around - b_limitBefore b) b))))"

lemma limit_begin_fields:
  "b_key (fst (limit_begin r b)) = b_key b" "b_limitBefore (fst (limit_begin r b)) = b_limitBefore b"
  "b_limitAfter (fst (limit_begin r b)) = b_limitAfter b"
  "b_fullCount (fst (limit_begin r b)) = b_fullCount b"
  "b_skippedAfter (fst (limit_begin r b)) = b_skippedAfter b"
  "b_ids (fst (limit_begin r b)) = drop (nat r) (b_ids b)"
  "requests (fst (limit_begin r b)) = (if r < 0 \<and> (case b_skippedBefore b of None \<Rightarrow> True | Some n \<Rightarrow> n > 0)
     then requests (requestMessages Before b) else requests b)"
  by (simp_all add: limit_begin_def requestMessages_def)

lemma limit_end_fields:
  "b_key (fst (limit_end r b)) = b_key b" "b_limitBefore (fst (limit_end r b)) = b_limitBefore b"
  "b_limitAfter (fst (limit_end r b)) = b_limitAfter b"
  "b_fullCount (fst (limit_end r b)) = b_fullCount b"
  "b_ids (fst (limit_end r b)) = take (length (b_ids b) - nat r) (b_ids b)"
  "requests (fst (limit_end r b)) = (if r < 0 \<and> (case b_skippedAfter b of None \<Rightarrow> True | Some n \<Rightarrow> n > 0)
     then requests (requestMessages After b) else requests b)"
  by (simp_all add: limit_end_def requestMessages_def)

lemma sliceToLimits_cut:
  "valid (b_key b) \<Longrightarrow> \<exists>rs. sliceToLimits valid nil b = (cut_to_limits b)\<lparr>requests := requests (cut_to_limits b) @ rs\<rparr>"
  by (auto simp: sliceToLimits_def cut_to_limits_def Let_def requestMessagesCount_def split_beta
      intro: exI [of _ "[]"])

lemma cut_to_limits_view:
  assumes v: "builder_view S b" and fin: "finite S"
    and lim: "0 \<le> b_limitBefore b" "0 \<le> b_limitAfter b"
  shows "builder_view S (cut_to_limits b)"
proof -
  let ?n = "lower_bound_idx (\<lambda>m. m) (b_key b) (b_ids b)"
  let ?r = "int ?n - b_limitBefore b"
  let ?b = "fst (limit_begin ?r b)"
  have v1: "builder_view S ?b" by (rule limit_begin_view [OF v fin]) (use lim in simp)
  have "lower_bound_idx (\<lambda>m. m) (b_key b) (drop (nat ?r) (b_ids b)) = ?n - nat ?r"
    by (rule lower_bound_drop) (use lim in simp)
  moreover have "nat ?r \<le> ?n" "?n \<le> length (b_ids b)" using lim lower_bound_idx_le by auto
  ultimately have "builder_view S (fst (limit_end (int (length (b_ids b)) - int ?n - b_limitAfter b - 1) ?b))"
    by (intro limit_end_view [OF v1 fin]) (use lim in \<open>simp add: limit_begin_fields of_nat_diff\<close>)
  then show ?thesis by (simp add: cut_to_limits_def Let_def)
qed

lemma cut_to_limits_shape:
  assumes s: "strictly_sorted (b_ids b)" and lim: "0 \<le> b_limitBefore b" "0 \<le> b_limitAfter b"
  shows "int (length (filter (\<lambda>m. m < b_key b) (b_ids (cut_to_limits b))))
      = min (b_limitBefore b) (int (length (filter (\<lambda>m. m < b_key b) (b_ids b))))
    \<and> int (length (filter (\<lambda>m. b_key b \<le> m) (b_ids (cut_to_limits b))))
      = min (b_limitAfter b + 1) (int (length (filter (\<lambda>m. b_key b \<le> m) (b_ids b))))"
proof -
  let ?k = "b_key b" and ?ids = "b_ids b"
  let ?n = "lower_bound_idx (\<lambda>m. m) ?k ?ids"
  let ?x = "filter (\<lambda>m. m < ?k) ?ids" and ?y = "filter (\<lambda>m. ?k \<le> m) ?ids"
  define i j where "i = nat (int ?n - b_limitBefore b)"
    and "j = nat (int (length ?ids) - int ?n - b_limitAfter b - 1)"
  have xy: "?ids = ?x @ ?y" "length ?x = ?n"
    using lower_bound_anchored [OF s, of ?k] append_take_drop_id [of ?n ?ids] lower_bound_idx_le [of "\<lambda>m. m" ?k ?ids]
    by (metis, metis length_take min_absorb2)
  have ly: "length ?y = length ?ids - ?n" using xy by (metis add_diff_cancel_left' length_append)
  have ij: "i \<le> ?n" "j \<le> length ?y" using lim ly unfolding i_def j_def by auto
  have "b_ids (cut_to_limits b) = take (length ?ids - i - j) (drop i ?ids)"
    by (simp add: cut_to_limits_def Let_def limit_begin_fields limit_end_fields i_def j_def)
  also have "\<dots> = drop i ?x @ take (length ?y - j) ?y"
  proof -
    have "drop i ?ids = drop i ?x @ ?y" by (subst xy(1)) (use ij xy(2) in simp)
    moreover have "length ?ids - i - j = length (drop i ?x) + (length ?y - j)"
      using ij xy(2) ly lower_bound_idx_le [of "\<lambda>m. m" ?k ?ids] by simp
    ultimately show ?thesis by simp
  qed
  finally have ids: "b_ids (cut_to_limits b) = drop i ?x @ take (length ?y - j) ?y" .
  have x: "\<forall>m \<in> set (drop i ?x). m < ?k" by (auto dest: in_set_dropD)
  have y: "\<forall>m \<in> set (take (length ?y - j) ?y). ?k \<le> m" by (auto dest: in_set_takeD)
  have "filter (\<lambda>m. m < ?k) (b_ids (cut_to_limits b)) = drop i ?x"
    unfolding ids by (rule filter_halves(1) [OF x]) (use y not_less in blast)
  moreover have "filter (\<lambda>m. ?k \<le> m) (b_ids (cut_to_limits b)) = take (length ?y - j) ?y"
    unfolding ids by (rule filter_halves(2) [OF _ y]) (use x not_le in blast)
  ultimately show ?thesis
    using ij xy(2) ly lim lower_bound_idx_le [of "\<lambda>m. m" ?k ?ids] unfolding i_def j_def by auto
qed

lemma anchored_all_before:
  assumes "anchored S k ids" "x \<in> set ids" "{m \<in> S. m < x} = {}"
  shows "{m \<in> S. m < k} = {m \<in> set ids. m < k}"
proof -
  have "x \<le> m" if "m \<in> S" for m using assms(3) that not_less by blast
  then show ?thesis using assms(1,2) unfolding anchored_def by blast
qed

lemma anchored_all_after:
  assumes "anchored S k ids" "x \<in> set ids" "{m \<in> S. x < m} = {}"
  shows "{m \<in> S. k \<le> m} = {m \<in> set ids. k \<le> m}"
proof -
  have "m \<le> x" if "m \<in> S" for m using assms(3) that not_less by blast
  then show ?thesis using assms(1,2) unfolding anchored_def by blast
qed

text \<open>
  When no request for more messages was made, the window is complete: it holds as many messages
  on each side of the key as the limits allow and the server's list has.
\<close>

lemma cut_to_limits_complete:
  assumes v: "builder_view S b" and fin: "finite S"
    and lim: "0 \<le> b_limitBefore b" "0 \<le> b_limitAfter b"
    and quiet: "requests (cut_to_limits b) = requests b"
  shows "int (length (filter (\<lambda>m. m < b_key b) (b_ids (cut_to_limits b))))
      = min (b_limitBefore b) (int (card {m \<in> S. m < b_key b}))
    \<and> int (length (filter (\<lambda>m. b_key b \<le> m) (b_ids (cut_to_limits b))))
      = min (b_limitAfter b + 1) (int (card {m \<in> S. b_key b \<le> m}))"
proof -
  let ?k = "b_key b" and ?ids = "b_ids b"
  let ?n = "lower_bound_idx (\<lambda>m. m) ?k ?ids"
  have a: "anchored S ?k ?ids" using v by (simp add: builder_view_def)
  then have s: "strictly_sorted ?ids" by (simp add: anchored_def)
  note sides = hidden_sides [OF a fin]
  note lx = sides_cut(3) [OF s, of ?k]
  have ly: "int (length (filter (\<lambda>m. ?k \<le> m) ?ids)) = int (length ?ids) - int ?n"
    using sum_length_filter_compl [of "\<lambda>m. m < ?k" ?ids] lx by (simp add: not_less)
  have zb: "hidden_below S ?k ?ids = 0" if less: "int ?n < b_limitBefore b"
  proof -
    obtain n where "b_skippedBefore b = Some n" "n \<le> 0"
      using quiet less
      by (auto simp: cut_to_limits_def Let_def limit_begin_fields limit_end_fields requestMessages_def
          split: if_splits option.splits)
    then show ?thesis using v hidden_simps(3) [of S ?k ?ids] by (auto simp: builder_view_def intro: order_antisym)
  qed
  have za: "hidden_above S ?k ?ids = 0" if less: "int (length ?ids) - int ?n < b_limitAfter b + 1"
  proof -
    have "int (length ?ids) - int ?n - b_limitAfter b - 1 < 0" using less by simp
    then obtain n where "b_skippedAfter b = Some n" "n \<le> 0"
      using quiet
      by (auto simp: cut_to_limits_def Let_def limit_begin_fields limit_end_fields requestMessages_def
          split: if_splits option.splits)
    then show ?thesis using v hidden_simps(4) [of S ?k ?ids] by (auto simp: builder_view_def intro: order_antisym)
  qed
  have arith: "f = min L c" if "i < L \<Longrightarrow> h = 0" "0 \<le> h" "c = h + i" "f = min L i" for f L c h i :: int
    using that by (cases "i < L") auto
  note shape = cut_to_limits_shape [OF s lim]
  show ?thesis
  proof
    show "int (length (filter (\<lambda>m. m < ?k) (b_ids (cut_to_limits b)))) = min (b_limitBefore b) (int (card {m \<in> S. m < ?k}))"
      by (rule arith [of "int ?n" _ "hidden_below S ?k ?ids"]) (use zb shape sides lx in simp_all)
    show "int (length (filter (\<lambda>m. ?k \<le> m) (b_ids (cut_to_limits b)))) = min (b_limitAfter b + 1) (int (card {m \<in> S. ?k \<le> m}))"
      by (rule arith [of "int (length ?ids) - int ?n" _ "hidden_above S ?k ?ids"]) (use za shape sides ly in simp_all)
  qed
qed

subsection \<open>Merging\<close>

lemma next_skipped_before:
  assumes a: "anchored S k ids" and fin: "finite S" and new: "x \<in> set ids"
    and given: "\<forall>n. given = Some n \<longrightarrow> n = below S x"
    and old: "\<forall>e n. oldEnd = Some e \<and> old = Some n \<longrightarrow> e \<in> set ids \<and> n = below S e"
  shows "\<exists>r. next_skipped adjustSkippedBefore ids x given oldEnd old = Some r
    \<and> (\<forall>n. r = Some n \<longrightarrow> n = below S (hd ids))"
  using adjusted_before [OF a fin] new given old
  by (auto simp: next_skipped_def split: option.splits)

lemma next_skipped_after:
  assumes a: "anchored S k ids" and fin: "finite S" and new: "x \<in> set ids"
    and given: "\<forall>n. given = Some n \<longrightarrow> n = above S x"
    and old: "\<forall>e n. oldEnd = Some e \<and> old = Some n \<longrightarrow> e \<in> set ids \<and> n = above S e"
  shows "\<exists>r. next_skipped adjustSkippedAfter ids x given oldEnd old = Some r
    \<and> (\<forall>n. r = Some n \<longrightarrow> n = above S (last ids))"
  using adjusted_after [OF a fin] new given old
  by (auto simp: next_skipped_def split: option.splits)

text \<open>A merge: the new messages fit the window, and the numbers that come with them are true.\<close>

definition fits :: "'m::linorder set \<Rightarrow> 'm builder \<Rightarrow> int option \<Rightarrow> 'm list \<Rightarrow> int option \<Rightarrow> int option \<Rightarrow> bool" where
  "fits S b count ms before after \<longleftrightarrow>
     (\<forall>c. count = Some c \<longrightarrow> c = int (card S))
     \<and> (ms \<noteq> [] \<longrightarrow> anchored S (b_key b) (flat_merge (b_ids b) ms)
          \<and> (\<forall>n. before = Some n \<longrightarrow> n = below S (hd ms)) \<and> (\<forall>n. after = Some n \<longrightarrow> n = above S (last ms)))"

text \<open>What is true of a builder after it took new data: a view, within the limits, complete when quiet.\<close>

definition settled :: "'m::linorder set \<Rightarrow> 'm builder \<Rightarrow> 'm builder \<Rightarrow> bool" where
  "settled S b b' \<longleftrightarrow> builder_view S b' \<and> b_key b' = b_key b
     \<and> b_limitBefore b' = b_limitBefore b \<and> b_limitAfter b' = b_limitAfter b
     \<and> int (length (filter (\<lambda>m. m < b_key b) (b_ids b'))) \<le> b_limitBefore b
     \<and> int (length (filter (\<lambda>m. b_key b \<le> m) (b_ids b'))) \<le> b_limitAfter b + 1
     \<and> (\<exists>rs. requests b' = requests b @ rs)
     \<and> (requests b' = requests b \<longrightarrow>
          int (length (filter (\<lambda>m. m < b_key b) (b_ids b'))) = min (b_limitBefore b) (int (card {m \<in> S. m < b_key b}))
        \<and> int (length (filter (\<lambda>m. b_key b \<le> m) (b_ids b'))) = min (b_limitAfter b + 1) (int (card {m \<in> S. b_key b \<le> m})))"

lemma cut_requests: "\<exists>rs. requests (cut_to_limits b) = requests b @ rs"
  by (simp add: cut_to_limits_def Let_def limit_begin_fields limit_end_fields requestMessages_def)

lemma fillSkipped_settled:
  assumes v: "builder_view S b" and fin: "finite S" and lim: "0 \<le> b_limitBefore b" "0 \<le> b_limitAfter b"
    and k: "valid (b_key b)"
  shows "settled S b (fillSkippedAndSliceToLimits valid nil b)"
proof -
  let ?f = "fill_skipped b"
  note f = fill_skipped_view [OF v fin]
  have lim': "0 \<le> b_limitBefore ?f" "0 \<le> b_limitAfter ?f" using f lim by simp_all
  obtain rs where rs: "sliceToLimits valid nil ?f = (cut_to_limits ?f)\<lparr>requests := requests (cut_to_limits ?f) @ rs\<rparr>"
    using sliceToLimits_cut [of valid ?f nil] f k by auto
  have s: "strictly_sorted (b_ids ?f)" using f by (auto simp: builder_view_def anchored_def)
  have v': "builder_view S (cut_to_limits ?f)" by (rule cut_to_limits_view [OF _ fin lim']) (use f in simp)
  have c: "b_key (cut_to_limits ?f) = b_key b" "b_limitBefore (cut_to_limits ?f) = b_limitBefore b"
      "b_limitAfter (cut_to_limits ?f) = b_limitAfter b"
    using f by (simp_all add: cut_to_limits_def Let_def limit_begin_fields limit_end_fields)
  obtain rs' where "requests (cut_to_limits ?f) = requests ?f @ rs'" using cut_requests by blast
  then show ?thesis
    unfolding settled_def fillSkippedAndSliceToLimits_def rs
    using v' c f cut_to_limits_shape [OF s lim'] cut_to_limits_complete [of S ?f, OF _ fin lim']
    by (auto simp: builder_view_def)
qed

lemma mergeSliceData_settled:
  assumes v: "builder_view S b" and fin: "finite S" and lim: "0 \<le> b_limitBefore b" "0 \<le> b_limitAfter b"
    and k: "valid (b_key b)" and fits: "fits S b count ms before after"
  shows "\<exists>b'. mergeSliceData valid nil count ms before after b = Some b' \<and> settled S b b'"
proof (cases "ms = []")
  case True
  have none: "hidden_below S (b_key b) (b_ids b) = 0 \<and> hidden_above S (b_key b) (b_ids b) = 0
      \<and> int (length (b_ids b)) = int (card S)" if "int (card S) \<le> int (length (b_ids b))"
    using that anchored_total [of S "b_key b" "b_ids b"] v fin hidden_simps(3,4) [of S "b_key b" "b_ids b"]
    unfolding builder_view_def by linarith
  define b1 where "b1 = (if count \<noteq> None \<and> b_fullCount b \<noteq> count
      then (if the count \<le> int (length (b_ids b))
            then b\<lparr>b_fullCount := Some (int (length (b_ids b))), b_skippedBefore := Some 0, b_skippedAfter := Some 0\<rparr>
            else b\<lparr>b_fullCount := count\<rparr>) else b)"
  have "builder_view S b1"
  proof (cases "count \<noteq> None \<and> b_fullCount b \<noteq> count")
    case new: True
    then have c: "count = Some (int (card S))" using fits by (auto simp: fits_def)
    show ?thesis
    proof (cases "int (card S) \<le> int (length (b_ids b))")
      case True
      from none [OF True] v True new c show ?thesis by (simp add: b1_def builder_view_def)
    next
      case False
      with v new c show ?thesis by (simp add: b1_def builder_view_def)
    qed
  next
    case False
    then have "b1 = b" unfolding b1_def by (rule if_not_P)
    with v show ?thesis by simp
  qed
  then have "settled S b1 (fillSkippedAndSliceToLimits valid nil b1)"
    by (rule fillSkipped_settled [OF _ fin]) (use lim k in \<open>simp_all add: b1_def\<close>)
  moreover have "b_key b1 = b_key b" "b_limitBefore b1 = b_limitBefore b" "b_limitAfter b1 = b_limitAfter b"
      "requests b1 = requests b" by (simp_all add: b1_def)
  moreover have "mergeSliceData valid nil count ms before after b = Some (fillSkippedAndSliceToLimits valid nil b1)"
    using True by (simp add: mergeSliceData_def b1_def)
  ultimately show ?thesis by (simp add: settled_def)
next
  case False
  let ?ids = "flat_merge (b_ids b) ms"
  let ?min = "if b_ids b = [] then None else Some (hd (b_ids b))"
  let ?max = "if b_ids b = [] then None else Some (last (b_ids b))"
  have a: "anchored S (b_key b) ?ids" and n: "\<forall>n. before = Some n \<longrightarrow> n = below S (hd ms)"
      "\<forall>n. after = Some n \<longrightarrow> n = above S (last ms)" and c: "\<forall>c. count = Some c \<longrightarrow> c = int (card S)"
    using fits False by (auto simp: fits_def)
  have o1: "\<forall>e n. ?min = Some e \<and> b_skippedBefore b = Some n \<longrightarrow> e \<in> set ?ids \<and> n = below S e"
    and o2: "\<forall>e n. ?max = Some e \<and> b_skippedAfter b = Some n \<longrightarrow> e \<in> set ?ids \<and> n = above S e"
    using v by (auto simp: builder_view_def)
  obtain sb where sb: "next_skipped adjustSkippedBefore ?ids (hd ms) before ?min (b_skippedBefore b) = Some sb"
      "\<forall>n. sb = Some n \<longrightarrow> n = below S (hd ?ids)"
    using next_skipped_before [OF a fin _ n(1) o1] False by auto
  obtain sa where sa: "next_skipped adjustSkippedAfter ?ids (last ms) after ?max (b_skippedAfter b) = Some sa"
      "\<forall>n. sa = Some n \<longrightarrow> n = above S (last ?ids)"
    using next_skipped_after [OF a fin _ n(2) o2] False by auto
  define b1 where "b1 = b\<lparr>b_fullCount := (if count \<noteq> None then count else b_fullCount b), b_ids := ?ids,
      b_skippedBefore := sb, b_skippedAfter := sa\<rparr>"
  have "?ids \<noteq> []" using False set_flat_merge [of "b_ids b" ms] by (metis Un_empty set_empty)
  then have "builder_view S b1" using a sb sa c v by (auto simp: b1_def builder_view_def)
  then have "settled S b1 (fillSkippedAndSliceToLimits valid nil b1)"
    by (rule fillSkipped_settled [OF _ fin]) (use lim k in \<open>simp_all add: b1_def\<close>)
  moreover have "b_key b1 = b_key b" "b_limitBefore b1 = b_limitBefore b" "b_limitAfter b1 = b_limitAfter b"
      "requests b1 = requests b" by (simp_all add: b1_def)
  moreover have "mergeSliceData valid nil count ms before after b = Some (fillSkippedAndSliceToLimits valid nil b1)"
    unfolding mergeSliceData_def Let_def sb(1) sa(1) b1_def using False by simp
  ultimately show ?thesis by (simp add: settled_def)
qed

text \<open>A true update: the messages of \<open>S\<close> in its range, and the size of \<open>S\<close>.\<close>

definition update_of :: "'m::linorder set \<Rightarrow> 'm slice_update \<Rightarrow> bool" where
  "update_of S u \<longleftrightarrow> (\<forall>c. upd_count u = Some c \<longrightarrow> c = int (card S))
     \<and> (\<forall>ms. upd_messages u = Some ms \<longrightarrow> strictly_sorted ms
          \<and> set ms = S \<inter> {from (upd_range u) .. till (upd_range u)})"

lemma anchored_merge:
  assumes a: "anchored S k ids" and ms: "set ms = S \<inter> {f..t}"
    and meet: "if ids = [] then f \<le> k \<and> k \<le> t else f \<le> last ids \<and> hd ids \<le> t"
  shows "anchored S k (flat_merge ids ms)"
proof -
  have s: "strictly_sorted ids" "set ids \<subseteq> S" using a by (auto simp: anchored_def)
  have closed: "m \<in> set ids \<union> set ms" if x: "x \<in> set ids \<union> set ms" and m: "m \<in> S"
      and w: "x \<le> m \<and> m < k \<or> k \<le> m \<and> m \<le> x" for x m
  proof (cases "x \<in> set ids")
    case True
    then show ?thesis using a m w unfolding anchored_def by blast
  next
    case False
    then have x: "f \<le> x" "x \<le> t" using x ms by auto
    show ?thesis
    proof (cases "ids = []")
      case True
      then show ?thesis using meet x w m ms by auto
    next
      case ne: False
      have h: "hd ids \<in> set ids" "last ids \<in> set ids" using ne by auto
      from w show ?thesis
      proof
        assume w: "x \<le> m \<and> m < k"
        show ?thesis
        proof (cases "m < hd ids")
          case True
          then show ?thesis using meet ne x w m ms by auto
        next
          case False
          then show ?thesis using a h(1) m w unfolding anchored_def by (meson UnI1 not_less)
        qed
      next
        assume w: "k \<le> m \<and> m \<le> x"
        show ?thesis
        proof (cases "last ids < m")
          case True
          then show ?thesis using meet ne x w m ms by auto
        next
          case False
          then show ?thesis using a h(2) m w unfolding anchored_def by (meson UnI1 not_less)
        qed
      qed
    qed
  qed
  have "set ids \<union> set ms \<subseteq> S" using s ms by blast
  with closed s show ?thesis unfolding anchored_def set_flat_merge by simp
qed

lemma update_fits:
  fixes lo :: "'m::linorder"
  assumes v: "builder_view S b" and fin: "finite S" and S: "S \<subseteq> {lo..hi}" and u: "update_of S upd"
    and need: "need \<longleftrightarrow> (upd_messages upd \<noteq> None) \<and> intersects (upd_range upd)
            \<lparr>from = (if b_ids b = [] then b_key b else hd (b_ids b)),
             till = (if b_ids b = [] then b_key b else last (b_ids b))\<rparr>"
  shows "fits S b (upd_count upd) (if need then the (upd_messages upd) else [])
     (if from (upd_range upd) = lo then Some 0 else None) (if till (upd_range upd) = hi then Some 0 else None)"
proof (cases "need \<and> the (upd_messages upd) \<noteq> []")
  case False
  then have "(if need then the (upd_messages upd) else []) = []" by auto
  then show ?thesis using u by (simp add: fits_def update_of_def)
next
  case True
  then obtain ms where ms: "upd_messages upd = Some ms" "ms \<noteq> []" using need by auto
  let ?f = "from (upd_range upd)" and ?t = "till (upd_range upd)"
  have set: "set ms = S \<inter> {?f..?t}" "strictly_sorted ms" using u ms by (auto simp: update_of_def)
  have meet: "if b_ids b = [] then ?f \<le> b_key b \<and> b_key b \<le> ?t else ?f \<le> last (b_ids b) \<and> hd (b_ids b) \<le> ?t"
    using need True by (auto simp: intersects_def)
  have "anchored S (b_key b) (flat_merge (b_ids b) ms)"
    by (rule anchored_merge [OF _ set(1) meet]) (use v in \<open>simp add: builder_view_def\<close>)
  moreover have "below S (hd ms) = 0" if "?f = lo"
  proof -
    have "hd ms \<in> set ms" using ms by simp
    then have "m \<in> set ms" if "m \<in> S" "m < hd ms" for m using that S set(1) \<open>?f = lo\<close> by fastforce
    then have none: "{m \<in> S. m < hd ms} = {}" using strictly_sorted_hd_le [OF set(2)] by force
    show ?thesis by (simp only: below_def none card.empty of_nat_0)
  qed
  moreover have "above S (last ms) = 0" if "?t = hi"
  proof -
    have "last ms \<in> set ms" using ms by simp
    then have "m \<in> set ms" if "m \<in> S" "last ms < m" for m using that S set(1) \<open>?t = hi\<close> by fastforce
    then have none: "{m \<in> S. last ms < m} = {}" using strictly_sorted_last_ge [OF set(2)] by force
    show ?thesis by (simp only: above_def none card.empty of_nat_0)
  qed
  ultimately show ?thesis using True u ms by (auto simp: fits_def update_of_def)
qed

lemma applyUpdate_settled:
  fixes lo :: "'m::linorder"
  assumes v: "builder_view S b" and fin: "finite S" and S: "S \<subseteq> {lo..hi}" and u: "update_of S upd"
    and lim: "0 \<le> b_limitBefore b" "0 \<le> b_limitAfter b" and k: "valid (b_key b)"
  shows "applyUpdate valid nil lo hi upd b = Some (False, b)
    \<or> (\<exists>b'. applyUpdate valid nil lo hi upd b = Some (True, b') \<and> settled S b b')"
proof -
  define need where "need \<longleftrightarrow> (upd_messages upd \<noteq> None) \<and> intersects (upd_range upd)
            \<lparr>from = (if b_ids b = [] then b_key b else hd (b_ids b)),
             till = (if b_ids b = [] then b_key b else last (b_ids b))\<rparr>"
  note fits = update_fits [OF v fin S u need_def]
  have "\<exists>b'. mergeSliceData valid nil (upd_count upd) (if need then the (upd_messages upd) else [])
     (if from (upd_range upd) = lo then Some 0 else None) (if till (upd_range upd) = hi then Some 0 else None) b
       = Some b' \<and> settled S b b'"
    by (rule mergeSliceData_settled [where valid = valid, OF v fin lim k fits])
  then obtain b' where b': "mergeSliceData valid nil (upd_count upd) (if need then the (upd_messages upd) else [])
     (if from (upd_range upd) = lo then Some 0 else None) (if till (upd_range upd) = hi then Some 0 else None) b
       = Some b'" "settled S b b'" by blast
  have "applyUpdate valid nil lo hi upd b
      = (if \<not> need \<and> upd_count upd = None then Some (False, b) else Some (True, b'))"
    unfolding applyUpdate_def Let_def need_def [symmetric] b'(1) option.map(2) ..
  with b'(2) show ?thesis by (cases "\<not> need \<and> upd_count upd = None") simp_all
qed

text \<open>The first result: a window of the list around the key, given to an empty builder.\<close>

lemma window_anchored: "window_of S a res \<Longrightarrow> anchored S a (messageIds res)"
  unfolding window_of_def anchored_def by (elim conjE, intro conjI)

lemma applyInitial_settled:
  assumes w: "window_of S (b_key b) res" and c: "\<forall>c. res_count res = Some c \<longrightarrow> c = int (card S)"
    and v: "builder_view S b" and e: "b_ids b = []" and fin: "finite S"
    and lim: "0 \<le> b_limitBefore b" "0 \<le> b_limitAfter b" and k: "valid (b_key b)"
  shows "\<exists>b'. applyInitial valid nil res b = Some b' \<and> settled S b b'"
proof -
  note a = window_anchored [OF w]
  have "strictly_sorted (messageIds res)" using a by (simp add: anchored_def)
  then have m: "flat_merge [] (messageIds res) = messageIds res" by (rule flat_merge_id)
  have "fits S b (res_count res) (messageIds res) (skippedBefore res) (skippedAfter res)"
    unfolding fits_def e m
  proof (intro conjI impI)
    assume ne: "messageIds res \<noteq> []"
    note sides = anchored_sides [OF a fin ne]
    show "anchored S (b_key b) (messageIds res)" by (rule a)
    show "\<forall>n. skippedBefore res = Some n \<longrightarrow> n = below S (hd (messageIds res))"
      using w sides unfolding window_of_def by (metis add_right_cancel)
    show "\<forall>n. skippedAfter res = Some n \<longrightarrow> n = above S (last (messageIds res))"
      using w sides unfolding window_of_def by (metis add_right_cancel)
  qed (rule c)
  then show ?thesis
    unfolding applyInitial_def by (rule mergeSliceData_settled [where valid = valid, OF v fin lim k])
qed

subsection \<open>Removing a message\<close>

lemma sliceToLimits_view:
  assumes v: "builder_view S b" and fin: "finite S" and lim: "0 \<le> b_limitBefore b" "0 \<le> b_limitAfter b"
  shows "builder_view S (sliceToLimits valid nil b)"
proof (cases "valid (b_key b)")
  case False
  with v show ?thesis by (simp add: sliceToLimits_def requestMessagesCount_def builder_view_def)
next
  case True
  with sliceToLimits_cut [of valid b nil] cut_to_limits_view [OF v fin lim] show ?thesis
    by (auto simp: builder_view_def)
qed

lemma anchored_remove:
  assumes "anchored S k ids"
  shows "anchored (S - {m}) k (flat_remove m ids)"
proof -
  have "strictly_sorted (flat_remove m ids)" "set ids \<subseteq> S" using assms by (simp_all add: anchored_def)
  moreover have "y \<in> set ids" if "x \<in> set ids" "y \<in> S" "x \<le> y \<and> y < k \<or> k \<le> y \<and> y \<le> x" for x y
    using assms that unfolding anchored_def by blast
  ultimately show ?thesis unfolding anchored_def set_flat_remove by blast
qed

lemma card_remove_where:
  assumes "finite S" "m \<in> S"
  shows "int (card {y \<in> S - {m}. P y}) = int (card {y \<in> S. P y}) - (if P m then 1 else 0)"
proof (cases "P m")
  case True
  then have m: "m \<in> {y \<in> S. P y}" and fin: "finite {y \<in> S. P y}" using assms by auto
  have eq: "{y \<in> S - {m}. P y} = {y \<in> S. P y} - {m}" by auto
  have "card {y \<in> S. P y} = Suc (card ({y \<in> S. P y} - {m}))" using card.remove [OF fin m] by simp
  with True show ?thesis unfolding eq by simp
next
  case False
  then have "{y \<in> S - {m}. P y} = {y \<in> S. P y}" by auto
  with False show ?thesis by simp
qed

lemma below_remove: "finite S \<Longrightarrow> m \<in> S \<Longrightarrow> below (S - {m}) x = below S x - (if m < x then 1 else 0)"
  unfolding below_def by (rule card_remove_where)

lemma above_remove: "finite S \<Longrightarrow> m \<in> S \<Longrightarrow> above (S - {m}) x = above S x - (if x < m then 1 else 0)"
  unfolding above_def by (rule card_remove_where)

text \<open>Removing a shown message leaves the numbers of hidden ones alone.\<close>

lemma hidden_after_remove:
  assumes a: "anchored S k ids" and fin: "finite S" and m: "m \<in> set ids"
  shows "hidden_below (S - {m}) k (flat_remove m ids) = hidden_below S k ids
    \<and> hidden_above (S - {m}) k (flat_remove m ids) = hidden_above S k ids"
proof -
  have s: "strictly_sorted ids" "set ids \<subseteq> S" using a by (simp_all add: anchored_def)
  then have mS: "m \<in> S" using m by blast
  have "int (length (filter P (flat_remove m ids))) = int (length (filter P ids)) - (if P m then 1 else 0)" for P
  proof -
    have "length (filter P (flat_remove m ids)) = card {y \<in> set ids - {m}. P y}" "length (filter P ids) = card {y \<in> set ids. P y}"
      using strictly_sorted_length [OF sorted_wrt_filter [OF strictly_sorted_flat_remove [OF s(1)]], of P m]
        strictly_sorted_length [OF sorted_wrt_filter [OF s(1)], of P] by simp_all
    then show ?thesis using card_remove_where [of "set ids" m P] m by simp
  qed
  note this [of "\<lambda>y. y < k"] this [of "\<lambda>y. k \<le> y"]
  moreover note hidden_sides [OF a fin] hidden_sides [OF anchored_remove [OF a, of m] finite_Diff [OF fin]]
  moreover note card_remove_where [OF fin mS, of "\<lambda>y. y < k"] card_remove_where [OF fin mS, of "\<lambda>y. k \<le> y"]
  ultimately show ?thesis by linarith
qed

lemma remove_from_builder_view:
  assumes v: "builder_view S b" and fin: "finite S" and m: "m \<in> S" and ne: "b_ids b \<noteq> []"
  shows "builder_view (S - {m}) (snd (remove_from_builder m b))"
proof -
  let ?b = "case b_fullCount b of Some c \<Rightarrow> if c > 0 then b\<lparr>b_fullCount := Some (c - 1)\<rparr> else b | None \<Rightarrow> b"
  have a: "anchored S (b_key b) (b_ids b)" using v by (simp add: builder_view_def)
  have pos: "0 < card S" using fin m by (auto simp: card_gt_0_iff)
  then have card: "int (card (S - {m})) = int (card S) - 1" using fin m by (simp add: of_nat_diff)
  have cnt: "b_fullCount ?b = map_option (\<lambda>c. c - 1) (b_fullCount b)"
    using v pos by (auto simp: builder_view_def split: option.splits)
  have fields: "b_ids ?b = b_ids b" "b_key ?b = b_key b" "b_skippedBefore ?b = b_skippedBefore b"
      "b_skippedAfter ?b = b_skippedAfter b" by (auto split: option.splits)
  note an = anchored_remove [OF a, of m]
  show ?thesis
  proof (cases "m \<in> set (b_ids b)")
    case True
    then have r: "snd (remove_from_builder m b) = ?b\<lparr>b_ids := flat_remove m (b_ids b)\<rparr>"
      by (auto simp: remove_from_builder_def split: option.splits)
    show ?thesis
      unfolding r builder_view_def using an cnt card v hidden_after_remove [OF a fin True]
      by (auto simp: builder_view_def fields)
  next
    case False
    then have same: "flat_remove m (b_ids b) = b_ids b" by (auto simp: flat_remove_def intro: filter_True)
    have out: "m < hd (b_ids b) \<or> last (b_ids b) < m"
      using anchored_gapless [OF a _ _ m] ne False by (meson hd_in_set last_in_set not_less)
    have srt: "strictly_sorted (b_ids b)" using a by (simp add: anchored_def)
    have ord: "hd (b_ids b) \<le> last (b_ids b)"
      using strictly_sorted_hd_le [OF srt last_in_set [OF ne]] .
    have sub: "\<forall>n. b_skippedBefore b = Some n \<longrightarrow> n = below S (hd (b_ids b))"
        "\<forall>n. b_skippedAfter b = Some n \<longrightarrow> n = above S (last (b_ids b))"
      using v ne by (simp_all add: builder_view_def)
    have nn: "0 \<le> below (S - {m}) x" "0 \<le> above (S - {m}) x" for x by (simp_all add: below_def above_def)
    let ?r = "snd (remove_from_builder m b)"
    have r: "b_ids ?r = b_ids b" "b_key ?r = b_key b" "b_fullCount ?r = b_fullCount ?b"
      using False by (auto simp: remove_from_builder_def split: option.splits prod.splits bool.splits)
    have "b_skippedBefore ?r = map_option (\<lambda>n. if m < hd (b_ids b) then n - 1 else n) (b_skippedBefore b)
        \<and> b_skippedAfter ?r = map_option (\<lambda>n. if last (b_ids b) < m then n - 1 else n) (b_skippedAfter b)"
      using False ne ord sub nn(1) [of "hd (b_ids b)"] nn(2) [of "last (b_ids b)"]
        below_remove [OF fin m, of "hd (b_ids b)"] above_remove [OF fin m, of "last (b_ids b)"]
      by (auto simp: remove_from_builder_def split: option.splits prod.splits bool.splits if_splits)
    then show ?thesis
      unfolding builder_view_def r using an same cnt card v sub ne
        below_remove [OF fin m, of "hd (b_ids b)"] above_remove [OF fin m, of "last (b_ids b)"]
      by (auto simp: builder_view_def)
  qed
qed

subsection \<open>The two viewers\<close>

text \<open>
  C21. A viewer of a shared-media list starts a \<open>SparseIdsSliceBuilder\<close> with a snapshot of the
  list. For every state of the list that is a view of the server's list \<open>S\<close>, no assertion fails
  and the builder then shows a gapless part of \<open>S\<close> around the key within its limits; the counters it
  knows are the size of \<open>S\<close> and the numbers of messages hidden before and after what it shows, or
  before and from the key on when it shows nothing; and when it asks for nothing, what it shows is
  complete, also if that is nothing: on each side of the key it has as many messages as the limit
  allows and \<open>S\<close> has.
\<close>

theorem sparse_viewer_initial:
  assumes "sparse_view S st" "key \<noteq> 0" "0 \<le> before" "0 \<le> after"
  shows "\<exists>b. sparse_applyInitial (Sparse_Ids.snapshot st \<lparr>aroundId = key, limitBefore = before, limitAfter = after\<rparr>)
       (builder_init key before after) = Some b \<and> settled S (builder_init key before after) b"
proof -
  let ?q = "\<lparr>aroundId = key, limitBefore = before, limitAfter = after\<rparr>"
  have w: "window_of S key (Sparse_Ids.snapshot st ?q)"
    using snapshot_window [OF assms(1), of ?q] assms(3,4) by simp
  have c: "\<forall>c. res_count (Sparse_Ids.snapshot st ?q) = Some c \<longrightarrow> c = int (card S)"
    using sparse_viewD(6) [OF assms(1)]
    by (auto simp: Sparse_Ids.snapshot_def queryFromSlice_def Let_def empty_result_def split: option.splits if_splits)
  have "builder_view S (builder_init key before after)"
    by (simp add: builder_view_def builder_init_def anchored_def)
  then show ?thesis
    unfolding sparse_applyInitial_def
    by (intro applyInitial_settled) (use w c assms sparse_viewD(1) [OF assms(1)] in \<open>simp_all add: builder_init_def\<close>)
qed

definition example_sparse :: sparse_ids where
  "example_sparse = \<lparr>si_count = Some 2, si_slices = [\<lparr>messages = [5, 7], srange = \<lparr>from = 0, till = 9\<rparr>\<rparr>]\<rparr>"

lemma example_sparse_view: "sparse_view {5, 7} example_sparse"
  by (auto simp: sparse_view_def example_sparse_def slices_view_def slices_ok_def slice_ok_def span_def
      ServerMaxMsgId_def)

theorem sparse_viewer_initial_witness:
  "\<exists>b. sparse_applyInitial (Sparse_Ids.snapshot example_sparse \<lparr>aroundId = 6, limitBefore = 3, limitAfter = 3\<rparr>)
       (builder_init 6 3 3) = Some b \<and> settled {5, 7} (builder_init 6 3 3) b"
  using sparse_viewer_initial [OF example_sparse_view, of 6 3 3] by simp

text \<open>
  C22. Updates keep this. When a builder is a view of \<open>S\<close>, with true counters, and an update tells of the
  same \<open>S\<close>, its messages in some range or its size, then \<open>applyUpdate\<close> either returns \<open>false\<close> and
  changes nothing, or the builder again shows a gapless part of \<open>S\<close> around its key, within the limits,
  with true counters, and complete when nothing was asked for, whether it shows messages or none.
  The same holds for \<open>MessagesSliceBuilder\<close>.
\<close>

theorem viewer_update:
  assumes "finite S" "S \<subseteq> {0..ServerMaxMsgId}" "builder_view S b" "update_of S upd"
    and "b_key b \<noteq> 0" "0 \<le> b_limitBefore b" "0 \<le> b_limitAfter b"
    and "finite T" "T \<subseteq> {MinMessagePosition..MaxMessagePosition}" "builder_view T d" "update_of T upd'"
    and "position_valid (b_key d)" "0 \<le> b_limitBefore d" "0 \<le> b_limitAfter d"
  shows "(sparse_applyUpdate upd b = Some (False, b)
      \<or> (\<exists>b'. sparse_applyUpdate upd b = Some (True, b') \<and> settled S b b'))
    \<and> (messages_applyUpdate upd' d = Some (False, d)
      \<or> (\<exists>d'. messages_applyUpdate upd' d = Some (True, d') \<and> settled T d d'))"
  unfolding sparse_applyUpdate_def messages_applyUpdate_def
  using applyUpdate_settled [of S b 0 ServerMaxMsgId upd "\<lambda>k. k \<noteq> 0" 0, OF assms(3,1,2,4,6,7,5)]
    applyUpdate_settled [of T d MinMessagePosition MaxMessagePosition upd' position_valid no_position,
      OF assms(10,8,9,11,13,14,12)] by blast

theorem viewer_update_witness:
  "sparse_applyUpdate \<lparr>upd_messages = Some [5], upd_range = \<lparr>from = 0, till = 6\<rparr>, upd_count = Some 2\<rparr>
      (builder_init 5 1 1) = Some (False, builder_init 5 1 1)
   \<or> (\<exists>b'. sparse_applyUpdate \<lparr>upd_messages = Some [5], upd_range = \<lparr>from = 0, till = 6\<rparr>, upd_count = Some 2\<rparr>
      (builder_init 5 1 1) = Some (True, b') \<and> settled {5, 7} (builder_init 5 1 1) b')"
proof -
  let ?u = "\<lparr>upd_messages = Some [5], upd_range = \<lparr>from = 0, till = 6\<rparr>, upd_count = Some 2\<rparr>"
  let ?k = "example_position 1"
  let ?v = "\<lparr>upd_messages = None, upd_range = FullMessagesRange, upd_count = None\<rparr>"
  have b: "builder_view S (builder_init k 1 1)" for S :: "'m::linorder set" and k
    by (simp add: builder_view_def builder_init_def anchored_def)
  have u: "update_of {5, 7 :: MsgId} ?u" "update_of {} ?v" by (auto simp: update_of_def)
  show ?thesis
    by (rule viewer_update [OF _ _ b u(1) _ _ _ _ _ b [of _ ?k] u(2), THEN conjunct1])
      (simp_all add: builder_init_def ServerMaxMsgId_def position_valid_def example_position_def)
qed

text \<open>
  A builder that was emptied is a view of the empty list only. When an update then brings the size of
  the new list without messages around the key, it takes over the size but keeps that nothing is
  hidden, and asks for nothing.
\<close>

lemma emptied_builder_quiet:
  assumes "b_key b \<noteq> 0" "0 \<le> b_limitBefore b" "0 \<le> b_limitAfter b" "upd_messages upd = None" "upd_count upd = Some c" "0 < c"
  shows "sparse_applyUpdate upd (snd (builder_removeAll b)) = Some (True, (snd (builder_removeAll b))\<lparr>b_fullCount := Some c\<rparr>)"
  using assms by (simp add: sparse_applyUpdate_def applyUpdate_def mergeSliceData_def builder_removeAll_def
      fillSkippedAndSliceToLimits_def fill_skipped_def sliceToLimits_def lower_bound_idx_def limit_begin_def limit_end_def)

text \<open>
  When the server removes a message of \<open>S\<close>, \<open>removeOne\<close> of either builder that
  shows something leaves a view of \<open>S\<close> without it: the message is gone from the ids, the total and
  the hidden counters are those of the smaller list. A builder that shows nothing keeps its hidden
  counters.
\<close>

theorem viewer_remove:
  assumes "finite S" "builder_view S b" "m \<in> S" "0 \<le> b_limitBefore b" "0 \<le> b_limitAfter b"
    and "finite T" "builder_view T d" "p \<in> T" and ne: "b_ids b \<noteq> []" "b_ids d \<noteq> []"
  shows "builder_view (S - {m}) (snd (sparse_removeOne m b))
    \<and> builder_view (T - {p}) (snd (messages_removeOne p d))"
proof -
  have fields: "b_limitBefore (snd (remove_from_builder m b)) = b_limitBefore b"
      "b_limitAfter (snd (remove_from_builder m b)) = b_limitAfter b"
    by (auto simp: remove_from_builder_def split: option.splits prod.splits bool.splits)
  have v: "builder_view (S - {m}) (snd (remove_from_builder m b))"
    by (rule remove_from_builder_view [OF assms(2,1,3) ne(1)])
  have "builder_view (S - {m}) (sliceToLimits (\<lambda>k. k \<noteq> 0) 0 (snd (remove_from_builder m b)))"
    by (rule sliceToLimits_view [OF v]) (use assms fields in simp_all)
  with v have "builder_view (S - {m}) (snd (sparse_removeOne m b))"
    by (auto simp: sparse_removeOne_def split: prod.splits bool.splits)
  moreover have "builder_view (T - {p}) (snd (messages_removeOne p d))"
    unfolding messages_removeOne_def by (rule remove_from_builder_view [OF assms(7,6,8) ne(2)])
  ultimately show ?thesis ..
qed

theorem viewer_remove_witness:
  "builder_view ({5, 7} - {5}) (snd (sparse_removeOne 5
     ((builder_init 5 1 1)\<lparr>b_ids := [5, 7], b_fullCount := Some 2\<rparr>)))"
proof -
  let ?b = "(builder_init 5 1 1)\<lparr>b_ids := [5, 7 :: MsgId], b_fullCount := Some 2\<rparr>"
  let ?d = "(builder_init (example_position 1) 1 1)\<lparr>b_ids := [example_position 1]\<rparr>"
  have "builder_view {5, 7} ?b" "builder_view {example_position 1} ?d"
    by (auto simp: builder_view_def builder_init_def anchored_def)
  from viewer_remove [of "{5, 7}" ?b 5, OF _ this(1) _ _ _ _ this(2), of "example_position 1"]
  show ?thesis by (simp add: builder_init_def)
qed

end
