(* ===== verification/Merged_Slice.thy ===== *)
theory Merged_Slice
  imports Slice_Builder
begin

text \<open>
  \<open>AbstractSparseIds\<close> (\<open>data/data_abstract_sparse_ids.h\<close>) and \<open>SparseIdsMergedSlice\<close>
  (\<open>data/data_sparse_ids.{h,cpp}\<close>): the slice a viewer emits, and the slice of a chat that was
  migrated to a supergroup, which shows the messages of the old chat before those of the new one.
  A position is a \<open>UniversalMsgId\<close>: positive in the new chat, negative (counted down from
  \<open>ServerMaxMsgId\<close>) in the old one. Using \<open>_migrated->\<close> when there is no migrated slice, which
  C++ leaves undefined, and a failed \<open>Expects\<close> are \<open>None\<close>.
\<close>

subsection \<open>A slice of ids\<close>

record abstract_ids =
  as_ids :: "MsgId list"
  as_fullCount :: "int option"
  as_skippedBefore :: "int option"
  as_skippedAfter :: "int option"

definition no_ids :: abstract_ids where
  "no_ids = \<lparr>as_ids = [], as_fullCount = None, as_skippedBefore = None, as_skippedAfter = None\<rparr>"

definition as_indexOf :: "abstract_ids \<Rightarrow> MsgId \<Rightarrow> int option" where
  "as_indexOf s x = map_option int (find_index x (as_ids s))"

definition as_size :: "abstract_ids \<Rightarrow> int" where
  "as_size s = int (length (as_ids s))"

definition as_at :: "abstract_ids \<Rightarrow> int \<Rightarrow> MsgId option" where
  "as_at s index = (if 0 \<le> index \<and> index < as_size s then Some (as_ids s ! nat index) else None)"

definition as_distance :: "abstract_ids \<Rightarrow> MsgId \<Rightarrow> MsgId \<Rightarrow> int option" where
  "as_distance s a b =
     (case as_indexOf s a of
        Some i \<Rightarrow> (case as_indexOf s b of Some j \<Rightarrow> Some (j - i) | None \<Rightarrow> None)
      | None \<Rightarrow> None)"

definition as_nearest :: "abstract_ids \<Rightarrow> MsgId \<Rightarrow> MsgId option" where
  "as_nearest s x =
     (let k = lower_bound_idx (\<lambda>m. m) x (as_ids s)
      in if k < length (as_ids s) then Some (as_ids s ! k)
         else if as_ids s = [] then None
         else Some (last (as_ids s)))"

definition as_reverse :: "abstract_ids \<Rightarrow> abstract_ids" where
  "as_reverse s = s\<lparr>as_ids := rev (as_ids s), as_skippedBefore := as_skippedAfter s,
     as_skippedAfter := as_skippedBefore s\<rparr>"

definition builder_snapshot :: "MsgId builder \<Rightarrow> abstract_ids" where
  "builder_snapshot b = \<lparr>as_ids = b_ids b, as_fullCount = b_fullCount b,
     as_skippedBefore = b_skippedBefore b, as_skippedAfter = b_skippedAfter b\<rparr>"

subsection \<open>The merged slice\<close>

record merged_key =
  mk_peerId :: BareId
  mk_topicRootId :: MsgId
  mk_monoforumPeerId :: BareId
  mk_migratedPeerId :: BareId
  mk_universalId :: MsgId

definition merged_key_of :: "BareId \<Rightarrow> MsgId \<Rightarrow> BareId \<Rightarrow> BareId \<Rightarrow> MsgId \<Rightarrow> merged_key" where
  "merged_key_of peer topic monoforum migrated universal =
     \<lparr>mk_peerId = peer, mk_topicRootId = topic, mk_monoforumPeerId = monoforum,
      mk_migratedPeerId = (if topic \<noteq> 0 \<or> monoforum \<noteq> 0 then 0 else migrated), mk_universalId = universal\<rparr>"

record merged_slice =
  m_key :: merged_key
  m_part :: abstract_ids
  m_migrated :: "abstract_ids option"
  m_unsorted :: "abstract_ids option"

definition MigratedSlice :: "merged_key \<Rightarrow> abstract_ids option" where
  "MigratedSlice key = (if mk_migratedPeerId key \<noteq> 0 then Some no_ids else None)"

definition merged_of_key :: "merged_key \<Rightarrow> merged_slice" where
  "merged_of_key key = \<lparr>m_key = key, m_part = no_ids, m_migrated = MigratedSlice key, m_unsorted = None\<rparr>"

definition merged_of :: "merged_key \<Rightarrow> abstract_ids \<Rightarrow> abstract_ids option \<Rightarrow> merged_slice" where
  "merged_of key part migrated = \<lparr>m_key = key, m_part = part, m_migrated = migrated, m_unsorted = None\<rparr>"

definition merged_unsorted :: "merged_key \<Rightarrow> abstract_ids \<Rightarrow> merged_slice" where
  "merged_unsorted key unsorted =
     \<lparr>m_key = key, m_part = no_ids, m_migrated = None, m_unsorted = Some unsorted\<rparr>"

definition PartKey :: "merged_key \<Rightarrow> MsgId" where
  "PartKey key = (if mk_universalId key < 0 then 1 else mk_universalId key)"

definition MigratedKey :: "merged_key \<Rightarrow> MsgId" where
  "MigratedKey key =
     (if mk_universalId key < 0 then ServerMaxMsgId + mk_universalId key
      else if mk_universalId key > 0 then ServerMaxMsgId - 1 else 0)"

definition ComputeId :: "merged_key \<Rightarrow> FullMsgId" where
  "ComputeId key =
     (if mk_universalId key \<ge> 0 then FullMsgId (mk_peerId key) (mk_universalId key)
      else FullMsgId (mk_migratedPeerId key) (ServerMaxMsgId + mk_universalId key))"

definition Add :: "int option \<Rightarrow> int option \<Rightarrow> int option" where
  "Add a b = (case (a, b) of (Some x, Some y) \<Rightarrow> Some (x + y) | _ \<Rightarrow> None)"

definition isolatedInPart :: "merged_slice \<Rightarrow> bool" where
  "isolatedInPart m \<longleftrightarrow> IsServerMsgId (mk_universalId (m_key m))
     \<and> (m_migrated m = None \<or> as_skippedBefore (m_part m) \<noteq> Some 0)"

definition isolatedInMigrated :: "merged_slice \<Rightarrow> bool option" where
  "isolatedInMigrated m =
     (if IsServerMsgId (ServerMaxMsgId + mk_universalId (m_key m))
      then map_option (\<lambda>g. as_skippedAfter g \<noteq> Some 0) (m_migrated m)
      else Some False)"

definition migratedSize :: "merged_slice \<Rightarrow> int option" where
  "migratedSize m = (if isolatedInPart m then Some 0 else map_option as_size (m_migrated m))"

definition merged_fullCount :: "merged_slice \<Rightarrow> int option" where
  "merged_fullCount m =
     (case m_unsorted m of
        Some u \<Rightarrow> as_fullCount u
      | None \<Rightarrow> Add (as_fullCount (m_part m))
                   (case m_migrated m of Some g \<Rightarrow> as_fullCount g | None \<Rightarrow> Some 0))"

definition merged_skippedBefore :: "merged_slice \<Rightarrow> int option option" where
  "merged_skippedBefore m =
     (case m_unsorted m of
        Some u \<Rightarrow> Some (as_skippedBefore u)
      | None \<Rightarrow> map_option (\<lambda>iso. Add (if iso then Some 0 else as_skippedBefore (m_part m))
                  (case m_migrated m of
                     Some g \<Rightarrow> (if isolatedInPart m then as_fullCount g else as_skippedBefore g)
                   | None \<Rightarrow> Some 0)) (isolatedInMigrated m))"

definition merged_skippedAfter :: "merged_slice \<Rightarrow> int option option" where
  "merged_skippedAfter m =
     (case m_unsorted m of
        Some u \<Rightarrow> Some (as_skippedAfter u)
      | None \<Rightarrow> Option.bind (isolatedInMigrated m) (\<lambda>iso.
          let p = (if iso then as_fullCount (m_part m) else as_skippedAfter (m_part m))
          in if isolatedInPart m then Some (Add p (Some 0))
             else map_option (\<lambda>g. Add p (as_skippedAfter g)) (m_migrated m)))"

definition merged_indexOf :: "merged_slice \<Rightarrow> FullMsgId \<Rightarrow> int option option" where
  "merged_indexOf m fullId =
     (case m_unsorted m of
        Some u \<Rightarrow> Some (as_indexOf u (full_msg fullId))
      | None \<Rightarrow>
          (if mk_peerId (m_key m) = full_peer fullId
           then map_option (\<lambda>n. map_option (\<lambda>i. i + n) (as_indexOf (m_part m) (full_msg fullId)))
                  (migratedSize m)
           else if isolatedInPart m then Some None
           else (case m_migrated m of
                   Some g \<Rightarrow> Some (if mk_migratedPeerId (m_key m) = full_peer fullId
                                  then as_indexOf g (full_msg fullId) else None)
                 | None \<Rightarrow> Some None)))"

definition merged_size :: "merged_slice \<Rightarrow> int option" where
  "merged_size m =
     (case m_unsorted m of
        Some u \<Rightarrow> Some (as_size u)
      | None \<Rightarrow> Option.bind (if isolatedInPart m then Some 0 else migratedSize m) (\<lambda>n.
                 map_option (\<lambda>iso. n + (if iso then 0 else as_size (m_part m))) (isolatedInMigrated m)))"

definition merged_at :: "merged_slice \<Rightarrow> int \<Rightarrow> FullMsgId option" where
  "merged_at m index =
     Option.bind (merged_size m) (\<lambda>n.
       if \<not> (index \<ge> 0 \<and> index < n) then None
       else case m_unsorted m of
         Some u \<Rightarrow> map_option (FullMsgId (mk_peerId (m_key m))) (as_at u index)
       | None \<Rightarrow> Option.bind (migratedSize m) (\<lambda>k.
           if k \<noteq> 0 \<and> index < k
           then Option.bind (m_migrated m) (\<lambda>g.
                  map_option (FullMsgId (mk_migratedPeerId (m_key m))) (as_at g index))
           else map_option (FullMsgId (mk_peerId (m_key m))) (as_at (m_part m) (index - k))))"

definition merged_distance :: "merged_slice \<Rightarrow> merged_key \<Rightarrow> merged_key \<Rightarrow> int option option" where
  "merged_distance m a b =
     Option.bind (merged_indexOf m (ComputeId a)) (\<lambda>i.
       case i of
         None \<Rightarrow> Some None
       | Some i \<Rightarrow> map_option (map_option (\<lambda>j. j - i)) (merged_indexOf m (ComputeId b)))"

definition merged_nearest :: "merged_slice \<Rightarrow> MsgId \<Rightarrow> FullMsgId option option" where
  "merged_nearest m x =
     (let part = FullMsgId (mk_peerId (m_key m)); old = FullMsgId (mk_migratedPeerId (m_key m))
      in case m_unsorted m of
        Some u \<Rightarrow> Some (if as_indexOf u x \<noteq> None then Some (part x)
                       else if as_size u \<noteq> 0 then map_option part (as_at u (as_size u div 2))
                       else None)
      | None \<Rightarrow>
          (if IsServerMsgId x
           then (case as_nearest (m_part m) x of
                   Some r \<Rightarrow> Some (Some (part r))
                 | None \<Rightarrow> if isolatedInPart m then Some None
                           else map_option (\<lambda>g. map_option old (as_nearest g (ServerMaxMsgId - 1))) (m_migrated m))
           else (case Option.bind (m_migrated m) (\<lambda>g. as_nearest g (x + ServerMaxMsgId)) of
                   Some r \<Rightarrow> Some (Some (old r))
                 | None \<Rightarrow> Option.bind (isolatedInMigrated m) (\<lambda>iso.
                     if iso then Some None else Some (map_option part (as_nearest (m_part m) 0))))))"

text \<open>
  \<open>CreateViewer\<close>: the preconditions, the keys of the two simple viewers, and the merged slices
  emitted for the pairs of slices the viewers produce.
\<close>

definition CreateViewer_expects :: "merged_key \<Rightarrow> int \<Rightarrow> int \<Rightarrow> bool" where
  "CreateViewer_expects key before after \<longleftrightarrow>
     (mk_topicRootId key = 0 \<or> mk_monoforumPeerId key = 0 \<and> mk_migratedPeerId key = 0)
     \<and> (mk_monoforumPeerId key = 0 \<or> mk_topicRootId key = 0 \<and> mk_migratedPeerId key = 0)
     \<and> (IsServerMsgId (mk_universalId key) \<or> mk_universalId key = 0
        \<or> IsServerMsgId (ServerMaxMsgId + mk_universalId key) \<and> mk_migratedPeerId key \<noteq> 0)
     \<and> (mk_universalId key \<noteq> 0 \<or> before = 0 \<and> after = 0)"

definition CreateViewer ::
    "(BareId \<Rightarrow> MsgId \<Rightarrow> BareId \<Rightarrow> MsgId \<Rightarrow> int \<Rightarrow> int \<Rightarrow> abstract_ids) \<Rightarrow> merged_key \<Rightarrow> int \<Rightarrow> int
      \<Rightarrow> merged_slice option" where
  "CreateViewer simpleViewer key before after =
     (if \<not> CreateViewer_expects key before after then None
      else let part = simpleViewer (mk_peerId key) (mk_topicRootId key) (mk_monoforumPeerId key)
                        (PartKey key) before after
           in if mk_migratedPeerId key = 0 then Some (merged_of key part None)
              else Some (merged_of key part
                (Some (simpleViewer (mk_migratedPeerId key) 0 0 (MigratedKey key) before after))))"

subsection \<open>The list a merged slice stands for\<close>

definition shown :: "merged_slice \<Rightarrow> FullMsgId list" where
  "shown m =
     (let part = map (FullMsgId (mk_peerId (m_key m))) (as_ids (m_part m));
          old = (case m_migrated m of
                   Some g \<Rightarrow> map (FullMsgId (mk_migratedPeerId (m_key m))) (as_ids g) | None \<Rightarrow> [])
      in if isolatedInPart m then part
         else if isolatedInMigrated m = Some True then old
         else old @ part)"

text \<open>A merged slice as \<open>CreateViewer\<close> emits it for a position that is not zero.\<close>

definition merged_ok :: "merged_slice \<Rightarrow> bool" where
  "merged_ok m \<longleftrightarrow> m_unsorted m = None \<and> distinct (as_ids (m_part m))
     \<and> (\<forall>g. m_migrated m = Some g \<longrightarrow> distinct (as_ids g) \<and> mk_migratedPeerId (m_key m) \<noteq> mk_peerId (m_key m))
     \<and> (IsServerMsgId (mk_universalId (m_key m)) \<or> m_migrated m \<noteq> None)"

lemma find_index_distinct: "distinct xs \<Longrightarrow> i < length xs \<Longrightarrow> find_index (xs ! i) xs = Some i"
  using find_index_nth [of "xs ! i" xs] nth_eq_iff_index_eq [of xs] by auto

lemma not_both_isolated:
  "isolatedInPart m \<Longrightarrow> isolatedInMigrated m = Some False"
  by (auto simp: isolatedInPart_def isolatedInMigrated_def IsServerMsgId_def)

lemma merged_size_shown:
  assumes "merged_ok m"
  shows "merged_size m = Some (int (length (shown m)))"
proof (cases "isolatedInPart m")
  case True
  with assms not_both_isolated [OF True] show ?thesis
    by (simp add: merged_size_def shown_def merged_ok_def as_size_def)
next
  case False
  then obtain g where g: "m_migrated m = Some g"
    using assms by (cases "m_migrated m") (auto simp: merged_ok_def isolatedInPart_def)
  have "\<exists>iso. isolatedInMigrated m = Some iso" by (auto simp: isolatedInMigrated_def g)
  then obtain iso where "isolatedInMigrated m = Some iso" ..
  with False g assms show ?thesis
    by (simp add: merged_size_def shown_def merged_ok_def as_size_def migratedSize_def)
qed

lemma merged_at_shown:
  assumes ok: "merged_ok m" and i: "i < length (shown m)"
  shows "merged_at m (int i) = Some (shown m ! i) \<and> merged_indexOf m (shown m ! i) = Some (Some (int i))"
proof (cases "isolatedInPart m")
  case True
  then have "i < length (as_ids (m_part m))" using i by (simp add: shown_def)
  with True ok not_both_isolated [OF True] show ?thesis
    by (simp add: merged_at_def merged_size_shown [OF ok] merged_indexOf_def migratedSize_def shown_def
        as_at_def as_size_def as_indexOf_def find_index_distinct merged_ok_def)
next
  case False
  then obtain g where g: "m_migrated m = Some g"
    using ok by (cases "m_migrated m") (auto simp: merged_ok_def isolatedInPart_def)
  have sz: "migratedSize m = Some (int (length (as_ids g)))" using False g by (simp add: migratedSize_def as_size_def)
  have ne: "mk_peerId (m_key m) \<noteq> mk_migratedPeerId (m_key m)" "distinct (as_ids g)"
      "distinct (as_ids (m_part m))" "m_unsorted m = None"
    using ok g by (auto simp: merged_ok_def)
  have sh: "shown m = map (FullMsgId (mk_migratedPeerId (m_key m))) (as_ids g) @
      (if isolatedInMigrated m = Some True then [] else map (FullMsgId (mk_peerId (m_key m))) (as_ids (m_part m)))"
    using False g by (simp add: shown_def)
  show ?thesis
  proof (cases "i < length (as_ids g)")
    case True
    then show ?thesis
      using False g sz ne
      by (auto simp: merged_at_def merged_size_shown [OF ok] merged_indexOf_def sh nth_append
          as_at_def as_size_def as_indexOf_def find_index_distinct)
  next
    case later: False
    then have "isolatedInMigrated m \<noteq> Some True" "i - length (as_ids g) < length (as_ids (m_part m))"
      using i sh by (auto split: if_splits)
    then show ?thesis
      using later g sz ne
      by (simp add: merged_at_def merged_size_shown [OF ok] merged_indexOf_def sh nth_append
          as_at_def as_size_def as_indexOf_def find_index_distinct of_nat_diff nat_diff_distrib')
  qed
qed

text \<open>
  A merged slice emitted for a non-zero position behaves like one list, the old chat's
  messages followed by the new chat's (or one of them when the other side is not reached):
  \<open>size\<close> is its length, \<open>operator[]\<close> its elements and \<open>indexOf\<close> finds each of them at its index.
\<close>

theorem merged_slice_list:
  assumes "merged_ok m" "i < length (shown m)"
  shows "merged_size m = Some (int (length (shown m))) \<and> merged_at m (int i) = Some (shown m ! i)
    \<and> merged_indexOf m (shown m ! i) = Some (Some (int i))"
  using merged_size_shown [OF assms(1)] merged_at_shown [OF assms] by blast

definition example_merged :: merged_slice where
  "example_merged = merged_of (merged_key_of 1 0 0 2 5)
     \<lparr>as_ids = [5, 7], as_fullCount = Some 2, as_skippedBefore = Some 0, as_skippedAfter = Some 0\<rparr>
     (Some \<lparr>as_ids = [3], as_fullCount = Some 4, as_skippedBefore = Some 3, as_skippedAfter = Some 0\<rparr>)"

theorem merged_slice_list_witness:
  "merged_size example_merged = Some 3 \<and> merged_at example_merged 2 = Some (FullMsgId 1 7)
   \<and> merged_indexOf example_merged (FullMsgId 1 7) = Some (Some 2)"
proof -
  have s: "shown example_merged = [FullMsgId 2 3, FullMsgId 1 5, FullMsgId 1 7]"
    by (simp add: shown_def example_merged_def merged_of_def merged_key_of_def isolatedInPart_def
        isolatedInMigrated_def IsServerMsgId_def ServerMaxMsgId_def)
  have "merged_ok example_merged"
    by (simp add: merged_ok_def example_merged_def merged_of_def merged_key_of_def)
  from merged_slice_list [OF this, of 2] s show ?thesis by simp
qed

definition counts_add_up :: "abstract_ids \<Rightarrow> bool" where
  "counts_add_up s \<longleftrightarrow> (\<exists>b a. as_skippedBefore s = Some b \<and> as_skippedAfter s = Some a
     \<and> as_fullCount s = Some (b + as_size s + a))"

text \<open>
  The counters of a merged slice are consistent: when in both slices the skipped messages
  and the shown ones add up to the full count, they add up in the merged slice as well.
\<close>

theorem merged_counts:
  assumes "merged_ok m" "counts_add_up (m_part m)" "\<forall>g. m_migrated m = Some g \<longrightarrow> counts_add_up g"
  shows "\<exists>b a n. merged_skippedBefore m = Some (Some b) \<and> merged_skippedAfter m = Some (Some a)
    \<and> merged_size m = Some n \<and> merged_fullCount m = Some (b + n + a)"
  using assms not_both_isolated [of m]
  by (cases "m_migrated m"; cases "isolatedInPart m"; cases "isolatedInMigrated m")
     (auto simp: merged_ok_def counts_add_up_def merged_skippedBefore_def merged_skippedAfter_def
       merged_size_def merged_fullCount_def migratedSize_def Add_def isolatedInMigrated_def
       isolatedInPart_def split: if_splits)

theorem merged_counts_witness:
  "\<exists>b a n. merged_skippedBefore example_merged = Some (Some b) \<and> merged_skippedAfter example_merged = Some (Some a)
    \<and> merged_size example_merged = Some n \<and> merged_fullCount example_merged = Some (b + n + a)"
  by (rule merged_counts)
     (simp_all add: merged_ok_def counts_add_up_def as_size_def example_merged_def merged_of_def merged_key_of_def)

text \<open>
  For the position zero and a chat that was not migrated, which \<open>CreateViewer\<close> accepts with
  zero limits, \<open>size\<close> and \<open>skippedAfter\<close> of the emitted slice use \<open>_migrated->\<close> of an empty
  optional, whatever the viewer returned; only \<open>fullCount\<close> may be asked.
\<close>

theorem merged_zero_position:
  assumes "mk_universalId key = 0" "mk_migratedPeerId key = 0" "mk_topicRootId key = 0" "mk_monoforumPeerId key = 0"
  shows "\<exists>m. CreateViewer simpleViewer key 0 0 = Some m \<and> merged_size m = None
    \<and> merged_skippedAfter m = None
    \<and> merged_fullCount m = as_fullCount (simpleViewer (mk_peerId key) 0 0 0 0 0)"
  using assms
  by (auto simp: CreateViewer_def CreateViewer_expects_def Let_def merged_of_def merged_size_def
      merged_skippedAfter_def merged_fullCount_def migratedSize_def isolatedInPart_def
      isolatedInMigrated_def IsServerMsgId_def PartKey_def Add_def split: option.splits)

theorem merged_zero_position_witness:
  "\<exists>m. CreateViewer (\<lambda>_ _ _ _ _ _. no_ids\<lparr>as_fullCount := Some 3\<rparr>) (merged_key_of 1 0 0 0 0) 0 0 = Some m
    \<and> merged_size m = None \<and> merged_fullCount m = Some 3"
  using merged_zero_position [of "merged_key_of 1 0 0 0 0" "\<lambda>_ _ _ _ _ _. no_ids\<lparr>as_fullCount := Some 3\<rparr>"]
  by (auto simp: merged_key_of_def)

end
