(* ===== verification/Pts_Waiter.thy ===== *)
theory Pts_Waiter
  imports Prelude "HOL-Library.Multiset"
begin

text \<open>
  \<open>PtsWaiter\<close> (\<open>data/data_pts_waiter.{h,cpp}\<close>): the ordering buffer in front of the update
  stream of an account or a channel. Every update carries the sequence number \<open>pts\<close> after it
  and the number \<open>count\<close> of events it stands for; updates that arrive early wait in \<open>_queue\<close>
  until the gap is closed.

  The state is the record \<open>pts_waiter\<close>. The payloads \<open>MTPUpdate\<close> and \<open>MTPUpdates\<close> are the
  type parameters \<open>'u\<close> and \<open>'v\<close>. What the code asks of its owner \<open>Api::Updates\<close> (apply an
  update, start the timer) is appended to the field \<open>effects\<close>. An \<open>int32\<close> is an \<open>int\<close>; the
  only sum, \<open>_count += count\<close>, is \<open>None\<close> when it leaves the range, because signed overflow is
  undefined. The keys of the queue are 64 bit words, \<open>_skippedKey\<close> is a 32 bit word that
  wraps. A \<open>base::flat_map\<close> is the association list sorted by its keys.
\<close>

unbundle bit_operations_syntax

subsection \<open>State\<close>

datatype skipped_queue = SkippedUpdate | SkippedUpdates

datatype ('u, 'v) payload = OneUpdate 'u | ManyUpdates 'v

text \<open>
  \<open>Apply None\<close> stands for applying a default constructed payload, which is what
  \<open>_updateQueue[key]\<close> gives for a key that is not there.
\<close>

datatype ('u, 'v) effect = StartTimer int | Apply "('u, 'v) payload option"

record ('u, 'v) pts_waiter =
  queue :: "(64 word \<times> skipped_queue) list"
  updateQueue :: "(64 word \<times> 'u) list"
  updatesQueue :: "(64 word \<times> 'v) list"
  good :: int
  last_pts :: int
  pcount :: int
  applySkippedLevel :: int
  requesting :: bool
  waitingForSkipped :: bool
  waitingForShortPoll :: bool
  skippedKey :: "32 word"
  effects :: "('u, 'v) effect list"

definition pts_initial :: "('u, 'v) pts_waiter" where
  "pts_initial = \<lparr>queue = [], updateQueue = [], updatesQueue = [], good = 0, last_pts = 0,
     pcount = 0, applySkippedLevel = 0, requesting = False, waitingForSkipped = False,
     waitingForShortPoll = False, skippedKey = 0, effects = []\<rparr>"

definition kWaitForSkippedTimeout :: int where
  "kWaitForSkippedTimeout = 1000"

subsection \<open>The sorted association list of \<open>base::flat_map\<close>\<close>

text \<open>\<open>emplace\<close> leaves an existing entry alone; the returned iterator has the same key.\<close>

fun flat_emplace :: "'k::linorder \<Rightarrow> 'a \<Rightarrow> ('k \<times> 'a) list \<Rightarrow> ('k \<times> 'a) list" where
  "flat_emplace k v [] = [(k, v)]"
| "flat_emplace k v ((k', v') # m) =
     (if k < k' then (k, v) # (k', v') # m
      else if k = k' then (k', v') # m
      else (k', v') # flat_emplace k v m)"

definition int32_add :: "int \<Rightarrow> int \<Rightarrow> int option" where
  "int32_add a b = (if -(2 ^ 31) \<le> a + b \<and> a + b < 2 ^ 31 then Some (a + b) else None)"

subsection \<open>Operations\<close>

definition startTimer :: "int \<Rightarrow> ('u, 'v) pts_waiter \<Rightarrow> ('u, 'v) pts_waiter" where
  "startTimer ms s = s\<lparr>effects := effects s @ [StartTimer ms]\<rparr>"

definition clearSkippedUpdates :: "('u, 'v) pts_waiter \<Rightarrow> ('u, 'v) pts_waiter" where
  "clearSkippedUpdates s =
     s\<lparr>queue := [], updateQueue := [], updatesQueue := [], applySkippedLevel := 0\<rparr>"

definition init :: "int \<Rightarrow> ('u, 'v) pts_waiter \<Rightarrow> ('u, 'v) pts_waiter" where
  "init pts s = clearSkippedUpdates (s\<lparr>good := pts, last_pts := pts, pcount := pts\<rparr>)"

definition inited :: "('u, 'v) pts_waiter \<Rightarrow> bool" where
  "inited s \<longleftrightarrow> good s > 0"

definition setRequesting :: "bool \<Rightarrow> ('u, 'v) pts_waiter \<Rightarrow> ('u, 'v) pts_waiter" where
  "setRequesting isRequesting s =
     (let s = s\<lparr>requesting := isRequesting\<rparr>
      in if requesting s then clearSkippedUpdates s else s)"

definition ptsKey :: "skipped_queue \<Rightarrow> int \<Rightarrow> ('u, 'v) pts_waiter \<Rightarrow> 64 word \<times> ('u, 'v) pts_waiter" where
  "ptsKey kind pts s =
     (let skipped = skippedKey s + 1;
          key = (push_bit 32 (ucast (word_of_int pts :: 32 word)) OR ucast skipped) :: 64 word
      in (key, s\<lparr>skippedKey := skipped, queue := flat_emplace key kind (queue s)\<rparr>))"

definition checkForWaiting :: "('u, 'v) pts_waiter \<Rightarrow> ('u, 'v) pts_waiter" where
  "checkForWaiting s =
     (if \<not> waitingForSkipped s \<and> \<not> waitingForShortPoll s then startTimer (-1) s else s)"

definition setWaitingForSkipped :: "int \<Rightarrow> ('u, 'v) pts_waiter \<Rightarrow> ('u, 'v) pts_waiter" where
  "setWaitingForSkipped ms s =
     (if ms \<ge> 0 then (startTimer ms s)\<lparr>waitingForSkipped := True\<rparr>
      else checkForWaiting (s\<lparr>waitingForSkipped := False\<rparr>))"

definition setWaitingForShortPoll :: "int \<Rightarrow> ('u, 'v) pts_waiter \<Rightarrow> ('u, 'v) pts_waiter" where
  "setWaitingForShortPoll ms s =
     (if ms \<ge> 0 then (startTimer ms s)\<lparr>waitingForShortPoll := True\<rparr>
      else checkForWaiting (s\<lparr>waitingForShortPoll := False\<rparr>))"

text \<open>The payload the loop of \<open>applySkippedUpdates\<close> takes for one entry of the queue.\<close>

definition queued_payload ::
    "('u, 'v) pts_waiter \<Rightarrow> 64 word \<times> skipped_queue \<Rightarrow> ('u, 'v) payload option" where
  "queued_payload s e =
     (case snd e of
        SkippedUpdate \<Rightarrow> map_option OneUpdate (map_of (updateQueue s) (fst e))
      | SkippedUpdates \<Rightarrow> map_option ManyUpdates (map_of (updatesQueue s) (fst e)))"

definition applySkippedUpdates :: "('u, 'v) pts_waiter \<Rightarrow> ('u, 'v) pts_waiter" where
  "applySkippedUpdates s =
     (if \<not> waitingForSkipped s then s
      else let s = setWaitingForSkipped (-1) s
           in if queue s = [] then s
              else let s = s\<lparr>applySkippedLevel := applySkippedLevel s + 1\<rparr>;
                       s = s\<lparr>effects := effects s @ map (\<lambda>e. Apply (queued_payload s e)) (queue s)\<rparr>;
                       s = s\<lparr>applySkippedLevel := applySkippedLevel s - 1\<rparr>
                   in clearSkippedUpdates s)"

definition check :: "int \<Rightarrow> int \<Rightarrow> ('u, 'v) pts_waiter \<Rightarrow> (bool \<times> ('u, 'v) pts_waiter) option" where
  "check pts cnt s =
     (if \<not> inited s then Some (True, init pts s)
      else let s = s\<lparr>last_pts := max (last_pts s) pts\<rparr>
           in case int32_add (pcount s) cnt of
                None \<Rightarrow> None
              | Some c \<Rightarrow>
                  (let s = s\<lparr>pcount := c\<rparr>
                   in if last_pts s = pcount s then Some (True, s\<lparr>good := last_pts s\<rparr>)
                      else if last_pts s < pcount s then Some (cnt = 0, setWaitingForSkipped 1 s)
                      else Some (cnt = 0, setWaitingForSkipped kWaitForSkippedTimeout s)))"

text \<open>\<open>_updatesQueue.emplace(ptsKey(SkippedUpdates, pts), updates)\<close> and its twin.\<close>

fun enqueue :: "int \<Rightarrow> ('u, 'v) payload \<Rightarrow> ('u, 'v) pts_waiter \<Rightarrow> ('u, 'v) pts_waiter" where
  "enqueue pts (OneUpdate u) s =
     (let (key, s) = ptsKey SkippedUpdate pts s
      in s\<lparr>updateQueue := flat_emplace key u (updateQueue s)\<rparr>)"
| "enqueue pts (ManyUpdates v) s =
     (let (key, s) = ptsKey SkippedUpdates pts s
      in s\<lparr>updatesQueue := flat_emplace key v (updatesQueue s)\<rparr>)"

text \<open>The overloads of \<open>updated\<close> that carry a payload, and the one that does not.\<close>

definition updated_with ::
    "int \<Rightarrow> int \<Rightarrow> ('u, 'v) payload \<Rightarrow> ('u, 'v) pts_waiter \<Rightarrow> (bool \<times> ('u, 'v) pts_waiter) option" where
  "updated_with pts cnt p s =
     (if requesting s \<or> applySkippedLevel s \<noteq> 0 then Some (True, s)
      else if pts \<le> good s \<and> cnt > 0 then Some (False, s)
      else case check pts cnt s of
             None \<Rightarrow> None
           | Some (True, s) \<Rightarrow> Some (True, s)
           | Some (False, s) \<Rightarrow> Some (False, enqueue pts p s))"

definition updated ::
    "int \<Rightarrow> int \<Rightarrow> ('u, 'v) pts_waiter \<Rightarrow> (bool \<times> ('u, 'v) pts_waiter) option" where
  "updated pts cnt s =
     (if requesting s \<or> applySkippedLevel s \<noteq> 0 then Some (True, s)
      else if pts \<le> good s \<and> cnt > 0 then Some (False, s)
      else check pts cnt s)"

definition updateAndApply_with ::
    "int \<Rightarrow> int \<Rightarrow> ('u, 'v) payload \<Rightarrow> ('u, 'v) pts_waiter \<Rightarrow> (bool \<times> ('u, 'v) pts_waiter) option" where
  "updateAndApply_with pts cnt p s =
     (case updated_with pts cnt p s of
        None \<Rightarrow> None
      | Some (False, s) \<Rightarrow> Some (False, s)
      | Some (True, s) \<Rightarrow>
          (if \<not> waitingForSkipped s \<or> queue s = []
           then Some (True, s\<lparr>effects := effects s @ [Apply (Some p)]\<rparr>)
           else Some (True, applySkippedUpdates (enqueue pts p s))))"

definition updateAndApply ::
    "int \<Rightarrow> int \<Rightarrow> ('u, 'v) pts_waiter \<Rightarrow> (bool \<times> ('u, 'v) pts_waiter) option" where
  "updateAndApply pts cnt s =
     (case updated pts cnt s of
        None \<Rightarrow> None
      | Some (False, s) \<Rightarrow> Some (False, s)
      | Some (True, s) \<Rightarrow> Some (True, applySkippedUpdates s))"

lemmas pts_waiter_defs =
  startTimer_def clearSkippedUpdates_def init_def inited_def setRequesting_def
  checkForWaiting_def setWaitingForSkipped_def setWaitingForShortPoll_def
  updated_with_def updated_def updateAndApply_with_def updateAndApply_def
  applySkippedUpdates_def check_def kWaitForSkippedTimeout_def

text \<open>The payloads applied so far, in the order of the calls.\<close>

definition applied :: "('u, 'v) pts_waiter \<Rightarrow> ('u, 'v) payload option list" where
  "applied s = [p. Apply p \<leftarrow> effects s]"

subsection \<open>The queue and its payloads\<close>

lemma flat_emplace_cases:
  "k \<in> fst ` set m \<Longrightarrow> strictly_sorted (map fst m) \<Longrightarrow> flat_emplace k v m = m"
  by (induction m) fastforce+

lemma set_flat_emplace:
  "k \<notin> fst ` set m \<Longrightarrow> set (flat_emplace k v m) = insert (k, v) (set m)"
  by (induction m) (auto split: if_splits)

lemma fst_flat_emplace: "fst ` set (flat_emplace k v m) = insert k (fst ` set m)"
proof (induction m)
  case (Cons e m)
  then show ?case by (cases e) (auto simp: insert_commute)
qed simp

lemma sorted_flat_emplace:
  "strictly_sorted (map fst m) \<Longrightarrow> strictly_sorted (map fst (flat_emplace k v m))"
proof (induction m)
  case (Cons e m)
  have "\<forall>x \<in> fst ` set (flat_emplace k v m). fst e < x" if "fst e < k"
    unfolding fst_flat_emplace using that Cons.prems by auto
  with Cons show ?case by (cases e) (fastforce dest: not_less_iff_gr_or_eq [THEN iffD1])
qed simp

lemma map_of_flat_emplace:
  "strictly_sorted (map fst m) \<Longrightarrow>
   map_of (flat_emplace k v m) = (if k \<in> fst ` set m then map_of m else (map_of m)(k \<mapsto> v))"
proof (induction m)
  case (Cons e m)
  then show ?case
    by (cases e) (auto simp: fun_eq_iff, (metis less_asym)?)
qed (simp add: fun_eq_iff)

lemma flat_emplace_subset: "set (flat_emplace k v m) \<subseteq> insert (k, v) (set m)"
  by (induction m) (auto split: if_splits)

subsection \<open>Keys\<close>

definition key_of :: "int \<Rightarrow> 32 word \<Rightarrow> 64 word" where
  "key_of pts sk = push_bit 32 (ucast (word_of_int pts :: 32 word)) OR ucast sk"

lemma ptsKey_eq:
  "ptsKey kind pts s = (key_of pts (skippedKey s + 1),
     s\<lparr>skippedKey := skippedKey s + 1,
       queue := flat_emplace (key_of pts (skippedKey s + 1)) kind (queue s)\<rparr>)"
  by (simp add: ptsKey_def key_of_def Let_def)

lemma drop_key_of: "drop_bit 32 (key_of pts sk) = ucast (word_of_int pts :: 32 word)"
  by (rule bit_word_eqI) (auto simp: key_of_def bit_simps dest: bit_imp_le_length)

lemma drop_bit_word_mono: "(a :: 64 word) \<le> b \<Longrightarrow> drop_bit n a \<le> drop_bit n b"
  unfolding word_le_nat_alt unat_drop_bit_eq by (simp add: drop_bit_eq_div div_le_mono)

lemma key_of_less:
  assumes "0 \<le> p" "p < q" "q < 2 ^ 31"
  shows "key_of p a < key_of q b"
proof (rule ccontr)
  assume "\<not> ?thesis"
  then have "drop_bit 32 (key_of q b) \<le> drop_bit 32 (key_of p a)"
    by (intro drop_bit_word_mono) simp
  moreover have "uint (ucast (word_of_int x :: 32 word) :: 64 word) = x" if "0 \<le> x" "x < 2 ^ 31" for x
    using that by (simp add: unsigned_ucast_eq uint_word_of_int take_bit_int_eq_self)
  ultimately show False
    using assms unfolding drop_key_of word_le_def by simp
qed

subsection \<open>The invariant of every run\<close>

datatype ('u, 'v) pts_op =
    Init int
  | SetRequesting bool
  | WaitShortPoll int
  | ApplySkipped
  | Arrive int int "('u, 'v) payload"
  | ArriveBare int int

fun pts_step :: "('u, 'v) pts_op \<Rightarrow> ('u, 'v) pts_waiter \<Rightarrow> ('u, 'v) pts_waiter option" where
  "pts_step (Init pts) s = Some (init pts s)"
| "pts_step (SetRequesting b) s = Some (setRequesting b s)"
| "pts_step (WaitShortPoll ms) s = Some (setWaitingForShortPoll ms s)"
| "pts_step ApplySkipped s = Some (applySkippedUpdates s)"
| "pts_step (Arrive pts cnt p) s = map_option snd (updateAndApply_with pts cnt p s)"
| "pts_step (ArriveBare pts cnt) s = map_option snd (updateAndApply pts cnt s)"

fun pts_run :: "('u, 'v) pts_op list \<Rightarrow> ('u, 'v) pts_waiter \<Rightarrow> ('u, 'v) pts_waiter option" where
  "pts_run [] s = Some s"
| "pts_run (oper # ops) s = Option.bind (pts_step oper s) (pts_run ops)"

definition timers :: "('u, 'v) pts_waiter \<Rightarrow> int list" where
  "timers s = [ms. StartTimer ms \<leftarrow> effects s]"

definition queue_ok :: "('u, 'v) pts_waiter \<Rightarrow> bool" where
  "queue_ok s \<longleftrightarrow> strictly_sorted (map fst (queue s))
     \<and> strictly_sorted (map fst (updateQueue s)) \<and> strictly_sorted (map fst (updatesQueue s))
     \<and> (\<forall>e \<in> set (queue s). queued_payload s e \<noteq> None)"

definition timer_ok :: "('u, 'v) pts_waiter \<Rightarrow> bool" where
  "timer_ok s \<longleftrightarrow> (waitingForSkipped s \<or> waitingForShortPoll s
     \<longrightarrow> timers s \<noteq> [] \<and> last (timers s) \<ge> 0)"

definition pts_ok :: "('u, 'v) pts_waiter \<Rightarrow> bool" where
  "pts_ok s \<longleftrightarrow> queue_ok s \<and> timer_ok s \<and> applySkippedLevel s = 0
     \<and> (queue s \<noteq> [] \<longrightarrow> waitingForSkipped s) \<and> None \<notin> set (applied s)"

lemma queued_payload_cong:
  "updateQueue s' = updateQueue s \<Longrightarrow> updatesQueue s' = updatesQueue s
     \<Longrightarrow> queued_payload s' = queued_payload s"
  by (simp add: queued_payload_def fun_eq_iff split: skipped_queue.splits)

lemma queued_payload_updates [simp]:
  "queued_payload (s\<lparr>queue := q\<rparr>) = queued_payload s"
  "queued_payload (s\<lparr>good := i\<rparr>) = queued_payload s"
  "queued_payload (s\<lparr>last_pts := i\<rparr>) = queued_payload s"
  "queued_payload (s\<lparr>pcount := i\<rparr>) = queued_payload s"
  "queued_payload (s\<lparr>applySkippedLevel := i\<rparr>) = queued_payload s"
  "queued_payload (s\<lparr>waitingForSkipped := b\<rparr>) = queued_payload s"
  "queued_payload (s\<lparr>waitingForShortPoll := b\<rparr>) = queued_payload s"
  "queued_payload (s\<lparr>requesting := b\<rparr>) = queued_payload s"
  "queued_payload (s\<lparr>effects := es\<rparr>) = queued_payload s"
  by (rule queued_payload_cong; simp)+

lemma queue_ok_cong:
  "queue s' = queue s \<Longrightarrow> updateQueue s' = updateQueue s \<Longrightarrow> updatesQueue s' = updatesQueue s
     \<Longrightarrow> queue_ok s' = queue_ok s"
  by (simp add: queue_ok_def queued_payload_cong [of s' s])

fun kind_of :: "('u, 'v) payload \<Rightarrow> skipped_queue" where
  "kind_of (OneUpdate u) = SkippedUpdate"
| "kind_of (ManyUpdates v) = SkippedUpdates"

lemma enqueue_queue:
  "queue (enqueue pts p s) = flat_emplace (key_of pts (skippedKey s + 1)) (kind_of p) (queue s)"
  by (cases p) (simp_all add: ptsKey_eq)

lemma queued_payload_enqueue:
  assumes "queue_ok s" and e: "queued_payload s e \<noteq> None"
  shows "queued_payload (enqueue pts p s) e = queued_payload s e"
  using assms
  by (cases p; cases e) (auto simp: queue_ok_def ptsKey_eq queued_payload_def map_of_flat_emplace
      rev_image_eqI split: skipped_queue.splits dest!: map_of_SomeD)

lemma queued_payload_new:
  assumes "queue_ok s"
  shows "queued_payload (enqueue pts p s) (key_of pts (skippedKey s + 1), kind_of p) \<noteq> None"
  using assms
  by (cases p) (auto simp: queue_ok_def ptsKey_eq queued_payload_def map_of_flat_emplace
      map_of_eq_None_iff simp del: not_None_eq)

lemma queue_ok_enqueue:
  assumes "queue_ok s"
  shows "queue_ok (enqueue pts p s)"
proof -
  let ?t = "enqueue pts p s"
  have "queued_payload ?t e \<noteq> None" if e: "e \<in> set (queue ?t)" for e
  proof -
    consider "e = (key_of pts (skippedKey s + 1), kind_of p)" | "e \<in> set (queue s)"
      using e flat_emplace_subset unfolding enqueue_queue by fast
    then show ?thesis
    proof cases
      case 1
      then show ?thesis using queued_payload_new [OF assms, of pts p] by simp
    next
      case 2
      then have "queued_payload s e \<noteq> None" using assms unfolding queue_ok_def by blast
      then show ?thesis using queued_payload_enqueue [OF assms, of e pts p] by simp
    qed
  qed
  moreover have "strictly_sorted (map fst (updateQueue ?t)) \<and> strictly_sorted (map fst (updatesQueue ?t))"
    using assms by (cases p) (simp_all add: ptsKey_eq sorted_flat_emplace queue_ok_def)
  ultimately show ?thesis
    using assms by (simp add: queue_ok_def enqueue_queue sorted_flat_emplace)
qed

lemma enqueue_fields [simp]:
  "effects (enqueue pts p s) = effects s" "good (enqueue pts p s) = good s"
  "last_pts (enqueue pts p s) = last_pts s" "pcount (enqueue pts p s) = pcount s"
  "applySkippedLevel (enqueue pts p s) = applySkippedLevel s"
  "requesting (enqueue pts p s) = requesting s"
  "waitingForSkipped (enqueue pts p s) = waitingForSkipped s"
  "waitingForShortPoll (enqueue pts p s) = waitingForShortPoll s"
  by (cases p; simp add: ptsKey_eq)+

lemma queue_ok_cleared: "queue_ok (clearSkippedUpdates s)"
  by (simp add: queue_ok_def clearSkippedUpdates_def)

lemma applied_simps:
  "applied (s\<lparr>effects := es @ [Apply p]\<rparr>) = [p. Apply p \<leftarrow> es] @ [p]"
  "applied (s\<lparr>effects := es @ [StartTimer ms]\<rparr>) = [p. Apply p \<leftarrow> es]"
  by (simp_all add: applied_def)

lemma pts_ok_init: "pts_ok s \<Longrightarrow> pts_ok (init pts s)"
  by (simp add: pts_ok_def init_def clearSkippedUpdates_def queue_ok_def timer_ok_def timers_def
      applied_def)

lemma pts_ok_clear: "pts_ok s \<Longrightarrow> pts_ok (clearSkippedUpdates s)"
  by (simp add: pts_ok_def clearSkippedUpdates_def queue_ok_def timer_ok_def timers_def applied_def)

lemma pts_ok_updates [simp]:
  "pts_ok (s\<lparr>good := i\<rparr>) = pts_ok s"
  "pts_ok (s\<lparr>last_pts := i\<rparr>) = pts_ok s"
  "pts_ok (s\<lparr>pcount := i\<rparr>) = pts_ok s"
  "pts_ok (s\<lparr>requesting := b\<rparr>) = pts_ok s"
  by (simp_all add: pts_ok_def queue_ok_def timer_ok_def timers_def applied_def)

lemma pts_ok_waiting:
  "pts_ok s \<Longrightarrow> 0 \<le> ms \<Longrightarrow> pts_ok (setWaitingForSkipped ms s)"
  by (auto simp: pts_ok_def queue_ok_def timer_ok_def timers_def applied_def
      setWaitingForSkipped_def startTimer_def)

lemma pts_ok_shortPoll:
  "pts_ok s \<Longrightarrow> pts_ok (setWaitingForShortPoll ms s)"
  by (auto simp: pts_ok_def queue_ok_def timer_ok_def timers_def applied_def
      setWaitingForShortPoll_def startTimer_def checkForWaiting_def)

lemma pts_ok_apply_one:
  "pts_ok s \<Longrightarrow> pts_ok (s\<lparr>effects := effects s @ [Apply (Some p)]\<rparr>)"
  by (auto simp: pts_ok_def queue_ok_def timer_ok_def timers_def applied_def)

lemma pts_ok_enqueue:
  "pts_ok s \<Longrightarrow> waitingForSkipped s \<Longrightarrow> pts_ok (enqueue pts p s)"
  by (simp add: pts_ok_def queue_ok_enqueue timer_ok_def timers_def applied_def)

lemma pts_ok_applySkipped:
  assumes "pts_ok s"
  shows "pts_ok (applySkippedUpdates s)"
  using assms
  by (auto simp: pts_ok_def queue_ok_def timer_ok_def timers_def applied_def
      applySkippedUpdates_def setWaitingForSkipped_def startTimer_def checkForWaiting_def Let_def
      clearSkippedUpdates_def comp_def)

lemma pts_ok_check:
  assumes "pts_ok s" "check pts cnt s = Some (b, s')"
  shows "pts_ok s' \<and> (\<not> b \<longrightarrow> waitingForSkipped s')"
proof -
  have "pts_ok (setWaitingForSkipped ms (s\<lparr>last_pts := x, pcount := y\<rparr>))" if "0 \<le> ms" for ms x y
    by (rule pts_ok_waiting [OF _ that]) (simp add: assms)
  moreover have "pts_ok (s\<lparr>last_pts := x, pcount := y, good := z\<rparr>)" for x y z
    using assms by simp
  ultimately show ?thesis
    using assms pts_ok_init [of s pts]
    by (auto simp: check_def Let_def kWaitForSkippedTimeout_def setWaitingForSkipped_def
        split: if_splits option.splits)
qed

lemma pts_ok_step:
  assumes "pts_ok s" "pts_step oper s = Some s'"
  shows "pts_ok s'"
proof (cases oper)
  case (Arrive pts cnt p)
  have upd: "pts_ok t" if "updated_with pts cnt p s = Some (b, t)" for b t
    using that assms(1) pts_ok_check [of s pts cnt] pts_ok_enqueue
    by (auto simp: updated_with_def split: if_splits option.splits bool.splits)
  from assms Arrive show ?thesis
    by (auto simp: updateAndApply_with_def split: if_splits option.splits bool.splits
        intro!: pts_ok_apply_one pts_ok_applySkipped pts_ok_enqueue dest!: upd)
next
  case (ArriveBare pts cnt)
  have upd: "pts_ok t" if "updated pts cnt s = Some (b, t)" for b t
    using that assms(1) pts_ok_check [of s pts cnt]
    by (auto simp: updated_def split: if_splits option.splits bool.splits)
  from assms ArriveBare show ?thesis
    by (auto simp: updateAndApply_def split: if_splits option.splits bool.splits
        intro!: pts_ok_applySkipped dest!: upd)
qed (use assms in \<open>auto simp: setRequesting_def Let_def pts_ok_init pts_ok_applySkipped
        pts_ok_shortPoll intro!: pts_ok_clear\<close>)

lemma pts_ok_run: "pts_ok s \<Longrightarrow> pts_run ops s = Some s' \<Longrightarrow> pts_ok s'"
proof (induction ops arbitrary: s)
  case (Cons oper ops)
  then show ?case by (cases "pts_step oper s") (auto dest: pts_ok_step)
qed simp

lemma pts_ok_initial: "pts_ok pts_initial"
  by (simp add: pts_ok_def pts_initial_def queue_ok_def timer_ok_def applied_def)

text \<open>
  C25. However the owner drives a \<open>PtsWaiter\<close> (initialisation, requesting flag, short poll timer,
  forced application, arriving updates in any order), in every state it reaches: an update that
  is held back has its flag \<open>_waitingForSkipped\<close> set and the last timer request was for a
  timeout that fires, every queued key still has its payload, no default constructed payload was
  ever applied, and the re-entrance level is back to zero.
\<close>
theorem pts_run_safe:
  assumes "pts_run ops (pts_initial :: ('u, 'v) pts_waiter) = Some s"
  shows "(queue s \<noteq> [] \<longrightarrow> waitingForSkipped s \<and> timers s \<noteq> [] \<and> last (timers s) \<ge> 0)
    \<and> (\<forall>e \<in> set (queue s). queued_payload s e \<noteq> None)
    \<and> strictly_sorted (map fst (queue s))
    \<and> None \<notin> set (applied s) \<and> applySkippedLevel s = 0"
  using pts_ok_run [OF pts_ok_initial assms]
  by (auto simp: pts_ok_def queue_ok_def timer_ok_def)


theorem pts_run_safe_witness:
  "\<exists>s. pts_run [Init 5, Arrive 7 1 (OneUpdate (0::nat)), ArriveBare 3 1]
          (pts_initial :: (nat, nat) pts_waiter) = Some s
     \<and> queue s \<noteq> [] \<and> waitingForSkipped s \<and> last (timers s) \<ge> 0"
proof -
  let ?ops = "[Init 5, Arrive 7 1 (OneUpdate (0::nat)), ArriveBare 3 1]"
  obtain s where s: "pts_run ?ops (pts_initial :: (nat, nat) pts_waiter) = Some s \<and> queue s \<noteq> []"
    by (simp add: pts_initial_def pts_waiter_defs ptsKey_eq int32_add_def Let_def)
  with pts_run_safe [of ?ops s] show ?thesis by blast
qed

subsection \<open>Any order of arrival\<close>

text \<open>
  A contiguous run of the stream after \<open>pts = g\<close>: each update starts where the one before it
  ended and stands for at least one event.
\<close>

type_synonym ('u, 'v) arrival = "int \<times> int \<times> ('u, 'v) payload"

fun chain :: "int \<Rightarrow> ('u, 'v) arrival list \<Rightarrow> bool" where
  "chain g [] \<longleftrightarrow> True"
| "chain g ((pts, cnt, p) # us) \<longleftrightarrow> cnt > 0 \<and> pts = g + cnt \<and> chain pts us"

fun chain_end :: "int \<Rightarrow> ('u, 'v) arrival list \<Rightarrow> int" where
  "chain_end g [] = g"
| "chain_end g ((pts, cnt, p) # us) = chain_end pts us"

fun deliver :: "('u, 'v) arrival list \<Rightarrow> ('u, 'v) pts_waiter \<Rightarrow> ('u, 'v) pts_waiter option" where
  "deliver [] s = Some s"
| "deliver ((pts, cnt, p) # us) s =
     Option.bind (updateAndApply_with pts cnt p s) (\<lambda>(_, s). deliver us s)"

abbreviation a_pts :: "('u, 'v) arrival \<Rightarrow> int" where "a_pts \<equiv> fst"
abbreviation a_cnt :: "('u, 'v) arrival \<Rightarrow> int" where "a_cnt a \<equiv> fst (snd a)"
abbreviation a_load :: "('u, 'v) arrival \<Rightarrow> ('u, 'v) payload" where "a_load a \<equiv> snd (snd a)"

lemma chain_end_append: "chain_end g (us @ vs) = chain_end (chain_end g us) vs"
  by (induction g us rule: chain_end.induct) auto

lemma chain_append: "chain g (us @ vs) \<longleftrightarrow> chain g us \<and> chain (chain_end g us) vs"
  by (induction g us rule: chain_end.induct) auto

lemma chain_sorted:
  "chain g us \<Longrightarrow> strictly_sorted (map a_pts us) \<and> (\<forall>u \<in> set us. g < a_pts u \<and> 0 < a_cnt u)"
  by (induction g us rule: chain.induct) force+

lemma chain_end_ge: "chain g us \<Longrightarrow> g \<le> chain_end g us \<and> (\<forall>u \<in> set us. a_pts u \<le> chain_end g us)"
  by (induction g us rule: chain.induct) fastforce+

text \<open>The events of a part \<open>Q\<close> of a chain add up to its last number exactly when the part has no gap.\<close>

definition reach :: "int \<Rightarrow> ('u, 'v) arrival set \<Rightarrow> int" where
  "reach g Q = Max (insert g (a_pts ` Q))"

definition total :: "('u, 'v) arrival set \<Rightarrow> int" where
  "total Q = (\<Sum>u \<in> Q. a_cnt u)"

lemma reach_insert: "finite Q \<Longrightarrow> reach g (insert u Q) = max (reach g Q) (a_pts u)"
  unfolding reach_def by (simp add: insert_commute [of g] max.commute)

lemma reach_above:
  assumes "finite Q" "Q \<noteq> {}" "\<forall>v \<in> Q. b < a_pts v" "g \<le> b"
  shows "reach g Q = reach b Q \<and> b < reach b Q"
proof -
  obtain v where v: "v \<in> Q" using assms by blast
  then have "b < a_pts v" "a_pts v \<le> Max (a_pts ` Q)" using assms by auto
  with assms show ?thesis by (simp add: reach_def)
qed

lemma chain_gap:
  assumes "chain g us" "Q \<subseteq> set us"
  shows "g + total Q \<le> reach g Q \<and> (g + total Q = reach g Q \<longrightarrow> (\<exists>n \<le> length us. Q = set (take n us)))"
  using assms
proof (induction g us arbitrary: Q rule: chain.induct)
  case (1 g)
  then show ?case by (simp add: total_def reach_def)
next
  case (2 g pts cnt p us)
  let ?u = "(pts, cnt, p)" and ?Q = "Q - {(pts, cnt, p)}"
  have fin: "finite Q" using 2 finite_subset by auto
  have Q': "?Q \<subseteq> set us" using 2 by auto
  have later: "\<forall>v \<in> ?Q. pts < a_pts v"
    using 2 chain_sorted [of pts us] Q' by auto
  have IH: "pts + total ?Q \<le> reach pts ?Q"
     "pts + total ?Q = reach pts ?Q \<longrightarrow> (\<exists>n \<le> length us. ?Q = set (take n us))"
    using "2.IH" [of ?Q] 2 Q' by auto
  have pos: "0 < cnt" and g: "g = pts - cnt" using 2 by auto
  show ?case
  proof (cases "?u \<in> Q")
    case True
    then have Q: "Q = insert ?u ?Q" by blast
    have "reach g Q = reach pts ?Q"
    proof (cases "?Q = {}")
      case True
      then have "Q = {?u}" using Q by blast
      then show ?thesis using pos g by (simp add: reach_def)
    next
      case False
      then have "reach g ?Q = reach pts ?Q \<and> pts < reach pts ?Q"
        using reach_above [of ?Q pts g] later fin pos g by auto
      then show ?thesis using reach_insert [of ?Q g ?u] fin Q by simp
    qed
    moreover have "total Q = cnt + total ?Q" using fin True by (simp add: total_def sum.remove)
    moreover have "\<exists>n \<le> length (?u # us). Q = set (take n (?u # us))"
      if "n \<le> length us" "?Q = set (take n us)" for n
      using that Q by (intro exI [of _ "Suc n"]) auto
    ultimately show ?thesis using IH g by auto
  next
    case False
    then have Q: "?Q = Q" by simp
    show ?thesis
    proof (cases "Q = {}")
      case True
      then show ?thesis by (auto simp: total_def reach_def)
    next
      case False
      then have "reach g Q = reach pts Q" using reach_above [of Q pts g] later fin pos g Q by auto
      with IH g pos Q show ?thesis by auto
    qed
  qed
qed

lemma chain_full:
  "chain g us \<Longrightarrow> g + total (set us) = chain_end g us \<and> reach g (set us) = chain_end g us"
proof (induction g us rule: chain.induct)
  case (2 g pts cnt p us)
  then have new: "(pts, cnt, p) \<notin> set us" using chain_sorted [of pts us] by fastforce
  have "reach g (insert (pts, cnt, p) (set us)) = max (reach g (set us)) pts"
    using reach_insert [of "set us" g "(pts, cnt, p)"] by simp
  moreover have "reach g (set us) = (if us = [] then g else reach pts (set us))" 
    using reach_above [of "set us" pts g] 2 chain_sorted [of pts us] by (auto simp: reach_def)
  moreover have "pts \<le> chain_end pts us" using 2 chain_end_ge [of pts us] by auto
  ultimately show ?case using 2 new by (auto simp: total_def)
qed (simp add: total_def reach_def)

lemma chain_prefix:
  assumes "chain g us"
  shows "chain g (take n us) \<and> chain (chain_end g (take n us)) (drop n us)
    \<and> chain_end (chain_end g (take n us)) (drop n us) = chain_end g us"
  using assms chain_append [of g "take n us" "drop n us"] chain_end_append [of g "take n us" "drop n us"]
  by simp

lemma chain_distinct: "chain g us \<Longrightarrow> distinct us"
  using chain_sorted [of g us] by (simp add: strictly_sorted_iff distinct_map)

subsection \<open>States between two gaps\<close>

text \<open>
  \<open>partway rest Q s\<close>: everything before \<open>rest\<close> was applied, and of \<open>rest\<close> the updates \<open>Q\<close>
  have arrived and wait in the queue.
\<close>

definition holds :: "(64 word \<times> ('u, 'v) arrival) list \<Rightarrow> ('u, 'v) pts_waiter \<Rightarrow> bool" where
  "holds kas s \<longleftrightarrow> queue_ok s \<and> queue s = map (\<lambda>(k, a). (k, kind_of (a_load a))) kas
     \<and> fst ` set (updateQueue s) \<union> fst ` set (updatesQueue s) \<subseteq> fst ` set kas
     \<and> (\<forall>(k, a) \<in> set kas. (\<exists>sk. k = key_of (a_pts a) sk)
          \<and> queued_payload s (k, kind_of (a_load a)) = Some (a_load a))"

definition partway ::
    "('u, 'v) arrival list \<Rightarrow> ('u, 'v) arrival set \<Rightarrow> ('u, 'v) pts_waiter \<Rightarrow> bool" where
  "partway rest Q s \<longleftrightarrow> 0 < good s \<and> chain (good s) rest \<and> chain_end (good s) rest < 2 ^ 31
     \<and> Q \<subseteq> set rest \<and> (\<exists>kas. holds kas s \<and> set (map snd kas) = Q \<and> distinct (map snd kas))
     \<and> pcount s = good s + total Q \<and> last_pts s = reach (good s) Q
     \<and> (Q \<noteq> {} \<longrightarrow> waitingForSkipped s \<and> pcount s \<noteq> last_pts s)
     \<and> applySkippedLevel s = 0 \<and> \<not> requesting s"

lemma flat_emplace_map:
  "flat_emplace k (f a) (map (\<lambda>(k, a). (k, f a)) kas) = map (\<lambda>(k, a). (k, f a)) (flat_emplace k a kas)"
  by (induction kas) auto

lemma holds_keys: "holds kas s \<Longrightarrow> map fst (queue s) = map fst kas"
  by (simp add: holds_def split_beta comp_def)

lemma holds_new_key:
  assumes "holds kas s" "\<forall>a \<in> set (map snd kas). 0 \<le> a_pts a \<and> a_pts a < 2 ^ 31 \<and> a_pts a \<noteq> pts"
    "0 \<le> pts" "pts < 2 ^ 31"
  shows "key_of pts sk \<notin> fst ` set kas"
proof
  assume "key_of pts sk \<in> fst ` set kas"
  then obtain a where a: "(key_of pts sk, a) \<in> set kas" by auto
  then obtain sk' where "key_of pts sk = key_of (a_pts a) sk'" using assms(1) unfolding holds_def by fast
  moreover have "0 \<le> a_pts a \<and> a_pts a < 2 ^ 31 \<and> a_pts a \<noteq> pts" using a assms(2) by force
  ultimately show False
    using key_of_less [of pts "a_pts a" sk sk'] key_of_less [of "a_pts a" pts sk' sk] assms(3,4)
    by (metis less_irrefl linorder_neqE)
qed

lemma holds_enqueue:
  assumes h: "holds kas s" and new: "key_of pts (skippedKey s + 1) \<notin> fst ` set kas"
  shows "holds (flat_emplace (key_of pts (skippedKey s + 1)) (pts, cnt, p) kas) (enqueue pts p s)"
proof -
  let ?k = "key_of pts (skippedKey s + 1)" and ?t = "enqueue pts p s"
  have ok: "queue_ok s" and q: "queue s = map (\<lambda>(k, a). (k, kind_of (a_load a))) kas"
    and sub: "fst ` set (updateQueue s) \<union> fst ` set (updatesQueue s) \<subseteq> fst ` set kas"
    using h by (simp_all add: holds_def)
  have old: "(\<exists>sk. k = key_of (a_pts a) sk) \<and> queued_payload ?t (k, kind_of (a_load a)) = Some (a_load a)"
    if "(k, a) \<in> set kas" for k a
    using that h queued_payload_enqueue [OF ok] unfolding holds_def by fastforce
  have "map_of (updateQueue s) ?k = None" "map_of (updatesQueue s) ?k = None"
    using sub new unfolding map_of_eq_None_iff by auto
  moreover have "strictly_sorted (map fst (updateQueue s))" "strictly_sorted (map fst (updatesQueue s))"
    using ok by (simp_all add: queue_ok_def)
  ultimately have this_one: "queued_payload ?t (?k, kind_of p) = Some p"
    by (cases p) (auto simp: ptsKey_eq queued_payload_def map_of_flat_emplace map_of_eq_None_iff)
  have "fst ` set (updateQueue ?t) \<union> fst ` set (updatesQueue ?t)
      \<subseteq> fst ` set (flat_emplace ?k (pts, cnt, p) kas)"
    using sub by (cases p) (auto simp: ptsKey_eq fst_flat_emplace)
  moreover have "queue ?t = map (\<lambda>(k, a). (k, kind_of (a_load a))) (flat_emplace ?k (pts, cnt, p) kas)"
    unfolding enqueue_queue q
    using flat_emplace_map [of ?k "\<lambda>a. kind_of (a_load a)" "(pts, cnt, p)" kas] by simp
  ultimately show ?thesis
    using queue_ok_enqueue [OF ok] old this_one
    unfolding holds_def set_flat_emplace [OF new] by fastforce
qed

lemma holds_cong:
  "queue s' = queue s \<Longrightarrow> updateQueue s' = updateQueue s \<Longrightarrow> updatesQueue s' = updatesQueue s
     \<Longrightarrow> holds kas s' = holds kas s"
  by (simp add: holds_def queue_ok_cong [of s' s] queued_payload_cong [of s' s])

lemma holds_payloads:
  "holds kas s \<Longrightarrow> map (queued_payload s) (queue s) = map (\<lambda>a. Some (a_load a)) (map snd kas)"
  unfolding holds_def by fastforce

text \<open>The queue is in the order of the sequence numbers, whatever the order of arrival was.\<close>

lemma holds_in_order:
  assumes h: "holds kas s" and c: "chain g us" "0 \<le> g" "chain_end g us < 2 ^ 31"
    and Q: "set (map snd kas) = set (take n us)" and d: "distinct (map snd kas)"
  shows "map snd kas = take n us"
proof -
  have bound: "0 \<le> a_pts a \<and> a_pts a < 2 ^ 31" if "a \<in> set us" for a
    using that c chain_sorted [of g us] chain_end_ge [of g us] by force
  have "sorted_wrt (\<lambda>x y. fst x < fst y) kas"
    using h holds_keys [OF h] unfolding holds_def queue_ok_def by (simp add: sorted_wrt_map)
  then have "sorted_wrt (\<lambda>x y. a_pts (snd x) \<le> a_pts (snd y)) kas"
  proof (rule sorted_wrt_mono_rel [rotated])
    fix x y assume x: "x \<in> set kas" and y: "y \<in> set kas" and lt: "fst x < fst y"
    have "\<exists>i. fst e = key_of (a_pts (snd e)) i" if "e \<in> set kas" for e
      using h that unfolding holds_def by (cases e) fastforce
    with x y obtain i j where "fst x = key_of (a_pts (snd x)) i" "fst y = key_of (a_pts (snd y)) j"
      by blast
    moreover have "snd x \<in> set us" "snd y \<in> set us"
      using Q x y set_take_subset by fastforce+
    ultimately show "a_pts (snd x) \<le> a_pts (snd y)"
      using lt key_of_less [of "a_pts (snd y)" "a_pts (snd x)" j i]
        bound [of "snd x"] bound [of "snd y"] by (metis less_asym not_less)
  qed
  then have "sorted (map a_pts (map snd kas))" by (simp add: sorted_wrt_map)
  moreover have us: "strictly_sorted (map a_pts us)" using chain_sorted [OF c(1)] by simp
  then have inj: "inj_on a_pts (set us)" by (simp add: strictly_sorted_iff distinct_map)
  then have "inj_on a_pts (set (map snd kas))" using Q set_take_subset by (metis inj_on_subset)
  ultimately have "strictly_sorted (map a_pts (map snd kas))"
    using d unfolding strictly_sorted_iff distinct_map [of a_pts] by blast
  moreover have "strictly_sorted (map a_pts (take n us))"
    using us by (simp add: take_map [symmetric] sorted_wrt_take)
  ultimately have "map a_pts (map snd kas) = map a_pts (take n us)"
    by (rule strictly_sorted_eqI) (simp only: set_map [of a_pts] Q)
  moreover have "inj_on a_pts (set (map snd kas) \<union> set (take n us))"
    by (rule inj_on_subset [OF inj]) (use Q set_take_subset in fast)
  ultimately show ?thesis by (rule map_inj_on)
qed

lemma distinct_flat_emplace:
  "distinct (map snd kas) \<Longrightarrow> a \<notin> set (map snd kas) \<Longrightarrow> distinct (map snd (flat_emplace k a kas))"
proof (induction kas)
  case (Cons e kas)
  have "set (flat_emplace k a kas) \<subseteq> insert (k, a) (set kas)" by (rule flat_emplace_subset)
  with Cons show ?case by (cases e) fastforce
qed simp

lemma applied_timer [simp]: "applied (startTimer ms s) = applied s"
  by (simp add: applied_def startTimer_def)

lemma applySkipped_queue:
  assumes "waitingForSkipped s" "queue s \<noteq> []"
  shows "queue (applySkippedUpdates s) = [] \<and> updateQueue (applySkippedUpdates s) = []
     \<and> updatesQueue (applySkippedUpdates s) = [] \<and> good (applySkippedUpdates s) = good s
     \<and> last_pts (applySkippedUpdates s) = last_pts s \<and> pcount (applySkippedUpdates s) = pcount s
     \<and> applySkippedLevel (applySkippedUpdates s) = 0
     \<and> requesting (applySkippedUpdates s) = requesting s
     \<and> applied (applySkippedUpdates s) = applied s @ map (queued_payload s) (queue s)"
  using assms
  by (simp add: applySkippedUpdates_def setWaitingForSkipped_def checkForWaiting_def
      clearSkippedUpdates_def startTimer_def applied_def Let_def comp_def)

lemma holds_nil: "queue s = [] \<Longrightarrow> updateQueue s = [] \<Longrightarrow> updatesQueue s = [] \<Longrightarrow> holds [] s"
  by (simp add: holds_def queue_ok_def)

lemma distinct_set_single: "distinct xs \<Longrightarrow> set xs = {x} \<Longrightarrow> xs = [x]"
  by (cases xs) (auto simp: subset_singleton_iff)

text \<open>What \<open>check\<close> does with an update that is not a duplicate.\<close>

lemma check_partway:
  assumes pw: "partway rest Q s" and u: "(pts, cnt, p) \<in> set rest - Q"
  defines "Q' \<equiv> insert (pts, cnt, p) Q"
  defines "s1 \<equiv> s\<lparr>last_pts := reach (good s) Q', pcount := good s + total Q'\<rparr>"
  shows "good s < pts \<and> 0 < cnt \<and> pts < 2 ^ 31 \<and> good s + total Q' \<le> reach (good s) Q'
    \<and> check pts cnt s = Some (if good s + total Q' = reach (good s) Q'
        then (True, s1\<lparr>good := reach (good s) Q'\<rparr>)
        else (False, setWaitingForSkipped kWaitForSkippedTimeout s1))"
proof -
  have c: "chain (good s) rest" "chain_end (good s) rest < 2 ^ 31" and Q: "Q \<subseteq> set rest"
    and g: "0 < good s" "pcount s = good s + total Q" "last_pts s = reach (good s) Q"
    using pw by (simp_all add: partway_def)
  have fin: "finite Q" using Q finite_subset by auto
  have u': "good s < pts" "0 < cnt" "pts \<le> chain_end (good s) rest"
    using u chain_sorted [OF c(1)] chain_end_ge [OF c(1)] by auto
  have Q': "Q' \<subseteq> set rest" using Q u Q'_def by blast
  have tot: "total Q' = cnt + total Q" using u fin by (simp add: Q'_def total_def)
  have "\<forall>q \<in> Q'. 0 < a_cnt q" using Q' chain_sorted [OF c(1)] by blast
  then have pos: "0 \<le> total Q'" unfolding total_def by (intro sum_nonneg) (auto intro: less_imp_le)
  have re: "reach (good s) Q' = max (last_pts s) pts"
    using fin g by (simp add: Q'_def reach_insert)
  have "reach (good s) Q' \<le> chain_end (good s) rest"
    using Q' fin chain_end_ge [OF c(1)] unfolding reach_def Q'_def by (intro Max.boundedI) auto
  moreover have gap: "good s + total Q' \<le> reach (good s) Q'" using chain_gap [OF c(1) Q'] by simp
  ultimately have "int32_add (pcount s) cnt = Some (good s + total Q')"
    using c g pos by (simp add: int32_add_def tot add_ac)
  then have "check pts cnt s = Some (if good s + total Q' = reach (good s) Q'
        then (True, s1\<lparr>good := reach (good s) Q'\<rparr>)
        else (False, setWaitingForSkipped kWaitForSkippedTimeout s1))"
    using g(1) u' gap by (simp add: check_def inited_def Let_def s1_def re [symmetric])
  with u' c gap show ?thesis by simp
qed

lemma setWaiting_fields:
  assumes "0 \<le> ms"
  shows "queue (setWaitingForSkipped ms s) = queue s \<and> updateQueue (setWaitingForSkipped ms s) = updateQueue s
    \<and> updatesQueue (setWaitingForSkipped ms s) = updatesQueue s \<and> good (setWaitingForSkipped ms s) = good s
    \<and> pcount (setWaitingForSkipped ms s) = pcount s \<and> last_pts (setWaitingForSkipped ms s) = last_pts s
    \<and> applySkippedLevel (setWaitingForSkipped ms s) = applySkippedLevel s
    \<and> requesting (setWaitingForSkipped ms s) = requesting s \<and> waitingForSkipped (setWaitingForSkipped ms s)
    \<and> skippedKey (setWaitingForSkipped ms s) = skippedKey s
    \<and> applied (setWaitingForSkipped ms s) = applied s"
  using assms by (simp add: setWaitingForSkipped_def startTimer_def applied_def)

lemma enqueue_partway:
  assumes pw: "partway rest Q s" and u: "(pts, cnt, p) \<in> set rest - Q"
    and t: "queue t = queue s" "updateQueue t = updateQueue s" "updatesQueue t = updatesQueue s"
      "skippedKey t = skippedKey s"
  shows "\<exists>kas. holds kas (enqueue pts p t) \<and> set (map snd kas) = insert (pts, cnt, p) Q
    \<and> distinct (map snd kas)"
proof -
  let ?k = "key_of pts (skippedKey t + 1)"
  obtain kas where h: "holds kas s" and Q: "set (map snd kas) = Q" "distinct (map snd kas)"
    using pw unfolding partway_def by blast
  have c: "0 < good s" "chain (good s) rest" "chain_end (good s) rest < 2 ^ 31" "Q \<subseteq> set rest"
    using pw unfolding partway_def by blast+
  have b: "0 \<le> a_pts a \<and> a_pts a < 2 ^ 31" if "a \<in> set rest" for a
    using that c chain_sorted [of "good s" rest] chain_end_ge [of "good s" rest] by force
  have ht: "holds kas t" using h holds_cong [of t s] t by simp
  have inj: "inj_on a_pts (set rest)"
    using chain_sorted [OF c(2)] by (simp add: strictly_sorted_iff distinct_map)
  have "a_pts a \<noteq> pts" if "a \<in> Q" for a
    using inj_onD [OF inj, of a "(pts, cnt, p)"] that u c(4) by auto
  then have "\<forall>a \<in> set (map snd kas). 0 \<le> a_pts a \<and> a_pts a < 2 ^ 31 \<and> a_pts a \<noteq> pts"
    unfolding Q(1) using b c(4) by blast
  moreover have "0 \<le> pts \<and> pts < 2 ^ 31" using b [of "(pts, cnt, p)"] u by simp
  ultimately have new: "?k \<notin> fst ` set kas" using holds_new_key [OF ht] by blast
  have "set (map snd (flat_emplace ?k (pts, cnt, p) kas)) = insert (pts, cnt, p) Q"
    using set_flat_emplace [OF new] Q by simp
  then show ?thesis
    using holds_enqueue [OF ht new, of cnt p] distinct_flat_emplace [OF Q(2)] Q(1) u by blast
qed

abbreviation counted :: "('u, 'v) pts_waiter \<Rightarrow> (int \<times> int \<times> ('u, 'v) payload) set \<Rightarrow> ('u, 'v) pts_waiter" where
  "counted s Q \<equiv> s\<lparr>last_pts := reach (good s) Q, pcount := good s + total Q\<rparr>"

text \<open>A gap stays: the update waits.\<close>

lemma arrive_waits:
  assumes pw: "partway rest Q s" and u: "(pts, cnt, p) \<in> set rest - Q"
    and gap: "good s + total (insert (pts, cnt, p) Q) \<noteq> reach (good s) (insert (pts, cnt, p) Q)"
  shows "\<exists>s'. updateAndApply_with pts cnt p s = Some (False, s')
    \<and> partway rest (insert (pts, cnt, p) Q) s' \<and> applied s' = applied s \<and> good s' = good s"
proof -
  let ?Q = "insert (pts, cnt, p) Q"
  let ?t = "setWaitingForSkipped kWaitForSkippedTimeout (counted s ?Q)"
  have s: "0 < good s" "chain (good s) rest" "chain_end (good s) rest < 2 ^ 31" "Q \<subseteq> set rest"
      "\<not> requesting s" "applySkippedLevel s = 0"
    using pw unfolding partway_def by blast+
  have Q: "?Q \<subseteq> set rest" using s u by blast
  have t: "updateAndApply_with pts cnt p s = Some (False, enqueue pts p ?t)"
    using check_partway [OF pw u] gap s by (simp add: updateAndApply_with_def updated_with_def)
  have f: "0 \<le> kWaitForSkippedTimeout" by (simp add: kWaitForSkippedTimeout_def)
  have "\<exists>kas. holds kas (enqueue pts p ?t) \<and> set (map snd kas) = ?Q \<and> distinct (map snd kas)"
    by (rule enqueue_partway [OF pw u]) (simp_all add: setWaiting_fields [OF f])
  then have "partway rest ?Q (enqueue pts p ?t)"
    unfolding partway_def using gap s Q by (simp add: setWaiting_fields [OF f])
  moreover have "applied (enqueue pts p ?t) = applied s"
    using setWaiting_fields [OF f, of "counted s ?Q"] by (simp add: applied_def)
  ultimately show ?thesis using t by (auto simp: setWaiting_fields [OF f])
qed

text \<open>The gap closes: what waited is a prefix of the updates to come, and they are applied.\<close>

lemma prefix_done:
  assumes pw: "partway rest Q s" and s': "queue s' = []" "updateQueue s' = []" "updatesQueue s' = []"
      "applySkippedLevel s' = 0" "\<not> requesting s'"
    and g: "good s' = chain_end (good s) (take n rest)" "pcount s' = good s'" "last_pts s' = good s'"
  shows "partway (drop n rest) {} s'"
proof -
  have s: "0 < good s" "chain (good s) rest" "chain_end (good s) rest < 2 ^ 31"
    using pw unfolding partway_def by blast+
  note cp = chain_prefix [OF s(2), of n]
  have "good s \<le> good s'" using cp chain_end_ge [of "good s" "take n rest"] g(1) by simp
  then show ?thesis
    unfolding partway_def using s' g holds_nil [of s'] cp s
    by (auto simp: total_def reach_def [of _ "{}"] intro!: exI [of _ "[]"])
qed

lemma arrive_closes:
  assumes pw: "partway rest Q s" and u: "(pts, cnt, p) \<in> set rest - Q"
    and n: "insert (pts, cnt, p) Q = set (take n rest)"
    and full: "good s + total (insert (pts, cnt, p) Q) = reach (good s) (insert (pts, cnt, p) Q)"
  shows "\<exists>s'. updateAndApply_with pts cnt p s = Some (True, s') \<and> partway (drop n rest) {} s'
    \<and> applied s' = applied s @ map (\<lambda>a. Some (a_load a)) (take n rest)
    \<and> good s' = chain_end (good s) (take n rest)"
proof -
  let ?Q = "insert (pts, cnt, p) Q"
  let ?s2 = "(counted s ?Q)\<lparr>good := reach (good s) ?Q\<rparr>"
  have s: "0 < good s" "chain (good s) rest" "chain_end (good s) rest < 2 ^ 31" "\<not> requesting s" "applySkippedLevel s = 0"
    using pw unfolding partway_def by blast+
  have gd: "reach (good s) ?Q = chain_end (good s) (take n rest)"
    using chain_full [of "good s" "take n rest"] chain_prefix [OF s(2), of n] n by simp
  have upd: "updated_with pts cnt p s = Some (True, ?s2)"
    using check_partway [OF pw u] full s by (simp add: updated_with_def)
  obtain kas where kas: "holds kas s" "set (map snd kas) = Q" using pw unfolding partway_def by blast
  show ?thesis
  proof (cases "Q = {}")
    case True
    then have e: "queue s = []" "updateQueue s = []" "updatesQueue s = []"
      using kas by (auto simp: holds_def)
    have "distinct (take n rest)" using chain_distinct [OF s(2)] by simp
    then have one: "take n rest = [(pts, cnt, p)]"
      by (rule distinct_set_single) (use n True in simp)
    let ?s' = "?s2\<lparr>effects := effects ?s2 @ [Apply (Some p)]\<rparr>"
    have "updateAndApply_with pts cnt p s = Some (True, ?s')"
      using upd e by (simp add: updateAndApply_with_def)
    moreover have "partway (drop n rest) {} ?s'"
      by (rule prefix_done [OF pw]) (use e s gd full in simp_all)
    ultimately show ?thesis using gd by (auto simp: applied_def one)
  next
    case False
    then have w: "waitingForSkipped s" "queue s \<noteq> []"
      using pw kas by (auto simp: partway_def holds_def)
    let ?t = "enqueue pts p ?s2"
    obtain kas' where k: "holds kas' ?t" "set (map snd kas') = ?Q" "distinct (map snd kas')"
      using enqueue_partway [OF pw u, of ?s2] by auto
    have t: "updateAndApply_with pts cnt p s = Some (True, applySkippedUpdates ?t)"
      using upd w by (simp add: updateAndApply_with_def)
    have q: "waitingForSkipped ?t" "queue ?t \<noteq> []" using w k by (auto simp: holds_def)
    note a = applySkipped_queue [OF q]
    have "partway (drop n rest) {} (applySkippedUpdates ?t)"
      by (rule prefix_done [OF pw]) (use a s gd full in simp_all)
    moreover have "map snd kas' = take n rest"
      by (rule holds_in_order [OF k(1) s(2) _ s(3)]) (use s k n in auto)
    then have "map (queued_payload ?t) (queue ?t) = map (\<lambda>a. Some (a_load a)) (take n rest)"
      using holds_payloads [OF k(1)] by simp
    moreover have "applied ?t = applied s" by (simp add: applied_def)
    ultimately show ?thesis using t a gd by auto
  qed
qed

lemma arrive_partway:
  assumes pw: "partway rest Q s" and u: "(pts, cnt, p) \<in> set rest - Q"
  shows "\<exists>b s'. updateAndApply_with pts cnt p s = Some (b, s') \<and>
    (partway rest (insert (pts, cnt, p) Q) s' \<and> applied s' = applied s \<and> good s' = good s
     \<or> (\<exists>n. insert (pts, cnt, p) Q = set (take n rest) \<and> partway (drop n rest) {} s'
          \<and> applied s' = applied s @ map (\<lambda>a. Some (a_load a)) (take n rest)
          \<and> good s' = chain_end (good s) (take n rest)))"
proof (cases "good s + total (insert (pts, cnt, p) Q) = reach (good s) (insert (pts, cnt, p) Q)")
  case False
  then show ?thesis using arrive_waits [OF pw u] by blast
next
  case True
  have "chain (good s) rest" "insert (pts, cnt, p) Q \<subseteq> set rest" using pw u unfolding partway_def by blast+
  then obtain n where n: "insert (pts, cnt, p) Q = set (take n rest)" using chain_gap True by blast
  then show ?thesis using arrive_closes [OF pw u n True] by blast
qed

lemma deliver_partway:
  assumes "partway rest Q s" "distinct ds" "set ds = set rest - Q"
  shows "\<exists>s'. deliver ds s = Some s' \<and> partway [] {} s' \<and> good s' = chain_end (good s) rest
    \<and> applied s' = applied s @ map (\<lambda>a. Some (a_load a)) rest"
  using assms
proof (induction ds arbitrary: rest Q s)
  case Nil
  then have "Q = set rest" "chain (good s) rest" by (auto simp: partway_def)
  then have "rest = []" using Nil chain_full [of "good s" rest] by (auto simp: partway_def)
  with Nil \<open>Q = set rest\<close> show ?case by auto
next
  case (Cons u ds)
  obtain pts cnt p where u: "u = (pts, cnt, p)" by (cases u)
  have "u \<in> set rest - Q" using Cons.prems by auto
  from arrive_partway [OF Cons.prems(1) this [unfolded u]] obtain b s1 where
    s1: "updateAndApply_with pts cnt p s = Some (b, s1)"
    and alt: "partway rest (insert u Q) s1 \<and> applied s1 = applied s \<and> good s1 = good s
     \<or> (\<exists>n. insert u Q = set (take n rest) \<and> partway (drop n rest) {} s1
          \<and> applied s1 = applied s @ map (\<lambda>a. Some (a_load a)) (take n rest)
          \<and> good s1 = chain_end (good s) (take n rest))"
    unfolding u by blast
  have d: "deliver (u # ds) s = deliver ds s1" by (simp add: u s1)
  have ds: "distinct ds" "set ds = set rest - insert u Q" using Cons.prems by auto
  from alt show ?case
  proof (elim disjE exE conjE)
    assume "partway rest (insert u Q) s1" "applied s1 = applied s" "good s1 = good s"
    with Cons.IH [of rest "insert u Q" s1] ds d show ?thesis by simp
  next
    fix n assume n: "insert u Q = set (take n rest)" "partway (drop n rest) {} s1"
      "applied s1 = applied s @ map (\<lambda>a. Some (a_load a)) (take n rest)"
      "good s1 = chain_end (good s) (take n rest)"
    have c: "chain (good s) rest" using Cons.prems by (simp add: partway_def)
    then have "set (take n rest) \<inter> set (drop n rest) = {}"
      by (metis chain_distinct append_take_drop_id distinct_append)
    then have "set ds = set (drop n rest) - {}"
      using ds n set_append [of "take n rest" "drop n rest"] by auto
    from Cons.IH [OF n(2) ds(1) this] n(3,4) d chain_prefix [OF c, of n] show ?thesis
      by (auto simp: map_append [symmetric] simp del: map_append)
  qed
qed

text \<open>
  C4. Let \<open>us\<close> be a contiguous run of the update stream after \<open>pts = g\<close>. If the updates of \<open>us\<close>
  arrive in any order at a waiter that is at \<open>g\<close> and not requesting, the waiter accepts them all
  without overflow, applies each payload exactly once and in stream order, ends with an empty
  queue at the end of the run, and then rejects every update of the run that arrives again.
\<close>
theorem pts_any_order:
  assumes "0 < g" "chain g us" "chain_end g us < 2 ^ 31" "mset ds = mset us" "\<not> requesting s"
  shows "\<exists>s'. deliver ds (init g s) = Some s' \<and> good s' = chain_end g us \<and> queue s' = []
    \<and> applied s' = applied s @ map (\<lambda>(pts, cnt, p). Some p) us
    \<and> (\<forall>(pts, cnt, p) \<in> set us. updateAndApply_with pts cnt p s' = Some (False, s'))"
proof -
  have i: "queue (init g s) = []" "updateQueue (init g s) = []" "updatesQueue (init g s) = []"
    "good (init g s) = g" "requesting (init g s) = requesting s" "applied (init g s) = applied s"
    by (simp_all add: init_def clearSkippedUpdates_def applied_def)
  have "partway us {} (init g s)"
    unfolding partway_def using assms i holds_nil [of "init g s"]
    by (auto simp: init_def clearSkippedUpdates_def total_def reach_def intro!: exI [of _ "[]"])
  moreover have "distinct ds" "set ds = set us - {}"
    using chain_distinct [OF assms(2)] mset_eq_imp_distinct_iff [OF assms(4)] mset_eq_setD [OF assms(4)]
    by auto
  ultimately obtain s' where s': "deliver ds (init g s) = Some s'" "partway [] {} s'"
      "good s' = chain_end g us" "applied s' = applied s @ map (\<lambda>a. Some (a_load a)) us"
    using deliver_partway i by metis
  have "updateAndApply_with pts cnt p s' = Some (False, s')" if "(pts, cnt, p) \<in> set us" for pts cnt p
  proof -
    have "pts \<le> good s'" "0 < cnt"
      using that chain_end_ge [OF assms(2)] chain_sorted [OF assms(2)] s'(3) by auto
    then show ?thesis
      using s'(2) by (simp add: partway_def updateAndApply_with_def updated_with_def)
  qed
  moreover have "queue s' = []" using s'(2) by (auto simp: partway_def holds_def)
  moreover have "map (\<lambda>a. Some (a_load a)) us = map (\<lambda>(pts, cnt, p). Some p) us" by auto
  ultimately show ?thesis using s' by auto
qed

theorem pts_any_order_witness:
  "\<exists>s'. deliver [(13, 2, ManyUpdates 3), (11, 1, OneUpdate 2), (10, 3, OneUpdate (1::nat))]
        (init 7 (pts_initial :: (nat, nat) pts_waiter)) = Some s' \<and> good s' = 13 \<and> queue s' = []
     \<and> applied s' = [Some (OneUpdate 1), Some (OneUpdate 2), Some (ManyUpdates 3)]"
proof -
  let ?us = "[(10, 3, OneUpdate (1::nat)), (11, 1, OneUpdate 2), (13, 2, ManyUpdates (3::nat))]"
  have "mset [(13, 2, ManyUpdates 3), (11, 1, OneUpdate 2), (10, 3, OneUpdate (1::nat))] = mset ?us"
    by simp
  from pts_any_order [OF _ _ _ this, of 7 "pts_initial :: (nat, nat) pts_waiter"] show ?thesis
    by (auto simp: pts_initial_def applied_def)
qed

text \<open>
  A single \<open>updateAndApply\<close> of a waiter that is neither requesting nor applying, on every
  branch: a number already passed is refused and nothing changes; the update that closes the gap
  (the events counted so far reach the largest number seen) is accepted, moves \<open>current()\<close> to
  that number and leaves the queue empty when the waiter was waiting or had nothing queued; an
  update ahead of the stream is refused, leaves \<open>current()\<close> alone and asks for a one second timer.
\<close>
theorem pts_update_branches:
  assumes "\<not> requesting s" "applySkippedLevel s = 0" "inited s" "0 < cnt"
    "int32_add (pcount s) cnt = Some c"
  shows "(pts \<le> good s \<longrightarrow> updateAndApply_with pts cnt p s = Some (False, s))
    \<and> (good s < pts \<and> max (last_pts s) pts = c \<longrightarrow>
         (\<exists>s'. updateAndApply_with pts cnt p s = Some (True, s') \<and> good s' = c
            \<and> (queue s = [] \<or> waitingForSkipped s \<longrightarrow> queue s' = [])))
    \<and> (good s < pts \<and> c < max (last_pts s) pts \<longrightarrow>
         (\<exists>s'. updateAndApply_with pts cnt p s = Some (False, s') \<and> good s' = good s
            \<and> timers s' = timers s @ [kWaitForSkippedTimeout] \<and> applied s' = applied s
            \<and> waitingForSkipped s'))"
proof -
  have clear: "queue (applySkippedUpdates (enqueue pts p t)) = [] \<and>
      good (applySkippedUpdates (enqueue pts p t)) = good t" if "waitingForSkipped t" for t
  proof -
    have "queue (enqueue pts p t) \<noteq> []"
      unfolding enqueue_queue by (cases "queue t") (auto split: if_splits)
    then show ?thesis using that applySkipped_queue [of "enqueue pts p t"] by simp
  qed
  have "updateAndApply_with pts cnt p s = Some (False, s)" if "pts \<le> good s"
    using that assms by (simp add: updateAndApply_with_def updated_with_def)
  moreover have "\<exists>s'. updateAndApply_with pts cnt p s = Some (True, s') \<and> good s' = c
            \<and> (queue s = [] \<or> waitingForSkipped s \<longrightarrow> queue s' = [])"
    if "good s < pts" "max (last_pts s) pts = c"
    using that assms clear by (auto simp: updateAndApply_with_def updated_with_def check_def Let_def)
  moreover have "\<exists>s'. updateAndApply_with pts cnt p s = Some (False, s') \<and> good s' = good s
            \<and> timers s' = timers s @ [kWaitForSkippedTimeout] \<and> applied s' = applied s
            \<and> waitingForSkipped s'"
    if "good s < pts" "c < max (last_pts s) pts"
    using that assms
    by (auto simp: updateAndApply_with_def updated_with_def check_def Let_def
        setWaitingForSkipped_def startTimer_def timers_def applied_def kWaitForSkippedTimeout_def)
  ultimately show ?thesis by blast
qed

theorem pts_update_branches_witness:
  "\<exists>s'. updateAndApply_with 12 1 (OneUpdate (0::nat)) (init 10 (pts_initial :: (nat, nat) pts_waiter))
      = Some (False, s') \<and> good s' = 10 \<and> waitingForSkipped s'"
  using pts_update_branches [of "init 10 (pts_initial :: (nat, nat) pts_waiter)" 1 11 12 "OneUpdate 0"]
  by (auto simp: pts_initial_def init_def clearSkippedUpdates_def inited_def int32_add_def)

end
