(* ===== verification/Working_Hours.thy ===== *)
theory Working_Hours
  imports Prelude "HOL-Library.Multiset"
begin

text \<open>
  Opening hours of a business account (\<open>data/business/data_business_common.{h,cpp}\<close>): intervals
  of seconds in a week, their normal form, and the editing of one day. A \<open>TimeId\<close> is an \<open>int\<close>:
  the values are times in a few weeks and cannot leave \<open>int32\<close>. \<open>ranges::sort\<close> is not stable;
  \<open>SortAndMerge\<close> is modelled with the stable sort and its result is proved not to depend on the
  choice. A failed \<open>Expects\<close> is \<open>None\<close>.
\<close>

subsection \<open>Intervals\<close>

record WorkingInterval =
  iv_start :: int
  iv_end :: int

abbreviation interval :: "int \<Rightarrow> int \<Rightarrow> WorkingInterval" where
  "interval a b \<equiv> \<lparr>iv_start = a, iv_end = b\<rparr>"

definition kDay :: int where "kDay = 24 * 3600"
definition kWeek :: int where "kWeek = 7 * kDay"
definition kInNextDayMax :: int where "kInNextDayMax = 6 * 3600"

lemmas week_defs = kDay_def kWeek_def kInNextDayMax_def

definition iv_valid :: "WorkingInterval \<Rightarrow> bool" where
  "iv_valid i \<longleftrightarrow> iv_start i < iv_end i"

definition shifted :: "int \<Rightarrow> WorkingInterval \<Rightarrow> WorkingInterval" where
  "shifted offset i = interval (iv_start i + offset) (iv_end i + offset)"

definition united :: "WorkingInterval \<Rightarrow> WorkingInterval \<Rightarrow> WorkingInterval" where
  "united i other =
     (if \<not> iv_valid i then other
      else if \<not> iv_valid other then i
      else interval (min (iv_start i) (iv_start other)) (max (iv_end i) (iv_end other)))"

definition intersected :: "WorkingInterval \<Rightarrow> WorkingInterval \<Rightarrow> WorkingInterval" where
  "intersected i other =
     (let result = interval (max (iv_start i) (iv_start other)) (min (iv_end i) (iv_end other))
      in if iv_valid result then result else interval 0 0)"

subsection \<open>The normal form\<close>

text \<open>
  The loop of \<open>SortAndMerge\<close>: \<open>kept\<close> holds the elements before index \<open>i\<close>, the nearest first.
\<close>

fun merge_loop :: "WorkingInterval list \<Rightarrow> WorkingInterval list \<Rightarrow> WorkingInterval list" where
  "merge_loop kept [] = rev kept"
| "merge_loop kept (x # xs) =
     (case kept of
        k # ks \<Rightarrow>
          (if iv_valid x \<and> iv_valid k \<and> iv_start x \<le> iv_end k then merge_loop (united k x # ks) xs
           else if \<not> iv_valid x then merge_loop kept xs
           else merge_loop (x # kept) xs)
      | [] \<Rightarrow> (if \<not> iv_valid x then merge_loop kept xs else merge_loop (x # kept) xs))"

definition SortAndMerge :: "WorkingInterval list \<Rightarrow> WorkingInterval list" where
  "SortAndMerge list = merge_loop [] (sort_key iv_start list)"

definition next_week_day :: WorkingInterval where
  "next_week_day = interval kWeek (kWeek + kDay)"

text \<open>One turn of the loop of \<open>MoveTailToFront\<close> on a list whose last element is \<open>x\<close>.\<close>

definition move_tail :: "WorkingInterval list \<Rightarrow> WorkingInterval \<Rightarrow> WorkingInterval list" where
  "move_tail xs x =
     (let tail = intersected x next_week_day;
          x' = x\<lparr>iv_end := iv_start tail\<rparr>
      in shifted (- kWeek) tail # xs @ (if iv_valid x' then [x'] else []))"

function MoveTailToFront :: "WorkingInterval list \<Rightarrow> WorkingInterval list" where
  "MoveTailToFront list =
     (if list \<noteq> [] \<and> iv_valid (intersected (last list) next_week_day)
      then MoveTailToFront (move_tail (butlast list) (last list))
      else list)"
  by auto

text \<open>Each turn leaves one element fewer that reaches into the day after the week.\<close>

lemma intersected_valid:
  "iv_valid (intersected i j) \<longleftrightarrow> max (iv_start i) (iv_start j) < min (iv_end i) (iv_end j)"
  by (simp add: intersected_def iv_valid_def Let_def)

lemma intersected_eq:
  "iv_valid (intersected i j) \<Longrightarrow>
   intersected i j = interval (max (iv_start i) (iv_start j)) (min (iv_end i) (iv_end j))"
  by (simp add: intersected_def iv_valid_def Let_def split: if_splits)

termination MoveTailToFront
proof (relation "measure (\<lambda>xs. length (filter (\<lambda>x. iv_valid (intersected x next_week_day)) xs))")
  fix list
  assume a: "list \<noteq> [] \<and> iv_valid (intersected (last list) next_week_day)"
  let ?P = "\<lambda>x. iv_valid (intersected x next_week_day)" and ?x = "last list"
  have l: "list = butlast list @ [?x]" using a by simp
  have t: "intersected ?x next_week_day = interval (max (iv_start ?x) kWeek) (min (iv_end ?x) (kWeek + kDay))"
    using a intersected_eq [of ?x next_week_day] by (simp add: next_week_day_def)
  have "\<not> ?P (shifted (- kWeek) (intersected ?x next_week_day))"
    unfolding t by (simp add: intersected_valid shifted_def next_week_day_def week_defs)
  moreover have "\<not> ?P (?x\<lparr>iv_end := iv_start (intersected ?x next_week_day)\<rparr>)"
    unfolding t by (simp add: intersected_valid next_week_day_def)
  ultimately have "length (filter ?P (move_tail (butlast list) ?x)) = length (filter ?P (butlast list))"
    by (simp add: move_tail_def Let_def)
  moreover have "length (filter ?P list) = Suc (length (filter ?P (butlast list)))"
    using a arg_cong [OF l, of "\<lambda>xs. length (filter ?P xs)"] by (simp only: filter_append) simp
  ultimately show "(move_tail (butlast list) (last list), list)
      \<in> measure (\<lambda>xs. length (filter ?P xs))" by simp
qed simp

declare MoveTailToFront.simps [simp del]

definition normalized :: "WorkingInterval list \<Rightarrow> WorkingInterval list" where
  "normalized list = SortAndMerge (MoveTailToFront (SortAndMerge list))"

subsection \<open>One day\<close>

definition day_window :: "int \<Rightarrow> int \<Rightarrow> WorkingInterval" where
  "day_window a b = interval (a * kDay) (b * kDay)"

definition day_parts :: "int \<Rightarrow> WorkingInterval \<Rightarrow> WorkingInterval list" where
  "day_parts dayIndex i =
     (let now = intersected i (day_window (dayIndex - 1) (dayIndex + 2));
          after = intersected i (day_window (dayIndex + 6) (dayIndex + 9));
          before = intersected i (day_window (dayIndex - 8) (dayIndex - 5))
      in (if iv_valid now then [shifted (- dayIndex * kDay) now] else [])
       @ (if iv_valid after then [shifted (- (dayIndex + 7) * kDay) after] else [])
       @ (if iv_valid before then [shifted (- (dayIndex - 7) * kDay) before] else []))"

definition fix_last_of_day :: "WorkingInterval list \<Rightarrow> WorkingInterval list" where
  "fix_last_of_day list =
     (if list = [] then list
      else if iv_start (last list) \<le> 0 \<and> iv_end (last list) \<ge> kDay then butlast list @ [interval 0 kDay]
      else if iv_end (last list) > kDay + kInNextDayMax
      then butlast list @ [intersected (last list) (interval 0 kDay)]
      else list)"

definition fix_first_of_day :: "WorkingInterval list \<Rightarrow> WorkingInterval list" where
  "fix_first_of_day list =
     (case list of
        [] \<Rightarrow> []
      | x # xs \<Rightarrow>
          (if iv_start x \<le> 0 then
             (if iv_start x < 0 \<and> iv_end x \<le> kInNextDayMax \<and> iv_start x > - kDay then xs
              else let x' = intersected x (interval 0 kDay) in if iv_valid x' then x' # xs else xs)
           else x # xs))"

definition ExtractDayIntervals :: "WorkingInterval list \<Rightarrow> int \<Rightarrow> WorkingInterval list option" where
  "ExtractDayIntervals list dayIndex =
     (if \<not> (0 \<le> dayIndex \<and> dayIndex < 7) then None
      else let result = normalized (concat (map (day_parts dayIndex) list));
               inside = filter (\<lambda>i. \<not> (iv_end i \<le> 0 \<or> iv_start i \<ge> kDay)) result
           in Some (fix_first_of_day (fix_last_of_day inside)))"

definition IsFullOpen :: "WorkingInterval list \<Rightarrow> bool" where
  "IsFullOpen day \<longleftrightarrow> (\<exists>i \<in> set day. iv_valid i)
     \<and> (hd day = interval 0 (kDay - 60) \<or> hd day = interval 0 kDay)"

text \<open>
  The loop of \<open>RemoveDayIntervals\<close>. The list of the code is \<open>kept @ rest @ pushed\<close> with \<open>rest\<close> from
  index \<open>i\<close> up to \<open>count\<close>; what is pushed to the back is not visited.
\<close>

fun remove_loop ::
    "int \<Rightarrow> WorkingInterval list \<Rightarrow> WorkingInterval list \<Rightarrow> WorkingInterval list \<Rightarrow> WorkingInterval list" where
  "remove_loop dayIndex kept [] pushed = kept @ pushed"
| "remove_loop dayIndex kept (x # rest) pushed =
     (let day = shifted (dayIndex * kDay) (interval 0 kDay);
          before = interval 0 (iv_start day);
          after = interval (iv_end day) kWeek;
          first = intersected x before;
          second = intersected x after
      in if iv_end x \<le> iv_start day \<or> iv_start x \<ge> iv_end day
         then remove_loop dayIndex (kept @ [x]) rest pushed
         else if iv_end x \<le> iv_start day + kInNextDayMax
              \<and> (iv_start x < iv_start day
                 \<or> dayIndex = 0 \<and> iv_start x = iv_start day
                   \<and> iv_end (last (kept @ x # rest @ pushed)) \<ge> kWeek)
         then remove_loop dayIndex (kept @ [x]) rest pushed
         else if iv_valid first
         then let again = intersected first after
              in remove_loop dayIndex (kept @ [first]) rest
                   (if iv_valid again then pushed @ [again] else pushed)
         else if iv_valid second then remove_loop dayIndex (kept @ [second]) rest pushed
         else remove_loop dayIndex kept rest pushed)"

definition RemoveDayIntervals :: "WorkingInterval list \<Rightarrow> int \<Rightarrow> WorkingInterval list" where
  "RemoveDayIntervals list dayIndex = normalized (remove_loop dayIndex [] (normalized list) [])"

definition ReplaceDayIntervals ::
    "WorkingInterval list \<Rightarrow> int \<Rightarrow> WorkingInterval list \<Rightarrow> WorkingInterval list" where
  "ReplaceDayIntervals list dayIndex replacement =
     normalized (RemoveDayIntervals list dayIndex @ map (shifted (dayIndex * kDay)) replacement)"

subsection \<open>Points and canonical lists\<close>

definition iv_points :: "WorkingInterval \<Rightarrow> int set" where
  "iv_points i = {iv_start i ..< iv_end i}"

definition points :: "WorkingInterval list \<Rightarrow> int set" where
  "points list = (\<Union>i \<in> set list. iv_points i)"

definition canonical :: "WorkingInterval list \<Rightarrow> bool" where
  "canonical list \<longleftrightarrow> (\<forall>i \<in> set list. iv_valid i) \<and> sorted_wrt (\<lambda>a b. iv_end a < iv_start b) list"

lemma points_simps [simp]:
  "points [] = {}" "points (x # xs) = iv_points x \<union> points xs" "points (xs @ ys) = points xs \<union> points ys"
  "points (rev xs) = points xs"
  by (auto simp: points_def)

lemma iv_points_empty: "\<not> iv_valid i \<Longrightarrow> iv_points i = {}"
  by (simp add: iv_points_def iv_valid_def)

lemma iv_points_intersected: "iv_points (intersected i j) = iv_points i \<inter> iv_points j"
  by (auto simp: intersected_def iv_points_def iv_valid_def Let_def)

lemma iv_points_shifted: "iv_points (shifted d i) = (\<lambda>x. x + d) ` iv_points i"
  by (simp add: iv_points_def shifted_def)

lemma merge_loop_canonical:
  assumes "canonical (rev kept)" "sorted (map iv_start xs)"
    "\<forall>k \<in> set kept. \<forall>x \<in> set xs. iv_start k \<le> iv_start x"
  shows "canonical (merge_loop kept xs) \<and> points (merge_loop kept xs) = points kept \<union> points xs"
  using assms
proof (induction xs arbitrary: kept)
  case Nil
  then show ?case by simp
next
  case (Cons x xs)
  have srt: "sorted (map iv_start xs)" using Cons.prems by simp
  show ?case
  proof (cases "iv_valid x")
    case False
    have "merge_loop kept (x # xs) = merge_loop kept xs" using False by (simp split: list.splits)
    then show ?thesis using Cons.IH [OF Cons.prems(1) srt] Cons.prems(3) iv_points_empty [OF False] by simp
  next
    case x: True
    show ?thesis
    proof (cases "\<exists>k ks. kept = k # ks \<and> iv_start x \<le> iv_end k")
      case True
      then obtain k ks where k: "kept = k # ks" "iv_start x \<le> iv_end k" by blast
      have ok: "iv_valid k" "iv_start k \<le> iv_start x" using Cons.prems k by (auto simp: canonical_def)
      have u: "united k x = interval (iv_start k) (max (iv_end k) (iv_end x))"
        using ok x by (simp add: united_def)
      have pts: "iv_points (united k x) = iv_points k \<union> iv_points x"
        unfolding u using ok x k by (auto simp: iv_points_def iv_valid_def)
      have "canonical (rev (united k x # ks))"
        using Cons.prems(1) k x ok unfolding u by (auto simp: canonical_def sorted_wrt_append iv_valid_def)
      moreover have "\<forall>j \<in> set (united k x # ks). \<forall>y \<in> set xs. iv_start j \<le> iv_start y"
        using Cons.prems(3) k unfolding u by auto
      ultimately show ?thesis
        using Cons.IH [of "united k x # ks"] srt k x ok pts by auto
    next
      case False
      have "merge_loop kept (x # xs) = merge_loop (x # kept) xs"
        using False x by (auto split: list.splits)
      moreover have "\<forall>j \<in> set kept. iv_end j < iv_start x"
      proof
        fix j assume j: "j \<in> set kept"
        then obtain k ks where k: "kept = k # ks" by (cases kept) auto
        then have "iv_end k < iv_start x" using False by force
        moreover have "j = k \<or> iv_end j < iv_start k" "iv_valid k"
          using j k Cons.prems(1) by (auto simp: canonical_def sorted_wrt_append)
        ultimately show "iv_end j < iv_start x" by (auto simp: iv_valid_def)
      qed
      then have "canonical (rev (x # kept))"
        using Cons.prems(1) x by (auto simp: canonical_def sorted_wrt_append)
      moreover have "\<forall>j \<in> set (x # kept). \<forall>y \<in> set xs. iv_start j \<le> iv_start y"
        using Cons.prems(2,3) by auto
      ultimately show ?thesis using Cons.IH [of "x # kept"] srt by auto
    qed
  qed
qed

lemma points_mset: "mset xs = mset ys \<Longrightarrow> points xs = points ys"
  using mset_eq_setD [of xs ys] by (simp add: points_def)

lemma SortAndMerge_canonical: "canonical (SortAndMerge xs) \<and> points (SortAndMerge xs) = points xs"
proof -
  have "canonical (SortAndMerge xs) \<and> points (SortAndMerge xs) = points [] \<union> points (sort_key iv_start xs)"
    unfolding SortAndMerge_def by (rule merge_loop_canonical) (simp_all add: canonical_def)
  then show ?thesis using points_mset [of "sort_key iv_start xs" xs] by simp
qed

text \<open>A set of points has one canonical list.\<close>

lemma canonical_head:
  assumes "canonical (a # as)"
  shows "iv_start a \<in> points (a # as)" "\<forall>x \<in> points (a # as). iv_start a \<le> x"
    "iv_end a \<notin> points (a # as)" "{iv_start a ..< iv_end a} \<subseteq> points (a # as)"
    "\<forall>x \<in> points as. iv_end a < x"
proof -
  have a: "iv_start a < iv_end a" and after: "\<forall>b \<in> set as. iv_end a < iv_start b"
    using assms by (auto simp: canonical_def iv_valid_def)
  show later: "\<forall>x \<in> points as. iv_end a < x"
    using after by (force simp: points_def iv_points_def)
  show "iv_start a \<in> points (a # as)" "{iv_start a ..< iv_end a} \<subseteq> points (a # as)"
    using a by (auto simp: iv_points_def)
  show "\<forall>x \<in> points (a # as). iv_start a \<le> x" "iv_end a \<notin> points (a # as)"
    using a later by (auto simp: iv_points_def dest!: bspec [OF later])
qed

lemma canonical_unique:
  "canonical as \<Longrightarrow> canonical bs \<Longrightarrow> points as = points bs \<Longrightarrow> as = bs"
proof (induction as arbitrary: bs)
  case Nil
  then show ?case using canonical_head(1) by (cases bs) auto
next
  case (Cons a as)
  then obtain b cs where bs: "bs = b # cs" using canonical_head(1) [of a as] by (cases bs) auto
  note A = canonical_head [OF Cons.prems(1)] and B = canonical_head [OF Cons.prems(2) [unfolded bs]]
  have eq: "points (a # as) = points (b # cs)" using Cons.prems(3) bs by simp
  have s: "iv_start a = iv_start b"
    using bspec [OF A(2), of "iv_start b"] bspec [OF B(2), of "iv_start a"] A(1) B(1) unfolding eq
    by (meson antisym)
  have "\<not> iv_end a < iv_end b"
  proof
    assume "iv_end a < iv_end b"
    moreover have "iv_start a < iv_end a" using Cons.prems(1) by (simp add: canonical_def iv_valid_def)
    ultimately have "iv_end a \<in> {iv_start b ..< iv_end b}" using s by simp
    then show False using A(3) B(4) eq by blast
  qed
  moreover have "\<not> iv_end b < iv_end a"
  proof
    assume "iv_end b < iv_end a"
    moreover have "iv_start b < iv_end b" using Cons.prems(2) bs by (simp add: canonical_def iv_valid_def)
    ultimately have "iv_end b \<in> {iv_start a ..< iv_end a}" using s by simp
    then show False using B(3) A(4) eq by blast
  qed
  ultimately have ab: "a = b" using s by (simp add: WorkingInterval.equality)
  have rest: "points xs = {x \<in> points (i # xs). iv_end i < x}" if "\<forall>x \<in> points xs. iv_end i < x" for i xs
    using that by (auto simp: iv_points_def)
  have "points as = {x \<in> points (a # as). iv_end a < x}" by (rule rest [OF A(5)])
  also have "\<dots> = {x \<in> points (b # cs). iv_end b < x}" unfolding eq unfolding ab ..
  also have "\<dots> = points cs" by (rule rest [OF B(5), symmetric])
  finally have "points as = points cs" .
  moreover have "canonical as" "canonical cs" using Cons.prems bs by (simp_all add: canonical_def)
  ultimately show ?case using Cons.IH [of cs] bs ab by simp
qed

subsection \<open>Wrapping the end of the week\<close>

definition wrap_week :: "int set \<Rightarrow> int set" where
  "wrap_week X = {x \<in> X. x < kWeek} \<union> (\<lambda>x. x - kWeek) ` {x \<in> X. kWeek \<le> x}"

lemma wrap_week_Un: "wrap_week (X \<union> Y) = wrap_week X \<union> wrap_week Y"
  by (auto simp: wrap_week_def)

lemma wrap_week_id: "\<forall>x \<in> X. x < kWeek \<Longrightarrow> wrap_week X = X"
  by (auto simp: wrap_week_def)

text \<open>Intervals before the last one end before it starts or within the week.\<close>

abbreviation ends_apart :: "WorkingInterval \<Rightarrow> WorkingInterval \<Rightarrow> bool" where
  "ends_apart a b \<equiv> iv_end a \<le> iv_start b \<or> iv_end a \<le> kWeek"

lemma points_bound:
  assumes "\<forall>i \<in> set list. iv_valid i" "points list \<subseteq> {..< b}" "i \<in> set list"
  shows "iv_end i \<le> b"
proof -
  have "iv_valid i" using assms by blast
  then have "iv_end i - 1 \<in> iv_points i" by (simp add: iv_points_def iv_valid_def)
  then have "iv_end i - 1 \<in> points list" using assms(3) by (auto simp: points_def)
  then show ?thesis using assms(2) by force
qed

lemma no_tail_week:
  assumes v: "\<forall>i \<in> set list. iv_valid i" and b: "points list \<subseteq> {..< kWeek + kDay}"
    and s: "sorted_wrt ends_apart list"
    and n: "\<not> (list \<noteq> [] \<and> iv_valid (intersected (last list) next_week_day))"
  shows "wrap_week (points list) = points list"
proof -
  have "iv_end i \<le> kWeek" if i: "i \<in> set list" for i
  proof -
    have ne: "list \<noteq> []" using i by auto
    have l: "list = butlast list @ [last list]" using ne by simp
    have v': "iv_valid (last list)" "iv_end (last list) \<le> kWeek + kDay" using v ne points_bound [OF v b] by auto
    have "iv_end (last list) \<le> kWeek"
      using n ne v' unfolding intersected_valid by (auto simp: next_week_day_def iv_valid_def week_defs)
    moreover have "i = last list \<or> iv_end i \<le> iv_start (last list) \<or> iv_end i \<le> kWeek"
      using s i l by (metis (no_types, lifting) Un_iff empty_iff insert_iff list.set(1) list.set(2) set_append sorted_wrt_append)
    ultimately show ?thesis using v' by (auto simp: iv_valid_def)
  qed
  then have "\<forall>x \<in> points list. x < kWeek" by (fastforce simp: points_def iv_points_def)
  then show ?thesis by (rule wrap_week_id)
qed

text \<open>One move: the part of the last interval in the next week comes to the front.\<close>

lemma move_tail_ok:
  assumes v: "\<forall>i \<in> set (xs @ [x]). iv_valid i" and b: "points (xs @ [x]) \<subseteq> {..< kWeek + kDay}"
    and s: "sorted_wrt ends_apart (xs @ [x])" and t: "iv_valid (intersected x next_week_day)"
  shows "\<forall>i \<in> set (move_tail xs x). iv_valid i" "points (move_tail xs x) \<subseteq> {..< kWeek + kDay}"
    "sorted_wrt ends_apart (move_tail xs x)"
    "wrap_week (points (move_tail xs x)) = wrap_week (points (xs @ [x]))"
proof -
  let ?new = "shifted (- kWeek) (interval (max (iv_start x) kWeek) (iv_end x))"
  let ?y = "x\<lparr>iv_end := max (iv_start x) kWeek\<rparr>"
  let ?img = "(\<lambda>z. z - kWeek) ` {z \<in> iv_points x. kWeek \<le> z}" and ?low = "{z \<in> iv_points x. z < kWeek}"
  have x: "iv_valid x" "iv_end x \<le> kWeek + kDay" using v points_bound [OF v b] by auto
  have lt: "max (iv_start x) kWeek < iv_end x" using t x by (simp add: intersected_valid next_week_day_def)
  have i: "intersected x next_week_day = interval (max (iv_start x) kWeek) (iv_end x)"
    using t x intersected_eq [of x next_week_day] by (simp add: next_week_day_def min_absorb1)
  have mt: "move_tail xs x = ?new # xs @ (if iv_valid ?y then [?y] else [])"
    by (simp add: move_tail_def i Let_def)
  have "iv_points (interval (max (iv_start x) kWeek) (iv_end x)) = {z \<in> iv_points x. kWeek \<le> z}"
    by (auto simp: iv_points_def)
  then have pn: "iv_points ?new = ?img" by (simp add: iv_points_shifted)
  have py: "points (if iv_valid ?y then [?y] else []) = ?low" using lt by (auto simp: iv_points_def iv_valid_def)
  have pm: "points (move_tail xs x) = ?img \<union> points xs \<union> ?low" unfolding mt by (simp add: pn py Un_assoc)
  have img: "z < kDay" if "z \<in> ?img" for z using that x(2) by (auto simp: iv_points_def)
  have "iv_valid ?new" using lt by (simp add: iv_valid_def shifted_def)
  moreover have "\<forall>i \<in> set xs. iv_valid i" using v by simp
  ultimately show "\<forall>i \<in> set (move_tail xs x). iv_valid i"
    unfolding mt by (cases "iv_valid ?y") (simp_all only: if_True if_False set_simps set_append ball_Un ball_simps simp_thms)
  show "points (move_tail xs x) \<subseteq> {..< kWeek + kDay}"
    unfolding pm using b img by (fastforce simp: week_defs)
  have "iv_end ?new \<le> kWeek" using x(2) by (simp add: shifted_def week_defs)
  moreover have "sorted_wrt ends_apart (xs @ (if iv_valid ?y then [?y] else []))"
    using s by (cases "iv_valid ?y") (simp_all only: if_True if_False, simp_all add: sorted_wrt_append)
  ultimately have "sorted_wrt ends_apart (?new # xs @ (if iv_valid ?y then [?y] else []))"
    by (simp only: sorted_wrt.simps simp_thms ball_triv)
  then show "sorted_wrt ends_apart (move_tail xs x)" by (simp only: mt)
  have "\<forall>z \<in> ?img. z < kWeek" using img by (force simp: week_defs)
  then have "wrap_week ?img = ?img" by (rule wrap_week_id)
  moreover have "wrap_week ?low = ?low" by (rule wrap_week_id) simp
  ultimately have "wrap_week (points (move_tail xs x)) = ?img \<union> wrap_week (points xs) \<union> ?low"
    unfolding pm wrap_week_Un by simp
  also have "\<dots> = wrap_week (points xs) \<union> wrap_week (iv_points x)"
    unfolding wrap_week_def [of "iv_points x"] by blast
  finally show "wrap_week (points (move_tail xs x)) = wrap_week (points (xs @ [x]))" by (simp add: wrap_week_Un)
qed

lemma MoveTailToFront_points:
  assumes "\<forall>i \<in> set list. iv_valid i" "points list \<subseteq> {..< kWeek + kDay}" "sorted_wrt ends_apart list"
  shows "points (MoveTailToFront list) = wrap_week (points list)"
  using assms
proof (induction list rule: MoveTailToFront.induct)
  case (1 list)
  show ?case
  proof (cases "list \<noteq> [] \<and> iv_valid (intersected (last list) next_week_day)")
    case False
    then have "MoveTailToFront list = list" by (subst MoveTailToFront.simps) (rule if_not_P)
    then show ?thesis using no_tail_week [OF 1(2-4) False] by simp
  next
    case True
    then have l: "butlast list @ [last list] = list" by simp
    note m = move_tail_ok [of "butlast list" "last list", unfolded l, OF 1(2-4)]
    have "points (MoveTailToFront (move_tail (butlast list) (last list)))
        = wrap_week (points (move_tail (butlast list) (last list)))"
      using "1.IH" [OF True] m True by blast
    then show ?thesis using m(4) True by (subst MoveTailToFront.simps) simp
  qed
qed

text \<open>
  C26. The normal form of opening hours: whatever the intervals are (overlapping, empty, in any
  order), \<open>SortAndMerge\<close> covers exactly the same moments by non-empty intervals in increasing order
  with gaps between them, and any other order of the elements before the merging loop that is
  sorted by start, which an unstable sort may produce, gives the same list.
\<close>

theorem sort_and_merge_correct:
  assumes "mset ys = mset xs" "sorted (map iv_start ys)"
  shows "canonical (SortAndMerge xs) \<and> points (SortAndMerge xs) = points xs
    \<and> merge_loop [] ys = SortAndMerge xs"
proof -
  have "canonical (merge_loop [] ys) \<and> points (merge_loop [] ys) = points [] \<union> points ys"
    by (rule merge_loop_canonical) (simp_all add: canonical_def assms)
  then show ?thesis
    using SortAndMerge_canonical [of xs] canonical_unique points_mset [OF assms(1)] by auto
qed

theorem sort_and_merge_correct_witness:
  "SortAndMerge [interval 5 9, interval 1 3, interval 1 2, interval 3 4]
     = merge_loop [] [interval 1 2, interval 1 3, interval 3 4, interval 5 9]
   \<and> SortAndMerge [interval 5 9, interval 1 3, interval 1 2, interval 3 4] = [interval 1 4, interval 5 9]"
proof -
  have "merge_loop [] [interval 1 2, interval 1 3, interval 3 4, interval 5 9]
      = SortAndMerge [interval 5 9, interval 1 3, interval 1 2, interval 3 4]"
    using sort_and_merge_correct [of "[interval 1 2, interval 1 3, interval 3 4, interval 5 9]"
        "[interval 5 9, interval 1 3, interval 1 2, interval 3 4]"] by simp
  moreover have "merge_loop [] [interval 1 2, interval 1 3, interval 3 4, interval 5 9] = [interval 1 4, interval 5 9]"
    by (simp add: iv_valid_def united_def)
  ultimately show ?thesis by simp
qed

lemma normalized_points:
  assumes "points xs \<subseteq> {..< kWeek + kDay}"
  shows "canonical (normalized xs) \<and> points (normalized xs) = wrap_week (points xs)"
proof -
  note S = SortAndMerge_canonical [of xs]
  have "points (MoveTailToFront (SortAndMerge xs)) = wrap_week (points (SortAndMerge xs))"
  proof (rule MoveTailToFront_points)
    show "points (SortAndMerge xs) \<subseteq> {..< kWeek + kDay}" using S assms by simp
    show "\<forall>i \<in> set (SortAndMerge xs). iv_valid i" using S by (simp add: canonical_def)
    show "sorted_wrt (\<lambda>a b. iv_end a \<le> iv_start b \<or> iv_end a \<le> kWeek) (SortAndMerge xs)"
      using S unfolding canonical_def by (auto intro: sorted_wrt_mono_rel [rotated])
  qed
  then show ?thesis
    using SortAndMerge_canonical [of "MoveTailToFront (SortAndMerge xs)"] S by (simp add: normalized_def)
qed

text \<open>Without a bound on the points the result is canonical all the same.\<close>

lemma normalized_canonical: "canonical (normalized xs)"
  using SortAndMerge_canonical by (simp add: normalized_def)

lemma wrap_week_mod:
  assumes "X \<subseteq> {0 ..< kWeek + kDay}"
  shows "wrap_week X = (\<lambda>x. x mod kWeek) ` X"
proof -
  have m: "x mod kWeek = (if x < kWeek then x else x - kWeek)" if "x \<in> X" for x
  proof (cases "x < kWeek")
    case True
    then show ?thesis using assms that by auto
  next
    case False
    moreover have "x < kWeek + kDay" using assms that by auto
    ultimately have "(x - kWeek) mod kWeek = x - kWeek"
      by (intro mod_pos_pos_trivial) (simp_all add: week_defs)
    then show ?thesis using False by simp
  qed
  then have "(\<lambda>x. x mod kWeek) ` X = (\<lambda>x. if x < kWeek then x else x - kWeek) ` X" by simp
  also have "\<dots> = wrap_week X" by (auto simp: wrap_week_def image_iff)
  finally show ?thesis by simp
qed

lemma normalized_in_week:
  assumes "points xs \<subseteq> {0 ..< kWeek + kDay}"
  shows "canonical (normalized xs) \<and> points (normalized xs) = (\<lambda>x. x mod kWeek) ` points xs
    \<and> points (normalized xs) \<subseteq> {0 ..< kWeek}"
proof -
  have n: "canonical (normalized xs)" "points (normalized xs) = (\<lambda>x. x mod kWeek) ` points xs"
    using normalized_points [of xs, OF order_trans [OF assms]] wrap_week_mod [OF assms]
    by (auto simp: atLeastLessThan_def)
  have "points (normalized xs) \<subseteq> {0 ..< kWeek}" unfolding n(2) by (auto simp: week_defs)
  with n show ?thesis by simp
qed

lemma canonical_normalized_id:
  assumes "canonical xs" "points xs \<subseteq> {0 ..< kWeek}"
  shows "normalized xs = xs"
proof -
  have "points xs \<subseteq> {..< kWeek + kDay}" "\<forall>x \<in> points xs. x < kWeek" using assms(2) by (force simp: week_defs)+
  then have "canonical (normalized xs)" "points (normalized xs) = points xs"
    using normalized_points [of xs] wrap_week_id by auto
  then show ?thesis using canonical_unique assms(1) by blast
qed

text \<open>
  C7. \<open>WorkingIntervals::normalized\<close> on intervals that begin in the week and end at most a day after
  it: the result covers exactly the same moments of a repeating week (seconds modulo the week),
  all of them inside \<open>[0, kWeek)\<close>, by separated non-empty intervals, and normalizing again changes
  nothing. In particular the loop that moves the tail of the week to its front ends.
\<close>

theorem normalized_correct:
  assumes "points xs \<subseteq> {0 ..< kWeek + kDay}"
  shows "canonical (normalized xs) \<and> points (normalized xs) = (\<lambda>x. x mod kWeek) ` points xs
    \<and> points (normalized xs) \<subseteq> {0 ..< kWeek} \<and> normalized (normalized xs) = normalized xs"
  using normalized_in_week [OF assms] canonical_normalized_id by blast

theorem normalized_correct_witness:
  "points (normalized [interval 604700 604900, interval 50 60]) = (\<lambda>x. x mod kWeek) ` points [interval 604700 604900, interval 50 60]"
  using normalized_correct [of "[interval 604700 604900, interval 50 60]"]
  by (simp add: iv_points_def week_defs)

subsection \<open>Editing one day\<close>

text \<open>An interval that adds nothing to \<open>base\<close> and stays out of the day from 6:00 on.\<close>

definition off_day :: "int \<Rightarrow> WorkingInterval set \<Rightarrow> WorkingInterval \<Rightarrow> bool" where
  "off_day d base i \<longleftrightarrow> (\<exists>j \<in> base. iv_points i \<subseteq> iv_points j)
     \<and> iv_points i \<inter> {d * kDay + kInNextDayMax ..< (d + 1) * kDay} = {}"

lemma off_dayI:
  "j \<in> base \<Longrightarrow> iv_points i \<subseteq> iv_points j
    \<Longrightarrow> iv_points i \<inter> {d * kDay + kInNextDayMax ..< (d + 1) * kDay} = {} \<Longrightarrow> off_day d base i"
  by (auto simp: off_day_def)

lemma remove_loop_points:
  assumes "0 \<le> d" "\<forall>i \<in> set (kept @ pushed). off_day d base i" "set rest \<subseteq> base"
  shows "\<forall>i \<in> set (remove_loop d kept rest pushed). off_day d base i"
  using assms(2,3)
proof (induction rest arbitrary: kept pushed)
  case Nil
  then show ?case by auto
next
  case (Cons x rest)
  let ?day = "shifted (d * kDay) (interval 0 kDay)"
  let ?first = "intersected x (interval 0 (iv_start ?day))"
  let ?second = "intersected x (interval (iv_end ?day) kWeek)"
  have x: "x \<in> base" "set rest \<subseteq> base" using Cons.prems by auto
  have step: "\<forall>i \<in> set (remove_loop d (kept @ ks) rest pushed). off_day d base i"
    if "\<forall>i \<in> set ks. off_day d base i" for ks
    by (rule Cons.IH) (use Cons.prems x that in auto)
  have keep: "off_day d base x" if "iv_end x \<le> iv_start ?day \<or> iv_start x \<ge> iv_end ?day"
    by (rule off_dayI [OF x(1)]) (use that in \<open>auto simp: iv_points_def shifted_def week_defs distrib_right\<close>)
  have keep2: "off_day d base x" if "iv_end x \<le> iv_start ?day + kInNextDayMax"
    by (rule off_dayI [OF x(1)]) (use that in \<open>auto simp: iv_points_def shifted_def\<close>)
  have f: "off_day d base ?first"
    by (rule off_dayI [OF x(1)]; unfold iv_points_intersected)
       (blast, auto simp: iv_points_def shifted_def week_defs)
  have s: "off_day d base ?second"
    by (rule off_dayI [OF x(1)]; unfold iv_points_intersected)
       (blast, auto simp: iv_points_def shifted_def week_defs distrib_right)
  have ff: "\<not> iv_valid (intersected ?first (interval (iv_end ?day) kWeek))"
  proof
    let ?a = "intersected ?first (interval (iv_end ?day) kWeek)"
    assume "iv_valid ?a"
    then have "iv_start ?a \<in> iv_points ?a" by (simp add: iv_points_def iv_valid_def)
    then show False unfolding iv_points_intersected by (auto simp: iv_points_def shifted_def week_defs)
  qed
  show ?case
  proof (cases "iv_end x \<le> iv_start ?day \<or> iv_start x \<ge> iv_end ?day")
    case True
    with step [of "[x]"] keep show ?thesis by simp
  next
    case outside: False
    show ?thesis
    proof (cases "iv_end x \<le> iv_start ?day + kInNextDayMax \<and> (iv_start x < iv_start ?day
         \<or> d = 0 \<and> iv_start x = iv_start ?day \<and> iv_end (last (kept @ x # rest @ pushed)) \<ge> kWeek)")
      case True
      show ?thesis unfolding remove_loop.simps Let_def if_not_P [OF outside] if_P [OF True]
        using step [of "[x]"] keep2 True by simp
    next
      case cut: False
      show ?thesis
        unfolding remove_loop.simps Let_def if_not_P [OF outside] if_not_P [OF cut] if_not_P [OF ff]
        using step [of "[?first]"] step [of "[?second]"] step [of "[]"] f s by (simp split: if_split)
    qed
  qed
qed

lemma remove_day_points:
  assumes "points xs \<subseteq> {0 ..< kWeek + kDay}" "0 \<le> d"
  shows "points (RemoveDayIntervals xs d) \<subseteq> points (normalized xs)
    \<and> points (RemoveDayIntervals xs d) \<subseteq> {0 ..< kWeek}
    \<and> points (RemoveDayIntervals xs d) \<inter> {d * kDay + kInNextDayMax ..< (d + 1) * kDay} = {}"
proof -
  let ?r = "remove_loop d [] (normalized xs) []"
  have "\<forall>i \<in> set ?r. off_day d (set (normalized xs)) i"
    by (rule remove_loop_points) (use assms in simp_all)
  then have r: "points ?r \<subseteq> points (normalized xs)"
      "points ?r \<inter> {d * kDay + kInNextDayMax ..< (d + 1) * kDay} = {}"
    unfolding points_def off_day_def by blast+
  have n: "points (normalized xs) \<subseteq> {0 ..< kWeek}" using normalized_in_week [OF assms(1)] by blast
  then have "points ?r \<subseteq> {..< kWeek + kDay}" "\<forall>x \<in> points ?r. x < kWeek" using r(1) by (force simp: week_defs)+
  then have "points (normalized ?r) = points ?r" using normalized_points [of ?r] wrap_week_id by simp
  then show ?thesis using r n by (auto simp: RemoveDayIntervals_def)
qed

text \<open>
  \<open>RemoveDayIntervals\<close> on opening hours of one week: nothing is added (every moment of the
  result was open before) and the day is closed from 6:00 on; before 6:00 only the rest of the
  previous day's hours may stay.
\<close>

theorem remove_day_closes:
  assumes "points xs \<subseteq> {0 ..< kWeek + kDay}" "0 \<le> d" "d < 7"
  shows "canonical (RemoveDayIntervals xs d)
    \<and> points (RemoveDayIntervals xs d) \<subseteq> points (normalized xs)
    \<and> points (RemoveDayIntervals xs d) \<inter> {d * kDay + kInNextDayMax ..< (d + 1) * kDay} = {}"
  using remove_day_points [OF assms(1,2)] normalized_canonical by (auto simp: RemoveDayIntervals_def)

theorem remove_day_closes_witness:
  "points (RemoveDayIntervals [interval 0 kWeek] 2) \<inter> {2 * kDay + kInNextDayMax ..< 3 * kDay} = {}"
  using remove_day_closes [of "[interval 0 kWeek]" 2] by (simp add: iv_points_def week_defs)

text \<open>
  C34. \<open>RemoveDayIntervals\<close> also drops what comes after the day: in the branch for an interval that
  reaches across the whole day, the second part is computed from the entry that was already cut.
  For a business that is always open, removing a day other than the first leaves only the days
  before it.
\<close>

theorem remove_day_loses_tail:
  assumes "0 < d" "d < 7"
  shows "RemoveDayIntervals [interval 0 kWeek] d = [interval 0 (d * kDay)]"
proof -
  have day: "0 < d * kDay" "d * kDay < kWeek" "d * kDay + kDay \<le> kWeek"
    using assms by (auto simp: week_defs)
  have one: "normalized [interval 0 b] = [interval 0 b]" if "0 < b" "b \<le> kWeek" for b
    by (rule canonical_normalized_id) (use that in \<open>auto simp: canonical_def iv_valid_def iv_points_def\<close>)
  have f: "intersected (interval 0 kWeek) (interval 0 (d * kDay)) = interval 0 (d * kDay)"
    and g: "\<not> iv_valid (intersected (interval 0 (d * kDay)) (interval (d * kDay + kDay) kWeek))"
    using day by (auto simp: intersected_def iv_valid_def week_defs)
  have "remove_loop d [] [interval 0 kWeek] [] = [interval 0 (d * kDay)]"
    using day f g assms by (simp add: shifted_def Let_def iv_valid_def add.commute week_defs)
  then show ?thesis using one day by (simp add: RemoveDayIntervals_def week_defs)
qed

theorem remove_day_loses_tail_witness:
  "RemoveDayIntervals [interval 0 kWeek] 2 = [interval 0 (2 * kDay)]"
  using remove_day_loses_tail [of 2] by simp

text \<open>
  C27. \<open>ReplaceDayIntervals\<close> covers exactly what \<open>RemoveDayIntervals\<close> left and the replacement moved
  to its day, modulo the week, in normal form. The hours lie within the week and a day, the day is
  counted from 0 to 6, and the replacement lies within two days, as the editor gives them.
\<close>

theorem replace_day_points:
  assumes "points xs \<subseteq> {0 ..< kWeek + kDay}" "0 \<le> d" "d < 7" "points rs \<subseteq> {0 ..< 2 * kDay}"
  shows "canonical (ReplaceDayIntervals xs d rs)
    \<and> points (ReplaceDayIntervals xs d rs)
       = points (RemoveDayIntervals xs d) \<union> (\<lambda>x. (x + d * kDay) mod kWeek) ` points rs"
proof -
  let ?l = "RemoveDayIntervals xs d @ map (shifted (d * kDay)) rs"
  have rem: "points (RemoveDayIntervals xs d) \<subseteq> {0 ..< kWeek}"
    using remove_day_points [OF assms(1,2)] by blast
  have sh: "points (map (shifted (d * kDay)) rs) = (\<lambda>x. x + d * kDay) ` points rs"
    by (auto simp: points_def iv_points_shifted)
  have dd: "0 \<le> d * kDay" "d * kDay \<le> 6 * kDay" using assms(2,3) by (simp_all add: kDay_def)
  have "(\<lambda>x. x + d * kDay) ` points rs \<subseteq> {0 ..< kWeek + kDay}"
  proof
    fix y assume "y \<in> (\<lambda>x. x + d * kDay) ` points rs"
    then obtain x where "x \<in> points rs" "y = x + d * kDay" by blast
    moreover have "0 \<le> x" "x < 2 * kDay" using assms(4) \<open>x \<in> points rs\<close> by auto
    ultimately have "0 \<le> y" "y < 8 * kDay" using dd by linarith+
    then show "y \<in> {0 ..< kWeek + kDay}" by (simp add: kWeek_def)
  qed
  moreover have "{0 ..< kWeek} \<subseteq> {0 ..< kWeek + kDay}" by (simp add: week_defs)
  ultimately have l: "points ?l \<subseteq> {0 ..< kWeek + kDay}" unfolding points_simps sh using rem by blast
  have "(\<lambda>x. x mod kWeek) ` points (RemoveDayIntervals xs d) = points (RemoveDayIntervals xs d)"
    using rem by (force simp: image_iff)
  then show ?thesis
    using normalized_in_week [OF l] unfolding ReplaceDayIntervals_def
    by (simp add: sh image_Un image_image)
qed

theorem replace_day_points_witness:
  "points (ReplaceDayIntervals [] 6 [interval 82800 90000])
     = points (RemoveDayIntervals [] 6) \<union> (\<lambda>x. (x + 6 * kDay) mod kWeek) ` {82800 ..< 90000}"
  using replace_day_points [of "[]" 6 "[interval 82800 90000]"] by (simp add: iv_points_def week_defs)

subsection \<open>One day of the week\<close>

lemma canonical_filter: "canonical xs \<Longrightarrow> canonical (filter P xs)"
  by (auto simp: canonical_def sorted_wrt_filter)

lemma canonical_ends:
  assumes "canonical (xs @ [x])" "i \<in> set xs"
  shows "iv_end i < iv_start x"
  using assms by (auto simp: canonical_def sorted_wrt_append)

lemma intersected_day:
  "max (iv_start x) 0 < min (iv_end x) kDay \<Longrightarrow>
   intersected x (interval 0 kDay) = interval (max (iv_start x) 0) (min (iv_end x) kDay)"
  by (simp add: intersected_def iv_valid_def Let_def)

text \<open>What \<open>ExtractDayIntervals\<close> leaves after its second step: nothing ends later than 6:00 of the next day.\<close>

lemma fix_last_of_day_ok:
  assumes c: "canonical xs" and inside: "\<forall>i \<in> set xs. 0 < iv_end i \<and> iv_start i < kDay"
  shows "canonical (fix_last_of_day xs)
    \<and> (\<forall>i \<in> set (fix_last_of_day xs). 0 < iv_end i \<and> iv_start i < kDay \<and> iv_end i \<le> kDay + kInNextDayMax)"
proof (cases xs rule: rev_cases)
  case Nil
  then show ?thesis by (simp add: fix_last_of_day_def canonical_def)
next
  case (snoc ys x)
  have x: "0 < iv_end x" "iv_start x < kDay" "iv_valid x" using inside snoc c by (auto simp: canonical_def)
  have ys: "canonical ys" "\<forall>i \<in> set ys. iv_end i < iv_start x" "\<forall>i \<in> set ys. 0 < iv_end i"
    using c inside unfolding snoc by (auto simp: canonical_def sorted_wrt_append)
  have ends: "canonical (ys @ [y])" if "iv_valid y" "iv_start x \<le> iv_start y" for y
    using ys that by (auto simp: canonical_def sorted_wrt_append intro: less_le_trans)
  have none: "ys = []" if "iv_start x \<le> 0"
  proof (rule ccontr)
    assume "ys \<noteq> []"
    then have "hd ys \<in> set ys" by simp
    then show False using ys(2,3) that by (meson less_le_trans less_asym)
  qed
  have i: "intersected x (interval 0 kDay) = interval (max (iv_start x) 0) (min (iv_end x) kDay)"
    by (rule intersected_day) (use x in \<open>auto simp: iv_valid_def week_defs\<close>)
  consider (all) "iv_start x \<le> 0 \<and> iv_end x \<ge> kDay"
    | (long) "\<not> (iv_start x \<le> 0 \<and> iv_end x \<ge> kDay)" "iv_end x > kDay + kInNextDayMax"
    | (short) "\<not> (iv_start x \<le> 0 \<and> iv_end x \<ge> kDay)" "iv_end x \<le> kDay + kInNextDayMax" by linarith
  then show ?thesis
  proof cases
    case all
    then have "fix_last_of_day xs = [interval 0 kDay]" using snoc none by (simp add: fix_last_of_day_def)
    then show ?thesis by (simp add: canonical_def iv_valid_def week_defs)
  next
    case long
    then have eq: "fix_last_of_day xs = ys @ [interval (max (iv_start x) 0) (min (iv_end x) kDay)]"
      using snoc i by (simp add: fix_last_of_day_def)
    have "canonical (ys @ [interval (max (iv_start x) 0) (min (iv_end x) kDay)])"
      by (rule ends) (use x in \<open>auto simp: iv_valid_def week_defs\<close>)
    then show ?thesis
      using eq long ys inside snoc x by (fastforce simp: week_defs)
  next
    case short
    then have "fix_last_of_day xs = xs" using snoc by (auto simp: fix_last_of_day_def)
    moreover have "iv_end i \<le> kDay + kInNextDayMax" if "i \<in> set ys" for i
      using ys(2) x(2) that by (force simp: week_defs)
    ultimately show ?thesis using c inside short(2) snoc by auto
  qed
qed

lemma fix_first_of_day_ok:
  assumes c: "canonical xs"
    and inside: "\<forall>i \<in> set xs. 0 < iv_end i \<and> iv_start i < kDay \<and> iv_end i \<le> kDay + kInNextDayMax"
  shows "canonical (fix_first_of_day xs)
    \<and> (\<forall>i \<in> set (fix_first_of_day xs). 0 \<le> iv_start i \<and> iv_start i < kDay \<and> iv_end i \<le> kDay + kInNextDayMax)"
proof (cases xs)
  case Nil
  then show ?thesis by (simp add: fix_first_of_day_def canonical_def)
next
  case (Cons x ys)
  have x: "0 < iv_end x" "iv_start x < kDay" "iv_valid x" using inside Cons c by (auto simp: canonical_def)
  have ys: "canonical ys" "\<forall>i \<in> set ys. iv_end x < iv_start i" using c Cons by (auto simp: canonical_def)
  have rest: "\<forall>i \<in> set ys. 0 \<le> iv_start i \<and> iv_start i < kDay \<and> iv_end i \<le> kDay + kInNextDayMax"
    using ys(2) x(1) inside Cons by fastforce
  have i: "intersected x (interval 0 kDay) = interval (max (iv_start x) 0) (min (iv_end x) kDay)"
    by (rule intersected_day) (use x in \<open>auto simp: iv_valid_def week_defs\<close>)
  have c': "canonical (interval (max (iv_start x) 0) (min (iv_end x) kDay) # ys)"
    using ys x by (fastforce simp: canonical_def iv_valid_def week_defs)
  show ?thesis
    using Cons c c' ys rest i x inside
    by (auto simp: fix_first_of_day_def Let_def week_defs split: if_splits)
qed

text \<open>
  C28. The day shown in the editor: for every list of intervals and every day of the week
  \<open>ExtractDayIntervals\<close> returns separated non-empty intervals in increasing order that begin in
  that day and end at the latest at 6:00 of the next one; for another index its \<open>Expects\<close> fails.
\<close>

theorem extract_day_ok:
  "case ExtractDayIntervals xs d of
     None \<Rightarrow> d < 0 \<or> 7 \<le> d
   | Some day \<Rightarrow> 0 \<le> d \<and> d < 7 \<and> canonical day
       \<and> (\<forall>i \<in> set day. 0 \<le> iv_start i \<and> iv_start i < kDay \<and> iv_end i \<le> kDay + kInNextDayMax)"
proof -
  let ?in = "filter (\<lambda>i. \<not> (iv_end i \<le> 0 \<or> iv_start i \<ge> kDay)) (normalized (concat (map (day_parts d) xs)))"
  have "canonical ?in" by (rule canonical_filter [OF normalized_canonical])
  then have "canonical (fix_last_of_day ?in) \<and> (\<forall>i \<in> set (fix_last_of_day ?in).
      0 < iv_end i \<and> iv_start i < kDay \<and> iv_end i \<le> kDay + kInNextDayMax)"
    by (rule fix_last_of_day_ok) auto
  then have "canonical (fix_first_of_day (fix_last_of_day ?in)) \<and> (\<forall>i \<in> set (fix_first_of_day (fix_last_of_day ?in)).
      0 \<le> iv_start i \<and> iv_start i < kDay \<and> iv_end i \<le> kDay + kInNextDayMax)"
    using fix_first_of_day_ok by blast
  then show ?thesis by (auto simp: ExtractDayIntervals_def Let_def)
qed

theorem extract_day_ok_witness:
  "ExtractDayIntervals [interval 3600 7200] 0 \<noteq> None \<and>
   (case ExtractDayIntervals [interval 3600 7200] 0 of None \<Rightarrow> False | Some day \<Rightarrow> canonical day)"
  using extract_day_ok [where xs = "[interval 3600 7200]" and d = 0]
  by (auto simp: ExtractDayIntervals_def Let_def)

end
