(* ===== verification/Business_Settings.thy ===== *)
theory Business_Settings
  imports Working_Hours
begin

text \<open>
  The settings of a business account and their MTP form
  (\<open>data/business/data_business_common.{h,cpp}\<close>): recipients, chatbot permissions, opening hours,
  away and greeting messages. The MTP types are generated from the API scheme; they are records
  with one field per flag and per optional value. A user is its id: \<open>owner->user(id)\<close> finds or
  makes the user of an id, \<open>inputUser\<close> is its id again. \<open>base::flags\<close> is a 32 bit word.
\<close>

unbundle bit_operations_syntax

subsection \<open>Recipients\<close>

type_synonym user = int

record chat_types =
  NewChats :: bool
  ExistingChats :: bool
  Contacts :: bool
  NonContacts :: bool

record BusinessChats =
  bc_types :: chat_types
  bc_list :: "user list"

record BusinessRecipients =
  included :: BusinessChats
  excluded :: BusinessChats
  allButExcluded :: bool

definition no_types :: chat_types where
  "no_types = \<lparr>NewChats = False, ExistingChats = False, Contacts = False, NonContacts = False\<rparr>"

definition no_chats :: BusinessChats where
  "no_chats = \<lparr>bc_types = no_types, bc_list = []\<rparr>"

definition bc_empty :: "BusinessChats \<Rightarrow> bool" where
  "bc_empty c \<longleftrightarrow> bc_types c = no_types \<and> bc_list c = []"

definition MakeValid :: "BusinessRecipients \<Rightarrow> BusinessRecipients" where
  "MakeValid value = (if bc_empty (included value) then value\<lparr>allButExcluded := True\<rparr> else value)"

text \<open>The common fields of the MTP recipients, and those of the bots.\<close>

record mtp_recipients =
  f_new_chats :: bool
  f_existing_chats :: bool
  f_contacts :: bool
  f_non_contacts :: bool
  f_exclude_selected :: bool
  vusers :: "user list option"

record mtp_bot_recipients = mtp_recipients +
  vexclude_users :: "user list option"

definition chosen :: "BusinessRecipients \<Rightarrow> BusinessChats" where
  "chosen data = (if allButExcluded data then excluded data else included data)"

text \<open>A conditional field is sent only when its flag is set.\<close>

definition ForMessagesToMTP :: "BusinessRecipients \<Rightarrow> mtp_recipients" where
  "ForMessagesToMTP data =
     (let chats = chosen data
      in \<lparr>f_new_chats = NewChats (bc_types chats), f_existing_chats = ExistingChats (bc_types chats),
          f_contacts = Contacts (bc_types chats), f_non_contacts = NonContacts (bc_types chats),
          f_exclude_selected = allButExcluded data,
          vusers = (if bc_list chats = [] then None else Some (bc_list chats))\<rparr>)"

definition ForBotsToMTP :: "BusinessRecipients \<Rightarrow> mtp_bot_recipients" where
  "ForBotsToMTP data =
     mtp_recipients.extend (ForMessagesToMTP data)
       (mtp_bot_recipients.fields
          (if allButExcluded data \<or> bc_empty (excluded data) then None else Some (bc_list (excluded data))))"

definition types_of :: "'a mtp_recipients_scheme \<Rightarrow> chat_types" where
  "types_of d = \<lparr>NewChats = f_new_chats d, ExistingChats = f_existing_chats d,
     Contacts = f_contacts d, NonContacts = f_non_contacts d\<rparr>"

definition users_of :: "user list option \<Rightarrow> user list" where
  "users_of v = (case v of Some us \<Rightarrow> us | None \<Rightarrow> [])"

definition FromMTP_recipients :: "'a mtp_recipients_scheme \<Rightarrow> BusinessRecipients" where
  "FromMTP_recipients d =
     (let chats = \<lparr>bc_types = types_of d, bc_list = users_of (vusers d)\<rparr>
      in if f_exclude_selected d
         then \<lparr>included = no_chats, excluded = chats, allButExcluded = True\<rparr>
         else \<lparr>included = chats, excluded = no_chats, allButExcluded = False\<rparr>)"

definition FromMTP_bot_recipients :: "mtp_bot_recipients \<Rightarrow> BusinessRecipients" where
  "FromMTP_bot_recipients d =
     (let result = FromMTP_recipients d
      in if \<not> allButExcluded result
         then result\<lparr>excluded := (excluded result)\<lparr>bc_list := users_of (vexclude_users d)\<rparr>\<rparr>
         else result)"

subsection \<open>Chatbot permissions\<close>

record mtp_rights =
  f_reply :: bool
  f_read_messages :: bool
  f_delete_sent_messages :: bool
  f_delete_received_messages :: bool
  f_edit_name :: bool
  f_edit_bio :: bool
  f_edit_profile_photo :: bool
  f_edit_username :: bool
  f_view_gifts :: bool
  f_sell_gifts :: bool
  f_change_gift_settings :: bool
  f_transfer_and_upgrade_gifts :: bool
  f_transfer_stars :: bool
  f_manage_stories :: bool

type_synonym permissions = "32 word"

definition ViewMessages :: permissions where "ViewMessages = 0x0001"
definition ReplyToMessages :: permissions where "ReplyToMessages = 0x0002"
definition MarkAsRead :: permissions where "MarkAsRead = 0x0004"
definition DeleteSent :: permissions where "DeleteSent = 0x0008"
definition DeleteReceived :: permissions where "DeleteReceived = 0x0010"
definition EditName :: permissions where "EditName = 0x0020"
definition EditBio :: permissions where "EditBio = 0x0040"
definition EditUserpic :: permissions where "EditUserpic = 0x0080"
definition EditUsername :: permissions where "EditUsername = 0x0100"
definition ViewGifts :: permissions where "ViewGifts = 0x0200"
definition SellGifts :: permissions where "SellGifts = 0x0400"
definition GiftSettings :: permissions where "GiftSettings = 0x0800"
definition TransferGifts :: permissions where "TransferGifts = 0x1000"
definition TransferStars :: permissions where "TransferStars = 0x2000"
definition ManageStories :: permissions where "ManageStories = 0x4000"

lemmas permission_defs = ViewMessages_def ReplyToMessages_def MarkAsRead_def DeleteSent_def
  DeleteReceived_def EditName_def EditBio_def EditUserpic_def EditUsername_def ViewGifts_def
  SellGifts_def GiftSettings_def TransferGifts_def TransferStars_def ManageStories_def

definition flag_if :: "bool \<Rightarrow> permissions \<Rightarrow> permissions" where
  "flag_if b flag = (if b then flag else 0)"

definition FromMTP_rights :: "mtp_rights \<Rightarrow> permissions" where
  "FromMTP_rights d = ViewMessages
     OR flag_if (f_reply d) ReplyToMessages
     OR flag_if (f_read_messages d) MarkAsRead
     OR flag_if (f_delete_sent_messages d) DeleteSent
     OR flag_if (f_delete_received_messages d) DeleteReceived
     OR flag_if (f_edit_name d) EditName
     OR flag_if (f_edit_bio d) EditBio
     OR flag_if (f_edit_profile_photo d) EditUserpic
     OR flag_if (f_edit_username d) EditUsername
     OR flag_if (f_view_gifts d) ViewGifts
     OR flag_if (f_sell_gifts d) SellGifts
     OR flag_if (f_change_gift_settings d) GiftSettings
     OR flag_if (f_transfer_and_upgrade_gifts d) TransferGifts
     OR flag_if (f_transfer_stars d) TransferStars
     OR flag_if (f_manage_stories d) ManageStories"

definition has :: "permissions \<Rightarrow> permissions \<Rightarrow> bool" where
  "has rights flag \<longleftrightarrow> rights AND flag \<noteq> 0"

definition ToMTP_rights :: "permissions \<Rightarrow> mtp_rights" where
  "ToMTP_rights rights =
     \<lparr>f_reply = has rights ReplyToMessages,
      f_read_messages = has rights MarkAsRead,
      f_delete_sent_messages = has rights DeleteSent,
      f_delete_received_messages = has rights DeleteReceived,
      f_edit_name = has rights EditName,
      f_edit_bio = has rights EditBio,
      f_edit_profile_photo = has rights EditUserpic,
      f_edit_username = has rights EditUsername,
      f_view_gifts = has rights ViewGifts,
      f_sell_gifts = has rights SellGifts,
      f_change_gift_settings = has rights GiftSettings,
      f_transfer_and_upgrade_gifts = has rights TransferGifts,
      f_transfer_stars = has rights TransferStars,
      f_manage_stories = has rights ManageStories\<rparr>"

subsection \<open>Hours, away and greeting messages\<close>

record WorkingHours =
  wh_intervals :: "WorkingInterval list"
  wh_timezoneId :: string

definition hours_given :: "WorkingHours \<Rightarrow> bool" where
  "hours_given h \<longleftrightarrow> wh_timezoneId h \<noteq> [] \<and> wh_intervals h \<noteq> []"

definition hours_normalized :: "WorkingHours \<Rightarrow> WorkingHours" where
  "hours_normalized h = h\<lparr>wh_intervals := normalized (wh_intervals h)\<rparr>"

text \<open>\<open>businessWorkHours\<close>: the time zone and the weekly intervals in minutes.\<close>

record mtp_work_hours =
  vtimezone_id :: string
  vweekly_open :: "(int \<times> int) list"

definition FromMTP_hours :: "mtp_work_hours option \<Rightarrow> WorkingHours" where
  "FromMTP_hours hours =
     (case hours of
        None \<Rightarrow> \<lparr>wh_intervals = [], wh_timezoneId = []\<rparr>
      | Some d \<Rightarrow> \<lparr>wh_intervals = map (\<lambda>(s, e). interval (s * 60) (e * 60)) (vweekly_open d),
                  wh_timezoneId = vtimezone_id d\<rparr>)"

datatype away_schedule_type = Never | Always | OutsideWorkingHours | Custom

record AwaySettings =
  aw_recipients :: BusinessRecipients
  aw_type :: away_schedule_type
  aw_interval :: WorkingInterval
  aw_shortcutId :: int
  aw_offlineOnly :: bool

datatype mtp_schedule = ScheduleAlways | ScheduleOutsideWorkHours | ScheduleCustom int int

record mtp_away =
  ma_recipients :: mtp_recipients
  ma_shortcut :: int
  ma_offline :: bool
  ma_schedule :: mtp_schedule

definition FromMTP_away :: "mtp_away option \<Rightarrow> AwaySettings" where
  "FromMTP_away message =
     (case message of
        None \<Rightarrow> \<lparr>aw_recipients = \<lparr>included = no_chats, excluded = no_chats, allButExcluded = False\<rparr>,
                aw_type = Never, aw_interval = interval 0 0, aw_shortcutId = 0, aw_offlineOnly = False\<rparr>
      | Some d \<Rightarrow>
          (let (t, i) = (case ma_schedule d of
                ScheduleAlways \<Rightarrow> (Always, interval 0 0)
              | ScheduleOutsideWorkHours \<Rightarrow> (OutsideWorkingHours, interval 0 0)
              | ScheduleCustom s e \<Rightarrow> (Custom, interval s e))
           in \<lparr>aw_recipients = FromMTP_recipients (ma_recipients d), aw_type = t, aw_interval = i,
               aw_shortcutId = ma_shortcut d, aw_offlineOnly = ma_offline d\<rparr>))"

record GreetingSettings =
  gr_recipients :: BusinessRecipients
  gr_noActivityDays :: int
  gr_shortcutId :: int

record mtp_greeting =
  mg_recipients :: mtp_recipients
  mg_days :: int
  mg_shortcut :: int

definition FromMTP_greeting :: "mtp_greeting option \<Rightarrow> GreetingSettings" where
  "FromMTP_greeting message =
     (case message of
        None \<Rightarrow> \<lparr>gr_recipients = \<lparr>included = no_chats, excluded = no_chats, allButExcluded = False\<rparr>,
                gr_noActivityDays = 0, gr_shortcutId = 0\<rparr>
      | Some d \<Rightarrow> \<lparr>gr_recipients = FromMTP_recipients (mg_recipients d),
                  gr_noActivityDays = mg_days d, gr_shortcutId = mg_shortcut d\<rparr>)"

subsection \<open>Round trips\<close>

lemma users_of_given: "users_of (if us = [] then None else Some us) = us"
  by (simp add: users_of_def)

lemma types_of_given:
  "types_of \<lparr>f_new_chats = NewChats t, f_existing_chats = ExistingChats t, f_contacts = Contacts t,
     f_non_contacts = NonContacts t, f_exclude_selected = b, vusers = u, \<dots> = m\<rparr> = t"
  by (simp add: types_of_def)

text \<open>
  C29. Recipients survive the way to the server and back: what \<open>ForMessagesToMTP\<close> sends is read back
  by \<open>FromMTP\<close> with the same mode and the same chats of that mode (the other list is not sent); the
  form for bots also keeps the users excluded beside the included ones, as long as only users,
  and no chat types, are excluded there.
\<close>

theorem recipients_roundtrip:
  "allButExcluded (FromMTP_recipients (ForMessagesToMTP r)) = allButExcluded r
   \<and> chosen (FromMTP_recipients (ForMessagesToMTP r)) = chosen r
   \<and> allButExcluded (FromMTP_bot_recipients (ForBotsToMTP r)) = allButExcluded r
   \<and> chosen (FromMTP_bot_recipients (ForBotsToMTP r)) = chosen r
   \<and> (\<not> allButExcluded r \<longrightarrow> bc_types (excluded r) = no_types \<longrightarrow>
        excluded (FromMTP_bot_recipients (ForBotsToMTP r)) = excluded r)"
proof -
  have bot: "types_of (ForBotsToMTP r) = types_of (ForMessagesToMTP r)"
    "vusers (ForBotsToMTP r) = vusers (ForMessagesToMTP r)"
    "f_exclude_selected (ForBotsToMTP r) = f_exclude_selected (ForMessagesToMTP r)"
    by (simp_all add: ForBotsToMTP_def types_of_def mtp_recipients.defs ForMessagesToMTP_def Let_def)
  have msg: "types_of (ForMessagesToMTP r) = bc_types (chosen r)"
    "users_of (vusers (ForMessagesToMTP r)) = bc_list (chosen r)"
    "f_exclude_selected (ForMessagesToMTP r) = allButExcluded r"
    by (simp_all add: ForMessagesToMTP_def types_of_def users_of_def Let_def)
  have ex: "users_of (vexclude_users (ForBotsToMTP r)) = bc_list (excluded r)"
    if "\<not> allButExcluded r" "bc_types (excluded r) = no_types"
    using that by (simp add: ForBotsToMTP_def mtp_recipients.defs mtp_bot_recipients.defs users_of_def bc_empty_def)
  show ?thesis
    using bot msg ex
    by (auto simp: FromMTP_recipients_def FromMTP_bot_recipients_def Let_def chosen_def no_chats_def)
qed

theorem recipients_roundtrip_witness:
  "let r = \<lparr>included = no_chats\<lparr>bc_list := [7]\<rparr>, excluded = no_chats\<lparr>bc_list := [8]\<rparr>, allButExcluded = False\<rparr>
   in excluded (FromMTP_bot_recipients (ForBotsToMTP r)) = excluded r"
  using recipients_roundtrip [of "\<lparr>included = no_chats\<lparr>bc_list := [7]\<rparr>, excluded = no_chats\<lparr>bc_list := [8]\<rparr>, allButExcluded = False\<rparr>"]
  by (simp add: no_chats_def)

lemma flag_if_has: "flag_if (has w (2 ^ k)) (2 ^ k) = w AND 2 ^ k"
proof (cases "bit w k")
  case True
  then have "w AND 2 ^ k = 2 ^ k" by (auto intro!: bit_word_eqI simp: bit_simps)
  moreover have "bit (w AND 2 ^ k) k" using True bit_imp_le_length [OF True] by (simp add: bit_simps)
  then have "w AND 2 ^ k \<noteq> 0" by auto
  ultimately show ?thesis by (simp add: has_def flag_if_def)
next
  case False
  then have "w AND 2 ^ k = 0" by (auto intro!: bit_word_eqI simp: bit_simps)
  then show ?thesis by (simp add: has_def flag_if_def)
qed

lemmas flag_if_bits = flag_if_has [of _ 1, simplified] flag_if_has [of _ 2, simplified]
  flag_if_has [of _ 3, simplified] flag_if_has [of _ 4, simplified] flag_if_has [of _ 5, simplified]
  flag_if_has [of _ 6, simplified] flag_if_has [of _ 7, simplified] flag_if_has [of _ 8, simplified]
  flag_if_has [of _ 9, simplified] flag_if_has [of _ 10, simplified] flag_if_has [of _ 11, simplified]
  flag_if_has [of _ 12, simplified] flag_if_has [of _ 13, simplified] flag_if_has [of _ 14, simplified]

lemma has_or: "has (a OR b) flag \<longleftrightarrow> has a flag \<or> has b flag"
  by (simp add: has_def bit.conj_disj_distrib2 or_eq_0_iff)

lemma has_flag_if: "has (flag_if b g) flag \<longleftrightarrow> b \<and> has g flag"
  by (simp add: has_def flag_if_def)

lemma keep_view_bit: "((w :: permissions) AND 0x7FFF) OR 1 = 1 OR (w AND 0x7FFE)"
proof -
  have "(w AND 1) OR 1 = 1" by (rule bit_word_eqI) (auto simp: bit_simps)
  moreover have "(0x7FFF :: permissions) = 0x7FFE OR 1" by simp
  ultimately show ?thesis by (simp only: bit.conj_disj_distrib or.assoc) (simp add: or.commute)
qed

text \<open>
  Chatbot permissions and their MTP form carry the same information: reading what was written
  gives the same rights back, and writing what was read keeps the fifteen known permission bits
  with \<open>ViewMessages\<close> always granted.
\<close>

theorem permissions_roundtrip:
  "ToMTP_rights (FromMTP_rights d) = d
   \<and> FromMTP_rights (ToMTP_rights w) = (w AND 0x7FFF) OR ViewMessages"
proof
  show "ToMTP_rights (FromMTP_rights d) = d"
    unfolding ToMTP_rights_def FromMTP_rights_def has_or has_flag_if
    by (simp add: has_def permission_defs)
  show "FromMTP_rights (ToMTP_rights w) = (w AND 0x7FFF) OR ViewMessages"
    unfolding FromMTP_rights_def ToMTP_rights_def mtp_rights.simps permission_defs flag_if_bits keep_view_bit
    by (simp add: bit.conj_disj_distrib [symmetric] or.assoc)
qed

end
