(* ===== verification/Tcp_Framing.thy ===== *)
theory Tcp_Framing
  imports Prelude
begin

text \<open>
  Packet framing of the TCP transport (\<open>mtproto/connection_tcp.{h,cpp}\<close>): the three protocol
  versions, which differ in the length header, the padding and the key, and the buffer that
  reassembles packets from what the socket delivers. Bytes are 8 bit words, \<open>mtpPrime\<close> and
  \<open>uint32\<close> are 32 bit words, an \<open>mtpBuffer\<close> is a list of them, stored little endian. Sizes are
  \<open>int\<close> or \<open>nat\<close>: they are bounded by \<open>kPacketSizeMax\<close>, far below \<open>int32\<close>. Random values and
  SHA-256 are arguments. A failed \<open>Expects\<close> or \<open>Assert\<close> is \<open>None\<close>.
\<close>

unbundle bit_operations_syntax

type_synonym byte = "8 word"
type_synonym prime = "32 word"

definition kPacketSizeMax :: int where "kPacketSizeMax = 0x01000000 * 4"
definition kSmallBufferSize :: int where "kSmallBufferSize = 256 * 1024"
definition kMinPacketBuffer :: int where "kMinPacketBuffer = 256"
definition kUnknownSize :: int where "kUnknownSize = -1"
definition kInvalidSize :: int where "kInvalidSize = -2"

lemmas tcp_consts = kPacketSizeMax_def kSmallBufferSize_def kMinPacketBuffer_def
  kUnknownSize_def kInvalidSize_def

definition byte_of :: "nat \<Rightarrow> prime \<Rightarrow> byte" where
  "byte_of i w = ucast (drop_bit (8 * i) w)"

definition prime_bytes :: "prime \<Rightarrow> byte list" where
  "prime_bytes w = [byte_of 0 w, byte_of 1 w, byte_of 2 w, byte_of 3 w]"

definition buffer_bytes :: "prime list \<Rightarrow> byte list" where
  "buffer_bytes ws = concat (map prime_bytes ws)"

definition prime_of :: "byte \<Rightarrow> byte \<Rightarrow> byte \<Rightarrow> byte \<Rightarrow> prime" where
  "prime_of a b c d = ucast a OR push_bit 8 (ucast b) OR push_bit 16 (ucast c) OR push_bit 24 (ucast d)"

text \<open>\<open>reinterpret_cast<const mtpPrime*>\<close> over \<open>size / 4\<close> elements.\<close>

fun bytes_primes :: "byte list \<Rightarrow> prime list" where
  "bytes_primes (a # b # c # d # bs) = prime_of a b c d # bytes_primes bs"
| "bytes_primes _ = []"

subsection \<open>Version 0 and 1\<close>

definition v0_id :: prime where "v0_id = 0xEFEFEFEF"

definition v0_finalizePacket :: "prime list \<Rightarrow> byte list option" where
  "v0_finalizePacket buffer =
     (if \<not> (length buffer > 2 \<and> length buffer < 0x1000003) then None
      else let intsSize = length buffer - 2;
               w = word_of_nat intsSize :: prime;
               bytesSize = intsSize * 4;
               data = buffer_bytes buffer;
               (data, added) =
                 (if intsSize < 0x7F then (data[7 := ucast w], 1)
                  else (data[4 := 0x7F, 5 := ucast (w AND 0xFF), 6 := ucast (drop_bit 8 w AND 0xFF),
                             7 := ucast (drop_bit 16 w AND 0xFF)], 4))
           in Some (take (added + bytesSize) (drop (8 - added) data)))"

text \<open>\<open>char\<close> is signed.\<close>

definition v0_readPacketLength :: "byte list \<Rightarrow> int" where
  "v0_readPacketLength bytes =
     (case bytes of
        [] \<Rightarrow> kUnknownSize
      | b # rest \<Rightarrow>
          (let first = sint b
           in if first = 0x7F then
                (if length bytes < 4 then kUnknownSize
                 else let ints = (ucast (bytes ! 1) :: prime) OR push_bit 8 (ucast (bytes ! 2))
                                   OR push_bit 16 (ucast (bytes ! 3))
                      in if ints \<ge> 0x7F then uint (push_bit 2 ints) + 4 else kInvalidSize)
              else if first > 0 \<and> first < 0x7F then first * 4 + 1
              else kInvalidSize))"

definition v0_readPacket :: "byte list \<Rightarrow> byte list option" where
  "v0_readPacket bytes =
     (let size = v0_readPacketLength bytes
      in if \<not> (size \<noteq> kUnknownSize \<and> size \<noteq> kInvalidSize \<and> size \<le> int (length bytes)) then None
         else let sizeLength = (if sint (hd bytes) = 0x7F then 4 else 1)
              in Some (take (nat size - sizeLength) (drop sizeLength bytes)))"

definition v0_prepareKey :: "byte list \<Rightarrow> byte list" where
  "v0_prepareKey source = source"

definition v1_prepareKey :: "(byte list \<Rightarrow> byte list) \<Rightarrow> byte list \<Rightarrow> byte list \<Rightarrow> byte list" where
  "v1_prepareKey Sha256 secret source = Sha256 (source @ secret)"

subsection \<open>Version D\<close>

definition vD_id :: prime where "vD_id = 0xDDDDDDDD"

text \<open>
  \<open>rnd\<close> is the random value the padding is taken from, \<open>fill\<close> the random ints appended, one for
  each four bytes of padding begun.
\<close>

definition vD_finalizePacket :: "prime \<Rightarrow> (nat \<Rightarrow> prime) \<Rightarrow> prime list \<Rightarrow> byte list option" where
  "vD_finalizePacket rnd fill buffer =
     (if \<not> (length buffer > 2 \<and> length buffer < 0x1000003) then None
      else let intsSize = length buffer - 2;
               padding = unat (rnd AND 0x0F);
               bytesSize = intsSize * 4 + padding;
               buffer = buffer[1 := word_of_nat bytesSize] @ map fill [0..<(padding + 3) div 4]
           in Some (take (4 + bytesSize) (drop 4 (buffer_bytes buffer))))"

definition vD_readPacketLength :: "byte list \<Rightarrow> int" where
  "vD_readPacketLength bytes =
     (if length bytes < 4 then kUnknownSize
      else let value = prime_of (bytes ! 0) (bytes ! 1) (bytes ! 2) (bytes ! 3) + 4
           in if value \<ge> 8 \<and> uint value < kPacketSizeMax then uint value else kInvalidSize)"

definition vD_readPacket :: "byte list \<Rightarrow> byte list option" where
  "vD_readPacket bytes =
     (let size = vD_readPacketLength bytes
      in if \<not> (size \<noteq> kUnknownSize \<and> size \<noteq> kInvalidSize \<and> size \<le> int (length bytes)) then None
         else Some (take (nat size - 4) (drop 4 bytes)))"

subsection \<open>The choice of the version\<close>

datatype protocol = Version0 | Version1 "byte list" | VersionD "byte list"

definition protocol_Create :: "byte list \<Rightarrow> protocol option" where
  "protocol_Create secret =
     (if length secret \<ge> 21 \<and> secret ! 0 = 0xEE \<or> length secret = 17 \<and> secret ! 0 = 0xDD
      then Some (VersionD (take 16 (drop 1 secret)))
      else if length secret = 16 then Some (Version1 secret)
      else if secret = [] then Some Version0
      else None)"

fun protocol_id :: "protocol \<Rightarrow> prime" where
  "protocol_id (VersionD _) = vD_id"
| "protocol_id _ = v0_id"

fun supportsArbitraryLength :: "protocol \<Rightarrow> bool" where
  "supportsArbitraryLength (VersionD _) = True"
| "supportsArbitraryLength _ = False"

fun prepareKey :: "(byte list \<Rightarrow> byte list) \<Rightarrow> protocol \<Rightarrow> byte list \<Rightarrow> byte list" where
  "prepareKey Sha256 Version0 source = v0_prepareKey source"
| "prepareKey Sha256 (Version1 secret) source = v1_prepareKey Sha256 secret source"
| "prepareKey Sha256 (VersionD secret) source = v1_prepareKey Sha256 secret source"

fun readPacketLength :: "protocol \<Rightarrow> byte list \<Rightarrow> int" where
  "readPacketLength (VersionD _) = vD_readPacketLength"
| "readPacketLength _ = v0_readPacketLength"

fun readPacket :: "protocol \<Rightarrow> byte list \<Rightarrow> byte list option" where
  "readPacket (VersionD _) = vD_readPacket"
| "readPacket _ = v0_readPacket"

fun finalizePacket :: "protocol \<Rightarrow> prime \<Rightarrow> (nat \<Rightarrow> prime) \<Rightarrow> prime list \<Rightarrow> byte list option" where
  "finalizePacket (VersionD _) rnd fill = vD_finalizePacket rnd fill"
| "finalizePacket _ rnd fill = v0_finalizePacket"

definition parsePacket :: "protocol \<Rightarrow> byte list \<Rightarrow> prime list option" where
  "parsePacket p bytes =
     Option.bind (readPacket p bytes) (\<lambda>packet.
       let ints = bytes_primes packet
       in if ints = [] then None
          else if length ints < 3 then Some [hd ints]
          else Some ints)"

subsection \<open>Bytes and ints\<close>

lemma byte_prime: "prime_of (byte_of 0 w) (byte_of 1 w) (byte_of 2 w) (byte_of 3 w) = w"
proof (rule bit_word_eqI)
  fix n assume "n < LENGTH(32)"
  then consider "n < 8" | "8 \<le> n" "n < 16" | "16 \<le> n" "n < 24" | "24 \<le> n" "n < 32" by force
  then show "bit (prime_of (byte_of 0 w) (byte_of 1 w) (byte_of 2 w) (byte_of 3 w)) n = bit w n"
    by cases (auto simp: prime_of_def byte_of_def bit_simps)
qed

lemmas byte_prime_simp [simp] = byte_prime [simplified]

lemma buffer_bytes_simps [simp]:
  "buffer_bytes [] = []" "buffer_bytes (w # ws) = prime_bytes w @ buffer_bytes ws"
  "buffer_bytes (ws @ vs) = buffer_bytes ws @ buffer_bytes vs"
  by (simp_all add: buffer_bytes_def)

lemma length_prime_bytes [simp]: "length (prime_bytes w) = 4"
  by (simp add: prime_bytes_def)

lemma prime_bytes_roundtrip: "bytes_primes (buffer_bytes ws @ pad) = ws @ bytes_primes pad"
  by (induction ws) (simp_all add: prime_bytes_def)

lemma length_buffer_bytes [simp]: "length (buffer_bytes ws) = 4 * length ws"
  by (induction ws) simp_all

lemma length_bytes_primes: "length (bytes_primes bs) = length bs div 4"
  by (induction bs rule: bytes_primes.induct) simp_all

text \<open>The header and the payload of a finished packet.\<close>

definition v0_header :: "nat \<Rightarrow> byte list" where
  "v0_header n = (let w = word_of_nat n :: prime in
     if n < 0x7F then [ucast w]
     else [0x7F, ucast (w AND 0xFF), ucast (drop_bit 8 w AND 0xFF), ucast (drop_bit 16 w AND 0xFF)])"

lemma v0_finalize_eq:
  assumes "0 < length payload" "length payload \<le> 0x1000000"
  shows "v0_finalizePacket (a # b # payload) = Some (v0_header (length payload) @ buffer_bytes payload)"
proof -
  obtain b4 b5 b6 b7 where b: "prime_bytes b = [b4, b5, b6, b7]" by (simp add: prime_bytes_def)
  obtain b0 b1 b2 b3 where a: "prime_bytes a = [b0, b1, b2, b3]" by (simp add: prime_bytes_def)
  let ?r = "buffer_bytes payload"
  have u: "(b0 # b1 # b2 # b3 # b4 # b5 # b6 # b7 # ?r)[7 := x] = b0 # b1 # b2 # b3 # b4 # b5 # b6 # x # ?r"
    "(b0 # b1 # b2 # b3 # b4 # b5 # b6 # b7 # ?r)[4 := x, 5 := y, 6 := z, 7 := t]
      = b0 # b1 # b2 # b3 # x # y # z # t # ?r" for x y z t
    by (simp_all add: eval_nat_numeral)
  have d: "drop 7 (b0 # b1 # b2 # b3 # b4 # b5 # b6 # x # ?r) = x # ?r"
    "drop 4 (b0 # b1 # b2 # b3 # x # y # z # t # ?r) = x # y # z # t # ?r" for x y z t
    by (simp_all add: eval_nat_numeral)
  have dt: "buffer_bytes (a # b # payload) = b0 # b1 # b2 # b3 # b4 # b5 # b6 # b7 # ?r"
    by (simp add: a b)
  show ?thesis
    using assms unfolding v0_finalizePacket_def v0_header_def Let_def dt u
    by (simp add: d mult.commute)
qed

definition vD_header :: "nat \<Rightarrow> byte list" where
  "vD_header n = prime_bytes (word_of_nat n)"

lemma vD_finalize_eq:
  assumes "0 < length payload" "length payload \<le> 0x1000000"
  shows "\<exists>pad. vD_finalizePacket rnd fill (a # b # payload)
      = Some (vD_header (4 * length payload + length pad) @ buffer_bytes payload @ pad)
    \<and> length pad = unat (rnd AND 0x0F)"
proof -
  let ?p = "unat (rnd AND 0x0F)"
  let ?pad = "take ?p (buffer_bytes (map fill [0..<(?p + 3) div 4]))"
  have len: "length ?pad = ?p" by (simp add: min_absorb2)
  have "vD_finalizePacket rnd fill (a # b # payload)
      = Some (vD_header (4 * length payload + ?p) @ buffer_bytes payload @ ?pad)"
    using assms by (simp add: vD_finalizePacket_def vD_header_def Let_def mult.commute)
  then show ?thesis using len by metis
qed

subsection \<open>Reassembly\<close>

text \<open>
  The read buffers of a connection. Of their contents only the \<open>_readBytes\<close> bytes from
  \<open>_offsetBytes\<close> on matter: they are \<open>pending\<close>. The small buffer has its full size, the large one
  \<open>largeSize\<close> bytes.
\<close>

record rx =
  offsetBytes :: int
  pending :: "byte list"
  leftBytes :: int
  usingLargeBuffer :: bool
  largeSize :: int

definition rx_init :: rx where
  "rx_init = \<lparr>offsetBytes = 0, pending = [], leftBytes = 0, usingLargeBuffer = False, largeSize = 0\<rparr>"

definition buffer_size :: "rx \<Rightarrow> int" where
  "buffer_size s = (if usingLargeBuffer s then largeSize s else kSmallBufferSize)"

text \<open>\<open>bytes::copy\<close> and \<open>bytes::move\<close> expect the destination to be large enough.\<close>

definition ensureAvailableInBuffer :: "int \<Rightarrow> rx \<Rightarrow> rx option" where
  "ensureAvailableInBuffer amount s =
     (if buffer_size s - offsetBytes s \<ge> amount then Some s
      else if amount \<le> kSmallBufferSize then
        (if int (length (pending s)) > kSmallBufferSize then None
         else if usingLargeBuffer s
         then Some (s\<lparr>usingLargeBuffer := False, largeSize := 0, offsetBytes := 0\<rparr>)
         else Some (s\<lparr>offsetBytes := 0\<rparr>))
      else if amount \<le> largeSize s then
        (if \<not> usingLargeBuffer s \<or> int (length (pending s)) > largeSize s then None
         else Some (s\<lparr>offsetBytes := 0\<rparr>))
      else if int (length (pending s)) > amount then None
      else Some (s\<lparr>largeSize := amount, usingLargeBuffer := True, offsetBytes := 0\<rparr>))"

lemma ensure_pending:
  "ensureAvailableInBuffer n s = Some s' \<Longrightarrow> pending s' = pending s \<and> leftBytes s' = leftBytes s"
  by (auto simp: ensureAvailableInBuffer_def split: if_splits)

text \<open>
  The inner loop of \<open>socketRead\<close>: the packets found, and whether the size of the next one is bad.
  \<open>available\<close> is \<open>pending\<close>.
\<close>

function drain :: "(byte list \<Rightarrow> int) \<Rightarrow> rx \<Rightarrow> (rx \<times> byte list list \<times> bool) option" where
  "drain len s =
     (if pending s = [] then Some (s, [], False)
      else let packetSize = len (pending s)
           in if packetSize = kUnknownSize then Some (s, [], False)
              else if packetSize \<le> 0 then Some (s, [], True)
              else if int (length (pending s)) \<ge> packetSize then
                (case ensureAvailableInBuffer kMinPacketBuffer
                        (s\<lparr>offsetBytes := offsetBytes s + packetSize,
                           pending := drop (nat packetSize) (pending s)\<rparr>) of
                   None \<Rightarrow> None
                 | Some s' \<Rightarrow> map_option (\<lambda>(t, ps, e). (t, take (nat packetSize) (pending s) # ps, e)) (drain len s'))
              else
                (case ensureAvailableInBuffer packetSize
                        (s\<lparr>leftBytes := packetSize - int (length (pending s))\<rparr>) of
                   None \<Rightarrow> None
                 | Some s' \<Rightarrow> Some (s', [], False)))"
  by auto

termination drain
  by (relation "measure (\<lambda>(len, s). length (pending s))") (auto dest!: ensure_pending)

declare drain.simps [simp del]

definition readLimit :: "rx \<Rightarrow> int" where
  "readLimit s =
     (if leftBytes s > 0 then leftBytes s
      else kSmallBufferSize - offsetBytes s - int (length (pending s)))"

text \<open>
  One turn of \<open>socketRead\<close> in which the socket delivered \<open>chunk\<close> (already decrypted): the new
  state, the packets given to \<open>socketPacket\<close>, and whether \<open>error()\<close> was called.
\<close>

definition socketRead_turn ::
    "(byte list \<Rightarrow> int) \<Rightarrow> byte list \<Rightarrow> rx \<Rightarrow> (rx \<times> byte list list \<times> bool) option" where
  "socketRead_turn len chunk s =
     (if \<not> (leftBytes s > 0 \<or> \<not> usingLargeBuffer s) then None
      else if \<not> readLimit s > 0 then None
      else if readLimit s > buffer_size s - offsetBytes s - int (length (pending s)) then None
      else if chunk = [] then Some (s, [], False)
      else if leftBytes s > 0 then
        (if int (length chunk) > leftBytes s then None
         else if leftBytes s - int (length chunk) = 0
         then Some (rx_init, [pending s @ chunk], False)
         else Some (s\<lparr>pending := pending s @ chunk, leftBytes := leftBytes s - int (length chunk)\<rparr>, [], False))
      else drain len (s\<lparr>pending := pending s @ chunk\<rparr>))"

text \<open>
  A run against a socket that holds \<open>stream\<close> and delivers at most \<open>n\<close> bytes at each turn; it never
  delivers more than it is asked for.
\<close>

fun rx_run ::
    "(byte list \<Rightarrow> int) \<Rightarrow> nat list \<Rightarrow> byte list \<Rightarrow> rx \<Rightarrow> (rx \<times> byte list list \<times> byte list \<times> bool) option" where
  "rx_run len [] stream s = Some (s, [], stream, False)"
| "rx_run len (n # ns) stream s =
     (let k = min n (nat (readLimit s))
      in case socketRead_turn len (take k stream) s of
           None \<Rightarrow> None
         | Some (s', ps, True) \<Rightarrow> Some (s', ps, drop k stream, True)
         | Some (s', ps, False) \<Rightarrow>
             map_option (\<lambda>(t, qs, rest, e). (t, ps @ qs, rest, e)) (rx_run len ns (drop k stream) s'))"

subsection \<open>What the reader relies on\<close>

locale packet_length =
  fixes len :: "byte list \<Rightarrow> int"
  assumes len_cases: "len bs = kUnknownSize \<or> len bs = kInvalidSize \<or> 0 < len bs"
    and len_append: "len bs \<noteq> kUnknownSize \<Longrightarrow> len (bs @ cs) = len bs"
    and len_short: "len bs = kUnknownSize \<Longrightarrow> length bs < 4"
begin

definition frame :: "byte list \<Rightarrow> bool" where
  "frame f \<longleftrightarrow> len f = int (length f) \<and> f \<noteq> []"

text \<open>Between two turns: nothing, the beginning of a header, or part of a packet that fits the buffer.\<close>

definition rx_ok :: "rx \<Rightarrow> bool" where
  "rx_ok s \<longleftrightarrow>
     (if leftBytes s > 0
      then pending s \<noteq> [] \<and> len (pending s) = int (length (pending s)) + leftBytes s
        \<and> len (pending s) \<le> buffer_size s - offsetBytes s
      else leftBytes s = 0 \<and> \<not> usingLargeBuffer s \<and> largeSize s = 0 \<and> 0 \<le> offsetBytes s
        \<and> kMinPacketBuffer \<le> kSmallBufferSize - offsetBytes s
        \<and> (pending s = [] \<or> len (pending s) = kUnknownSize))"

lemma rx_ok_init: "rx_ok rx_init"
  by (simp add: rx_ok_def rx_init_def tcp_consts)

lemma head_frame:
  assumes "p @ stream = concat fs" "p \<noteq> []" "\<forall>f \<in> set fs. frame f" "len p \<noteq> kUnknownSize"
  obtains f fs' where "fs = f # fs'" "len p = int (length f)" "p @ stream = f @ concat fs'"
proof -
  obtain f fs' where fs: "fs = f # fs'" using assms(1,2) by (cases fs) auto
  have f: "len f = int (length f)" using assms(3) fs by (simp add: frame_def)
  then have "len f \<noteq> kUnknownSize" by (simp add: tcp_consts)
  then have "len (f @ concat fs') = len f" by (rule len_append)
  moreover have "len (p @ stream) = len p" by (rule len_append [OF assms(4)])
  ultimately show thesis using that fs f assms(1) by simp
qed

text \<open>A buffer in use by the inner loop.\<close>

definition rx_fresh :: "rx \<Rightarrow> bool" where
  "rx_fresh s \<longleftrightarrow> leftBytes s = 0 \<and> \<not> usingLargeBuffer s \<and> largeSize s = 0 \<and> 0 \<le> offsetBytes s
     \<and> kMinPacketBuffer \<le> kSmallBufferSize - offsetBytes s
     \<and> offsetBytes s + int (length (pending s)) \<le> kSmallBufferSize"

text \<open>A whole packet is there: it is taken off, and the buffer is in use as before.\<close>

lemma drain_whole:
  assumes s: "rx_fresh s" and p: "pending s = f @ rest" "len (pending s) = int (length f)" "f \<noteq> []"
  obtains s1 where "pending s1 = rest" "rx_fresh s1"
    "drain len s = map_option (\<lambda>(t, gs, e). (t, f # gs, e)) (drain len s1)"
proof -
  let ?s = "s\<lparr>offsetBytes := offsetBytes s + int (length f), pending := rest\<rparr>"
  have "\<exists>s1. ensureAvailableInBuffer kMinPacketBuffer ?s = Some s1 \<and> pending s1 = rest \<and> rx_fresh s1"
    using s p(1) by (auto simp: ensureAvailableInBuffer_def buffer_size_def rx_fresh_def tcp_consts)
  then obtain s1 where s1: "ensureAvailableInBuffer kMinPacketBuffer ?s = Some s1" "pending s1 = rest" "rx_fresh s1"
    by blast
  have known: "len (pending s) \<noteq> kUnknownSize" "0 < len (pending s)" using p by (simp_all add: tcp_consts)
  have "drain len s = map_option (\<lambda>(t, gs, e). (t, f # gs, e)) (drain len s1)"
    using known p s1(1) by (subst drain.simps) (simp add: Let_def)
  then show thesis using that s1(2,3) by blast
qed

text \<open>A part of a packet is there: the loop ends, with room for the rest.\<close>

lemma drain_part:
  assumes s: "rx_fresh s" and p: "pending s \<noteq> []" "len (pending s) = int n" "length (pending s) < n"
  shows "\<exists>s1. drain len s = Some (s1, [], False) \<and> rx_ok s1 \<and> pending s1 = pending s"
proof -
  let ?s = "s\<lparr>leftBytes := int n - int (length (pending s))\<rparr>"
  have "\<exists>s1. ensureAvailableInBuffer (int n) ?s = Some s1 \<and> pending s1 = pending s
      \<and> leftBytes s1 = int n - int (length (pending s)) \<and> int n \<le> buffer_size s1 - offsetBytes s1"
    using s p(3) by (auto simp: ensureAvailableInBuffer_def buffer_size_def rx_fresh_def)
  then obtain s1 where s1: "ensureAvailableInBuffer (int n) ?s = Some s1" "pending s1 = pending s"
      "leftBytes s1 = int n - int (length (pending s))" "int n \<le> buffer_size s1 - offsetBytes s1" by blast
  have known: "len (pending s) \<noteq> kUnknownSize" "0 < len (pending s)" using p by (simp_all add: tcp_consts)
  have "drain len s = Some (s1, [], False)"
    using known p s1(1) by (subst drain.simps) (simp add: Let_def)
  moreover have "rx_ok s1" using s1 p by (simp add: rx_ok_def)
  ultimately show ?thesis using s1(2) by blast
qed

lemma drain_frames:
  assumes "rx_fresh s" "pending s @ stream = concat fs" "\<forall>f \<in> set fs. frame f"
  shows "\<exists>s' gs fs'. drain len s = Some (s', gs, False) \<and> fs = gs @ fs' \<and> rx_ok s'
    \<and> pending s' @ stream = concat fs'"
  using assms
proof (induction "length (pending s)" arbitrary: s fs rule: less_induct)
  case less
  show ?case
  proof (cases "pending s = [] \<or> len (pending s) = kUnknownSize")
    case True
    then have "drain len s = Some (s, [], False)" by (subst drain.simps) auto
    moreover have "rx_ok s" using True less.prems(1) by (auto simp: rx_ok_def rx_fresh_def)
    ultimately show ?thesis using less.prems(2) by auto
  next
    case False
    then obtain f fs' where f: "fs = f # fs'" "len (pending s) = int (length f)" "pending s @ stream = f @ concat fs'"
      using head_frame [OF less.prems(2) _ less.prems(3)] by blast
    have fr: "f \<noteq> []" "\<forall>g \<in> set fs'. frame g" using less.prems(3) f(1) by (auto simp: frame_def)
    show ?thesis
    proof (cases "length f \<le> length (pending s)")
      case True
      define rest where "rest = drop (length f) (pending s)"
      have p: "pending s = f @ rest" "rest @ stream = concat fs'"
        using f(3) True unfolding rest_def by (metis append_eq_append_conv_if append_take_drop_id)+
      obtain s1 where s1: "pending s1 = rest" "rx_fresh s1"
          "drain len s = map_option (\<lambda>(t, gs, e). (t, f # gs, e)) (drain len s1)"
        by (rule drain_whole [OF less.prems(1) p(1) f(2) fr(1)])
      have "length (pending s1) < length (pending s)" using fr(1) p(1) s1(1) by simp
      then obtain s' gs fs'' where "drain len s1 = Some (s', gs, False)" "fs' = gs @ fs''" "rx_ok s'"
          "pending s' @ stream = concat fs''"
        using less.hyps [OF _ s1(2) _ fr(2)] p(2) s1(1) by blast
      then show ?thesis using s1(3) f(1) by fastforce
    next
      case part: False
      then show ?thesis using drain_part [OF less.prems(1) _ f(2)] False less.prems(2) by fastforce
    qed
  qed
qed

lemma readLimit_fits:
  assumes "rx_ok s"
  shows "0 < readLimit s \<and> readLimit s \<le> buffer_size s - offsetBytes s - int (length (pending s))
    \<and> (leftBytes s > 0 \<or> \<not> usingLargeBuffer s)"
  using assms len_short [of "pending s"]
  by (auto simp: rx_ok_def readLimit_def buffer_size_def tcp_consts split: if_splits)

text \<open>A turn in the middle of a packet.\<close>

lemma turn_left:
  assumes ok: "rx_ok s" and st: "pending s @ stream = concat fs" and fr: "\<forall>f \<in> set fs. frame f"
    and left: "leftBytes s > 0" and k: "int k \<le> leftBytes s" and ne: "take k stream \<noteq> []"
  shows "\<exists>s' gs fs'. socketRead_turn len (take k stream) s = Some (s', gs, False) \<and> fs = gs @ fs'
    \<and> rx_ok s' \<and> pending s' @ drop k stream = concat fs'"
proof -
  let ?c = "take k stream"
  note lim = readLimit_fits [OF ok]
  have p: "pending s \<noteq> []" "len (pending s) = int (length (pending s)) + leftBytes s"
    using ok left by (simp_all add: rx_ok_def)
  have kn: "len (pending s) \<noteq> kUnknownSize" using p left by (simp add: tcp_consts)
  obtain f fs' where f: "fs = f # fs'" "len (pending s) = int (length f)" "pending s @ stream = f @ concat fs'"
    by (rule head_frame [OF st p(1) fr kn])
  have cl: "int (length ?c) \<le> leftBytes s" using k by simp
  show ?thesis
  proof (cases "int (length ?c) = leftBytes s")
    case True
    then have "length (pending s @ ?c) = length f" using p(2) f(2) by simp
    moreover have "(pending s @ ?c) @ drop k stream = f @ concat fs'" using f(3) by simp
    ultimately have "pending s @ ?c = f \<and> drop k stream = concat fs'"
      using append_eq_append_conv by blast
    moreover have "socketRead_turn len ?c s = Some (rx_init, [pending s @ ?c], False)"
      using lim ne left True unfolding socketRead_turn_def by simp
    ultimately show ?thesis
      using f(1) rx_ok_init by (intro exI [of _ rx_init] exI [of _ "[f]"] exI [of _ fs']) (simp add: rx_init_def)
  next
    case False
    let ?s = "s\<lparr>pending := pending s @ ?c, leftBytes := leftBytes s - int (length ?c)\<rparr>"
    have "socketRead_turn len ?c s = Some (?s, [], False)"
      using lim ne left False cl unfolding socketRead_turn_def by simp
    moreover have "rx_ok ?s"
      using ok left p len_append [OF kn, of ?c] False cl by (auto simp: rx_ok_def buffer_size_def)
    ultimately show ?thesis using st by auto
  qed
qed

lemma turn_frames:
  assumes ok: "rx_ok s" and st: "pending s @ stream = concat fs" and fr: "\<forall>f \<in> set fs. frame f"
    and k: "0 < k" "int k \<le> readLimit s"
  shows "\<exists>s' gs fs'. socketRead_turn len (take k stream) s = Some (s', gs, False) \<and> fs = gs @ fs'
    \<and> rx_ok s' \<and> pending s' @ drop k stream = concat fs'"
proof (cases "take k stream = []")
  case True
  then have "stream = []" using k(1) by simp
  then show ?thesis using ok st readLimit_fits [OF ok] by (auto simp: socketRead_turn_def)
next
  case ne: False
  show ?thesis
  proof (cases "leftBytes s > 0")
    case True
    then show ?thesis using turn_left [OF ok st fr True _ ne] k(2) by (simp add: readLimit_def)
  next
    case False
    let ?s = "s\<lparr>pending := pending s @ take k stream\<rparr>"
    have o: "leftBytes s = 0" "\<not> usingLargeBuffer s" using False ok by (simp_all add: rx_ok_def split: if_splits)
    have "int (length (take k stream)) \<le> readLimit s" using k(2) by simp
    then have "rx_fresh ?s" using False ok by (simp add: rx_ok_def rx_fresh_def readLimit_def)
    then have "\<exists>s' gs fs'. drain len ?s = Some (s', gs, False) \<and> fs = gs @ fs' \<and> rx_ok s'
        \<and> pending s' @ drop k stream = concat fs'"
      by (rule drain_frames) (use st fr in simp_all)
    moreover have "socketRead_turn len (take k stream) s = drain len ?s"
      using readLimit_fits [OF ok] ne o unfolding socketRead_turn_def by simp
    ultimately show ?thesis by simp
  qed
qed

text \<open>However the stream is cut into pieces, no assertion fails and the frames come out one by one.\<close>

lemma run_frames:
  assumes "rx_ok s" "pending s @ stream = concat fs" "\<forall>f \<in> set fs. frame f" "\<forall>n \<in> set ns. 0 < n"
  shows "\<exists>s' gs fs' rest. rx_run len ns stream s = Some (s', gs, rest, False) \<and> fs = gs @ fs'
    \<and> rx_ok s' \<and> pending s' @ rest = concat fs' \<and> length rest \<le> length stream - length ns"
  using assms
proof (induction ns arbitrary: s stream fs)
  case Nil
  then show ?case by auto
next
  case (Cons n ns)
  let ?k = "min n (nat (readLimit s))"
  have k: "0 < ?k" "int ?k \<le> readLimit s" using Cons.prems(1,4) readLimit_fits [of s] by auto
  obtain s1 gs fs1 where t: "socketRead_turn len (take ?k stream) s = Some (s1, gs, False)" "fs = gs @ fs1"
      "rx_ok s1" "pending s1 @ drop ?k stream = concat fs1"
    using turn_frames [OF Cons.prems(1-3) k] by blast
  have fr: "\<forall>f \<in> set fs1. frame f" "\<forall>n \<in> set ns. 0 < n" using Cons.prems(3,4) t(2) by auto
  obtain s' hs fs' rest where r: "rx_run len ns (drop ?k stream) s1 = Some (s', hs, rest, False)" "fs1 = hs @ fs'"
      "rx_ok s'" "pending s' @ rest = concat fs'" "length rest \<le> length (drop ?k stream) - length ns"
    using Cons.IH [OF t(3,4) fr] by blast
  have "rx_run len (n # ns) stream s = Some (s', gs @ hs, rest, False)" using t(1) r(1) by (simp add: Let_def)
  moreover have "length rest \<le> length stream - length (n # ns)"
    using r(5) k(1) unfolding length_drop list.size(4) by linarith
  ultimately show ?case using t(2) r(2-4) by auto
qed

lemma run_all_frames:
  assumes fr: "\<forall>f \<in> set fs. frame f" and n: "\<forall>n \<in> set ns. 0 < n" "length (concat fs) \<le> length ns"
  shows "\<exists>s'. rx_run len ns (concat fs) rx_init = Some (s', fs, [], False) \<and> pending s' = []"
proof -
  obtain s' gs fs' rest where r: "rx_run len ns (concat fs) rx_init = Some (s', gs, rest, False)" "fs = gs @ fs'"
      "rx_ok s'" "pending s' @ rest = concat fs'" "length rest \<le> length (concat fs) - length ns"
    using run_frames [OF rx_ok_init, of "concat fs" fs ns] fr n(1) by (auto simp: rx_init_def)
  have rest: "rest = []" using r(5) n(2) by simp
  have "fs' = []"
  proof (rule ccontr)
    assume "fs' \<noteq> []"
    then obtain f hs where f: "fs' = f # hs" by (cases fs') auto
    then have ff: "frame f" using fr r(2) by simp
    have p: "pending s' = f @ concat hs" using r(4) rest f by simp
    then have ne: "pending s' \<noteq> []" using ff by (simp add: frame_def)
    have "len f \<noteq> kUnknownSize" using ff by (simp add: frame_def tcp_consts)
    then have "len (pending s') = int (length f)" using ff p len_append by (simp add: frame_def)
    then show False using r(3) ne p by (auto simp: rx_ok_def tcp_consts split: if_splits)
  qed
  then show ?thesis using r rest by simp
qed

end

text \<open>Both versions keep the contract.\<close>

lemma v0_len_append: "v0_readPacketLength bs \<noteq> kUnknownSize \<Longrightarrow> v0_readPacketLength (bs @ cs) = v0_readPacketLength bs"
  by (auto simp: v0_readPacketLength_def Let_def nth_append split: list.splits if_splits)

interpretation v0: packet_length v0_readPacketLength
proof
  fix bs cs
  show "v0_readPacketLength bs = kUnknownSize \<or> v0_readPacketLength bs = kInvalidSize \<or> 0 < v0_readPacketLength bs"
    by (auto simp: v0_readPacketLength_def Let_def intro: add_nonneg_pos split: list.splits)
  show "v0_readPacketLength bs \<noteq> kUnknownSize \<Longrightarrow> v0_readPacketLength (bs @ cs) = v0_readPacketLength bs"
    by (rule v0_len_append)
  show "v0_readPacketLength bs = kUnknownSize \<Longrightarrow> length bs < 4"
  proof -
    have "5 + uint (x :: prime) \<noteq> 0" for x using unsigned_greater_eq [where 'a = int, of x] by linarith
    then show "v0_readPacketLength bs = kUnknownSize \<Longrightarrow> length bs < 4"
      by (auto simp: v0_readPacketLength_def Let_def tcp_consts split: list.splits if_splits)
  qed
qed

interpretation vD: packet_length vD_readPacketLength
proof
  fix bs cs
  show "vD_readPacketLength bs = kUnknownSize \<or> vD_readPacketLength bs = kInvalidSize \<or> 0 < vD_readPacketLength bs"
    by (auto simp: vD_readPacketLength_def Let_def word_le_def)
  show "vD_readPacketLength bs \<noteq> kUnknownSize \<Longrightarrow> vD_readPacketLength (bs @ cs) = vD_readPacketLength bs"
    by (auto simp: vD_readPacketLength_def Let_def nth_append split: if_splits)
  show "vD_readPacketLength bs = kUnknownSize \<Longrightarrow> length bs < 4"
  proof (rule ccontr)
    assume a: "vD_readPacketLength bs = kUnknownSize" and n: "\<not> length bs < 4"
    let ?v = "prime_of (bs ! 0) (bs ! 1) (bs ! 2) (bs ! 3) + 4"
    have "(if ?v \<ge> 8 \<and> uint ?v < kPacketSizeMax then uint ?v else kInvalidSize) = kUnknownSize"
      using a unfolding vD_readPacketLength_def Let_def if_not_P [OF n] .
    moreover have "0 \<le> uint ?v" by (rule unsigned_greater_eq)
    ultimately show False unfolding kInvalidSize_def kUnknownSize_def by (cases "?v \<ge> 8 \<and> uint ?v < kPacketSizeMax") (simp_all only: if_True if_False, simp_all)
  qed
qed

subsection \<open>Frames of the two formats\<close>

lemma ucast_small: "n < 0x7F \<Longrightarrow> sint (ucast (word_of_nat n :: prime) :: byte) = int n"
proof -
  assume n: "n < 0x7F"
  have "take_bit 32 n = n" using n by (intro take_bit_nat_eq_self) simp
  then have "(ucast (word_of_nat n :: prime) :: byte) = word_of_nat n"
    by (simp add: unsigned_of_nat)
  then show ?thesis using n by (simp add: signed_of_nat signed_take_bit_int_eq_self)
qed

lemma three_bytes:
  fixes w :: prime
  assumes "w < 0x1000000"
  shows "(ucast (ucast (w AND 0xFF) :: byte) :: prime) OR push_bit 8 (ucast (ucast (drop_bit 8 w AND 0xFF) :: byte))
      OR push_bit 16 (ucast (ucast (drop_bit 16 w AND 0xFF) :: byte)) = w" (is "?l = w")
proof (rule bit_word_eqI)
  fix n assume n: "n < LENGTH(32)"
  have "w = take_bit 24 w"
    using assms by (intro word_uint_eqI) (simp add: unsigned_take_bit_eq take_bit_int_eq_self word_less_def)
  then have hi: "bit w n \<Longrightarrow> n < 24" by (metis bit_take_bit_iff)
  have ff: "(0xFF :: prime) = mask 8" by (simp add: mask_eq_exp_minus_1)
  consider "n < 8" | "8 \<le> n" "n < 16" | "16 \<le> n" "n < 24" | "24 \<le> n" "n < 32" using n by force
  then show "bit ?l n = bit w n"
    unfolding ff using hi by cases (auto simp: bit_simps)
qed

lemma v0_length_header:
  assumes "0 < n" "n < 0x1000000"
  shows "v0_readPacketLength (v0_header n @ bs) = int (4 * n) + int (length (v0_header n))"
proof (cases "n < 0x7F")
  case True
  then show ?thesis using assms by (simp add: v0_header_def v0_readPacketLength_def Let_def ucast_small)
next
  case False
  let ?w = "word_of_nat n :: prime"
  have u: "uint ?w = int n" using assms(2) by (simp add: unsigned_of_nat take_bit_nat_eq_self)
  have w: "?w < 0x1000000" "?w \<ge> 0x7F" using assms(2) False u by (simp_all add: word_less_def word_le_def)
  have "push_bit 2 ?w = word_of_nat (4 * n)" by (simp add: push_bit_eq_mult)
  then have p: "uint (push_bit 2 ?w) = 4 * int n"
    using assms(2) by (simp only: unsigned_of_nat) (simp add: take_bit_nat_eq_self)
  show ?thesis
    using False w(2) p three_bytes [OF w(1)]
    by (simp add: v0_header_def v0_readPacketLength_def Let_def)
qed

lemma v0_frame:
  assumes "0 < length payload" "length payload < 0x1000000"
  shows "v0.frame (v0_header (length payload) @ buffer_bytes payload)
    \<and> v0_readPacket (v0_header (length payload) @ buffer_bytes payload) = Some (buffer_bytes payload)"
proof -
  let ?f = "v0_header (length payload) @ buffer_bytes payload"
  have l: "v0_readPacketLength ?f = int (length ?f)" using v0_length_header [OF assms] by simp
  have h: "length (v0_header (length payload)) = (if sint (hd ?f) = 0x7F then 4 else 1)" "?f \<noteq> []"
    using ucast_small [of "length payload"] by (auto simp: v0_header_def Let_def)
  show ?thesis
    using l h(2) by (simp add: v0.frame_def v0_readPacket_def tcp_consts flip: h(1))
qed

lemma vD_frame:
  assumes "0 < length payload" "4 * length payload + length pad + 4 < 0x4000000"
  shows "vD.frame (vD_header (4 * length payload + length pad) @ buffer_bytes payload @ pad)
    \<and> vD_readPacket (vD_header (4 * length payload + length pad) @ buffer_bytes payload @ pad)
      = Some (buffer_bytes payload @ pad)"
proof -
  let ?n = "4 * length payload + length pad"
  let ?w = "word_of_nat ?n :: prime"
  let ?f = "vD_header ?n @ buffer_bytes payload @ pad"
  have "?w + 4 = word_of_nat (?n + 4)" by simp
  then have u: "uint (?w + 4) = int ?n + 4"
    using assms(2) by (simp only: unsigned_of_nat) (simp add: take_bit_nat_eq_self)
  have pr: "prime_of (?f ! 0) (?f ! 1) (?f ! 2) (?f ! 3) = ?w"
    by (simp add: vD_header_def prime_bytes_def)
  have n4: "\<not> length ?f < 4" by (simp add: vD_header_def)
  have "8 \<le> ?w + 4 \<and> uint (?w + 4) < kPacketSizeMax"
    unfolding word_le_def u using assms by (cases payload) (simp_all add: tcp_consts)
  then have l: "vD_readPacketLength ?f = int ?n + 4"
    unfolding vD_readPacketLength_def Let_def if_not_P [OF n4] pr by (simp only: if_True u simp_thms)
  show ?thesis
    using l assms(1) n4 by (cases payload) (simp_all add: vD.frame_def vD_readPacket_def tcp_consts vD_header_def prime_bytes_def)
qed

text \<open>
  What \<open>sendData\<close> was given: the two reserved ints, the random values and the payload.
\<close>

record outgoing =
  reserved0 :: prime
  reserved1 :: prime
  rnd_value :: prime
  rnd_fill :: "nat \<Rightarrow> prime"
  payload :: "prime list"

definition sent_frame :: "protocol \<Rightarrow> outgoing \<Rightarrow> byte list option" where
  "sent_frame p m = finalizePacket p (rnd_value m) (rnd_fill m) (reserved0 m # reserved1 m # payload m)"

definition payload_limit :: "protocol \<Rightarrow> nat" where
  "payload_limit p = (if supportsArbitraryLength p then 0xFFFFFC else 0x1000000)"

definition received_payload :: "protocol \<Rightarrow> prime list \<Rightarrow> byte list \<Rightarrow> bool" where
  "received_payload p ints f \<longleftrightarrow>
     (\<exists>extra. parsePacket p f = Some (ints @ extra) \<and> length extra \<le> 3 \<and> (extra = [] \<or> supportsArbitraryLength p))"

lemma parse_payload:
  assumes "readPacket p f = Some (buffer_bytes ints @ pad)" "3 \<le> length ints" "length pad < 16"
    "pad = [] \<or> supportsArbitraryLength p"
  shows "received_payload p ints f"
proof -
  have "parsePacket p f = Some (ints @ bytes_primes pad)"
    using assms(2) unfolding parsePacket_def assms(1) by (auto simp: prime_bytes_roundtrip Let_def)
  moreover have "length (bytes_primes pad) \<le> 3" using assms(3) by (simp add: length_bytes_primes)
  ultimately show ?thesis using assms(4) by (auto simp: received_payload_def)
qed

lemma masked_padding: "unat (rnd AND 0x0F :: prime) < 16"
proof -
  have "rnd AND 0x0F = take_bit 4 rnd" by (simp add: take_bit_eq_mask mask_eq_exp_minus_1)
  then show ?thesis using take_bit_nat_less_exp [of 4 "unat rnd"] by (simp add: unsigned_take_bit_eq)
qed

lemma v0_sent_frame:
  assumes "\<not> supportsArbitraryLength p" "3 \<le> length (payload m)" "length (payload m) < payload_limit p"
  shows "\<exists>f. sent_frame p m = Some f \<and> v0.frame f \<and> received_payload p (payload m) f"
proof -
  let ?f = "v0_header (length (payload m)) @ buffer_bytes (payload m)"
  have n: "0 < length (payload m)" "length (payload m) < 0x1000000"
    using assms by (auto simp: payload_limit_def)
  have "sent_frame p m = Some ?f"
    using v0_finalize_eq [of "payload m"] n assms(1) by (cases p) (simp_all add: sent_frame_def)
  moreover have "readPacket p ?f = Some (buffer_bytes (payload m) @ [])"
    using v0_frame [OF n] assms(1) by (cases p) simp_all
  ultimately show ?thesis using v0_frame [OF n] parse_payload [OF _ assms(2)] by fastforce
qed

lemma vD_sent_frame:
  assumes "supportsArbitraryLength p" "3 \<le> length (payload m)" "length (payload m) < payload_limit p"
  shows "\<exists>f. sent_frame p m = Some f \<and> vD.frame f \<and> received_payload p (payload m) f"
proof -
  obtain key where p: "p = VersionD key" using assms(1) by (cases p) simp_all
  have n: "0 < length (payload m)" "length (payload m) \<le> 0x1000000" "length (payload m) < 0xFFFFFC"
    using assms by (auto simp: payload_limit_def)
  obtain pad where pad: "sent_frame p m
      = Some (vD_header (4 * length (payload m) + length pad) @ buffer_bytes (payload m) @ pad)"
      "length pad = unat (rnd_value m AND 0x0F)"
    using vD_finalize_eq [OF n(1,2)] p by (fastforce simp: sent_frame_def)
  have l: "length pad < 16" using pad(2) masked_padding by simp
  then have "4 * length (payload m) + length pad + 4 < 0x4000000" using n(3) by simp
  note f = vD_frame [OF n(1) this]
  show ?thesis
    using pad(1) f l parse_payload [OF _ assms(2), of p _ pad] assms(1) p by auto
qed

lemma sent_all_frames:
  assumes "\<And>m. m \<in> set ms \<Longrightarrow> \<exists>f. snd_frame m = Some f \<and> is_frame f \<and> good m f"
  obtains fs where "map snd_frame ms = map Some fs" "\<forall>f \<in> set fs. is_frame f" "list_all2 good ms fs"
proof -
  have "\<exists>fs. map snd_frame ms = map Some fs \<and> (\<forall>f \<in> set fs. is_frame f) \<and> list_all2 good ms fs"
    using assms
  proof (induction ms)
    case (Cons m ms)
    then obtain f fs where "snd_frame m = Some f" "is_frame f" "good m f"
        "map snd_frame ms = map Some fs" "\<forall>f \<in> set fs. is_frame f" "list_all2 good ms fs" by (metis list.set_intros)
    then show ?case by (intro exI [of _ "f # fs"]) simp
  qed simp
  then show thesis using that by blast
qed

text \<open>
  C5. For every protocol version and every list of payloads of at least three ints below the
  version's limit: each is packed into a frame; and however the socket cuts the concatenated frames
  into pieces, after at most as many nonempty reads as there are bytes the reassembly loop has run
  without a failed assertion or a size error, has given exactly these frames, in order, to
  \<open>socketPacket\<close> and holds no byte back; and each of them parses to its payload, followed by at
  most three padding ints in version D only.
\<close>
theorem tcp_stream_roundtrip:
  assumes "\<forall>m \<in> set ms. 3 \<le> length (payload m) \<and> length (payload m) < payload_limit p"
    and "\<forall>n \<in> set ns. 0 < n"
  shows "\<exists>fs. map (sent_frame p) ms = map Some fs
    \<and> list_all2 (\<lambda>m f. received_payload p (payload m) f) ms fs
    \<and> (length (concat fs) \<le> length ns \<longrightarrow>
        (\<exists>s'. rx_run (readPacketLength p) ns (concat fs) rx_init = Some (s', fs, [], False) \<and> pending s' = []))"
proof (cases "supportsArbitraryLength p")
  case True
  obtain fs where fs: "map (sent_frame p) ms = map Some fs" "\<forall>f \<in> set fs. vD.frame f"
      "list_all2 (\<lambda>m f. received_payload p (payload m) f) ms fs"
    by (rule sent_all_frames [of ms "sent_frame p" vD.frame "\<lambda>m f. received_payload p (payload m) f"])
      (use assms(1) vD_sent_frame [OF True] in blast)+
  moreover have "readPacketLength p = vD_readPacketLength" using True by (cases p) simp_all
  ultimately show ?thesis using vD.run_all_frames [OF fs(2) assms(2)] by (intro exI [of _ fs]) simp
next
  case False
  obtain fs where fs: "map (sent_frame p) ms = map Some fs" "\<forall>f \<in> set fs. v0.frame f"
      "list_all2 (\<lambda>m f. received_payload p (payload m) f) ms fs"
    by (rule sent_all_frames [of ms "sent_frame p" v0.frame "\<lambda>m f. received_payload p (payload m) f"])
      (use assms(1) v0_sent_frame [OF False] in blast)+
  moreover have "readPacketLength p = v0_readPacketLength" using False by (cases p) simp_all
  ultimately show ?thesis using v0.run_all_frames [OF fs(2) assms(2)] by (intro exI [of _ fs]) simp
qed

theorem tcp_stream_roundtrip_witness:
  "\<exists>fs. map (sent_frame Version0) [\<lparr>reserved0 = 0, reserved1 = 0, rnd_value = 0, rnd_fill = (\<lambda>_. 0), payload = [1, 2, 3]\<rparr>]
      = map Some fs
    \<and> (length (concat fs) \<le> length (replicate 20 (5 :: nat)) \<longrightarrow>
        (\<exists>s'. rx_run (readPacketLength Version0) (replicate 20 5) (concat fs) rx_init = Some (s', fs, [], False)))"
  using tcp_stream_roundtrip [of "[\<lparr>reserved0 = 0, reserved1 = 0, rnd_value = 0, rnd_fill = (\<lambda>_. 0), payload = [1, 2, 3]\<rparr>]"
      Version0 "replicate 20 5"] by (force simp: payload_limit_def)

text \<open>
  A packet of \<open>0x1000000\<close> ints passes the check of \<open>finalizePacket\<close>, but its three length
  bytes are all zero, and the reader of the same format takes it for an invalid size.
\<close>
theorem v0_largest_packet_unreadable:
  assumes "length ints = 0x1000000"
  shows "\<exists>f. v0_finalizePacket (a # b # ints) = Some f \<and> v0_readPacketLength f = kInvalidSize"
proof -
  let ?f = "v0_header (length ints) @ buffer_bytes ints"
  have "v0_finalizePacket (a # b # ints) = Some ?f" using assms by (intro v0_finalize_eq) simp_all
  moreover have "v0_header (length ints) = [0x7F, 0, 0, 0]" unfolding assms v0_header_def Let_def by simp
  then have "v0_readPacketLength ?f = kInvalidSize" by (simp add: v0_readPacketLength_def Let_def)
  ultimately show ?thesis by blast
qed

theorem v0_largest_packet_unreadable_witness:
  "\<exists>f. v0_finalizePacket (0 # 0 # replicate 0x1000000 7) = Some f \<and> v0_readPacketLength f = kInvalidSize"
  by (rule v0_largest_packet_unreadable) (rule length_replicate)

end
