(* ===== verification/Tcp_Connection.thy ===== *)
theory Tcp_Connection
  imports Tcp_Framing
begin

text \<open>
  The rest of \<open>TcpConnection\<close> (\<open>mtproto/connection_tcp.cpp\<close>) and the parts of
  \<open>AbstractConnection\<close> it uses: the obfuscated start of the stream, sending, the status machine
  driven by received packets, and the unencrypted request and response of the handshake. AES in
  counter mode comes from OpenSSL: its key stream is the argument \<open>ks\<close> (key, initial vector,
  position), SHA-256 the argument \<open>Sha256\<close>. Random bytes are arguments.
\<close>

unbundle bit_operations_syntax

subsection \<open>The stream cipher\<close>

type_synonym keystream = "byte list \<Rightarrow> byte list \<Rightarrow> nat \<Rightarrow> byte"

text \<open>\<open>CTRState\<close>: the vector the counter began with and how many bytes were processed.\<close>

record CTRState =
  ivec :: "byte list"
  processed :: nat

definition KeySize :: nat where "KeySize = 32"
definition IvecSize :: nat where "IvecSize = 16"

definition aesCtrEncrypt :: "keystream \<Rightarrow> byte list \<Rightarrow> CTRState \<Rightarrow> byte list \<Rightarrow> byte list \<times> CTRState" where
  "aesCtrEncrypt ks key st bs =
     (map (\<lambda>(i, b). b XOR ks key (ivec st) (processed st + i)) (enumerate 0 bs),
      st\<lparr>processed := processed st + length bs\<rparr>)"

subsection \<open>The start nonce\<close>

definition uint32_at :: "byte list \<Rightarrow> nat \<Rightarrow> prime" where
  "uint32_at bs i = prime_of (bs ! i) (bs ! (i + 1)) (bs ! (i + 2)) (bs ! (i + 3))"

definition tcp_isGoodStartNonce :: "byte list \<Rightarrow> bool" where
  "tcp_isGoodStartNonce nonce \<longleftrightarrow>
     (let zero = nonce ! 0; first = uint32_at nonce 0; second = uint32_at nonce 4
      in zero \<noteq> 0xEF \<and> first \<noteq> 0x44414548 \<and> first \<noteq> 0x54534F50 \<and> first \<noteq> 0x20544547
         \<and> first \<noteq> 0xEEEEEEEE \<and> first \<noteq> 0xDDDDDDDD \<and> first \<noteq> 0x02010316 \<and> second \<noteq> 0x00000000)"

definition tls_isGoodStartNonce :: "byte list \<Rightarrow> bool" where
  "tls_isGoodStartNonce nonce = True"

subsection \<open>The connection\<close>

datatype Status = Waiting | Ready | Finished

datatype signal = Connected | Disconnected | ReceivedData | Error int

record connection =
  has_socket :: bool
  connectionStarted :: bool
  protocol :: "protocol option"
  protocolDcId :: "16 word"
  sendKey :: "byte list"
  sendState :: CTRState
  receiveKey :: "byte list"
  receiveState :: CTRState
  status :: Status
  checkNonce :: "128 word"
  address :: string
  port :: int
  ping_time :: int
  receivedQueue :: "prime list list"
  written :: "byte list"

definition kErrorCodeOther :: int where "kErrorCodeOther = -499"

definition zero_state :: CTRState where
  "zero_state = \<lparr>ivec = replicate IvecSize 0, processed = 0\<rparr>"

text \<open>The keys are uninitialised memory until the stream starts: \<open>junk\<close>.\<close>

definition new_connection :: "byte list \<Rightarrow> 128 word \<Rightarrow> connection" where
  "new_connection junk nonce =
     \<lparr>has_socket = False, connectionStarted = False, protocol = None, protocolDcId = 0,
      sendKey = junk, sendState = zero_state, receiveKey = junk, receiveState = zero_state,
      status = Waiting, checkNonce = nonce, address = '''', port = 0, ping_time = 0,
      receivedQueue = [], written = []\<rparr>"

definition int16_bytes :: "16 word \<Rightarrow> byte list" where
  "int16_bytes d = [ucast d, ucast (drop_bit 8 d)]"

text \<open>
  \<open>nonces\<close> are the successive random nonces; \<open>None\<close> is a failed expectation or a loop that has not
  found a good nonce among them.
\<close>

definition prepareConnectionStartPrefix ::
    "keystream \<Rightarrow> (byte list \<Rightarrow> byte list) \<Rightarrow> (byte list \<Rightarrow> bool) \<Rightarrow> byte list list \<Rightarrow> connection
      \<Rightarrow> (byte list \<times> connection) option" where
  "prepareConnectionStartPrefix ks Sha256 isGoodStartNonce nonces c =
     (case protocol c of
        None \<Rightarrow> None
      | Some p \<Rightarrow>
          (if \<not> has_socket c then None
           else if connectionStarted c then Some ([], c)
           else case find isGoodStartNonce nonces of
             None \<Rightarrow> None
           | Some nonce \<Rightarrow>
               (let sk = prepareKey Sha256 p (take KeySize (drop 8 nonce));
                    si = take IvecSize (drop (8 + KeySize) nonce);
                    reversed = rev (take 48 (drop 8 nonce));
                    rk = prepareKey Sha256 p (take KeySize reversed);
                    ri = take IvecSize (drop KeySize reversed);
                    nonce = take 56 nonce @ prime_bytes (protocol_id p) @ int16_bytes (protocolDcId c)
                              @ drop 62 nonce;
                    (encrypted, st) = aesCtrEncrypt ks sk ((sendState c)\<lparr>ivec := si\<rparr>) nonce
                in Some (take 56 nonce @ drop 56 encrypted,
                         c\<lparr>connectionStarted := True, sendKey := sk, sendState := st,
                           receiveKey := rk, receiveState := (receiveState c)\<lparr>ivec := ri\<rparr>\<rparr>))))"

definition sendData ::
    "keystream \<Rightarrow> (byte list \<Rightarrow> byte list) \<Rightarrow> (byte list \<Rightarrow> bool) \<Rightarrow> byte list list \<Rightarrow> outgoing \<Rightarrow> connection
      \<Rightarrow> connection option" where
  "sendData ks Sha256 isGoodStartNonce nonces m c =
     (if \<not> length (reserved0 m # reserved1 m # payload m) > 2 then None
      else if \<not> has_socket c then Some c
      else Option.bind (prepareConnectionStartPrefix ks Sha256 isGoodStartNonce nonces c) (\<lambda>(pre, c).
        Option.bind (Option.bind (protocol c) (\<lambda>p. sent_frame p m)) (\<lambda>bytes.
          let (encrypted, st) = aesCtrEncrypt ks (sendKey c) (sendState c) bytes
          in Some (c\<lparr>sendState := st, written := written c @ pre @ encrypted\<rparr>))))"

text \<open>Several packets in a row, each with the random nonces it may need.\<close>

fun send_all ::
    "keystream \<Rightarrow> (byte list \<Rightarrow> byte list) \<Rightarrow> (byte list \<Rightarrow> bool) \<Rightarrow> (byte list list \<times> outgoing) list \<Rightarrow> connection
      \<Rightarrow> connection option" where
  "send_all ks Sha256 good [] c = Some c"
| "send_all ks Sha256 good ((nonces, m) # rest) c =
     Option.bind (sendData ks Sha256 good nonces m c) (send_all ks Sha256 good rest)"

subsection \<open>Unencrypted packets of the handshake\<close>

text \<open>
  Zero ints for the transport and the key id, the message id, the length in bytes, and the request
  with random padding; \<open>padding\<close> is the random byte the amount is taken from.
\<close>

definition extendedNotSecurePadding :: "byte \<Rightarrow> nat" where
  "extendedNotSecurePadding padding = unat (padding AND 0x3F)"

definition prepareNotSecurePacket :: "byte \<Rightarrow> (nat \<Rightarrow> prime) \<Rightarrow> prime list \<Rightarrow> 64 word \<Rightarrow> prime list" where
  "prepareNotSecurePacket padding fill request newId =
     (let intsPadding = extendedNotSecurePadding padding
      in [0, 0, 0, 0, ucast newId, ucast (drop_bit 32 newId),
          push_bit 2 (word_of_nat (length request + intsPadding))]
         @ request @ map fill [0..<intsPadding])"

definition parseNotSecureResponse :: "prime list \<Rightarrow> prime list" where
  "parseNotSecureResponse answer =
     (let len = length answer
      in if len < 6 then []
         else if answer ! 0 \<noteq> 0 \<or> answer ! 1 \<noteq> 0 \<or> (answer ! 2) AND 0x03 \<noteq> 1 then []
         else let answerLen = unat (answer ! 4)
              in if answerLen < 1 \<or> answerLen mod 4 \<noteq> 0 \<or> answerLen > (len - 5) * 4 then []
                 else take (answerLen div 4) (drop 5 answer))"

text \<open>The generated reader of \<open>resPQ\<close> is the argument \<open>read_resPQ\<close>: the nonce it finds, if any.\<close>

definition readPQFakeReply :: "(prime list \<Rightarrow> 128 word option) \<Rightarrow> prime list \<Rightarrow> 128 word option" where
  "readPQFakeReply read_resPQ buffer =
     (let answer = parseNotSecureResponse buffer
      in if answer = [] then None else read_resPQ answer)"

definition preparePQFake ::
    "(128 word \<Rightarrow> prime list) \<Rightarrow> byte \<Rightarrow> (nat \<Rightarrow> prime) \<Rightarrow> 64 word \<Rightarrow> 128 word \<Rightarrow> prime list" where
  "preparePQFake write_req_pq padding fill msgId nonce =
     prepareNotSecurePacket padding fill (write_req_pq nonce) msgId"

subsection \<open>Handlers\<close>

definition isConnected :: "connection \<Rightarrow> bool" where
  "isConnected c \<longleftrightarrow> status c = Ready"

definition pingTime :: "connection \<Rightarrow> int" where
  "pingTime c = (if isConnected c then ping_time c else 0)"

text \<open>\<open>mtproxy\<close> is the secret, host and port of the proxy when it is of the MTProto type.\<close>

definition connectToServer ::
    "(byte list \<times> string \<times> int) option \<Rightarrow> string \<Rightarrow> int \<Rightarrow> byte list \<Rightarrow> 16 word \<Rightarrow> connection \<Rightarrow> connection option" where
  "connectToServer mtproxy addr prt protocolSecret dcId c =
     (if \<not> (address c = '''' \<and> port c = 0 \<and> protocol c = None \<and> protocolDcId c = 0) then None
      else let (secret, host, hport) =
                 (case mtproxy of Some (s, h, q) \<Rightarrow> (s, h, q) | None \<Rightarrow> (protocolSecret, addr, prt))
           in case protocol_Create secret of
                None \<Rightarrow> None
              | Some p \<Rightarrow> Some (c\<lparr>address := host, port := hport, protocol := Some p,
                                   has_socket := True, protocolDcId := dcId\<rparr>))"

text \<open>\<open>pq\<close> is the packet that \<open>preparePQFake\<close> made, with the random values its framing needs.\<close>

definition socketConnected ::
    "keystream \<Rightarrow> (byte list \<Rightarrow> byte list) \<Rightarrow> (byte list \<Rightarrow> bool) \<Rightarrow> byte list list \<Rightarrow> int \<Rightarrow> outgoing \<Rightarrow> connection
      \<Rightarrow> connection option" where
  "socketConnected ks Sha256 good nonces now pq c =
     (if status c \<noteq> Waiting then None
      else sendData ks Sha256 good nonces pq (c\<lparr>ping_time := now\<rparr>))"

definition socketDisconnected :: "connection \<Rightarrow> signal list" where
  "socketDisconnected c = (if status c = Waiting \<or> status c = Ready then [Disconnected] else [])"

definition socketError :: "connection \<Rightarrow> signal list" where
  "socketError c = (if \<not> has_socket c then [] else [Error kErrorCodeOther])"

definition disconnectFromServer :: "connection \<Rightarrow> connection" where
  "disconnectFromServer c =
     (if status c = Finished then c else c\<lparr>status := Finished, has_socket := False\<rparr>)"

definition socketPacket ::
    "(prime list \<Rightarrow> 128 word option) \<Rightarrow> int \<Rightarrow> byte list \<Rightarrow> connection \<Rightarrow> (connection \<times> signal list) option" where
  "socketPacket read_resPQ now bytes c =
     (if \<not> has_socket c then None
      else Option.bind (protocol c) (\<lambda>p. Option.bind (parsePacket p bytes) (\<lambda>data.
        if length data = 1 then
          (if data ! 0 \<noteq> 0 then Some (c, [Error (sint (data ! 0))]) else Some (c, []))
        else case status c of
          Ready \<Rightarrow> Some (c\<lparr>receivedQueue := receivedQueue c @ [data]\<rparr>, [ReceivedData])
        | Waiting \<Rightarrow>
            (case readPQFakeReply read_resPQ data of
               Some nonce \<Rightarrow>
                 (if nonce = checkNonce c
                  then Some (c\<lparr>status := Ready, ping_time := now - ping_time c\<rparr>, [Connected])
                  else Some (c, [Error kErrorCodeOther]))
             | None \<Rightarrow> Some (c, [Error kErrorCodeOther]))
        | Finished \<Rightarrow> Some (c, []))))"

subsection \<open>The other end\<close>

text \<open>
  What a server does with the bytes it gets: take the key and the vector from the clear prefix,
  decrypt everything with them, read the protocol tag and the data centre, and keep the rest.
\<close>

definition server_reads ::
    "keystream \<Rightarrow> (byte list \<Rightarrow> byte list) \<Rightarrow> protocol \<Rightarrow> byte list \<Rightarrow> prime \<times> byte list \<times> byte list" where
  "server_reads ks Sha256 p wire =
     (let key = prepareKey Sha256 p (take KeySize (drop 8 wire));
          iv = take IvecSize (drop (8 + KeySize) wire);
          plain = fst (aesCtrEncrypt ks key \<lparr>ivec = iv, processed = 0\<rparr> wire)
      in (uint32_at plain 56, take 2 (drop 60 plain), drop 64 plain))"

definition server_send_key :: "(byte list \<Rightarrow> byte list) \<Rightarrow> protocol \<Rightarrow> byte list \<Rightarrow> byte list \<times> byte list" where
  "server_send_key Sha256 p wire =
     (let reversed = rev (take 48 (drop 8 wire))
      in (prepareKey Sha256 p (take KeySize reversed), take IvecSize (drop KeySize reversed)))"

lemma ctr_length [simp]: "length (fst (aesCtrEncrypt ks k st bs)) = length bs"
  by (simp add: aesCtrEncrypt_def)

lemma ctr_state [simp]: "snd (aesCtrEncrypt ks k st bs) = st\<lparr>processed := processed st + length bs\<rparr>"
  by (simp add: aesCtrEncrypt_def)

lemma ctr_append:
  "fst (aesCtrEncrypt ks k st (as @ bs))
    = fst (aesCtrEncrypt ks k st as) @ fst (aesCtrEncrypt ks k (st\<lparr>processed := processed st + length as\<rparr>) bs)"
  by (rule nth_equalityI) (auto simp: aesCtrEncrypt_def nth_append nth_enumerate_eq)

lemma ctr_involution: "fst (aesCtrEncrypt ks k st (fst (aesCtrEncrypt ks k st bs))) = bs"
  by (rule nth_equalityI) (auto simp: aesCtrEncrypt_def nth_enumerate_eq xor.assoc)

abbreviation ctr where "ctr ks k st bs \<equiv> fst (aesCtrEncrypt ks k st bs)"

text \<open>A started stream: every packet is encrypted where the previous one ended.\<close>

lemma sendData_started:
  assumes "has_socket c" "connectionStarted c" "protocol c = Some p" "sent_frame p m = Some f" "payload m \<noteq> []"
  shows "sendData ks Sha256 good nonces m c
    = Some (c\<lparr>sendState := (sendState c)\<lparr>processed := processed (sendState c) + length f\<rparr>,
        written := written c @ ctr ks (sendKey c) (sendState c) f\<rparr>)"
  using assms by (simp add: sendData_def prepareConnectionStartPrefix_def split_beta Let_def)

lemma send_all_started:
  assumes "has_socket c" "connectionStarted c" "protocol c = Some p"
    "map (\<lambda>x. sent_frame p (snd x)) ms = map Some fs" "\<forall>m \<in> set ms. payload (snd m) \<noteq> []"
  shows "\<exists>c'. send_all ks Sha256 good ms c = Some c'
    \<and> written c' = written c @ ctr ks (sendKey c) (sendState c) (concat fs)
    \<and> receiveKey c' = receiveKey c \<and> receiveState c' = receiveState c"
  using assms
proof (induction ms arbitrary: c fs)
  case Nil
  then show ?case by (simp add: aesCtrEncrypt_def)
next
  case (Cons x ms)
  obtain nonces m where x: "x = (nonces, m)" by (cases x)
  obtain f gs where fs: "fs = f # gs" "sent_frame p m = Some f" "map (\<lambda>x. sent_frame p (snd x)) ms = map Some gs"
    using Cons.prems(4) x by (cases fs) auto
  let ?c = "c\<lparr>sendState := (sendState c)\<lparr>processed := processed (sendState c) + length f\<rparr>,
        written := written c @ ctr ks (sendKey c) (sendState c) f\<rparr>"
  have "sendData ks Sha256 good nonces m c = Some ?c"
    using Cons.prems x fs(2) by (intro sendData_started) auto
  moreover have "\<exists>c'. send_all ks Sha256 good ms ?c = Some c'
    \<and> written c' = written ?c @ ctr ks (sendKey ?c) (sendState ?c) (concat gs)
    \<and> receiveKey c' = receiveKey ?c \<and> receiveState c' = receiveState ?c"
    by (rule Cons.IH) (use Cons.prems fs(3) in auto)
  ultimately show ?case using x fs(1) by (auto simp: ctr_append)
qed

text \<open>The first packet: the prefix, with the nonce patched and its tail encrypted.\<close>

definition patched :: "protocol \<Rightarrow> 16 word \<Rightarrow> byte list \<Rightarrow> byte list" where
  "patched p dc nonce = take 56 nonce @ prime_bytes (protocol_id p) @ int16_bytes dc @ drop 62 nonce"

lemma length_patched: "length nonce = 64 \<Longrightarrow> length (patched p dc nonce) = 64"
  by (simp add: patched_def int16_bytes_def)

lemma send_first:
  fixes Sha256 :: "byte list \<Rightarrow> byte list"
  assumes c: "has_socket c" "\<not> connectionStarted c" "protocol c = Some p" "processed (sendState c) = 0"
    and n: "find good nonces = Some nonce" "length nonce = 64"
    and fs: "map (\<lambda>x. sent_frame p (snd x)) ((nonces, m) # ms) = map Some fs" "payload m \<noteq> []"
      "\<forall>m \<in> set ms. payload (snd m) \<noteq> []"
  defines "k \<equiv> prepareKey Sha256 p (take KeySize (drop 8 nonce))"
    and "i \<equiv> \<lparr>ivec = take IvecSize (drop (8 + KeySize) nonce), processed = 0\<rparr>"
    and "N \<equiv> patched p (protocolDcId c) nonce"
  shows "\<exists>c'. send_all ks Sha256 good ((nonces, m) # ms) c = Some c'
    \<and> written c' = written c @ take 56 N @ drop 56 (ctr ks k i N)
        @ ctr ks k (i\<lparr>processed := 64\<rparr>) (concat fs)
    \<and> (receiveKey c', ivec (receiveState c')) = server_send_key Sha256 p nonce
    \<and> processed (receiveState c') = processed (receiveState c)"
proof -
  obtain f gs where f: "fs = f # gs" "sent_frame p m = Some f" "map (\<lambda>x. sent_frame p (snd x)) ms = map Some gs"
    using fs(1) by (cases fs) auto
  obtain r where ss: "sendState c = \<lparr>ivec = r, processed = 0\<rparr>" using c(4) by (cases "sendState c") simp
  have i: "(sendState c)\<lparr>ivec := take IvecSize (drop (8 + KeySize) nonce)\<rparr> = i" by (simp add: ss i_def)
  let ?w = "take 56 N @ drop 56 (ctr ks k i N)"
  let ?c = "c\<lparr>connectionStarted := True, sendKey := k, sendState := i\<lparr>processed := 64 + length f\<rparr>,
      receiveKey := fst (server_send_key Sha256 p nonce),
      receiveState := (receiveState c)\<lparr>ivec := snd (server_send_key Sha256 p nonce)\<rparr>,
      written := written c @ ?w @ ctr ks k (i\<lparr>processed := 64\<rparr>) f\<rparr>"
  have N: "take 56 nonce @ prime_bytes (protocol_id p) @ int16_bytes (protocolDcId c) @ drop 62 nonce = N"
    "length N = 64" "processed i = 0" using n(2) length_patched by (simp_all add: N_def patched_def i_def)
  have "sendData ks Sha256 good nonces m c = Some ?c"
    using c n(1) fs(2) f(2) N
    by (simp add: sendData_def prepareConnectionStartPrefix_def split_beta Let_def i server_send_key_def
        flip: k_def)
  moreover have "\<exists>c'. send_all ks Sha256 good ms ?c = Some c'
    \<and> written c' = written ?c @ ctr ks (sendKey ?c) (sendState ?c) (concat gs)
    \<and> receiveKey c' = receiveKey ?c \<and> receiveState c' = receiveState ?c"
    by (rule send_all_started [where p = p]) (use c f(3) fs(3) in auto)
  ultimately show ?thesis using f(1) by (auto simp: ctr_append)
qed

lemma plain_prefix:
  fixes q :: prime and dc :: "16 word" and bs :: "byte list"
  assumes "length h = 56" "length r = 2"
  defines "plain \<equiv> h @ (prime_bytes q @ int16_bytes dc @ r) @ bs"
  shows "uint32_at plain 56 = q" "take 2 (drop 60 plain) = int16_bytes dc" "drop 64 plain = bs"
  using assms by (simp_all add: uint32_at_def prime_bytes_def int16_bytes_def nth_append)

lemma server_reads_wire:
  fixes Sha256 :: "byte list \<Rightarrow> byte list" and p :: protocol and dc :: "16 word"
  assumes n: "length nonce = 64"
  defines "k \<equiv> prepareKey Sha256 p (take KeySize (drop 8 nonce))"
    and "i \<equiv> \<lparr>ivec = take IvecSize (drop (8 + KeySize) nonce), processed = 0\<rparr>"
    and "N \<equiv> patched p dc nonce"
  shows "server_reads ks Sha256 p (take 56 N @ drop 56 (ctr ks k i N) @ ctr ks k (i\<lparr>processed := 64\<rparr>) bs)
    = (protocol_id p, int16_bytes dc, bs)"
proof -
  let ?h = "take 56 N" and ?t = "drop 56 N"
  have N: "length N = 64" "?h = take 56 nonce" using length_patched n by (simp_all add: N_def patched_def)
  have t: "?t = prime_bytes (protocol_id p) @ int16_bytes dc @ drop 62 nonce" using n by (simp add: N_def patched_def)
  have "drop 56 (ctr ks k i (?h @ ?t)) = ctr ks k (i\<lparr>processed := 56\<rparr>) ?t"
    using N(1) n unfolding ctr_append by (simp add: i_def)
  then have e: "drop 56 (ctr ks k i N) = ctr ks k (i\<lparr>processed := 56\<rparr>) ?t" by simp
  let ?w = "?h @ ctr ks k (i\<lparr>processed := 56\<rparr>) ?t @ ctr ks k (i\<lparr>processed := 64\<rparr>) bs"
  have key: "prepareKey Sha256 p (take KeySize (drop 8 ?w)) = k"
    "\<lparr>ivec = take IvecSize (drop (8 + KeySize) ?w), processed = 0\<rparr> = i"
    using n by (simp_all add: N(2) k_def i_def KeySize_def IvecSize_def drop_take min_def)
  have w: "ctr ks k i ?w = ctr ks k i ?h @ ?t @ bs"
    using N(1) by (simp add: ctr_append ctr_involution i_def)
  have "length (ctr ks k i ?h) = 56" "length (drop 62 nonce) = 2" using N(1) n by simp_all
  then show ?thesis
    unfolding server_reads_def Let_def e key w by (simp only: t plain_prefix)
qed

lemma server_send_key_wire:
  assumes "length nonce = 64"
  shows "server_send_key Sha256 p (take 56 (patched p dc nonce) @ bs) = server_send_key Sha256 p nonce"
  using assms by (simp add: server_send_key_def patched_def drop_take min_def)

text \<open>
  C8. The obfuscated stream. A fresh connection that sends one or more packets with a good 64 byte
  nonce among its random ones: every send succeeds, and a server that only sees the bytes on the
  wire, by taking key and vector from the clear part of the first 64 bytes, recovers the protocol
  tag, the data centre id and exactly the concatenated frames, for every key stream and hash; the
  key and vector it derives for its own direction are the ones the client decrypts with, from
  position zero; and the first bytes are none of the reserved patterns.
\<close>
theorem obfuscated_stream:
  fixes Sha256 :: "byte list \<Rightarrow> byte list"
  assumes "has_socket c" "\<not> connectionStarted c" "protocol c = Some p"
    and "sendState c = zero_state" "receiveState c = zero_state" "written c = []"
    and "\<exists>n \<in> set nonces. tcp_isGoodStartNonce n" "\<forall>n \<in> set nonces. length n = 64"
    and "map (\<lambda>x. sent_frame p (snd x)) ((nonces, m) # ms) = map Some fs"
    and "payload m \<noteq> []" "\<forall>x \<in> set ms. payload (snd x) \<noteq> []"
  shows "\<exists>c'. send_all ks Sha256 tcp_isGoodStartNonce ((nonces, m) # ms) c = Some c'
    \<and> server_reads ks Sha256 p (written c') = (protocol_id p, int16_bytes (protocolDcId c), concat fs)
    \<and> server_send_key Sha256 p (written c') = (receiveKey c', ivec (receiveState c'))
    \<and> processed (receiveState c') = 0 \<and> tcp_isGoodStartNonce (written c')"
proof -
  obtain nonce where n: "find tcp_isGoodStartNonce nonces = Some nonce"
    using assms(7) by (cases "find tcp_isGoodStartNonce nonces") (auto simp: find_None_iff)
  then have good: "tcp_isGoodStartNonce nonce" "length nonce = 64"
    using assms(8) by (auto simp: find_Some_iff)
  have z: "processed (sendState c) = 0" using assms(4) by (simp add: zero_state_def)
  let ?N = "patched p (protocolDcId c) nonce"
  let ?k = "prepareKey Sha256 p (take KeySize (drop 8 nonce))"
  let ?i = "\<lparr>ivec = take IvecSize (drop (8 + KeySize) nonce), processed = 0\<rparr>"
  let ?w = "take 56 ?N @ drop 56 (ctr ks ?k ?i ?N) @ ctr ks ?k (?i\<lparr>processed := 64\<rparr>) (concat fs)"
  obtain c' where c': "send_all ks Sha256 tcp_isGoodStartNonce ((nonces, m) # ms) c = Some c'"
      "written c' = ?w" "(receiveKey c', ivec (receiveState c')) = server_send_key Sha256 p nonce"
      "processed (receiveState c') = 0"
    using send_first [OF assms(1-3) z n good(2) assms(9-11), of ks Sha256] assms(5,6)
    by (auto simp: zero_state_def)
  have "take 56 ?N = take 56 nonce" using good(2) by (simp add: patched_def)
  then have "tcp_isGoodStartNonce ?w"
    using good by (simp add: tcp_isGoodStartNonce_def uint32_at_def nth_append)
  then show ?thesis
    using c' server_reads_wire [OF good(2)] server_send_key_wire [OF good(2)] by (intro exI [of _ c']) simp
qed

theorem obfuscated_stream_witness:
  "\<exists>c'. send_all (\<lambda>k v i. of_nat i) (\<lambda>bs. bs) tcp_isGoodStartNonce
      [([replicate 64 1], \<lparr>reserved0 = 0, reserved1 = 0, rnd_value = 0, rnd_fill = (\<lambda>_. 0), payload = [5]\<rparr>)]
      ((new_connection [] 7)\<lparr>has_socket := True, protocol := Some Version0, protocolDcId := 2\<rparr>) = Some c'
    \<and> server_reads (\<lambda>k v i. of_nat i) (\<lambda>bs. bs) Version0 (written c') = (0xEFEFEFEF, [2, 0], [1, 5, 0, 0, 0])"
proof -
  let ?m = "\<lparr>reserved0 = 0, reserved1 = 0, rnd_value = 0, rnd_fill = (\<lambda>_. 0), payload = [5]\<rparr>"
  have f: "sent_frame Version0 ?m = Some [1, 5, 0, 0, 0]"
    by (simp add: sent_frame_def v0_finalize_eq v0_header_def prime_bytes_def byte_of_def)
  have g: "tcp_isGoodStartNonce (replicate 64 1)"
    by (simp add: tcp_isGoodStartNonce_def uint32_at_def prime_of_def)
  have d: "int16_bytes 2 = [2, 0]" by code_simp
  show ?thesis
    using obfuscated_stream [of "(new_connection [] 7)\<lparr>has_socket := True, protocol := Some Version0, protocolDcId := 2\<rparr>"
        Version0 "[replicate 64 1]" ?m "[]" "[[1, 5, 0, 0, 0]]" "\<lambda>k v i. of_nat i" "\<lambda>bs. bs"] f g d
    by (force simp: new_connection_def v0_id_def)
qed

subsection \<open>Round trip of the handshake packets\<close>

lemma padding_bound: "extendedNotSecurePadding b < 64"
proof -
  have "b AND 0x3F = take_bit 6 b" by (simp add: take_bit_eq_mask mask_eq_exp_minus_1)
  then show ?thesis
    using take_bit_nat_less_exp [of 6 "unat b"] by (simp add: extendedNotSecurePadding_def unsigned_take_bit_eq)
qed

lemma low_two_bits: "(ucast (x :: 64 word) :: prime) AND 3 = 1 \<longleftrightarrow> take_bit 2 x = 1"
proof -
  have a: "(ucast x :: prime) AND 3 = take_bit 2 (ucast x)" by (simp add: take_bit_eq_mask mask_eq_exp_minus_1)
  have b: "uint (take_bit 2 (ucast x :: prime)) = uint (take_bit 2 x)"
    by (simp add: unsigned_take_bit_eq unsigned_ucast_eq min_def)
  show ?thesis unfolding a by (metis b unsigned_1 word_uint_eqI)
qed

text \<open>
  C30. A packet laid out by \<open>prepareNotSecurePacket\<close>, without the two ints of the transport, is
  accepted by \<open>parseNotSecureResponse\<close> exactly when its message id ends in the bits 01 that mark a
  server's answer; then it gives the request followed by its padding. So a client's own request,
  whose id is a multiple of four, sent back to it is refused.
\<close>
theorem not_secure_roundtrip:
  assumes "request \<noteq> []" "length request < 0x1000000"
  shows "parseNotSecureResponse (drop 2 (prepareNotSecurePacket padding fill request newId))
    = (if take_bit 2 newId = 1
       then request @ map fill [0..<extendedNotSecurePadding padding] else [])"
proof -
  let ?p = "extendedNotSecurePadding padding"
  let ?n = "length request + ?p"
  have n: "?n < 0x1000040" "0 < ?n" using assms padding_bound [of padding] by auto
  have "push_bit 2 (word_of_nat ?n :: prime) = word_of_nat (4 * ?n)" by (simp add: push_bit_eq_mult)
  then have l: "unat (push_bit 2 (word_of_nat ?n :: prime)) = 4 * ?n"
    using n(1) by (simp only: unsigned_of_nat) (simp add: take_bit_nat_eq_self)
  obtain h where h: "h = push_bit 2 (word_of_nat ?n :: prime)" by simp
  have d: "drop 2 (prepareNotSecurePacket padding fill request newId)
      = 0 # 0 # ucast newId # ucast (drop_bit 32 newId) # h # request @ map fill [0..<?p]"
    by (simp only: prepareNotSecurePacket_def Let_def h) (simp add: numeral_2_eq_2)
  have len: "unat h = 4 * ?n" "\<not> unat h < 1" using l h n(2) by simp_all
  show ?thesis
    using len assms(1) low_two_bits [of newId] unfolding d by (simp add: parseNotSecureResponse_def Let_def)
qed

theorem not_secure_roundtrip_witness:
  "parseNotSecureResponse (drop 2 (prepareNotSecurePacket 1 (\<lambda>_. 9) [5, 6] 0x500000001)) = [5, 6, 9]"
  using not_secure_roundtrip [of "[5, 6]" 1 "\<lambda>_. 9" "0x500000001"]
  by (simp add: extendedNotSecurePadding_def take_bit_eq_mask mask_eq_exp_minus_1)

subsection \<open>The status machine\<close>

datatype event = Got "byte list" | Sig signal

inductive tcp_step :: "(prime list \<Rightarrow> 128 word option) \<Rightarrow> connection \<Rightarrow> event list \<Rightarrow> connection \<Rightarrow> bool" for r where
  packet: "socketPacket r now bs c = Some (c', sg) \<Longrightarrow> tcp_step r c (Got bs # map Sig sg) c'"
| sending: "sendData ks Sha256 good nonces m c = Some c' \<Longrightarrow> tcp_step r c [] c'"
| opened: "has_socket c \<Longrightarrow> socketConnected ks Sha256 good nonces now pq c = Some c' \<Longrightarrow> tcp_step r c [] c'"
| closed: "has_socket c \<Longrightarrow> tcp_step r c (map Sig (socketDisconnected c)) c"
| failed: "tcp_step r c (map Sig (socketError c)) c"
| stopped: "tcp_step r c [] (disconnectFromServer c)"
| connect: "connectToServer mtproxy addr prt secret dc c = Some c' \<Longrightarrow> tcp_step r c [] c'"

inductive tcp_runs :: "(prime list \<Rightarrow> 128 word option) \<Rightarrow> connection \<Rightarrow> event list \<Rightarrow> connection \<Rightarrow> bool" for r c where
  start: "tcp_runs r c [] c"
| step: "tcp_runs r c tr c' \<Longrightarrow> tcp_step r c' evs c'' \<Longrightarrow> tcp_runs r c (tr @ evs) c''"

lemma sendData_keeps:
  assumes "sendData ks Sha256 good nonces m c = Some c'"
  shows "status c' = status c \<and> checkNonce c' = checkNonce c \<and> receivedQueue c' = receivedQueue c"
  using assms by (auto simp: sendData_def prepareConnectionStartPrefix_def Let_def split_beta
      split: if_splits option.splits bind_splits)

lemma connectToServer_keeps:
  assumes "connectToServer mtproxy addr prt secret dc c = Some c'"
  shows "status c' = status c \<and> checkNonce c' = checkNonce c \<and> receivedQueue c' = receivedQueue c"
  using assms by (auto simp: connectToServer_def Let_def split: if_splits option.splits)

text \<open>What a packet can do.\<close>

lemma socketPacket_cases:
  assumes "socketPacket r now bs c = Some (c', sg)"
  obtains (error) e where "sg = [Error e]" "c' = c"
  | (quiet) "sg = []" "c' = c"
  | (data) d where "sg = [ReceivedData]" "status c = Ready" "c' = c\<lparr>receivedQueue := receivedQueue c @ [d]\<rparr>"
  | (ready) p d where "sg = [Connected]" "status c = Waiting" "parsePacket p bs = Some d"
      "readPQFakeReply r d = Some (checkNonce c)" "c' = c\<lparr>status := Ready, ping_time := now - ping_time c\<rparr>"
proof -
  obtain p d where pd: "protocol c = Some p" "parsePacket p bs = Some d" "has_socket c"
    using assms by (auto simp: socketPacket_def split: if_splits bind_splits)
  note def' = assms [unfolded socketPacket_def pd bind.bind_lunit]
  show thesis
  proof (cases "length d = 1")
    case True
    then show thesis using def' pd(3) error quiet by (auto split: if_splits)
  next
    case False
    show thesis
    proof (cases "status c")
      case Waiting
      show thesis
      proof (cases "readPQFakeReply r d = Some (checkNonce c)")
        case True
        then have "sg = [Connected]" "c' = c\<lparr>status := Ready, ping_time := now - ping_time c\<rparr>"
          using def' pd(3) False Waiting by simp_all
        then show thesis using ready pd(2) Waiting True by blast
      next
        case other: False
        have "sg = [Error kErrorCodeOther] \<and> c' = c"
          using def' pd(3) False Waiting other by (simp split: option.splits if_splits)
        then show thesis using error by blast
      qed
    next
      case Ready
      then show thesis using def' pd(3) False data by auto
    next
      case Finished
      then show thesis using def' pd(3) False quiet by auto
    qed
  qed
qed

definition trace_ok :: "(prime list \<Rightarrow> 128 word option) \<Rightarrow> 128 word \<Rightarrow> event list \<Rightarrow> bool" where
  "trace_ok r nonce tr \<longleftrightarrow>
     (\<forall>ys zs. tr = ys @ Sig ReceivedData # zs \<longrightarrow> Sig Connected \<in> set ys)
   \<and> (\<forall>ys zs. tr = ys @ Sig Connected # zs \<longrightarrow> Sig Connected \<notin> set ys
        \<and> (\<exists>ys' bs p d. ys = ys' @ [Got bs] \<and> parsePacket p bs = Some d \<and> readPQFakeReply r d = Some nonce))"

definition tcp_inv :: "(prime list \<Rightarrow> 128 word option) \<Rightarrow> 128 word \<Rightarrow> event list \<Rightarrow> connection \<Rightarrow> bool" where
  "tcp_inv r nonce tr c \<longleftrightarrow> trace_ok r nonce tr \<and> checkNonce c = nonce
     \<and> (status c = Waiting \<longrightarrow> Sig Connected \<notin> set tr) \<and> (status c = Ready \<longrightarrow> Sig Connected \<in> set tr)
     \<and> length (receivedQueue c) = count_list tr (Sig ReceivedData)"

lemma append_snoc_split:
  "tr @ [x] = ys @ y # zs \<longleftrightarrow> (\<exists>zs'. tr = ys @ y # zs' \<and> zs = zs' @ [x]) \<or> (ys = tr \<and> y = x \<and> zs = [])"
  by (cases zs rule: rev_cases) auto

lemma trace_ok_snoc:
  "trace_ok r n (tr @ [e]) \<longleftrightarrow> trace_ok r n tr \<and> (e = Sig ReceivedData \<longrightarrow> Sig Connected \<in> set tr)
    \<and> (e = Sig Connected \<longrightarrow> Sig Connected \<notin> set tr
        \<and> (\<exists>ys bs p d. tr = ys @ [Got bs] \<and> parsePacket p bs = Some d \<and> readPQFakeReply r d = Some n))"
  unfolding trace_ok_def append_snoc_split by blast

lemma tcp_inv_quiet:
  assumes "tcp_inv r n tr c" "set evs \<subseteq> range Got \<union> {Sig Disconnected} \<union> range (Sig \<circ> Error)"
  shows "tcp_inv r n (tr @ evs) c"
  using assms(2)
proof (induction evs rule: rev_induct)
  case Nil
  then show ?case using assms(1) by simp
next
  case (snoc e evs)
  then have "tcp_inv r n (tr @ evs) c" "e \<noteq> Sig ReceivedData" "e \<noteq> Sig Connected" by auto
  then show ?case
    using trace_ok_snoc [of r n "tr @ evs" e] by (simp add: tcp_inv_def)
qed

lemma tcp_inv_step:
  assumes inv: "tcp_inv r n tr c" and st: "tcp_step r c evs c'"
  shows "tcp_inv r n (tr @ evs) c'"
  using st
proof cases
  case (packet now bs sg)
  have got: "tcp_inv r n (tr @ [Got bs]) c" by (rule tcp_inv_quiet [OF inv]) simp
  from packet(2) show ?thesis
  proof (cases rule: socketPacket_cases)
    case (error e)
    then show ?thesis using tcp_inv_quiet [OF inv, of evs] packet(1) by auto
  next
    case quiet
    then show ?thesis using got packet(1) by simp
  next
    case (data d)
    then show ?thesis
      using got packet(1) trace_ok_snoc [of r n "tr @ [Got bs]" "Sig ReceivedData"] by (simp add: tcp_inv_def)
  next
    case (ready p d)
    then show ?thesis
      using got packet(1) trace_ok_snoc [of r n "tr @ [Got bs]" "Sig Connected"] by (auto simp: tcp_inv_def)
  qed
next
  case (sending ks Sha256 good nonces m)
  then show ?thesis using inv sendData_keeps by (simp add: tcp_inv_def)
next
  case (opened ks Sha256 good nonces now pq)
  then have "status c' = status c \<and> checkNonce c' = checkNonce c \<and> receivedQueue c' = receivedQueue c"
    by (auto simp: socketConnected_def split: if_splits dest!: sendData_keeps)
  then show ?thesis using inv opened(1) by (simp add: tcp_inv_def)
next
  case closed
  then show ?thesis using tcp_inv_quiet [OF inv, of evs] by (auto simp: socketDisconnected_def split: if_splits)
next
  case failed
  then show ?thesis using tcp_inv_quiet [OF inv, of evs] by (auto simp: socketError_def split: if_splits)
next
  case stopped
  then show ?thesis using inv by (auto simp: tcp_inv_def disconnectFromServer_def)
next
  case (connect mtproxy addr prt secret dc)
  then show ?thesis using inv connectToServer_keeps by (simp add: tcp_inv_def)
qed

lemma tcp_inv_runs: "tcp_runs r c tr c' \<Longrightarrow> tcp_inv r n [] c \<Longrightarrow> tcp_inv r n tr c'"
  by (induction rule: tcp_runs.induct) (auto intro: tcp_inv_step)

text \<open>
  C9. In every run of a new connection, whatever packets come and whenever it sends, fails or is
  closed: \<open>connected()\<close> is signalled at most once, only in answer to a packet that reads as a
  \<open>resPQ\<close> with the connection's own nonce; data is signalled only after that, once for each packet
  in the queue; and the connection counts as connected only when \<open>connected()\<close> was signalled.
\<close>
theorem tcp_status_machine:
  assumes "tcp_runs r (new_connection junk nonce) tr c"
  shows "(\<forall>ys zs. tr = ys @ Sig ReceivedData # zs \<longrightarrow> Sig Connected \<in> set ys)
    \<and> (\<forall>ys zs. tr = ys @ Sig Connected # zs \<longrightarrow> Sig Connected \<notin> set ys
        \<and> (\<exists>ys' bs p d. ys = ys' @ [Got bs] \<and> parsePacket p bs = Some d \<and> readPQFakeReply r d = Some nonce))
    \<and> length (receivedQueue c) = count_list tr (Sig ReceivedData)
    \<and> (isConnected c \<longrightarrow> Sig Connected \<in> set tr)"
proof -
  have "tcp_inv r nonce [] (new_connection junk nonce)"
    by (simp add: tcp_inv_def trace_ok_def new_connection_def)
  from tcp_inv_runs [OF assms this] show ?thesis by (simp add: tcp_inv_def trace_ok_def isConnected_def)
qed

text \<open>A run in which the answer comes, then a packet.\<close>

definition answer_frame :: "byte list" where
  "answer_frame = 6 # buffer_bytes [0, 0, 1, 0, 4, 77]"

lemma answer_frame_ok:
  "parsePacket Version0 answer_frame = Some [0, 0, 1, 0, 4, 77]"
  "parseNotSecureResponse [0, 0, 1, 0, 4, 77] = [77]"
proof -
  have h: "answer_frame = v0_header 6 @ buffer_bytes [0, 0, 1, 0, 4, 77]" by (simp add: answer_frame_def v0_header_def)
  have l: "length [0, 0, 1, 0, 4, 77 :: prime] = 6" by simp
  have "v0_readPacket (v0_header (length [0, 0, 1, 0, 4, 77 :: prime]) @ buffer_bytes [0, 0, 1, 0, 4, 77])
      = Some (buffer_bytes [0, 0, 1, 0, 4, 77])" by (rule v0_frame [THEN conjunct2]) simp_all
  then have "v0_readPacket answer_frame = Some (buffer_bytes [0, 0, 1, 0, 4, 77] @ [])"
    unfolding h l append_Nil2 .
  then show "parsePacket Version0 answer_frame = Some [0, 0, 1, 0, 4, 77]"
    unfolding parsePacket_def readPacket.simps prime_bytes_roundtrip
    by (simp only: bind.bind_lunit prime_bytes_roundtrip) simp
  show "parseNotSecureResponse [0, 0, 1, 0, 4, 77] = [77]" by (simp add: parseNotSecureResponse_def)
qed

theorem tcp_status_machine_witness:
  "\<exists>tr c. tcp_runs (\<lambda>ws. Some 7) (new_connection [] 7) tr c \<and> isConnected c \<and> Sig Connected \<in> set tr"
proof -
  let ?r = "\<lambda>ws. Some 7"
  let ?c0 = "new_connection [] 7"
  let ?c1 = "?c0\<lparr>address := ''a'', port := 1, protocol := Some Version0, has_socket := True, protocolDcId := 2\<rparr>"
  let ?c2 = "?c1\<lparr>status := Ready, ping_time := 5\<rparr>"
  have "connectToServer None ''a'' 1 [] 2 ?c0 = Some ?c1"
    by (simp add: connectToServer_def new_connection_def protocol_Create_def)
  then have "tcp_runs ?r ?c0 ([] @ []) ?c1" by (blast intro: tcp_runs.intros tcp_step.connect)
  moreover have "socketPacket ?r 5 answer_frame ?c1 = Some (?c2, [Connected])"
    using answer_frame_ok by (simp add: socketPacket_def new_connection_def readPQFakeReply_def)
  then have "tcp_step ?r ?c1 (Got answer_frame # map Sig [Connected]) ?c2" by (rule tcp_step.packet)
  ultimately have run: "tcp_runs ?r ?c0 (([] @ []) @ (Got answer_frame # map Sig [Connected])) ?c2"
    by (rule tcp_runs.step)
  have "isConnected ?c2" by (simp add: isConnected_def)
  then show ?thesis using run tcp_status_machine [OF run] by blast
qed

end
