(* ===== verification/Proxy_Data.thy ===== *)
theory Proxy_Data
  imports Tcp_Framing
begin

text \<open>
  Proxy settings (\<open>mtproto/mtproto_proxy_data.{h,cpp}\<close>): when a proxy is valid, the secret its
  password stands for in hexadecimal or in the URL variant of base64, and the proxies reached by a
  resolved address. \<open>QString\<close> is \<open>string\<close>; \<open>qthelp::is_ipv6\<close> is an argument. The decoder of
  \<open>QByteArray::fromBase64\<close> is modelled with the behaviour Qt documents: characters outside the
  alphabet are skipped and the bits of an unfinished last byte are dropped.
\<close>

datatype proxy_type = NoProxy | Socks5 | Http | Mtproto
datatype proxy_status = Valid | Unsupported | IncorrectSecret | Invalid

record ProxyData =
  type_of :: proxy_type
  host :: string
  pd_port :: "32 word"
  user :: string
  password :: string
  resolvedIPs :: "string list"
  resolvedExpireAt :: int

abbreviation (input) code where "code c \<equiv> (of_char c :: nat)"

definition between :: "char \<Rightarrow> char \<Rightarrow> char \<Rightarrow> bool" where
  "between lo hi c \<longleftrightarrow> code lo \<le> code c \<and> code c \<le> code hi"

text \<open>\<open>QChar::toLower\<close> on the characters compared.\<close>

definition toLower :: "char \<Rightarrow> char" where
  "toLower c = (if between CHR ''A'' CHR ''Z'' c then char_of (code c + 32) else c)"

subsection \<open>Hexadecimal passwords\<close>

definition hex_char :: "char \<Rightarrow> bool" where
  "hex_char c \<longleftrightarrow> between CHR ''a'' CHR ''f'' c \<or> between CHR ''A'' CHR ''F'' c \<or> between CHR ''0'' CHR ''9'' c"

definition IsHexMtprotoPassword :: "string \<Rightarrow> bool" where
  "IsHexMtprotoPassword pw =
     (if length pw < 32 \<or> length pw mod 2 = 1 then False else list_all hex_char pw)"

definition HexMtprotoPasswordStatus :: "string \<Rightarrow> proxy_status" where
  "HexMtprotoPasswordStatus pw =
     (let size = length pw div 2; type1 = toLower (pw ! 0); type2 = toLower (pw ! 1);
          valid = size = 16 \<or> size = 17 \<and> type1 = CHR ''d'' \<and> type2 = CHR ''d''
                  \<or> size \<ge> 21 \<and> type1 = CHR ''e'' \<and> type2 = CHR ''e''
      in if valid then Valid else if size < 16 then Invalid else Unsupported)"

text \<open>\<open>None\<close> is \<open>Unexpected\<close>.\<close>

definition fromHex :: "char \<Rightarrow> nat option" where
  "fromHex c = (if between CHR ''0'' CHR ''9'' c then Some (code c - code CHR ''0'')
     else if between CHR ''A'' CHR ''F'' c then Some (10 + (code c - code CHR ''A''))
     else if between CHR ''a'' CHR ''f'' c then Some (10 + (code c - code CHR ''a''))
     else None)"

fun SecretFromHexMtprotoPassword :: "string \<Rightarrow> byte list option" where
  "SecretFromHexMtprotoPassword [] = Some []"
| "SecretFromHexMtprotoPassword [_] = None"
| "SecretFromHexMtprotoPassword (h # l # pw) =
     (case (fromHex h, fromHex l, SecretFromHexMtprotoPassword pw) of
        (Some high, Some low, Some rest) \<Rightarrow> Some (word_of_nat (high * 16 + low) # rest)
      | _ \<Rightarrow> None)"

subsection \<open>Base64 passwords\<close>

text \<open>At most two characters \<open>=\<close> at the end are skipped.\<close>

definition Base64UrlInner :: "string \<Rightarrow> string" where
  "Base64UrlInner pw =
     (if pw ! (length pw - 1) \<noteq> CHR ''='' then pw
      else if pw ! (length pw - 2) \<noteq> CHR ''='' then take (length pw - 1) pw
      else take (length pw - 2) pw)"

definition base64_char :: "char \<Rightarrow> bool" where
  "base64_char c \<longleftrightarrow> between CHR ''a'' CHR ''z'' c \<or> between CHR ''A'' CHR ''Z'' c
     \<or> between CHR ''0'' CHR ''9'' c \<or> c = CHR ''_'' \<or> c = CHR ''-''"

definition IsBase64UrlMtprotoPassword :: "string \<Rightarrow> bool" where
  "IsBase64UrlMtprotoPassword pw =
     (let size = length pw
      in if size < 22 \<or> size mod 4 = 1 then False else list_all base64_char (Base64UrlInner pw))"

definition Base64UrlMtprotoPasswordStatus :: "string \<Rightarrow> proxy_status" where
  "Base64UrlMtprotoPasswordStatus pw =
     (let inner = Base64UrlInner pw;
          size = (length inner * 3) div 4;
          valid = size = 16
            \<or> size = 17 \<and> pw ! 0 = CHR ''3''
                \<and> (between CHR ''Q'' CHR ''Z'' (pw ! 1) \<or> between CHR ''a'' CHR ''f'' (pw ! 1))
            \<or> size \<ge> 21 \<and> pw ! 0 = CHR ''7'' \<and> between CHR ''g'' CHR ''v'' (pw ! 1);
          incorrect = size \<ge> 21 \<and> toLower (pw ! 0) = CHR ''e'' \<and> toLower (pw ! 1) = CHR ''e''
      in if size < 16 then Invalid
         else if valid then Valid
         else if incorrect then IncorrectSecret
         else Unsupported)"

definition base64_value :: "char \<Rightarrow> nat option" where
  "base64_value c =
     (if between CHR ''A'' CHR ''Z'' c then Some (code c - code CHR ''A'')
      else if between CHR ''a'' CHR ''z'' c then Some (26 + (code c - code CHR ''a''))
      else if between CHR ''0'' CHR ''9'' c then Some (52 + (code c - code CHR ''0''))
      else if c = CHR ''-'' then Some 62 else if c = CHR ''_'' then Some 63 else None)"

text \<open>\<open>nbits\<close> bits are waiting in \<open>buf\<close>; eight of them make a byte.\<close>

fun base64_decode :: "nat \<Rightarrow> nat \<Rightarrow> string \<Rightarrow> byte list" where
  "base64_decode buf nbits [] = []"
| "base64_decode buf nbits (c # cs) =
     (case base64_value c of
        None \<Rightarrow> base64_decode buf nbits cs
      | Some d \<Rightarrow>
          (let buf = buf * 64 + d; nbits = nbits + 6
           in if nbits \<ge> 8
              then word_of_nat (buf div 2 ^ (nbits - 8)) # base64_decode (buf mod 2 ^ (nbits - 8)) (nbits - 8) cs
              else base64_decode buf nbits cs))"

definition SecretFromBase64UrlMtprotoPassword :: "string \<Rightarrow> byte list" where
  "SecretFromBase64UrlMtprotoPassword pw = base64_decode 0 0 pw"

subsection \<open>Proxies\<close>

definition MtprotoPasswordStatus :: "string \<Rightarrow> proxy_status" where
  "MtprotoPasswordStatus pw =
     (if IsHexMtprotoPassword pw then HexMtprotoPasswordStatus pw
      else if IsBase64UrlMtprotoPassword pw then Base64UrlMtprotoPasswordStatus pw
      else Invalid)"

definition ValidMtprotoPassword :: "string \<Rightarrow> bool" where
  "ValidMtprotoPassword pw \<longleftrightarrow> MtprotoPasswordStatus pw = Valid"

definition proxy_status_of :: "ProxyData \<Rightarrow> proxy_status" where
  "proxy_status_of p =
     (if type_of p = NoProxy \<or> host p = '''' \<or> pd_port p = 0 then Invalid
      else if type_of p = Mtproto then MtprotoPasswordStatus (password p)
      else Valid)"

definition proxy_valid :: "ProxyData \<Rightarrow> bool" where
  "proxy_valid p \<longleftrightarrow> proxy_status_of p = Valid"

definition secretFromMtprotoPassword :: "ProxyData \<Rightarrow> byte list option" where
  "secretFromMtprotoPassword p =
     (if type_of p \<noteq> Mtproto then None
      else if IsHexMtprotoPassword (password p) then SecretFromHexMtprotoPassword (password p)
      else if IsBase64UrlMtprotoPassword (password p) then Some (SecretFromBase64UrlMtprotoPassword (password p))
      else Some [])"

definition proxy_eq :: "ProxyData \<Rightarrow> ProxyData \<Rightarrow> bool" where
  "proxy_eq p q =
     (if \<not> proxy_valid p then \<not> proxy_valid q
      else type_of p = type_of q \<and> host p = host q \<and> pd_port p = pd_port q
        \<and> user p = user q \<and> password p = password q)"

text \<open>
  The expression \<open>^\d+\.\d+\.\d+\.\d+$\<close>: four groups of digits; the end may stand before a final
  newline.
\<close>

fun digit_groups :: "nat \<Rightarrow> bool \<Rightarrow> string \<Rightarrow> bool" where
  "digit_groups n seen [] \<longleftrightarrow> n = 0 \<and> seen"
| "digit_groups n seen (c # cs) \<longleftrightarrow>
     (if between CHR ''0'' CHR ''9'' c then digit_groups n True cs
      else if c = CHR ''.'' then seen \<and> n > 0 \<and> digit_groups (n - 1) False cs
      else c = CHR 0x0A \<and> cs = [] \<and> n = 0 \<and> seen)"

definition tryCustomResolve :: "(string \<Rightarrow> bool) \<Rightarrow> ProxyData \<Rightarrow> bool" where
  "tryCustomResolve is_ipv6 p \<longleftrightarrow>
     (type_of p = Socks5 \<or> type_of p = Mtproto) \<and> \<not> is_ipv6 (host p) \<and> \<not> digit_groups 3 False (host p)"

definition ToDirectIpProxy :: "(string \<Rightarrow> bool) \<Rightarrow> ProxyData \<Rightarrow> int \<Rightarrow> ProxyData" where
  "ToDirectIpProxy is_ipv6 p ipIndex =
     (if \<not> tryCustomResolve is_ipv6 p \<or> ipIndex < 0 \<or> ipIndex \<ge> int (length (resolvedIPs p)) then p
      else \<lparr>type_of = type_of p, host = resolvedIPs p ! nat ipIndex, pd_port = pd_port p,
            user = user p, password = password p, resolvedIPs = [], resolvedExpireAt = 0\<rparr>)"

datatype network_proxy = DefaultProxy | DirectNetwork
  | NetworkProxy (np_socks: bool) (np_host: string) (np_port: "16 word") (np_user: string) (np_password: string)

definition ToNetworkProxy :: "ProxyData \<Rightarrow> network_proxy" where
  "ToNetworkProxy p =
     (if type_of p = NoProxy then DefaultProxy
      else if type_of p = Mtproto then DirectNetwork
      else NetworkProxy (type_of p = Socks5) (host p) (ucast (pd_port p)) (user p) (password p))"

subsection \<open>Characters\<close>

lemma char_code: "c = d \<longleftrightarrow> code c = code d"
  by simp

lemma toLower_code:
  "code (toLower c) = (if 65 \<le> code c \<and> code c \<le> 90 then code c + 32 else code c)"
  by (simp add: toLower_def between_def)

lemma byte_eq: "n < 256 \<Longrightarrow> m < 256 \<Longrightarrow> (word_of_nat n :: byte) = word_of_nat m \<longleftrightarrow> n = m"
  by (simp add: word_of_nat_eq_iff take_bit_nat_eq_self)

subsection \<open>The secret of a hexadecimal password\<close>

lemma fromHex_hex: "hex_char c \<Longrightarrow> \<exists>v. fromHex c = Some v \<and> v < 16"
  by (auto simp: fromHex_def hex_char_def between_def)

lemma fromHex_d: "fromHex c = Some 13 \<longleftrightarrow> toLower c = CHR ''d''"
  unfolding char_code [of "toLower c"] toLower_code by (auto simp: fromHex_def between_def)

lemma fromHex_e: "fromHex c = Some 14 \<longleftrightarrow> toLower c = CHR ''e''"
  unfolding char_code [of "toLower c"] toLower_code by (auto simp: fromHex_def between_def)

lemma hex_secret:
  assumes "list_all hex_char pw" "even (length pw)"
  shows "\<exists>s. SecretFromHexMtprotoPassword pw = Some s \<and> length s = length pw div 2"
  using assms
proof (induction pw rule: SecretFromHexMtprotoPassword.induct)
  case (3 h l pw)
  then show ?case using fromHex_hex [of h] fromHex_hex [of l] by auto
qed simp_all

lemma nibbles:
  fixes a b q r :: nat
  assumes "b < 16" "r < 16"
  shows "a * 16 + b = q * 16 + r \<longleftrightarrow> a = q \<and> b = r"
proof
  assume h: "a * 16 + b = q * 16 + r"
  then have "a = q" using assms by linarith
  then show "a = q \<and> b = r" using h by simp
qed simp

lemma hex_first_byte:
  assumes "SecretFromHexMtprotoPassword pw = Some s" "list_all hex_char pw" "pw \<noteq> []"
  shows "s ! 0 = 0xDD \<longleftrightarrow> toLower (pw ! 0) = CHR ''d'' \<and> toLower (pw ! 1) = CHR ''d''"
    and "s ! 0 = 0xEE \<longleftrightarrow> toLower (pw ! 0) = CHR ''e'' \<and> toLower (pw ! 1) = CHR ''e''"
proof -
  obtain h l rest where pw: "pw = h # l # rest" using assms by (cases pw rule: SecretFromHexMtprotoPassword.cases) auto
  obtain a b where ab: "fromHex h = Some a" "a < 16" "fromHex l = Some b" "b < 16"
    using fromHex_hex [of h] fromHex_hex [of l] assms(2) pw by auto
  then have s: "s ! 0 = word_of_nat (a * 16 + b)" "a * 16 + b < 256"
    using assms(1) pw by (auto split: option.splits)
  have "s ! 0 = word_of_nat v \<longleftrightarrow> a * 16 + b = v" if "v < 256" for v
    using byte_eq [OF s(2) that] s(1) by simp
  from this [of 221] this [of 238]
  have "s ! 0 = 0xDD \<longleftrightarrow> a = 13 \<and> b = 13" "s ! 0 = 0xEE \<longleftrightarrow> a = 14 \<and> b = 14"
    using nibbles [OF ab(4), of 13 a 13] nibbles [OF ab(4), of 14 a 14] by simp_all
  then show "s ! 0 = 0xDD \<longleftrightarrow> toLower (pw ! 0) = CHR ''d'' \<and> toLower (pw ! 1) = CHR ''d''"
    "s ! 0 = 0xEE \<longleftrightarrow> toLower (pw ! 0) = CHR ''e'' \<and> toLower (pw ! 1) = CHR ''e''"
    using ab(1,3) pw by (simp_all flip: fromHex_d fromHex_e)
qed

text \<open>When \<open>Protocol::Create\<close> accepts a secret.\<close>

lemma protocol_Create_iff:
  "protocol_Create s \<noteq> None \<longleftrightarrow>
     s = [] \<or> length s = 16 \<or> length s = 17 \<and> s ! 0 = 0xDD \<or> length s \<ge> 21 \<and> s ! 0 = 0xEE"
  by (auto simp: protocol_Create_def)

lemma hex_status:
  assumes "IsHexMtprotoPassword pw"
  shows "\<exists>s. SecretFromHexMtprotoPassword pw = Some s \<and> s \<noteq> []
    \<and> (HexMtprotoPasswordStatus pw = Valid \<longleftrightarrow> protocol_Create s \<noteq> None)"
proof -
  have pw: "32 \<le> length pw" "even (length pw)" "list_all hex_char pw" "pw \<noteq> []"
    using assms by (auto simp: IsHexMtprotoPassword_def even_iff_mod_2_eq_zero split: if_splits)
  obtain s where s: "SecretFromHexMtprotoPassword pw = Some s" "length s = length pw div 2"
    using hex_secret [OF pw(3,2)] by blast
  have "s \<noteq> []" using pw(1) s(2) by auto
  moreover have "HexMtprotoPasswordStatus pw = Valid \<longleftrightarrow> protocol_Create s \<noteq> None"
    using \<open>s \<noteq> []\<close> hex_first_byte [OF s(1) pw(3,4)] s(2)
    unfolding protocol_Create_iff HexMtprotoPasswordStatus_def Let_def by simp
  ultimately show ?thesis using s(1) by blast
qed

subsection \<open>The secret of a base64 password\<close>

lemma base64_value_less: "base64_value c = Some d \<Longrightarrow> d < 64"
  by (auto simp: base64_value_def between_def split: if_splits)

lemma base64_char_value: "base64_char c \<longleftrightarrow> base64_value c \<noteq> None"
  by (auto simp: base64_value_def base64_char_def)

lemma base64_length:
  "nbits < 8 \<Longrightarrow> length (base64_decode buf nbits cs) = (nbits + 6 * length (filter base64_char cs)) div 8"
proof (induction cs arbitrary: buf nbits)
  case Nil
  then show ?case by simp
next
  case (Cons c cs)
  show ?case
  proof (cases "base64_value c")
    case None
    then show ?thesis using Cons by (simp add: base64_char_value)
  next
    case (Some d)
    let ?k = "length (filter base64_char cs)"
    show ?thesis
    proof (cases "nbits + 6 \<ge> 8")
      case True
      then have "nbits + 6 - 8 < 8" "nbits + 6 * Suc ?k = 8 + (nbits + 6 - 8 + 6 * ?k)"
        using Cons.prems by simp_all
      then have "nbits + 6 - 8 < 8" "Suc ((nbits + 6 - 8 + 6 * ?k) div 8) = (nbits + 6 * Suc ?k) div 8"
        by simp_all
      then show ?thesis using Cons.IH Some True by (simp add: base64_char_value Let_def)
    next
      case False
      then show ?thesis using Cons.IH Some by (simp add: base64_char_value Let_def)
    qed
  qed
qed

lemma inner_split:
  assumes "22 \<le> length pw"
  shows "\<exists>tl. pw = Base64UrlInner pw @ tl \<and> set tl \<subseteq> {CHR ''=''} \<and> 20 \<le> length (Base64UrlInner pw)"
proof -
  define r where "r = length pw - 2"
  then have r: "length pw = Suc (Suc r)" using assms by simp
  have l1: "pw = take (Suc r) pw @ [pw ! Suc r]" using r by (simp add: take_Suc_conv_app_nth [symmetric])
  have l2: "take (Suc r) pw = take r pw @ [pw ! r]" using r by (simp add: take_Suc_conv_app_nth)
  show ?thesis
  proof (cases "pw ! Suc r = CHR ''=''")
    case False
    then show ?thesis using assms r by (intro exI [of _ "[]"]) (simp add: Base64UrlInner_def)
  next
    case one: True
    show ?thesis
    proof (cases "pw ! r = CHR ''=''")
      case True
      then have "Base64UrlInner pw = take r pw" using one r by (simp add: Base64UrlInner_def)
      then show ?thesis using l1 l2 one True assms r by (intro exI [of _ "[CHR ''='', CHR ''='']"]) simp
    next
      case False
      then have "Base64UrlInner pw = take (Suc r) pw" using one r by (simp add: Base64UrlInner_def)
      then show ?thesis using l1 one assms r by (intro exI [of _ "[CHR ''='']"]) simp
    qed
  qed
qed

lemma base64_secret_length:
  assumes "22 \<le> length pw" "list_all base64_char (Base64UrlInner pw)"
  shows "length (SecretFromBase64UrlMtprotoPassword pw) = (length (Base64UrlInner pw) * 3) div 4"
proof -
  obtain tl where tl: "pw = Base64UrlInner pw @ tl" "set tl \<subseteq> {CHR ''=''}" using inner_split [OF assms(1)] by blast
  have "\<not> base64_char CHR ''=''" by (simp add: base64_char_def between_def)
  then have "filter base64_char tl = []" using tl(2) by (auto simp: filter_empty_conv)
  moreover have "filter base64_char (Base64UrlInner pw) = Base64UrlInner pw"
    using assms(2) by (simp add: list_all_iff)
  ultimately have "filter base64_char pw = Base64UrlInner pw"
    by (subst tl(1)) simp
  then show ?thesis by (simp add: SecretFromBase64UrlMtprotoPassword_def base64_length)
qed

lemma sextets:
  fixes x y q r :: nat
  assumes "y < 64" "r < 4"
  shows "(x * 64 + y) div 16 = q * 4 + r \<longleftrightarrow> x = q \<and> 16 * r \<le> y \<and> y < 16 * r + 16"
proof
  assume "(x * 64 + y) div 16 = q * 4 + r"
  then have b: "16 * (q * 4 + r) \<le> x * 64 + y" "x * 64 + y < 16 * (q * 4 + r) + 16" by auto
  then have "64 * q < 64 * (x + 1)" "64 * x < 64 * (q + 1)" using assms by simp_all
  then have "x = q" by simp
  then show "x = q \<and> 16 * r \<le> y \<and> y < 16 * r + 16" using b by simp
qed auto

lemma base64_first_byte:
  assumes "pw = a # b # rest" "base64_char a" "base64_char b"
  shows "SecretFromBase64UrlMtprotoPassword pw ! 0 = 0xDD
      \<longleftrightarrow> a = CHR ''3'' \<and> (between CHR ''Q'' CHR ''Z'' b \<or> between CHR ''a'' CHR ''f'' b)"
    and "SecretFromBase64UrlMtprotoPassword pw ! 0 = 0xEE \<longleftrightarrow> a = CHR ''7'' \<and> between CHR ''g'' CHR ''v'' b"
proof -
  obtain x y where xy: "base64_value a = Some x" "base64_value b = Some y"
    using assms(2,3) by (auto simp: base64_char_value)
  then have lt: "x < 64" "y < 64" using base64_value_less by auto
  have s: "SecretFromBase64UrlMtprotoPassword pw ! 0 = word_of_nat ((x * 64 + y) div 16)"
    using xy assms(1) by (simp add: SecretFromBase64UrlMtprotoPassword_def Let_def)
  have "SecretFromBase64UrlMtprotoPassword pw ! 0 = word_of_nat v \<longleftrightarrow> (x * 64 + y) div 16 = v" if "v < 256" for v
    using byte_eq [OF _ that, of "(x * 64 + y) div 16"] s lt by simp
  from this [of 221] this [of 238]
  have v: "SecretFromBase64UrlMtprotoPassword pw ! 0 = 0xDD \<longleftrightarrow> x = 55 \<and> 16 \<le> y \<and> y < 32"
    "SecretFromBase64UrlMtprotoPassword pw ! 0 = 0xEE \<longleftrightarrow> x = 59 \<and> 32 \<le> y \<and> y < 48"
    using sextets [OF lt(2), of 1 x 55] sextets [OF lt(2), of 2 x 59] by simp_all
  show "SecretFromBase64UrlMtprotoPassword pw ! 0 = 0xDD
      \<longleftrightarrow> a = CHR ''3'' \<and> (between CHR ''Q'' CHR ''Z'' b \<or> between CHR ''a'' CHR ''f'' b)"
    unfolding v char_code [of a] using xy
    by (auto simp: base64_value_def between_def split: if_splits)
  show "SecretFromBase64UrlMtprotoPassword pw ! 0 = 0xEE \<longleftrightarrow> a = CHR ''7'' \<and> between CHR ''g'' CHR ''v'' b"
    unfolding v char_code [of a] using xy
    by (auto simp: base64_value_def between_def split: if_splits)
qed

lemma base64_status:
  assumes "IsBase64UrlMtprotoPassword pw"
  defines "s \<equiv> SecretFromBase64UrlMtprotoPassword pw"
  shows "s \<noteq> [] \<and> (Base64UrlMtprotoPasswordStatus pw = Valid \<longleftrightarrow> protocol_Create s \<noteq> None)"
proof -
  have pw: "22 \<le> length pw" "list_all base64_char (Base64UrlInner pw)"
    using assms(1) by (auto simp: IsBase64UrlMtprotoPassword_def Let_def split: if_splits)
  obtain tl where tl: "pw = Base64UrlInner pw @ tl" "20 \<le> length (Base64UrlInner pw)"
    using inner_split [OF pw(1)] by blast
  then obtain a b rest where ab: "Base64UrlInner pw = a # b # rest"
    by (cases "Base64UrlInner pw" rule: remdups_adj.cases) auto
  then have p: "pw = a # b # (rest @ tl)" "base64_char a" "base64_char b" using tl(1) pw(2) by auto
  have len: "length s = (length (Base64UrlInner pw) * 3) div 4"
    unfolding s_def by (rule base64_secret_length [OF pw])
  have "s \<noteq> []" using len tl(2) by auto
  moreover have "Base64UrlMtprotoPasswordStatus pw = Valid \<longleftrightarrow> protocol_Create s \<noteq> None"
    using base64_first_byte [OF p] p(1) \<open>s \<noteq> []\<close>
    unfolding protocol_Create_iff Base64UrlMtprotoPasswordStatus_def Let_def len [symmetric] s_def [symmetric]
    by auto
  ultimately show ?thesis by blast
qed

text \<open>
  C18. The validity of an MTProto proxy and the transport agree. For a proxy with a host and a port,
  reading the secret never fails, and the status is \<open>Valid\<close> exactly when the secret the password
  stands for, in either encoding, is nonempty and is one \<open>Protocol::Create\<close> accepts; so connecting
  through a valid proxy never reaches the \<open>Unexpected\<close> there.
\<close>
theorem proxy_secret_accepted:
  assumes "type_of p = Mtproto" "host p \<noteq> ''''" "pd_port p \<noteq> 0"
  shows "\<exists>s. secretFromMtprotoPassword p = Some s
    \<and> (proxy_valid p \<longleftrightarrow> s \<noteq> [] \<and> protocol_Create s \<noteq> None)"
proof -
  have v: "proxy_valid p \<longleftrightarrow> MtprotoPasswordStatus (password p) = Valid"
    using assms by (simp add: proxy_valid_def proxy_status_of_def)
  show ?thesis
    using hex_status [of "password p"] base64_status [of "password p"] assms(1)
    unfolding v MtprotoPasswordStatus_def secretFromMtprotoPassword_def
    by (cases "IsHexMtprotoPassword (password p)"; cases "IsBase64UrlMtprotoPassword (password p)") auto
qed

theorem proxy_secret_accepted_witness:
  "\<exists>s. secretFromMtprotoPassword
      \<lparr>type_of = Mtproto, host = ''h'', pd_port = 443, user = '''', password = replicate 32 CHR ''0'',
       resolvedIPs = [], resolvedExpireAt = 0\<rparr> = Some s \<and> s \<noteq> [] \<and> protocol_Create s \<noteq> None"
proof -
  let ?p = "\<lparr>type_of = Mtproto, host = ''h'', pd_port = 443, user = '''', password = replicate 32 CHR ''0'',
       resolvedIPs = [], resolvedExpireAt = 0\<rparr>"
  have "proxy_valid ?p"
    by (simp add: proxy_valid_def proxy_status_of_def MtprotoPasswordStatus_def IsHexMtprotoPassword_def
        HexMtprotoPasswordStatus_def list_all_iff hex_char_def between_def)
  then show ?thesis using proxy_secret_accepted [of ?p] by auto
qed

end
