(* ===== verification/Domain_Resolver.thy ===== *)
theory Domain_Resolver
  imports Proxy_Data "HOL-Library.Multiset"
begin

text \<open>
  Resolving the domain of a proxy over HTTPS (\<open>mtproto/details/mtproto_domain_resolver.cpp\<close>) and
  what \<open>Instance\<close> (\<open>mtproto/mtp_instance.cpp\<close>) does with the addresses. The clock, the random
  shuffles and the answers are arguments: an answer is the list of entries \<open>ParseDnsResponse\<close>
  returned. Requests in flight are numbered. \<open>None\<close> is \<open>back()\<close> of an empty vector.
\<close>

subsection \<open>Attempts\<close>

datatype attempt_type = Mozilla | Google

record attempt =
  atype :: attempt_type
  adata :: string
  ahost :: string

type_synonym attempt_key = "string \<times> bool"

record cache_entry =
  entry_ips :: "string list"
  expireAt :: int

definition kMinTimeToLive :: int where "kMinTimeToLive = 10 * 1000"
definition kMaxTimeToLive :: int where "kMaxTimeToLive = 300 * 1000"

definition DnsDomains :: "string list" where
  "DnsDomains = [''google.com'', ''www.google.com'', ''google.ru'', ''www.google.ru'']"

text \<open>\<open>domains\<close> is the shuffled copy of \<open>DnsDomains\<close>, taken from its end; \<open>swap\<close> is the other shuffle.\<close>

definition make_attempts :: "string list \<Rightarrow> bool \<Rightarrow> attempt list" where
  "make_attempts domains swap =
     (let dns = (\<lambda>d. \<lparr>atype = Google, adata = d, ahost = ''dns''\<rparr>);
          first = \<lparr>atype = Google, adata = ''dns.google.com'', ahost = ''''\<rparr>;
          second = dns (last domains);
          third = \<lparr>atype = Mozilla, adata = ''mozilla.cloudflare-dns.com'', ahost = ''''\<rparr>
      in rev ((if swap then [second, first] else [first, second]) @ [third]
              @ map dns (rev (butlast domains))))"

subsection \<open>The resolver\<close>

record resolver =
  attempts :: "attempt_key \<rightharpoonup> attempt list"
  requests :: "attempt_key \<rightharpoonup> nat list"
  cache :: "attempt_key \<rightharpoonup> cache_entry"
  lastTimestamp :: int
  next_reply :: nat
  callbacks :: "(string \<times> string list \<times> int) list"

definition new_resolver :: resolver where
  "new_resolver = \<lparr>attempts = Map.empty, requests = Map.empty, cache = Map.empty,
     lastTimestamp = 0, next_reply = 0, callbacks = []\<rparr>"

definition checkExpireAndPushResult :: "string \<Rightarrow> resolver \<Rightarrow> resolver" where
  "checkExpireAndPushResult domain r =
     (case cache r (domain, False) of
        None \<Rightarrow> r
      | Some ipv4 \<Rightarrow>
          (if expireAt ipv4 \<le> lastTimestamp r then r
           else let (ips, till) =
                  (case cache r (domain, True) of
                     Some ipv6 \<Rightarrow>
                       (if expireAt ipv6 > lastTimestamp r
                        then (entry_ips ipv4 @ entry_ips ipv6, min (expireAt ipv4) (expireAt ipv6))
                        else (entry_ips ipv4, expireAt ipv4))
                   | None \<Rightarrow> (entry_ips ipv4, expireAt ipv4))
                in r\<lparr>callbacks := callbacks r @ [(domain, ips, till)]\<rparr>))"

definition performRequest :: "attempt_key \<Rightarrow> attempt \<Rightarrow> resolver \<Rightarrow> resolver" where
  "performRequest key a r =
     r\<lparr>requests := (requests r)(key \<mapsto> (case requests r key of None \<Rightarrow> [] | Some l \<Rightarrow> l) @ [next_reply r]),
       next_reply := next_reply r + 1\<rparr>"

definition sendNextRequest :: "attempt_key \<Rightarrow> resolver \<Rightarrow> resolver option" where
  "sendNextRequest key r =
     (case attempts r key of
        None \<Rightarrow> Some r
      | Some list \<Rightarrow>
          (if list = [] then None
           else Some (performRequest key (last list) (r\<lparr>attempts := (attempts r)(key \<mapsto> butlast list)\<rparr>))))"

definition resolve_key :: "int \<Rightarrow> attempt list \<Rightarrow> attempt_key \<Rightarrow> resolver \<Rightarrow> resolver option" where
  "resolve_key now list key r =
     (if attempts r key \<noteq> None then Some r
      else if requests r key \<noteq> None then Some r
      else let r = r\<lparr>lastTimestamp := now\<rparr>
           in case cache r key of
                Some e \<Rightarrow>
                  (if expireAt e > now then Some (checkExpireAndPushResult (fst key) r)
                   else sendNextRequest key (r\<lparr>attempts := (attempts r)(key \<mapsto> list)\<rparr>))
              | None \<Rightarrow> sendNextRequest key (r\<lparr>attempts := (attempts r)(key \<mapsto> list)\<rparr>))"

definition resolve :: "int \<Rightarrow> attempt list \<Rightarrow> attempt list \<Rightarrow> string \<Rightarrow> resolver \<Rightarrow> resolver option" where
  "resolve now list4 list6 domain r =
     Option.bind (resolve_key now list4 (domain, False) r) (resolve_key now list6 (domain, True))"

definition finalizeRequest :: "attempt_key \<Rightarrow> nat \<Rightarrow> resolver \<Rightarrow> resolver" where
  "finalizeRequest key reply r =
     (case requests r key of
        None \<Rightarrow> r
      | Some l \<Rightarrow>
          (let l = filter (\<lambda>x. x \<noteq> reply) l
           in r\<lparr>requests := (if l = [] then (requests r)(key := None) else (requests r)(key \<mapsto> l))\<rparr>))"

definition entry_ttl :: "(string \<times> int) list \<Rightarrow> int" where
  "entry_ttl response = fold (\<lambda>(d, t) ttl. min ttl (max (t * 1000) kMinTimeToLive)) response kMaxTimeToLive"

definition requestFinished :: "int \<Rightarrow> attempt_key \<Rightarrow> nat \<Rightarrow> (string \<times> int) list \<Rightarrow> resolver \<Rightarrow> resolver" where
  "requestFinished now key reply response r =
     (let r = finalizeRequest key reply r
      in if response = [] then r
         else let entry = \<lparr>entry_ips = map fst response, expireAt = now + entry_ttl response\<rparr>
              in checkExpireAndPushResult (fst key)
                   (r\<lparr>requests := (requests r)(key := None), attempts := (attempts r)(key := None),
                      lastTimestamp := now, cache := (cache r)(key \<mapsto> entry)\<rparr>))"

text \<open>
  Whenever a domain is asked for, an answer comes or the delay of the next attempt passes. The
  delayed call is set only while attempts are left and dies with them.
\<close>

inductive resolver_step :: "resolver \<Rightarrow> resolver \<Rightarrow> bool" where
  ask: "mset d4 = mset DnsDomains \<Longrightarrow> mset d6 = mset DnsDomains
    \<Longrightarrow> resolve now (make_attempts d4 s4) (make_attempts d6 s6) domain r = Some r' \<Longrightarrow> resolver_step r r'"
| next_attempt: "attempts r key = Some list \<Longrightarrow> list \<noteq> [] \<Longrightarrow> sendNextRequest key r = Some r' \<Longrightarrow> resolver_step r r'"
| answer: "requests r key = Some l \<Longrightarrow> reply \<in> set l \<Longrightarrow> resolver_step r (requestFinished now key reply response r)"

subsection \<open>Invariant\<close>

definition resolver_ok :: "resolver \<Rightarrow> bool" where
  "resolver_ok r \<longleftrightarrow> (\<forall>key e. cache r key = Some e \<longrightarrow> entry_ips e \<noteq> [])
     \<and> (\<forall>(d, ips, till) \<in> set (callbacks r). ips \<noteq> [])"

lemma resolver_ok_init: "resolver_ok new_resolver"
  by (simp add: resolver_ok_def new_resolver_def)

lemma entry_ttl_fold:
  "kMinTimeToLive \<le> t0 \<Longrightarrow> kMinTimeToLive \<le> fold (\<lambda>(d, t) ttl. min ttl (max (t * 1000) kMinTimeToLive)) response t0
    \<and> fold (\<lambda>(d, t) ttl. min ttl (max (t * 1000) kMinTimeToLive)) response t0 \<le> t0"
proof (induction response arbitrary: t0)
  case (Cons x xs)
  obtain d t where x: "x = (d, t)" by (cases x)
  let ?t = "min t0 (max (t * 1000) kMinTimeToLive)"
  have "kMinTimeToLive \<le> ?t" "?t \<le> t0" using Cons.prems by auto
  then show ?case using Cons.IH [of ?t] x by auto
qed simp

lemma entry_ttl_bounds: "kMinTimeToLive \<le> entry_ttl response \<and> entry_ttl response \<le> kMaxTimeToLive"
  unfolding entry_ttl_def by (rule entry_ttl_fold) (simp add: kMinTimeToLive_def kMaxTimeToLive_def)

lemma push_fields [simp]:
  "cache (checkExpireAndPushResult d r) = cache r" "attempts (checkExpireAndPushResult d r) = attempts r"
  "requests (checkExpireAndPushResult d r) = requests r"
  by (auto simp: checkExpireAndPushResult_def Let_def split: option.splits)

lemma push_ok:
  assumes "resolver_ok r"
  shows "resolver_ok (checkExpireAndPushResult domain r)"
  using assms unfolding resolver_ok_def checkExpireAndPushResult_def
  by (auto simp: Let_def split: option.splits if_splits)

lemma sendNext_keeps:
  "sendNextRequest key r = Some r' \<Longrightarrow> cache r' = cache r \<and> callbacks r' = callbacks r"
  by (auto simp: sendNextRequest_def performRequest_def split: option.splits if_splits)

lemma resolver_ok_cong: "cache r' = cache r \<Longrightarrow> callbacks r' = callbacks r \<Longrightarrow> resolver_ok r' = resolver_ok r"
  by (simp add: resolver_ok_def)

lemma sendNext_ok: "resolver_ok r \<Longrightarrow> sendNextRequest key r = Some r' \<Longrightarrow> resolver_ok r'"
  using sendNext_keeps resolver_ok_cong by metis

lemma resolve_key_ok:
  assumes "resolver_ok r" "resolve_key now list key r = Some r'"
  shows "resolver_ok r'"
proof -
  have t: "resolver_ok (r\<lparr>lastTimestamp := now\<rparr>)"
    and a: "resolver_ok (r\<lparr>lastTimestamp := now, attempts := m\<rparr>)" for m
    using assms(1) by (simp_all add: resolver_ok_def)
  show ?thesis
    using assms push_ok [OF t] sendNext_ok [OF a] unfolding resolve_key_def Let_def
    by (auto split: if_splits option.splits)
qed

lemma finished_ok:
  assumes "resolver_ok r"
  shows "resolver_ok (requestFinished now key reply response r)"
proof -
  let ?r = "finalizeRequest key reply r"
  have r: "resolver_ok ?r"
    using assms by (simp add: resolver_ok_def finalizeRequest_def Let_def split: option.splits)
  show ?thesis
  proof (cases "response = []")
    case True
    then show ?thesis using r by (simp add: requestFinished_def)
  next
    case False
    then show ?thesis
      using r unfolding requestFinished_def Let_def if_not_P [OF False]
      by (intro push_ok) (auto simp: resolver_ok_def)
  qed
qed

lemma resolver_step_ok: "resolver_step r r' \<Longrightarrow> resolver_ok r \<Longrightarrow> resolver_ok r'"
proof (induction rule: resolver_step.induct)
  case (ask d4 d6 now s4 s6 domain r r')
  then show ?case by (auto simp: resolve_def bind_eq_Some_conv intro: resolve_key_ok)
qed (auto intro: sendNext_ok finished_ok)

lemma resolver_reach_ok: "resolver_step\<^sup>*\<^sup>* new_resolver r \<Longrightarrow> resolver_ok r"
  by (induction rule: rtranclp_induct) (auto intro: resolver_ok_init resolver_step_ok)

text \<open>
  Whatever was asked and answered before and in whatever order, the resolver has never reported
  an empty list of addresses, and asking for a domain again does not fail.
\<close>
theorem resolver_reports_addresses:
  assumes "resolver_step\<^sup>*\<^sup>* new_resolver r"
  shows "(\<forall>(d, ips, till) \<in> set (callbacks r). ips \<noteq> [])
    \<and> resolve now (make_attempts d4 s4) (make_attempts d6 s6) domain r \<noteq> None"
proof -
  have "resolver_ok r" by (rule resolver_reach_ok [OF assms])
  moreover have "resolve_key now (make_attempts d s) key r \<noteq> None" for d s key r
    by (auto simp: resolve_key_def Let_def sendNextRequest_def make_attempts_def split: option.splits)
  then have "resolve now (make_attempts d4 s4) (make_attempts d6 s6) domain r \<noteq> None"
    unfolding resolve_def by (metis (no_types, lifting) bind_eq_None_conv option.exhaust_sel)
  ultimately show ?thesis by (simp add: resolver_ok_def)
qed

theorem resolver_reports_addresses_witness:
  "resolve 0 (make_attempts DnsDomains False) (make_attempts DnsDomains True) ''h'' new_resolver \<noteq> None"
  using resolver_reports_addresses [of new_resolver 0 DnsDomains False DnsDomains True "''h''"] by blast

text \<open>
  An answer with entries is cached under its key with all its addresses, for at least ten
  seconds and at most five minutes, whatever times to live it names, and settles the key's
  requests and attempts.
\<close>
theorem dns_entry_bounds:
  assumes "response \<noteq> []"
  shows "\<exists>e. cache (requestFinished now key reply response r) key = Some e \<and> entry_ips e = map fst response
    \<and> now + 10000 \<le> expireAt e \<and> expireAt e \<le> now + 300000
    \<and> attempts (requestFinished now key reply response r) key = None
    \<and> requests (requestFinished now key reply response r) key = None"
  using entry_ttl_bounds [of response] assms
  by (simp add: requestFinished_def Let_def kMinTimeToLive_def kMaxTimeToLive_def)

theorem dns_entry_bounds_witness:
  "\<exists>e. cache (requestFinished 5 (''h'', False) 0 [(''1.2.3.4'', 1000000)] new_resolver) (''h'', False) = Some e
    \<and> expireAt e \<le> 5 + 300000"
  using dns_entry_bounds [of "[(''1.2.3.4'', 1000000)]" 5 "(''h'', False)" 0 new_resolver] by auto

subsection \<open>When every attempt fails\<close>

definition given_up :: "attempt_key \<Rightarrow> resolver \<Rightarrow> bool" where
  "given_up key r \<longleftrightarrow> attempts r key = Some [] \<and> requests r key = None \<and> cache r key = None"

lemma sendNext_other: "sendNextRequest key r = Some r' \<Longrightarrow> key' \<noteq> key \<Longrightarrow>
    attempts r' key' = attempts r key' \<and> requests r' key' = requests r key' \<and> cache r' key' = cache r key'"
  by (auto simp: sendNextRequest_def performRequest_def split: option.splits if_splits)

lemma resolve_key_given_up:
  assumes "given_up key r" "resolve_key now list key' r = Some r'"
  shows "given_up key r'"
proof (cases "key' = key")
  case True
  then show ?thesis using assms by (auto simp: given_up_def resolve_key_def)
next
  case False
  then show ?thesis
    using assms unfolding given_up_def resolve_key_def Let_def
    by (auto split: if_splits option.splits dest!: sendNext_other [where key' = key])
qed

lemma finished_given_up:
  assumes "given_up key r" "requests r key' = Some l"
  shows "given_up key (requestFinished now key' reply response r)"
  using assms
  by (auto simp: given_up_def requestFinished_def finalizeRequest_def Let_def split: option.splits if_splits)

lemma given_up_step: "resolver_step r r' \<Longrightarrow> given_up key r \<Longrightarrow> given_up key r'"
proof (induction rule: resolver_step.induct)
  case (ask d4 d6 now s4 s6 domain r r')
  then show ?case by (auto simp: resolve_def bind_eq_Some_conv intro: resolve_key_given_up)
next
  case (next_attempt r key' list r')
  then have "key' \<noteq> key" by (auto simp: given_up_def)
  then show ?case using next_attempt sendNext_other [of key' r r' key] by (auto simp: given_up_def)
next
  case (answer r key' l reply now response)
  then show ?case using finished_given_up by blast
qed

text \<open>One attempt that fails and the next one.\<close>

lemma fail_step:
  assumes "requests r key = Some [x]"
  shows "resolver_step r (requestFinished now key x [] r)"
    "requests (requestFinished now key x [] r) key = None"
    "attempts (requestFinished now key x [] r) = attempts r" "cache (requestFinished now key x [] r) = cache r"
  using resolver_step.answer [OF assms, of x now "[]"] assms
  by (simp_all add: requestFinished_def finalizeRequest_def)

lemma fail_all:
  assumes "attempts r key = Some list" "requests r key = Some [x]" "cache r key = None"
  shows "\<exists>r'. resolver_step\<^sup>*\<^sup>* r r' \<and> given_up key r'"
  using assms
proof (induction "length list" arbitrary: list r x)
  case 0
  let ?r = "requestFinished 0 key x [] r"
  have "resolver_step r ?r" "given_up key ?r"
    using fail_step [OF "0.prems"(2), of 0] "0.hyps" "0.prems" by (simp_all add: given_up_def)
  then show ?case by blast
next
  case (Suc n)
  let ?r = "requestFinished 0 key x [] r"
  note f = fail_step [OF Suc.prems(2), of 0]
  have ne: "list \<noteq> []" using Suc.hyps(2) by auto
  obtain r2 where r2: "sendNextRequest key ?r = Some r2" "attempts r2 key = Some (butlast list)"
      "requests r2 key = Some [next_reply ?r]" "cache r2 key = None"
    using f(2-4) Suc.prems(1,3) ne by (simp add: sendNextRequest_def performRequest_def)
  have "resolver_step ?r r2" using resolver_step.next_attempt [of ?r key list r2] f(3) Suc.prems(1) ne r2(1) by simp
  moreover have "\<exists>r'. resolver_step\<^sup>*\<^sup>* r2 r' \<and> given_up key r'"
    by (rule Suc.hyps(1) [OF _ r2(2-4)]) (use Suc.hyps(2) in simp)
  ultimately show ?case using f(1) by (meson converse_rtranclp_into_rtranclp)
qed

text \<open>
  C31. A defect: the attempts of a key are only dropped by a successful answer. When each of them has
  failed once, an empty list stays behind, and whatever is asked and answered later, the domain is
  never requested again and never resolved.
\<close>
theorem resolver_never_retries:
  "\<exists>r. resolver_step\<^sup>*\<^sup>* new_resolver r
    \<and> (\<forall>r'. resolver_step\<^sup>*\<^sup>* r r' \<longrightarrow>
         requests r' (domain, False) = None \<and> cache r' (domain, False) = None
       \<and> (\<forall>now list. resolve_key now list (domain, False) r' = Some r'))"
proof -
  let ?l = "make_attempts DnsDomains False"
  have l: "?l \<noteq> []" by (simp add: make_attempts_def)
  obtain r1 where r1: "resolve 0 ?l ?l domain new_resolver = Some r1" "attempts r1 (domain, False) = Some (butlast ?l)"
      "requests r1 (domain, False) = Some [0]" "cache r1 (domain, False) = None"
    using l by (auto simp: resolve_def resolve_key_def sendNextRequest_def performRequest_def new_resolver_def Let_def)
  have "resolver_step new_resolver r1" by (rule resolver_step.ask [OF refl refl r1(1)])
  moreover obtain r where r: "resolver_step\<^sup>*\<^sup>* r1 r" "given_up (domain, False) r" using fail_all [OF r1(2-4)] by blast
  ultimately have "resolver_step\<^sup>*\<^sup>* new_resolver r" by (meson converse_rtranclp_into_rtranclp)
  moreover have "given_up (domain, False) r'" if "resolver_step\<^sup>*\<^sup>* r r'" for r'
    using that r(2) by (induction rule: rtranclp_induct) (auto intro: given_up_step)
  then have "\<forall>r'. resolver_step\<^sup>*\<^sup>* r r' \<longrightarrow> requests r' (domain, False) = None \<and> cache r' (domain, False) = None
       \<and> (\<forall>now list. resolve_key now list (domain, False) r' = Some r')"
    by (auto simp: given_up_def resolve_key_def)
  ultimately show ?thesis by blast
qed

theorem resolver_never_retries_witness:
  "\<exists>r. resolver_step\<^sup>*\<^sup>* new_resolver r \<and> requests r (''h'', False) = None \<and> cache r (''h'', False) = None
    \<and> resolve_key 1 [] (''h'', False) r = Some r"
  using resolver_never_retries [of "''h''"] by blast

end
