(* ===== verification/Resolving_Connection.thy ===== *)
theory Resolving_Connection
  imports Domain_Resolver
begin

text \<open>
  What is done with the addresses of a resolved proxy domain: \<open>applyDomainIps\<close> and
  \<open>setGoodProxyDomain\<close> of \<open>Instance\<close> (\<open>mtproto/mtp_instance.cpp\<close>) on one proxy, and
  \<open>ResolvingConnection\<close> (\<open>mtproto/connection_resolving.cpp\<close>), which tries the addresses one after
  another through child connections. Calls on the child, on the timer and on the instance and the
  signals of the connection are recorded in order in \<open>effects\<close>; the child itself is the proxy it
  was made for. \<open>None\<close> is an index out of range or a failed expectation.
\<close>

subsection \<open>The addresses of a proxy\<close>

text \<open>\<open>ranges::remove_if\<close> with the predicate that consumes \<open>copy\<close>.\<close>

fun keep_known :: "string list \<Rightarrow> string list \<Rightarrow> string list \<times> string list" where
  "keep_known copy [] = ([], copy)"
| "keep_known copy (ip # current) =
     (if ip \<notin> set copy then keep_known copy current
      else let (kept, rest) = keep_known (remove1 ip copy) current in (ip # kept, rest))"

definition applyToProxy_ips :: "(string \<Rightarrow> bool) \<Rightarrow> string \<Rightarrow> string list \<Rightarrow> int \<Rightarrow> ProxyData \<Rightarrow> bool \<times> ProxyData" where
  "applyToProxy_ips is_ipv6 h ips till p =
     (if \<not> tryCustomResolve is_ipv6 p \<or> host p \<noteq> h then (False, p)
      else let p = p\<lparr>resolvedExpireAt := till\<rparr>;
               (kept, copy) = keep_known ips (resolvedIPs p)
           in if length kept = length (resolvedIPs p) \<and> copy = [] then (True, p)
              else (True, p\<lparr>resolvedIPs := kept @ copy\<rparr>))"

fun swap_to_front :: "nat \<Rightarrow> 'a list \<Rightarrow> 'a list" where
  "swap_to_front 0 xs = xs"
| "swap_to_front (Suc i) xs = swap_to_front i (xs[i := xs ! Suc i, Suc i := xs ! i])"

fun index_in :: "'a \<Rightarrow> 'a list \<Rightarrow> nat" where
  "index_in x [] = 0"
| "index_in x (y # ys) = (if y = x then 0 else Suc (index_in x ys))"

definition applyToProxy_good :: "(string \<Rightarrow> bool) \<Rightarrow> string \<Rightarrow> string \<Rightarrow> ProxyData \<Rightarrow> bool \<times> ProxyData" where
  "applyToProxy_good is_ipv6 h ip p =
     (if \<not> tryCustomResolve is_ipv6 p \<or> host p \<noteq> h then (False, p)
      else let i = index_in ip (resolvedIPs p)
           in if i = length (resolvedIPs p) \<or> i = 0 then (False, p)
              else (True, p\<lparr>resolvedIPs := swap_to_front i (resolvedIPs p)\<rparr>))"

lemma keep_known_mset:
  "keep_known copy current = (kept, rest) \<Longrightarrow> mset kept + mset rest = mset copy"
proof (induction current arbitrary: copy kept rest)
  case (Cons ip current)
  show ?case
  proof (cases "ip \<in> set copy")
    case False
    then show ?thesis using Cons by simp
  next
    case True
    then obtain k where k: "keep_known (remove1 ip copy) current = (k, rest)" "kept = ip # k"
      using Cons.prems by (auto simp: Let_def split: prod.splits)
    then show ?thesis using Cons.IH [OF k(1)] True by simp
  qed
qed simp

lemma keep_known_all: "keep_known copy current = (kept, rest) \<Longrightarrow> length kept \<le> length current
    \<and> (length kept = length current \<longrightarrow> kept = current)"
proof (induction current arbitrary: copy kept rest)
  case (Cons ip current)
  then show ?case by (fastforce simp: Let_def split: if_splits prod.splits)
qed simp

lemma swap_to_front_eq:
  "i < length xs \<Longrightarrow> swap_to_front i xs = xs ! i # take i xs @ drop (Suc i) xs"
proof (induction i arbitrary: xs)
  case 0
  then show ?case by (simp add: Cons_nth_drop_Suc)
next
  case (Suc i)
  let ?ys = "xs[i := xs ! Suc i, Suc i := xs ! i]"
  have "take i ?ys = take i xs" "drop (Suc (Suc i)) ?ys = drop (Suc (Suc i)) xs" by simp_all
  moreover have "?ys ! i = xs ! Suc i" "drop (Suc i) ?ys = xs ! i # drop (Suc (Suc i)) xs"
    using Suc.prems by (simp_all add: Cons_nth_drop_Suc [symmetric])
  ultimately show ?case using Suc.IH [of ?ys] Suc.prems by (simp add: take_Suc_conv_app_nth)
qed

lemma index_in_split:
  "x \<in> set xs \<Longrightarrow> index_in x xs < length xs \<and> xs ! index_in x xs = x
    \<and> take (index_in x xs) xs @ drop (Suc (index_in x xs)) xs = remove1 x xs"
  "x \<notin> set xs \<Longrightarrow> index_in x xs = length xs"
  by (induction xs) auto

text \<open>
  The two updates of a proxy's addresses. When the answer is for this proxy, its addresses
  become exactly the ones of the answer, each as often as there, the ones it had before staying in
  front in their order; marking an address as good moves its first occurrence to the front and
  keeps the others in order; and neither touches another host, nor type, port or password.
\<close>
theorem proxy_addresses:
  fixes p :: ProxyData
  assumes "tryCustomResolve is_ipv6 p" "host p = h"
  shows "(\<exists>new. applyToProxy_ips is_ipv6 h ips till p
        = (True, p\<lparr>resolvedExpireAt := till, resolvedIPs := fst (keep_known ips (resolvedIPs p)) @ new\<rparr>)
      \<and> mset (fst (keep_known ips (resolvedIPs p)) @ new) = mset ips)
    \<and> (ip \<in> set (resolvedIPs p) \<longrightarrow>
        snd (applyToProxy_good is_ipv6 h ip p) = p\<lparr>resolvedIPs := ip # remove1 ip (resolvedIPs p)\<rparr>)
    \<and> (h' \<noteq> h \<longrightarrow> applyToProxy_ips is_ipv6 h' ips till p = (False, p)
        \<and> applyToProxy_good is_ipv6 h' ip p = (False, p))"
proof -
  obtain kept copy where k: "keep_known ips (resolvedIPs p) = (kept, copy)" by (cases "keep_known ips (resolvedIPs p)")
  note m = keep_known_mset [OF k] and a = keep_known_all [OF k]
  have ips: "applyToProxy_ips is_ipv6 h ips till p = (True, p\<lparr>resolvedExpireAt := till, resolvedIPs := kept @ copy\<rparr>)"
    using assms k a by (auto simp: applyToProxy_ips_def Let_def)
  have good: "snd (applyToProxy_good is_ipv6 h ip p) = p\<lparr>resolvedIPs := ip # remove1 ip (resolvedIPs p)\<rparr>"
    if "ip \<in> set (resolvedIPs p)"
  proof (cases "index_in ip (resolvedIPs p)")
    case 0
    then have "ip # remove1 ip (resolvedIPs p) = resolvedIPs p"
      using that index_in_split(1) [OF that] by (cases "resolvedIPs p") auto
    then show ?thesis using assms 0 by (simp add: applyToProxy_good_def)
  next
    case (Suc i)
    then show ?thesis
      using assms index_in_split(1) [OF that] by (simp add: applyToProxy_good_def Let_def swap_to_front_eq del: swap_to_front.simps)
  qed
  show ?thesis
    using ips m good k assms by (auto simp: applyToProxy_ips_def applyToProxy_good_def)
qed

theorem proxy_addresses_witness:
  "mset (resolvedIPs (snd (applyToProxy_ips (\<lambda>_. False) ''h'' [''b'', ''a''] 9
      \<lparr>type_of = Socks5, host = ''h'', pd_port = 1, user = '''', password = '''', resolvedIPs = [''a'', ''c''], resolvedExpireAt = 0\<rparr>)))
    = mset [''b'', ''a'']"
proof -
  let ?p = "\<lparr>type_of = Socks5, host = ''h'', pd_port = 1, user = '''', password = '''', resolvedIPs = [''a'', ''c''], resolvedExpireAt = 0\<rparr>"
  have "tryCustomResolve (\<lambda>_. False) ?p" by (simp add: tryCustomResolve_def between_def)
  then show ?thesis using proxy_addresses [of "\<lambda>_. False" ?p "''h''" "[''b'', ''a'']" 9 "''a''" "''g''"] by auto
qed

subsection \<open>The connection\<close>

datatype effect =
    ChildConnect string int "byte list" int bool
  | ChildDisconnect
  | TimerStart int
  | TimerCancel
  | AskResolve string
  | SetGood string string
  | SignalError int
  | SignalConnected
  | SignalDisconnected

record resolving =
  rc_proxy :: ProxyData
  child :: "ProxyData option"
  rc_connected :: bool
  ipIndex :: int
  rc_address :: string
  rc_port :: int
  rc_protocolSecret :: "byte list"
  rc_protocolDcId :: int
  rc_protocolForFiles :: bool
  effects :: "effect list"

definition kOneConnectionTimeout :: int where "kOneConnectionTimeout = 4000"
definition rc_kErrorCodeOther :: int where "rc_kErrorCodeOther = -499"

definition emit :: "effect list \<Rightarrow> resolving \<Rightarrow> resolving" where
  "emit es s = s\<lparr>effects := effects s @ es\<rparr>"

text \<open>Replacing the child disconnects the old one.\<close>

definition setChild :: "ProxyData \<Rightarrow> resolving \<Rightarrow> resolving" where
  "setChild c s =
     (let s = (emit (if child s = None then [] else [ChildDisconnect]) s)\<lparr>child := Some c\<rparr>
      in if rc_protocolDcId s \<noteq> 0
         then emit [ChildConnect (rc_address s) (rc_port s) (rc_protocolSecret s) (rc_protocolDcId s) (rc_protocolForFiles s)] s
         else s)"

definition refreshChild :: "(string \<Rightarrow> bool) \<Rightarrow> resolving \<Rightarrow> bool \<times> resolving" where
  "refreshChild is_ipv6 s =
     (if child s = None then (True, s)
      else let s = s\<lparr>ipIndex := ipIndex s + 1\<rparr>
           in if ipIndex s \<ge> int (length (resolvedIPs (rc_proxy s))) then (False, s)
              else (True, emit [TimerStart kOneConnectionTimeout]
                      (setChild (ToDirectIpProxy is_ipv6 (rc_proxy s) (ipIndex s)) s)))"

definition emitError :: "int \<Rightarrow> resolving \<Rightarrow> resolving" where
  "emitError errorCode s =
     emit ((if child s = None then [] else [ChildDisconnect]) @ [SignalError errorCode])
       (s\<lparr>ipIndex := -1, child := None\<rparr>)"

definition new_resolving :: "(string \<Rightarrow> bool) \<Rightarrow> int \<Rightarrow> ProxyData \<Rightarrow> resolving" where
  "new_resolving is_ipv6 now p =
     (let s = setChild p \<lparr>rc_proxy = p, child = None, rc_connected = False, ipIndex = -1, rc_address = '''',
                rc_port = 0, rc_protocolSecret = [], rc_protocolDcId = 0, rc_protocolForFiles = False, effects = []\<rparr>;
          s = (if resolvedExpireAt p < now then emit [AskResolve (host p)] s else s)
      in if resolvedIPs p \<noteq> [] then snd (refreshChild is_ipv6 s) else s)"

text \<open>The loop over the addresses, from \<open>index\<close> on.\<close>

fun domain_loop :: "(string \<Rightarrow> bool) \<Rightarrow> int \<Rightarrow> string list \<Rightarrow> resolving \<Rightarrow> resolving" where
  "domain_loop is_ipv6 index [] s = s"
| "domain_loop is_ipv6 index (ip # ips) s =
     (let cur = resolvedIPs (rc_proxy s);
          s = (if index \<ge> int (length cur)
               then s\<lparr>rc_proxy := (rc_proxy s)\<lparr>resolvedIPs := cur @ [ip]\<rparr>\<rparr>
               else if cur ! nat index \<noteq> ip
               then let s = s\<lparr>rc_proxy := (rc_proxy s)\<lparr>resolvedIPs := cur[nat index := ip]\<rparr>\<rparr>
                    in if ipIndex s \<ge> index then snd (refreshChild is_ipv6 (s\<lparr>ipIndex := index - 1\<rparr>)) else s
               else s)
      in domain_loop is_ipv6 (index + 1) ips s)"

definition domainResolved :: "(string \<Rightarrow> bool) \<Rightarrow> string \<Rightarrow> string list \<Rightarrow> int \<Rightarrow> resolving \<Rightarrow> resolving" where
  "domainResolved is_ipv6 h ips till s =
     (if h \<noteq> host (rc_proxy s) \<or> child s = None then s
      else let s = domain_loop is_ipv6 0 ips (s\<lparr>rc_proxy := (rc_proxy s)\<lparr>resolvedExpireAt := till\<rparr>\<rparr>);
               index = int (length ips);
               s = (if index < int (length (resolvedIPs (rc_proxy s)))
                    then let s = s\<lparr>rc_proxy := (rc_proxy s)\<lparr>resolvedIPs := take (length ips) (resolvedIPs (rc_proxy s))\<rparr>\<rparr>
                         in if ipIndex s \<ge> index then emitError rc_kErrorCodeOther s else s
                    else s)
           in if ipIndex s < 0 then snd (refreshChild is_ipv6 s) else s)"

definition handleError :: "(string \<Rightarrow> bool) \<Rightarrow> int \<Rightarrow> resolving \<Rightarrow> resolving" where
  "handleError is_ipv6 errorCode s =
     (if rc_connected s then emitError errorCode s
      else if resolvedIPs (rc_proxy s) \<noteq> []
      then let (ok, s) = refreshChild is_ipv6 s in if ok then s else emitError errorCode s
      else s)"

definition handleDisconnected :: "(string \<Rightarrow> bool) \<Rightarrow> resolving \<Rightarrow> resolving" where
  "handleDisconnected is_ipv6 s =
     (if rc_connected s then emit [SignalDisconnected] s else handleError is_ipv6 rc_kErrorCodeOther s)"

definition handleConnected :: "resolving \<Rightarrow> resolving option" where
  "handleConnected s =
     (let s = emit [TimerCancel] (s\<lparr>rc_connected := True\<rparr>); ips = resolvedIPs (rc_proxy s)
      in if ipIndex s \<ge> 0
         then (if ipIndex s \<ge> int (length ips) then None
               else Some (emit [SetGood (host (rc_proxy s)) (ips ! nat (ipIndex s)), SignalConnected] s))
         else Some (emit [SignalConnected] s))"

definition fullConnectTimeout :: "resolving \<Rightarrow> int" where
  "fullConnectTimeout s = kOneConnectionTimeout * max (int (length (resolvedIPs (rc_proxy s)))) 1"

definition rc_disconnectFromServer :: "resolving \<Rightarrow> resolving" where
  "rc_disconnectFromServer s =
     (let s = s\<lparr>rc_address := '''', rc_port := 0, rc_protocolSecret := [], rc_protocolDcId := 0\<rparr>
      in if child s = None then s else emit [ChildDisconnect] s)"

text \<open>Without a child the error is only queued: \<open>queued_error\<close> is the queued call.\<close>

definition rc_connectToServer :: "string \<Rightarrow> int \<Rightarrow> byte list \<Rightarrow> int \<Rightarrow> bool \<Rightarrow> resolving \<Rightarrow> resolving" where
  "rc_connectToServer addr prt secret dcId forFiles s =
     (if child s = None then s
      else emit [ChildConnect addr prt secret dcId forFiles]
             (s\<lparr>rc_address := addr, rc_port := prt, rc_protocolSecret := secret,
                rc_protocolDcId := dcId, rc_protocolForFiles := forFiles\<rparr>))"

definition queued_error :: "resolving \<Rightarrow> resolving" where
  "queued_error s = emitError rc_kErrorCodeOther s"

subsection \<open>The index stays in range\<close>

definition rc_inv :: "resolving \<Rightarrow> bool" where
  "rc_inv s \<longleftrightarrow> -1 \<le> ipIndex s \<and> ipIndex s < int (length (resolvedIPs (rc_proxy s)))"

lemma emit_fields [simp]:
  "rc_proxy (emit es s) = rc_proxy s" "child (emit es s) = child s" "ipIndex (emit es s) = ipIndex s"
  "rc_connected (emit es s) = rc_connected s" "effects (emit es s) = effects s @ es"
  "rc_protocolDcId (emit es s) = rc_protocolDcId s"
  by (simp_all add: emit_def)

lemma setChild_fields [simp]:
  "rc_proxy (setChild c s) = rc_proxy s" "child (setChild c s) = Some c" "ipIndex (setChild c s) = ipIndex s"
  "rc_connected (setChild c s) = rc_connected s"
  by (simp_all add: setChild_def Let_def)

lemma refreshChild_alive:
  assumes "child s \<noteq> None" "ipIndex s + 1 < int (length (resolvedIPs (rc_proxy s)))"
  shows "fst (refreshChild is_ipv6 s)"
    "child (snd (refreshChild is_ipv6 s)) = Some (ToDirectIpProxy is_ipv6 (rc_proxy s) (ipIndex s + 1))"
    "ipIndex (snd (refreshChild is_ipv6 s)) = ipIndex s + 1"
    "rc_proxy (snd (refreshChild is_ipv6 s)) = rc_proxy s"
    "rc_connected (snd (refreshChild is_ipv6 s)) = rc_connected s"
  using assms by (simp_all add: refreshChild_def Let_def)

lemma refreshChild_dead: "child s = None \<Longrightarrow> refreshChild is_ipv6 s = (True, s)"
  by (simp add: refreshChild_def)

lemma refreshChild_inv: "rc_inv s \<Longrightarrow> fst (refreshChild is_ipv6 s) \<Longrightarrow> rc_inv (snd (refreshChild is_ipv6 s))"
  by (auto simp: refreshChild_def Let_def rc_inv_def split: if_splits)

lemma emitError_inv: "rc_inv (emitError e s)"
  by (simp add: emitError_def rc_inv_def)

lemma domain_loop_inv:
  assumes "rc_inv s" "child s \<noteq> None" "0 \<le> index" "index \<le> int (length (resolvedIPs (rc_proxy s)))"
  shows "rc_inv (domain_loop is_ipv6 index ips s)
    \<and> index + int (length ips) \<le> int (length (resolvedIPs (rc_proxy (domain_loop is_ipv6 index ips s))))"
  using assms
proof (induction ips arbitrary: s index)
  case (Cons ip ips)
  let ?cur = "resolvedIPs (rc_proxy s)"
  define t where "t = (if index \<ge> int (length ?cur)
      then s\<lparr>rc_proxy := (rc_proxy s)\<lparr>resolvedIPs := ?cur @ [ip]\<rparr>\<rparr>
      else if ?cur ! nat index \<noteq> ip
      then let s = s\<lparr>rc_proxy := (rc_proxy s)\<lparr>resolvedIPs := ?cur[nat index := ip]\<rparr>\<rparr>
           in if ipIndex s \<ge> index then snd (refreshChild is_ipv6 (s\<lparr>ipIndex := index - 1\<rparr>)) else s
      else s)"
  have loop: "domain_loop is_ipv6 index (ip # ips) s = domain_loop is_ipv6 (index + 1) ips t"
    unfolding t_def by (simp only: domain_loop.simps Let_def)
  have "rc_inv t \<and> child t \<noteq> None \<and> index + 1 \<le> int (length (resolvedIPs (rc_proxy t)))"
    using Cons.prems unfolding t_def Let_def rc_inv_def
    by (auto simp: refreshChild_alive)
  then show ?case using Cons.IH [of t "index + 1"] Cons.prems(3) unfolding loop by simp
qed simp

text \<open>What the connection is when the addresses are in place, before the next one is tried.\<close>

lemma domainResolved_placed:
  assumes "rc_inv s" "ips \<noteq> []" "h = host (rc_proxy s)" "child s \<noteq> None"
  obtains u where "rc_inv u" "resolvedIPs (rc_proxy u) \<noteq> []"
    "domainResolved is_ipv6 h ips till s = (if ipIndex u < 0 then snd (refreshChild is_ipv6 u) else u)"
proof -
  have here: "\<not> (h \<noteq> host (rc_proxy s) \<or> child s = None)" using assms(3,4) by simp
  define t where "t = domain_loop is_ipv6 0 ips (s\<lparr>rc_proxy := (rc_proxy s)\<lparr>resolvedExpireAt := till\<rparr>\<rparr>)"
  have t: "rc_inv t" "int (length ips) \<le> int (length (resolvedIPs (rc_proxy t)))"
    using domain_loop_inv [of "s\<lparr>rc_proxy := (rc_proxy s)\<lparr>resolvedExpireAt := till\<rparr>\<rparr>" 0 is_ipv6 ips] assms
    unfolding t_def by (auto simp: rc_inv_def)
  define u where "u = (if int (length ips) < int (length (resolvedIPs (rc_proxy t)))
      then let s = t\<lparr>rc_proxy := (rc_proxy t)\<lparr>resolvedIPs := take (length ips) (resolvedIPs (rc_proxy t))\<rparr>\<rparr>
           in if ipIndex s \<ge> int (length ips) then emitError rc_kErrorCodeOther s else s
      else t)"
  have u: "rc_inv u" "resolvedIPs (rc_proxy u) \<noteq> []"
    using t assms(2) unfolding u_def Let_def by (auto simp: rc_inv_def emitError_def)
  have "domainResolved is_ipv6 h ips till s = (if ipIndex u < 0 then snd (refreshChild is_ipv6 u) else u)"
    by (simp only: domainResolved_def if_not_P [OF here] u_def t_def Let_def)
  then show thesis using that u by blast
qed

lemma next_address:
  assumes "rc_inv u" "resolvedIPs (rc_proxy u) \<noteq> []" "ipIndex u < 0"
  shows "rc_inv (snd (refreshChild is_ipv6 u))"
    "child u \<noteq> None \<Longrightarrow> ipIndex (snd (refreshChild is_ipv6 u)) = 0"
proof -
  have "ipIndex u = -1" "0 < length (resolvedIPs (rc_proxy u))" using assms by (auto simp: rc_inv_def)
  then show "rc_inv (snd (refreshChild is_ipv6 u))"
    "child u \<noteq> None \<Longrightarrow> ipIndex (snd (refreshChild is_ipv6 u)) = 0"
    using assms(1) refreshChild_alive [of u is_ipv6]
    by (cases "child u = None"; simp add: refreshChild_dead rc_inv_def)+
qed

lemma domainResolved_inv:
  assumes "rc_inv s" "ips \<noteq> []"
  shows "rc_inv (domainResolved is_ipv6 h ips till s)"
proof (cases "h = host (rc_proxy s) \<and> child s \<noteq> None")
  case True
  then show ?thesis
    using assms by (auto elim!: domainResolved_placed [of s ips h is_ipv6 till] simp: next_address)
next
  case False
  then show ?thesis using assms(1) by (auto simp: domainResolved_def)
qed

lemma domainResolved_index:
  assumes "rc_inv s" "ips \<noteq> []" "h = host (rc_proxy s)" "child s \<noteq> None"
    and "child (domainResolved is_ipv6 h ips till s) \<noteq> None"
  shows "0 \<le> ipIndex (domainResolved is_ipv6 h ips till s)"
proof -
  obtain u where u: "rc_inv u" "resolvedIPs (rc_proxy u) \<noteq> []"
    and r: "domainResolved is_ipv6 h ips till s = (if ipIndex u < 0 then snd (refreshChild is_ipv6 u) else u)"
    using domainResolved_placed [OF assms(1-4)] by blast
  have "child u \<noteq> None" using assms(5) unfolding r by (cases "child u") (auto simp: refreshChild_dead split: if_splits)
  then show ?thesis unfolding r using next_address(2) [OF u] by simp
qed

lemma handleError_inv: "rc_inv s \<Longrightarrow> rc_inv (handleError is_ipv6 e s)"
  using refreshChild_inv [of s is_ipv6] emitError_inv
  by (auto simp: handleError_def split: prod.splits if_splits)

text \<open>What the connection relies on: whoever reports addresses reports at least one.\<close>

locale address_source =
  fixes reported :: "string \<Rightarrow> string list \<Rightarrow> int \<Rightarrow> bool"
  assumes reported_some: "reported h ips till \<Longrightarrow> ips \<noteq> []"
begin

lemma resolved_inv: "rc_inv s \<Longrightarrow> reported h ips till \<Longrightarrow> rc_inv (domainResolved is_ipv6 h ips till s)"
  using domainResolved_inv reported_some by blast

text \<open>After a report for its host a connection that has a child is trying one of the addresses.\<close>

lemma resolved_index:
  assumes "rc_inv s" "reported h ips till" "h = host (rc_proxy s)" "child s \<noteq> None"
    and "child (domainResolved is_ipv6 h ips till s) \<noteq> None"
  shows "0 \<le> ipIndex (domainResolved is_ipv6 h ips till s)"
  using assms domainResolved_index reported_some by blast

end

interpretation resolver: address_source
  "\<lambda>h ips till. \<exists>r. resolver_step\<^sup>*\<^sup>* new_resolver r \<and> (h, ips, till) \<in> set (callbacks r)"
  using resolver_reach_ok by unfold_locales (fastforce simp: resolver_ok_def)

inductive rc_step :: "(string \<Rightarrow> bool) \<Rightarrow> resolving \<Rightarrow> resolving \<Rightarrow> bool" for is_ipv6 where
  child_error: "child s \<noteq> None \<Longrightarrow> rc_step is_ipv6 s (handleError is_ipv6 e s)"
| child_disconnected: "child s \<noteq> None \<Longrightarrow> rc_step is_ipv6 s (handleDisconnected is_ipv6 s)"
| child_connected: "child s \<noteq> None \<Longrightarrow> handleConnected s = Some s' \<Longrightarrow> rc_step is_ipv6 s s'"
| timeout: "rc_step is_ipv6 s (handleError is_ipv6 rc_kErrorCodeOther s)"
| resolved: "resolver_step\<^sup>*\<^sup>* new_resolver r \<Longrightarrow> (h, ips, till) \<in> set (callbacks r)
    \<Longrightarrow> rc_step is_ipv6 s (domainResolved is_ipv6 h ips till s)"
| connect: "rc_step is_ipv6 s (rc_connectToServer addr prt secret dcId forFiles s)"
| queued: "rc_step is_ipv6 s (queued_error s)"
| stop: "rc_step is_ipv6 s (rc_disconnectFromServer s)"

lemma new_resolving_inv: "rc_inv (new_resolving is_ipv6 now p)"
proof -
  let ?s0 = "\<lparr>rc_proxy = p, child = None, rc_connected = False, ipIndex = -1, rc_address = '''',
      rc_port = 0, rc_protocolSecret = [], rc_protocolDcId = 0, rc_protocolForFiles = False, effects = []\<rparr>"
  define s where "s = (if resolvedExpireAt p < now then emit [AskResolve (host p)] (setChild p ?s0) else setChild p ?s0)"
  have f: "ipIndex s = -1" "rc_proxy s = p" "child s \<noteq> None" by (simp_all add: s_def)
  have "new_resolving is_ipv6 now p = (if resolvedIPs p \<noteq> [] then snd (refreshChild is_ipv6 s) else s)"
    by (simp only: new_resolving_def s_def Let_def)
  then show ?thesis using f by (auto simp: rc_inv_def refreshChild_alive)
qed

lemma rc_step_inv: "rc_step is_ipv6 s s' \<Longrightarrow> rc_inv s \<Longrightarrow> rc_inv s'"
proof (induction rule: rc_step.induct)
  case (child_disconnected s)
  then show ?case using handleError_inv by (auto simp: handleDisconnected_def rc_inv_def)
next
  case (child_connected s s')
  then show ?case by (auto simp: handleConnected_def Let_def rc_inv_def split: if_splits)
next
  case (resolved r h ips till s)
  then show ?case using resolver.resolved_inv by blast
next
  case (connect s addr prt secret dcId forFiles)
  then show ?case by (simp add: rc_connectToServer_def rc_inv_def)
next
  case (stop s)
  then show ?case by (simp add: rc_disconnectFromServer_def rc_inv_def Let_def)
qed (auto simp: queued_error_def intro: handleError_inv emitError_inv)

text \<open>
  C19. In every run of a resolving connection, with errors, timeouts, reconnects and answers of the
  resolver in any order, the index of the current address stays within the addresses, so the
  handler of a connected child never reads outside of them. This rests on the resolver never
  reporting an empty list.
\<close>
theorem resolving_index_safe:
  assumes "(rc_step is_ipv6)\<^sup>*\<^sup>* (new_resolving is_ipv6 now p) s"
  shows "-1 \<le> ipIndex s \<and> ipIndex s < int (length (resolvedIPs (rc_proxy s))) \<and> handleConnected s \<noteq> None"
proof -
  have "rc_inv s"
    using assms by (induction rule: rtranclp_induct) (auto intro: new_resolving_inv rc_step_inv)
  then show ?thesis by (auto simp: rc_inv_def handleConnected_def Let_def)
qed

theorem resolving_index_safe_witness:
  "\<exists>s. (rc_step (\<lambda>_. False))\<^sup>*\<^sup>* (new_resolving (\<lambda>_. False) 5
      \<lparr>type_of = Socks5, host = ''h'', pd_port = 1, user = '''', password = '''', resolvedIPs = [''a''], resolvedExpireAt = 0\<rparr>) s
    \<and> child s = None \<and> handleConnected s \<noteq> None"
proof -
  let ?s = "new_resolving (\<lambda>_. False) 5
      \<lparr>type_of = Socks5, host = ''h'', pd_port = 1, user = '''', password = '''', resolvedIPs = [''a''], resolvedExpireAt = 0\<rparr>"
  have "(rc_step (\<lambda>_. False))\<^sup>*\<^sup>* ?s (queued_error ?s)" by (intro r_into_rtranclp rc_step.queued)
  moreover have "child (queued_error ?s) = None" by (simp add: queued_error_def emitError_def)
  ultimately show ?thesis using resolving_index_safe by blast
qed

subsection \<open>Every address is tried\<close>

text \<open>What may go wrong with the child, and the code it is handled with.\<close>

datatype child_failure = Failed int | Dropped | TimedOut

fun child_fails :: "(string \<Rightarrow> bool) \<Rightarrow> child_failure \<Rightarrow> resolving \<Rightarrow> resolving" where
  "child_fails is_ipv6 (Failed errorCode) s = handleError is_ipv6 errorCode s"
| "child_fails is_ipv6 Dropped s = handleDisconnected is_ipv6 s"
| "child_fails is_ipv6 TimedOut s = handleError is_ipv6 rc_kErrorCodeOther s"

fun failure_code :: "child_failure \<Rightarrow> int" where
  "failure_code (Failed errorCode) = errorCode"
| "failure_code _ = rc_kErrorCodeOther"

text \<open>What is done for the next address.\<close>

definition replacing :: "resolving \<Rightarrow> effect list" where
  "replacing s = ChildDisconnect
     # (if rc_protocolDcId s \<noteq> 0
        then [ChildConnect (rc_address s) (rc_port s) (rc_protocolSecret s) (rc_protocolDcId s) (rc_protocolForFiles s)] else [])
     @ [TimerStart kOneConnectionTimeout]"

lemma child_fails_waiting: "\<not> rc_connected s \<Longrightarrow> child_fails is_ipv6 f s = handleError is_ipv6 (failure_code f) s"
  by (cases f) (simp_all add: handleDisconnected_def)

lemma handleError_next:
  assumes "\<not> rc_connected s" "child s \<noteq> None" "ipIndex s + 1 < int (length (resolvedIPs (rc_proxy s)))" "-1 \<le> ipIndex s"
  shows "handleError is_ipv6 e s = s\<lparr>ipIndex := ipIndex s + 1,
    child := Some (ToDirectIpProxy is_ipv6 (rc_proxy s) (ipIndex s + 1)), effects := effects s @ replacing s\<rparr>"
  using assms by (auto simp: handleError_def refreshChild_def setChild_def replacing_def emit_def Let_def)

lemma handleError_last:
  assumes "\<not> rc_connected s" "child s \<noteq> None" "ipIndex s + 1 = int (length (resolvedIPs (rc_proxy s)))" "0 \<le> ipIndex s"
  shows "handleError is_ipv6 e s = s\<lparr>ipIndex := -1, child := None, effects := effects s @ [ChildDisconnect, SignalError e]\<rparr>"
  using assms by (auto simp: handleError_def refreshChild_def emitError_def emit_def Let_def)

lemma fails_dead: "\<not> rc_connected s \<Longrightarrow> child s = None \<Longrightarrow> fold (child_fails is_ipv6) fs s = s"
proof (induction fs)
  case (Cons f fs)
  have "handleError is_ipv6 (failure_code f) s = s" using Cons.prems by (auto simp: handleError_def refreshChild_def)
  then show ?case using Cons by (simp add: child_fails_waiting)
qed simp

lemma fails_next:
  assumes "\<not> rc_connected s" "child s \<noteq> None" "-1 \<le> ipIndex s"
    "ipIndex s + int (length fs) < int (length (resolvedIPs (rc_proxy s)))"
  shows "fold (child_fails is_ipv6) fs s = s\<lparr>ipIndex := ipIndex s + int (length fs),
    child := (if fs = [] then child s else Some (ToDirectIpProxy is_ipv6 (rc_proxy s) (ipIndex s + int (length fs)))),
    effects := effects s @ concat (replicate (length fs) (replacing s))\<rparr>"
  using assms
proof (induction fs arbitrary: s)
  case (Cons f fs)
  let ?t = "handleError is_ipv6 (failure_code f) s"
  have t: "?t = s\<lparr>ipIndex := ipIndex s + 1, child := Some (ToDirectIpProxy is_ipv6 (rc_proxy s) (ipIndex s + 1)),
      effects := effects s @ replacing s\<rparr>" using Cons.prems by (intro handleError_next) auto
  have r: "replacing ?t = replacing s" by (simp add: t replacing_def)
  have "fold (child_fails is_ipv6) (f # fs) s = fold (child_fails is_ipv6) fs ?t"
    using Cons.prems(1) by (simp add: child_fails_waiting)
  also have "\<dots> = ?t\<lparr>ipIndex := ipIndex ?t + int (length fs),
      child := (if fs = [] then child ?t else Some (ToDirectIpProxy is_ipv6 (rc_proxy ?t) (ipIndex ?t + int (length fs)))),
      effects := effects ?t @ concat (replicate (length fs) (replacing ?t))\<rparr>"
    by (rule Cons.IH) (use Cons.prems in \<open>simp_all add: t\<close>)
  finally show ?case unfolding r by (simp add: t algebra_simps)
qed simp

text \<open>
  C20. While a connection is not connected and its children keep failing, by errors of any code, by
  disconnecting or by running into the timeout, in any mixture, it moves through the remaining
  addresses one by one: after each of the first failures the child is the proxy with the next
  address, and all that was done besides is that for every failure the old child was disconnected,
  the new one connected, if there is something to connect to, and the timer started; nothing is
  signalled. The failure of the last address drops the child and signals one error, with the
  code of that failure, and whatever fails or times out after that changes nothing.
\<close>
theorem resolving_tries_all:
  fixes s :: resolving
  assumes "\<not> rc_connected s" "child s \<noteq> None" "-1 \<le> ipIndex s" "resolvedIPs (rc_proxy s) \<noteq> []"
    and "ipIndex s + int (length fs) + 1 = int (length (resolvedIPs (rc_proxy s)))"
  shows "(\<forall>k. 0 < k \<and> k \<le> length fs
      \<longrightarrow> child (fold (child_fails is_ipv6) (take k fs) s) = Some (ToDirectIpProxy is_ipv6 (rc_proxy s) (ipIndex s + int k))
        \<and> effects (fold (child_fails is_ipv6) (take k fs) s) = effects s @ concat (replicate k (replacing s)))
    \<and> child (fold (child_fails is_ipv6) (fs @ [f]) s) = None
    \<and> effects (fold (child_fails is_ipv6) (fs @ [f]) s)
        = effects s @ concat (replicate (length fs) (replacing s)) @ [ChildDisconnect, SignalError (failure_code f)]
    \<and> fold (child_fails is_ipv6) (fs @ [f] @ gs) s = fold (child_fails is_ipv6) (fs @ [f]) s"
proof -
  have next_k: "child (fold (child_fails is_ipv6) (take k fs) s) = Some (ToDirectIpProxy is_ipv6 (rc_proxy s) (ipIndex s + int k))
      \<and> effects (fold (child_fails is_ipv6) (take k fs) s) = effects s @ concat (replicate k (replacing s))"
    if "0 < k" "k \<le> length fs" for k
    using fails_next [OF assms(1-3), of "take k fs" is_ipv6] assms(5) that by auto
  define t where "t = fold (child_fails is_ipv6) fs s"
  have "0 < length (resolvedIPs (rc_proxy s))" using assms(4) by simp
  then have lt: "0 \<le> ipIndex s + int (length fs)" using assms(5) by linarith
  have t: "t = s\<lparr>ipIndex := ipIndex s + int (length fs),
      child := (if fs = [] then child s else Some (ToDirectIpProxy is_ipv6 (rc_proxy s) (ipIndex s + int (length fs)))),
      effects := effects s @ concat (replicate (length fs) (replacing s))\<rparr>"
    unfolding t_def by (rule fails_next [OF assms(1-3)]) (use assms(5) in simp)
  have l: "handleError is_ipv6 (failure_code f) t
      = t\<lparr>ipIndex := -1, child := None, effects := effects t @ [ChildDisconnect, SignalError (failure_code f)]\<rparr>"
    by (rule handleError_last) (use assms lt in \<open>simp_all add: t\<close>)
  have "\<not> rc_connected t" using assms(1) by (simp add: t)
  then have e: "fold (child_fails is_ipv6) (fs @ [f]) s
      = t\<lparr>ipIndex := -1, child := None, effects := effects t @ [ChildDisconnect, SignalError (failure_code f)]\<rparr>"
    by (simp add: child_fails_waiting l flip: t_def)
  moreover have "fold (child_fails is_ipv6) (fs @ [f] @ gs) s = fold (child_fails is_ipv6) (fs @ [f]) s"
    using fails_dead [of "fold (child_fails is_ipv6) (fs @ [f]) s" is_ipv6 gs] assms(1) e
    by (simp add: t flip: t_def)
  ultimately show ?thesis using next_k by (simp add: t)
qed

theorem resolving_tries_all_witness:
  "effects (fold (child_fails (\<lambda>_. False)) ([TimedOut] @ [Failed 7])
      (new_resolving (\<lambda>_. False) 5 \<lparr>type_of = Socks5, host = ''h'', pd_port = 1, user = '''', password = '''',
        resolvedIPs = [''a'', ''b''], resolvedExpireAt = 9\<rparr>))
    = [ChildDisconnect, TimerStart 4000] @ [ChildDisconnect, TimerStart 4000] @ [ChildDisconnect, SignalError 7]"
proof -
  let ?s = "new_resolving (\<lambda>_. False) 5 \<lparr>type_of = Socks5, host = ''h'', pd_port = 1, user = '''', password = '''',
        resolvedIPs = [''a'', ''b''], resolvedExpireAt = 9\<rparr>"
  have "\<not> rc_connected ?s" "child ?s \<noteq> None" "ipIndex ?s = 0" "resolvedIPs (rc_proxy ?s) = [''a'', ''b'']"
    "effects ?s = [ChildDisconnect, TimerStart 4000]" "replacing ?s = [ChildDisconnect, TimerStart 4000]"
    by (simp_all add: new_resolving_def refreshChild_def setChild_def replacing_def emit_def kOneConnectionTimeout_def Let_def)
  then show ?thesis using resolving_tries_all [of ?s "[TimedOut]" "\<lambda>_. False" "Failed 7" "[]"] by simp
qed

end
