(* ===== verification/Custom_Network.thy ===== *)
theory Custom_Network
  imports Prelude
begin

text \<open>
  The client's own backend layer, its building blocks (\<open>custom_network/\<close>): the session manager
  (\<open>session_manager.cpp\<close>), the REST client (\<open>rest_client.cpp\<close>) and the WebSocket client
  (\<open>websocket_client.cpp\<close>). JSON values are a datatype (no number is interpreted but the expiry of
  a token, so numbers are \<open>int\<close>); writing a document and reading it back is Qt's and gives the
  same value. The session file is the value last written to it. The socket is a state
  (\<open>QWebSocket\<close>); what is sent is recorded.
\<close>

subsection \<open>JSON\<close>

datatype json = JUndefined | JBool bool | JNumber int | JString string | JArray "json list"
  | JObject "(string \<times> json) list"

fun toString :: "json \<Rightarrow> string" where
  "toString (JString s) = s"
| "toString _ = ''''"

fun toBool :: "json \<Rightarrow> bool" where
  "toBool (JBool b) = b"
| "toBool _ = False"

fun toInt :: "json \<Rightarrow> int" where
  "toInt (JNumber n) = n"
| "toInt _ = 0"

fun toArray :: "json \<Rightarrow> json list" where
  "toArray (JArray xs) = xs"
| "toArray _ = []"

fun toObject :: "json \<Rightarrow> (string \<times> json) list" where
  "toObject (JObject kvs) = kvs"
| "toObject _ = []"

definition field :: "json \<Rightarrow> string \<Rightarrow> json" where
  "field j k = (case map_of (toObject j) k of Some v \<Rightarrow> v | None \<Rightarrow> JUndefined)"

text \<open>\<open>toVariant().toLongLong()\<close>: numbers, and strings that hold one; \<open>read_int\<close> parses those.\<close>

fun toLongLong :: "(string \<Rightarrow> int) \<Rightarrow> json \<Rightarrow> int" where
  "toLongLong read_int (JNumber n) = n"
| "toLongLong read_int (JBool b) = (if b then 1 else 0)"
| "toLongLong read_int (JString s) = read_int s"
| "toLongLong read_int _ = 0"

subsection \<open>The session manager\<close>

record session =
  accessToken :: string
  refreshToken :: string
  userId :: string
  refreshTimer :: "int option"

type_synonym storage = "json option"

definition no_session :: session where
  "no_session = \<lparr>accessToken = '''', refreshToken = '''', userId = '''', refreshTimer = None\<rparr>"

text \<open>\<open>writable\<close> tells whether the file could be opened.\<close>

definition saveToStorage :: "bool \<Rightarrow> session \<Rightarrow> storage \<Rightarrow> storage" where
  "saveToStorage writable s st =
     (if writable
      then Some (JObject [(''access_token'', JString (accessToken s)), (''refresh_token'', JString (refreshToken s)),
                          (''user_id'', JString (userId s))])
      else st)"

definition loadFromStorage :: "storage \<Rightarrow> session \<Rightarrow> session" where
  "loadFromStorage st s =
     (case st of
        None \<Rightarrow> s
      | Some j \<Rightarrow>
          (let s = s\<lparr>accessToken := toString (field j ''access_token''),
                     refreshToken := toString (field j ''refresh_token''),
                     userId := toString (field j ''user_id'')\<rparr>
           in if accessToken s \<noteq> '''' then s\<lparr>refreshTimer := Some 60000\<rparr> else s))"

definition new_SessionManager :: "storage \<Rightarrow> session" where
  "new_SessionManager st = loadFromStorage st no_session"

definition setTokens :: "bool \<Rightarrow> string \<Rightarrow> string \<Rightarrow> session \<times> storage \<Rightarrow> session \<times> storage" where
  "setTokens writable access refresh = (\<lambda>(s, st).
     let s = s\<lparr>accessToken := access, refreshToken := refresh\<rparr>;
         st = saveToStorage writable s st
     in (s\<lparr>refreshTimer := Some 60000\<rparr>, st))"

definition setUserId :: "bool \<Rightarrow> string \<Rightarrow> session \<times> storage \<Rightarrow> session \<times> storage" where
  "setUserId writable u = (\<lambda>(s, st). let s = s\<lparr>userId := u\<rparr> in (s, saveToStorage writable s st))"

definition session_clear :: "session \<times> storage \<Rightarrow> session \<times> storage" where
  "session_clear = (\<lambda>(s, st). (s\<lparr>accessToken := '''', refreshToken := '''', userId := '''', refreshTimer := None\<rparr>, None))"

definition isAuthenticated :: "session \<Rightarrow> bool" where
  "isAuthenticated s \<longleftrightarrow> accessToken s \<noteq> ''''"

fun split_on :: "char \<Rightarrow> string \<Rightarrow> string list" where
  "split_on sep [] = [[]]"
| "split_on sep (c # cs) =
     (if c = sep then [] # split_on sep cs
      else case split_on sep cs of [] \<Rightarrow> [[c]] | p # ps \<Rightarrow> (c # p) # ps)"

text \<open>\<open>decode\<close> stands for base64 decoding and parsing of the middle part of a token.\<close>

definition needsRefresh :: "(string \<Rightarrow> json) \<Rightarrow> (string \<Rightarrow> int) \<Rightarrow> int \<Rightarrow> session \<Rightarrow> bool" where
  "needsRefresh decode read_int now s =
     (if accessToken s = '''' then False
      else let parts = split_on CHR ''.'' (accessToken s)
           in if length parts \<noteq> 3 then False
              else toLongLong read_int (field (decode (parts ! 1)) ''exp'') - now < 300)"

definition checkTokenExpiry :: "(string \<Rightarrow> json) \<Rightarrow> (string \<Rightarrow> int) \<Rightarrow> int \<Rightarrow> session \<Rightarrow> bool" where
  "checkTokenExpiry decode read_int now s = needsRefresh decode read_int now s"

subsection \<open>The REST client\<close>

datatype verb = GET | POST | PUT | PATCH | DELETE

datatype body = NoBody | EmptyBody | JsonBody json | FileBody string

record rest =
  baseUrl :: string
  authToken :: string

definition new_rest :: rest where "new_rest = \<lparr>baseUrl = '''', authToken = ''''\<rparr>"

record http =
  h_verb :: verb
  h_url :: string
  h_authorization :: "string option"
  h_body :: body

definition createRequest :: "rest \<Rightarrow> verb \<Rightarrow> string \<Rightarrow> body \<Rightarrow> http" where
  "createRequest r v path b =
     \<lparr>h_verb = v, h_url = baseUrl r @ path,
      h_authorization = (if authToken r \<noteq> '''' then Some (''Bearer '' @ authToken r) else None),
      h_body = b\<rparr>"

datatype net_error = NoError | AuthenticationRequiredError | ContentAccessDenied | OtherError

text \<open>\<open>handleReply\<close>: whether \<open>tokenExpired\<close> is signalled, and the text given to \<open>fail\<close> or \<open>done\<close>.\<close>

datatype outcome = Fail string | Done string

definition handleReply :: "net_error \<Rightarrow> string \<Rightarrow> string \<Rightarrow> bool \<times> outcome" where
  "handleReply err errorString content =
     (if err \<noteq> NoError
      then (err = AuthenticationRequiredError \<or> err = ContentAccessDenied, Fail errorString)
      else (False, Done content))"

definition upload :: "rest \<Rightarrow> (string \<Rightarrow> bool) \<Rightarrow> string \<Rightarrow> string \<Rightarrow> string + http" where
  "upload r can_open path filePath =
     (if \<not> can_open filePath then Inl (''Could not open file: '' @ filePath)
      else Inr (createRequest r POST path (FileBody filePath)))"

subsection \<open>The WebSocket client\<close>

text \<open>\<open>QWebSocket\<close>: closing an open socket is finished by its \<open>disconnected\<close> signal.\<close>

datatype socket = Closed | Opening | Open | Closing

record websocket =
  ws_url :: string
  ws_token :: string
  ws_timer :: "int option"
  reconnectDelay :: int
  ws_socket :: socket
  ws_opened :: "string list"
  ws_sent :: "json list"

definition kMaxReconnectDelay :: int where "kMaxReconnectDelay = 30000"

definition new_websocket :: websocket where
  "new_websocket = \<lparr>ws_url = '''', ws_token = '''', ws_timer = None, reconnectDelay = 1000,
     ws_socket = Closed, ws_opened = [], ws_sent = []\<rparr>"

text \<open>\<open>QString::replace\<close>: every occurrence, from left to right.\<close>

fun replace_all :: "nat \<Rightarrow> string \<Rightarrow> string \<Rightarrow> string \<Rightarrow> string" where
  "replace_all 0 a b s = s"
| "replace_all (Suc n) a b s =
     (case s of
        [] \<Rightarrow> []
      | c # cs \<Rightarrow>
          (if take (length a) s = a then b @ replace_all n a b (drop (length a) s)
           else c # replace_all n a b cs))"

definition setUrl :: "string \<Rightarrow> websocket \<Rightarrow> websocket" where
  "setUrl base w =
     (let url = replace_all (length base) ''http://'' ''ws://'' base;
          url = replace_all (length url) ''https://'' ''wss://'' url
      in w\<lparr>ws_url := url\<rparr>)"

definition ws_connectToServer :: "string \<Rightarrow> websocket \<Rightarrow> websocket" where
  "ws_connectToServer token w =
     w\<lparr>ws_token := token, ws_socket := Opening, ws_opened := ws_opened w @ [ws_url w @ ''/ws?token='' @ token]\<rparr>"

definition ws_disconnect :: "websocket \<Rightarrow> websocket" where
  "ws_disconnect w = w\<lparr>ws_timer := None, ws_socket := (if ws_socket w = Open then Closing else Closed)\<rparr>"

definition ws_isConnected :: "websocket \<Rightarrow> bool" where
  "ws_isConnected w \<longleftrightarrow> ws_socket w = Open"

datatype ws_signal = WsConnected | WsDisconnected | MessageReceived json | TypingReceived string string
  | ReadReceiptReceived string string string | PresenceReceived string string | NotificationReceived json

definition onConnected :: "websocket \<Rightarrow> websocket \<times> ws_signal list" where
  "onConnected w = (w\<lparr>ws_socket := Open, reconnectDelay := 1000\<rparr>, [WsConnected])"

definition onDisconnected :: "websocket \<Rightarrow> websocket \<times> ws_signal list" where
  "onDisconnected w =
     (w\<lparr>ws_socket := Closed, ws_timer := Some (reconnectDelay w),
        reconnectDelay := min (reconnectDelay w * 2) kMaxReconnectDelay\<rparr>, [WsDisconnected])"

definition onReconnectTimeout :: "websocket \<Rightarrow> websocket" where
  "onReconnectTimeout w = (if ws_token w \<noteq> '''' then ws_connectToServer (ws_token w) w else w)"

definition onTextMessageReceived :: "json \<Rightarrow> ws_signal list" where
  "onTextMessageReceived j =
     (let type = toString (field j ''type''); str = (\<lambda>k. toString (field j k))
      in if type = ''message'' then [MessageReceived j]
         else if type = ''typing'' then [TypingReceived (str ''user_id'') (str ''chat_id'')]
         else if type = ''read_receipt'' then [ReadReceiptReceived (str ''user_id'') (str ''chat_id'') (str ''message_id'')]
         else if type = ''presence'' then [PresenceReceived (str ''user_id'') (str ''status'')]
         else if type = ''notification'' then [NotificationReceived (JObject (toObject (field j ''notification'')))]
         else [])"

definition sendJson :: "(string \<times> json) list \<Rightarrow> websocket \<Rightarrow> websocket" where
  "sendJson obj w = (if ws_socket w = Open then w\<lparr>ws_sent := ws_sent w @ [JObject obj]\<rparr> else w)"

definition sendTyping :: "string \<Rightarrow> websocket \<Rightarrow> websocket" where
  "sendTyping chatId = sendJson [(''type'', JString ''typing''), (''chat_id'', JString chatId)]"

definition sendReadReceipt :: "string \<Rightarrow> string \<Rightarrow> websocket \<Rightarrow> websocket" where
  "sendReadReceipt chatId messageId =
     sendJson [(''type'', JString ''read_receipt''), (''chat_id'', JString chatId), (''message_id'', JString messageId)]"

definition sendPresence :: "string \<Rightarrow> websocket \<Rightarrow> websocket" where
  "sendPresence st = sendJson [(''type'', JString ''presence''), (''status'', JString st)]"

definition joinChat :: "string \<Rightarrow> websocket \<Rightarrow> websocket" where
  "joinChat chatId = sendJson [(''type'', JString ''join_chat''), (''chat_id'', JString chatId)]"

definition leaveChat :: "string \<Rightarrow> websocket \<Rightarrow> websocket" where
  "leaveChat chatId = sendJson [(''type'', JString ''leave_chat''), (''chat_id'', JString chatId)]"

subsection \<open>Reconnecting\<close>

text \<open>The timer repeats until it is stopped; a socket that is not closed may be disconnected.\<close>

inductive ws_step :: "websocket \<Rightarrow> websocket \<Rightarrow> bool" where
  connect: "ws_step w (ws_connectToServer token w)"
| disconnect: "ws_step w (ws_disconnect w)"
| url: "ws_step w (setUrl base w)"
| connected: "ws_socket w = Opening \<Longrightarrow> ws_step w (fst (onConnected w))"
| disconnected: "ws_socket w \<noteq> Closed \<Longrightarrow> ws_step w (fst (onDisconnected w))"
| timeout: "ws_timer w \<noteq> None \<Longrightarrow> ws_step w (onReconnectTimeout w)"
| send: "ws_step w (sendJson obj w)"

definition backoff :: "nat \<Rightarrow> int" where
  "backoff n = min (1000 * 2 ^ n) kMaxReconnectDelay"

lemma backoff_next: "min (backoff n * 2) kMaxReconnectDelay = backoff (Suc n)"
  by (auto simp: backoff_def kMaxReconnectDelay_def min_def)

lemma backoff_bounds: "1000 \<le> backoff n \<and> backoff n \<le> 30000"
  using one_le_power [of "2 :: int" n] by (auto simp: backoff_def kMaxReconnectDelay_def)

definition ws_inv :: "websocket \<Rightarrow> bool" where
  "ws_inv w \<longleftrightarrow> (\<exists>n. reconnectDelay w = backoff n) \<and> (\<forall>d. ws_timer w = Some d \<longrightarrow> (\<exists>n. d = backoff n))"

lemma backoff_0: "backoff 0 = 1000"
  by (simp add: backoff_def kMaxReconnectDelay_def)

lemma ws_inv_init: "ws_inv new_websocket"
  using backoff_0 [symmetric] by (auto simp: ws_inv_def new_websocket_def)

lemma ws_inv_step: "ws_step w w' \<Longrightarrow> ws_inv w \<Longrightarrow> ws_inv w'"
proof (induction rule: ws_step.induct)
  case (connected w)
  then show ?case using backoff_0 [symmetric] by (auto simp: ws_inv_def onConnected_def)
next
  case (disconnected w)
  then show ?case using backoff_next by (fastforce simp: ws_inv_def onDisconnected_def)
qed (auto simp: ws_inv_def ws_connectToServer_def ws_disconnect_def setUrl_def Let_def onReconnectTimeout_def sendJson_def)

text \<open>
  C24. Reconnecting backs off exponentially and within bounds. In every run the delay of the next
  reconnect and the running timer lie between one and thirty seconds; and after a connection that
  succeeded, \<open>k\<close> disconnects in a row leave a delay of \<open>2 ^ k\<close> seconds, at most thirty, so the
  doubling never overflows.
\<close>
theorem ws_backoff_bounds:
  assumes "ws_step\<^sup>*\<^sup>* new_websocket w"
  shows "1000 \<le> reconnectDelay w \<and> reconnectDelay w \<le> 30000
    \<and> (\<forall>d. ws_timer w = Some d \<longrightarrow> 1000 \<le> d \<and> d \<le> 30000)
    \<and> reconnectDelay (((\<lambda>v. fst (onDisconnected v)) ^^ k) (fst (onConnected w))) = min (1000 * 2 ^ k) 30000"
proof -
  have "ws_inv w" using assms by (induction rule: rtranclp_induct) (auto intro: ws_inv_init ws_inv_step)
  moreover have "reconnectDelay (((\<lambda>v. fst (onDisconnected v)) ^^ k) (fst (onConnected w))) = backoff k"
    by (induction k) (simp_all add: onConnected_def onDisconnected_def backoff_next backoff_0)
  ultimately show ?thesis
    using backoff_bounds by (auto simp: ws_inv_def) (simp add: backoff_def kMaxReconnectDelay_def)
qed

theorem ws_backoff_bounds_witness:
  "reconnectDelay (((\<lambda>v. fst (onDisconnected v)) ^^ 3) (fst (onConnected new_websocket))) = 8000"
  using ws_backoff_bounds [of new_websocket 3] by simp

text \<open>
  C32. A defect. Closing an open socket stops the timer, but the \<open>disconnected\<close> signal that follows
  starts it again, and its timeout opens the socket anew with the old token. A connection made that
  way does not stop the repeating timer either, so the next timeout opens the socket once more
  while it is connected.
\<close>
theorem ws_disconnect_reconnects:
  assumes "ws_socket w = Open" "ws_token w \<noteq> ''''"
  defines "w2 \<equiv> fst (onDisconnected (ws_disconnect w))"
  shows "ws_timer (ws_disconnect w) = None \<and> ws_step (ws_disconnect w) w2 \<and> ws_timer w2 = Some (reconnectDelay w)
    \<and> ws_step w2 (onReconnectTimeout w2) \<and> ws_socket (onReconnectTimeout w2) = Opening
    \<and> last (ws_opened (onReconnectTimeout w2)) = ws_url w @ ''/ws?token='' @ ws_token w
    \<and> ws_isConnected (fst (onConnected (onReconnectTimeout w2)))
    \<and> ws_step (fst (onConnected (onReconnectTimeout w2))) (onReconnectTimeout (fst (onConnected (onReconnectTimeout w2))))
    \<and> \<not> ws_isConnected (onReconnectTimeout (fst (onConnected (onReconnectTimeout w2))))"
proof -
  have t: "ws_timer w2 = Some (reconnectDelay w)" "ws_token w2 = ws_token w" "ws_url w2 = ws_url w"
    by (simp_all add: w2_def onDisconnected_def ws_disconnect_def)
  have c: "ws_timer (fst (onConnected (onReconnectTimeout w2))) = Some (reconnectDelay w)"
    "ws_token (fst (onConnected (onReconnectTimeout w2))) = ws_token w"
    using t by (simp_all add: onConnected_def onReconnectTimeout_def ws_connectToServer_def)
  have "ws_step (ws_disconnect w) w2"
    unfolding w2_def by (rule ws_step.disconnected) (simp add: ws_disconnect_def assms(1))
  moreover have "ws_step w2 (onReconnectTimeout w2)" by (rule ws_step.timeout) (simp add: t)
  moreover have "ws_step (fst (onConnected (onReconnectTimeout w2))) (onReconnectTimeout (fst (onConnected (onReconnectTimeout w2))))"
    by (rule ws_step.timeout) (simp add: c)
  ultimately show ?thesis
    using assms(2) t c
    by (simp add: ws_disconnect_def onReconnectTimeout_def ws_connectToServer_def onConnected_def ws_isConnected_def)
qed

theorem ws_disconnect_reconnects_witness:
  "ws_socket (onReconnectTimeout (fst (onDisconnected (ws_disconnect (new_websocket\<lparr>ws_socket := Open, ws_token := ''t''\<rparr>)))))
    = Opening"
  using ws_disconnect_reconnects [of "new_websocket\<lparr>ws_socket := Open, ws_token := ''t''\<rparr>"] by simp

end
