(* ===== verification/Custom_Api.thy ===== *)
theory Custom_Api
  imports Custom_Network
begin

text \<open>
  The operations of the client's own backend (\<open>custom_network/custom_api.cpp\<close>), the objects around
  them (\<open>custom_auth.cpp\<close>, \<open>karagram_backend.cpp\<close>, \<open>notification_handler.cpp\<close>, \<open>data_adapter.cpp\<close>)
  and file transfers (\<open>file_transfer.cpp\<close>). A request that was sent waits in \<open>inflight\<close> under the
  name of the callback pair the code registered; a reply runs that pair and gives what the caller's
  \<open>done\<close> or \<open>fail\<close> receives. Parsing of the text of a reply to JSON is Qt's: replies are JSON values.
\<close>

subsection \<open>Data\<close>

record UserProfile =
  up_id :: string
  up_email :: string
  up_username :: string
  up_displayName :: string
  up_avatarUrl :: string
  up_isActive :: bool
  up_createdAt :: string

record ChatInfo =
  ci_id :: string
  ci_title :: string
  ci_description :: string
  ci_chatType :: string
  ci_avatarUrl :: string
  ci_createdBy :: string
  ci_createdAt :: string
  ci_unreadCount :: int

record MessageInfo =
  mi_id :: string
  mi_chatId :: string
  mi_senderId :: string
  mi_content :: string
  mi_messageType :: string
  mi_mediaUrl :: string
  mi_replyToId :: string
  mi_isEdited :: bool
  mi_isDeleted :: bool
  mi_createdAt :: string

definition str :: "json \<Rightarrow> string \<Rightarrow> string" where
  "str j k = toString (field j k)"

definition user_of :: "json \<Rightarrow> UserProfile" where
  "user_of j = \<lparr>up_id = str j ''id'', up_email = str j ''email'', up_username = str j ''username'',
     up_displayName = str j ''display_name'', up_avatarUrl = str j ''avatar_url'',
     up_isActive = toBool (field j ''is_active''), up_createdAt = str j ''created_at''\<rparr>"

text \<open>A single chat is built without its last field, which keeps the default.\<close>

definition chat_of :: "json \<Rightarrow> ChatInfo" where
  "chat_of j = \<lparr>ci_id = str j ''id'', ci_title = str j ''title'', ci_description = str j ''description'',
     ci_chatType = str j ''chat_type'', ci_avatarUrl = str j ''avatar_url'', ci_createdBy = str j ''created_by'',
     ci_createdAt = str j ''created_at'', ci_unreadCount = 0\<rparr>"

definition listed_chat_of :: "json \<Rightarrow> ChatInfo" where
  "listed_chat_of j = (chat_of j)\<lparr>ci_unreadCount := toInt (field j ''unread_count'')\<rparr>"

definition message_of :: "json \<Rightarrow> MessageInfo" where
  "message_of j = \<lparr>mi_id = str j ''id'', mi_chatId = str j ''chat_id'', mi_senderId = str j ''sender_id'',
     mi_content = str j ''content'', mi_messageType = str j ''message_type'', mi_mediaUrl = str j ''media_url'',
     mi_replyToId = str j ''reply_to_id'', mi_isEdited = toBool (field j ''is_edited''),
     mi_isDeleted = toBool (field j ''is_deleted''), mi_createdAt = str j ''created_at''\<rparr>"

subsection \<open>State\<close>

datatype call = CLogin | CLoginMe | CRegister | CRefresh | CLogout | CUser | CChats | CChat
  | CMessages | CMessage | CDelete | CUsers

datatype result = RUser UserProfile | RUsers "UserProfile list" | RChat ChatInfo | RChats "ChatInfo list"
  | RMessage MessageInfo | RMessages "MessageInfo list" | RDone | RFail string

record api =
  a_rest :: rest
  a_ws :: websocket
  a_session :: session
  a_storage :: storage
  backendUrl :: string
  inflight :: "(http \<times> call) list"

definition new_CustomApi :: "storage \<Rightarrow> api" where
  "new_CustomApi st = \<lparr>a_rest = new_rest, a_ws = new_websocket, a_session = new_SessionManager st,
     a_storage = st, backendUrl = '''', inflight = []\<rparr>"

definition request :: "verb \<Rightarrow> string \<Rightarrow> body \<Rightarrow> call \<Rightarrow> api \<Rightarrow> api" where
  "request v path b c a = a\<lparr>inflight := inflight a @ [(createRequest (a_rest a) v path b, c)]\<rparr>"

definition set_tokens :: "bool \<Rightarrow> string \<Rightarrow> string \<Rightarrow> api \<Rightarrow> api" where
  "set_tokens writable access refresh a =
     (let (s, st) = setTokens writable access refresh (a_session a, a_storage a)
      in a\<lparr>a_session := s, a_storage := st\<rparr>)"

definition setAuthToken :: "string \<Rightarrow> api \<Rightarrow> api" where
  "setAuthToken t a = a\<lparr>a_rest := (a_rest a)\<lparr>authToken := t\<rparr>\<rparr>"

definition setBackendUrl :: "string \<Rightarrow> api \<Rightarrow> api" where
  "setBackendUrl url a =
     a\<lparr>backendUrl := url, a_rest := (a_rest a)\<lparr>baseUrl := url\<rparr>, a_ws := setUrl url (a_ws a)\<rparr>"

subsection \<open>Authentication\<close>

definition login :: "string \<Rightarrow> string \<Rightarrow> bool \<Rightarrow> api \<Rightarrow> api" where
  "login email password rememberMe =
     request POST ''/auth/login''
       (JsonBody (JObject [(''email'', JString email), (''password'', JString password),
                           (''remember_me'', JBool rememberMe)])) CLogin"

definition login_done :: "bool \<Rightarrow> json \<Rightarrow> api \<Rightarrow> api" where
  "login_done writable j a =
     request GET ''/auth/me'' NoBody CLoginMe
       (setAuthToken (str j ''access_token'')
         (set_tokens writable (str j ''access_token'') (str j ''refresh_token'') a))"

definition registerUser :: "string \<Rightarrow> string \<Rightarrow> string \<Rightarrow> string \<Rightarrow> api \<Rightarrow> api" where
  "registerUser email username displayName password =
     request POST ''/auth/register''
       (JsonBody (JObject [(''email'', JString email), (''username'', JString username),
                           (''display_name'', JString displayName), (''password'', JString password)])) CRegister"

definition api_refreshToken :: "api \<Rightarrow> api" where
  "api_refreshToken a =
     request POST ''/auth/refresh''
       (JsonBody (JObject [(''refresh_token'', JString (refreshToken (a_session a)))])) CRefresh a"

definition refresh_done :: "bool \<Rightarrow> json \<Rightarrow> api \<Rightarrow> api" where
  "refresh_done writable j a =
     (let a = set_tokens writable (str j ''access_token'') (str j ''refresh_token'') a
      in setAuthToken (accessToken (a_session a)) a)"

definition logout :: "api \<Rightarrow> api" where
  "logout a =
     (let a = request POST ''/auth/logout'' EmptyBody CLogout a;
          (s, st) = session_clear (a_session a, a_storage a);
          a = setAuthToken '''' (a\<lparr>a_session := s, a_storage := st\<rparr>)
      in a\<lparr>a_ws := ws_disconnect (a_ws a)\<rparr>)"

subsection \<open>Users, chats and messages\<close>

fun digits :: "nat \<Rightarrow> string" where
  "digits n = (if n < 10 then [char_of (48 + n)] else digits (n div 10) @ [char_of (48 + n mod 10)])"

definition number :: "int \<Rightarrow> string" where
  "number i = (if i < 0 then ''-'' @ digits (nat (- i)) else digits (nat i))"

definition getMe :: "api \<Rightarrow> api" where
  "getMe = request GET ''/api/v1/users/me'' NoBody CUser"

definition optional_field :: "string \<Rightarrow> string option \<Rightarrow> (string \<times> string) list" where
  "optional_field k v = (case v of None \<Rightarrow> [] | Some x \<Rightarrow> [(k, x)])"

text \<open>\<open>query_string\<close> is \<open>QUrlQuery::toString\<close>.\<close>

definition updateProfile :: "((string \<times> string) list \<Rightarrow> string) \<Rightarrow> string \<Rightarrow> string option \<Rightarrow> api \<Rightarrow> api" where
  "updateProfile query_string displayName avatarUrl =
     (let items = (if displayName \<noteq> '''' then [(''display_name'', displayName)] else [])
                    @ optional_field ''avatar_url'' avatarUrl
      in request PATCH (''/api/v1/users/me?'' @ query_string items)
           (JsonBody (JObject (map (\<lambda>(k, v). (k, JString v)) items))) CUser)"

definition getChats :: "api \<Rightarrow> api" where
  "getChats = request GET ''/api/v1/chats/'' NoBody CChats"

definition createChat :: "string \<Rightarrow> string \<Rightarrow> string \<Rightarrow> string list \<Rightarrow> api \<Rightarrow> api" where
  "createChat title description chatType memberIds =
     request POST ''/api/v1/chats/''
       (JsonBody (JObject [(''title'', JString title), (''description'', JString description),
                           (''chat_type'', JString chatType), (''member_ids'', JArray (map JString memberIds))])) CChat"

definition getChat :: "string \<Rightarrow> api \<Rightarrow> api" where
  "getChat chatId = request GET (''/api/v1/chats/'' @ chatId) NoBody CChat"

definition getMessages :: "string \<Rightarrow> int \<Rightarrow> int \<Rightarrow> api \<Rightarrow> api" where
  "getMessages chatId offset limit =
     request GET (''/api/v1/chats/'' @ chatId @ ''/messages?offset='' @ number offset @ ''&limit='' @ number limit)
       NoBody CMessages"

definition sendMessage :: "string \<Rightarrow> string \<Rightarrow> string \<Rightarrow> string option \<Rightarrow> string option \<Rightarrow> api \<Rightarrow> api" where
  "sendMessage chatId content messageType mediaUrl replyToId =
     request POST (''/api/v1/chats/'' @ chatId @ ''/messages'')
       (JsonBody (JObject (map (\<lambda>(k, v). (k, JString v))
          ([(''content'', content), (''message_type'', messageType)]
            @ optional_field ''media_url'' mediaUrl @ optional_field ''reply_to_id'' replyToId)))) CMessage"

definition editMessage :: "string \<Rightarrow> string \<Rightarrow> api \<Rightarrow> api" where
  "editMessage messageId content =
     request PATCH (''/api/v1/messages/'' @ messageId) (JsonBody (JObject [(''content'', JString content)])) CMessage"

definition deleteMessage :: "string \<Rightarrow> api \<Rightarrow> api" where
  "deleteMessage messageId = request DELETE (''/api/v1/messages/'' @ messageId) NoBody CDelete"

definition searchUsers :: "string \<Rightarrow> api \<Rightarrow> api" where
  "searchUsers query = request GET (''/api/v1/users/search/?q='' @ query) NoBody CUsers"

definition markRead :: "string \<Rightarrow> string \<Rightarrow> api \<Rightarrow> api \<times> result" where
  "markRead chatId messageId a =
     (if ws_isConnected (a_ws a) then (a\<lparr>a_ws := sendReadReceipt chatId messageId (a_ws a)\<rparr>, RDone)
      else (a, RFail ''WebSocket not connected''))"

definition connectWebSocket :: "api \<Rightarrow> api" where
  "connectWebSocket a =
     (if accessToken (a_session a) \<noteq> ''''
      then a\<lparr>a_ws := ws_connectToServer (accessToken (a_session a)) (a_ws a)\<rparr> else a)"

definition disconnectWebSocket :: "api \<Rightarrow> api" where
  "disconnectWebSocket a = a\<lparr>a_ws := ws_disconnect (a_ws a)\<rparr>"

subsection \<open>Replies\<close>

text \<open>
  The callbacks registered with each request; \<open>None\<close> when neither \<open>done\<close> nor \<open>fail\<close> of the caller
  is called.
\<close>

fun on_done :: "bool \<Rightarrow> call \<Rightarrow> json \<Rightarrow> api \<Rightarrow> api \<times> result option" where
  "on_done writable CLogin j a = (login_done writable j a, None)"
| "on_done writable CLoginMe j a = (a, Some (RUser (user_of j)))"
| "on_done writable CRegister j a = (a, Some (RUser (user_of j)))"
| "on_done writable CRefresh j a = (refresh_done writable j a, Some RDone)"
| "on_done writable CLogout j a = (a, None)"
| "on_done writable CUser j a = (a, Some (RUser (user_of j)))"
| "on_done writable CChats j a = (a, Some (RChats (map listed_chat_of (toArray j))))"
| "on_done writable CChat j a = (a, Some (RChat (chat_of j)))"
| "on_done writable CMessages j a = (a, Some (RMessages (map message_of (toArray j))))"
| "on_done writable CMessage j a = (a, Some (RMessage (message_of j)))"
| "on_done writable CDelete j a = (a, Some RDone)"
| "on_done writable CUsers j a = (a, Some (RUsers (map user_of (toArray j))))"

fun on_fail :: "call \<Rightarrow> string \<Rightarrow> result option" where
  "on_fail CLogout error = None"
| "on_fail _ error = Some (RFail error)"

text \<open>A reply to the request at place \<open>i\<close>: an error text or a JSON value.\<close>

definition reply :: "bool \<Rightarrow> nat \<Rightarrow> string + json \<Rightarrow> api \<Rightarrow> api \<times> result option" where
  "reply writable i r a =
     (let c = snd (inflight a ! i); a = a\<lparr>inflight := take i (inflight a) @ drop (Suc i) (inflight a)\<rparr>
      in case r of Inl error \<Rightarrow> (a, on_fail c error) | Inr j \<Rightarrow> on_done writable c j a)"

subsection \<open>File transfers\<close>

record transfer =
  cancelled :: bool

datatype transfer_signal = TError string | UploadFinished string string | DownloadFinished
  | Progress int int

definition transfer_upload :: "(string \<Rightarrow> bool) \<Rightarrow> (string \<Rightarrow> bool) \<Rightarrow> string \<Rightarrow> rest \<Rightarrow> transfer
    \<Rightarrow> transfer \<times> (transfer_signal list + http)" where
  "transfer_upload is_file can_open filePath r t =
     (t\<lparr>cancelled := False\<rparr>,
      if \<not> is_file filePath then Inl [TError (''File not found: '' @ filePath)]
      else case upload r can_open ''/api/v1/files/upload'' filePath of
             Inl err \<Rightarrow> Inl [TError err]
           | Inr h \<Rightarrow> Inr h)"

definition upload_reply :: "string + json \<Rightarrow> transfer \<Rightarrow> transfer_signal list" where
  "upload_reply r t =
     (if cancelled t then []
      else case r of Inl err \<Rightarrow> [TError err] | Inr j \<Rightarrow> [UploadFinished (str j ''id'') (str j ''url'')])"

text \<open>The quotient of the two numbers is what is signalled.\<close>

definition transfer_progress :: "int \<Rightarrow> int \<Rightarrow> transfer \<Rightarrow> transfer_signal list" where
  "transfer_progress sent all t = (if cancelled t \<or> all \<le> 0 then [] else [Progress sent all])"

text \<open>\<open>base\<close> is the property \<open>baseUrl\<close> of the network manager, \<open>writable\<close> whether the file opens.\<close>

definition transfer_download :: "string \<Rightarrow> string \<Rightarrow> transfer \<Rightarrow> transfer \<times> http" where
  "transfer_download base fileId t =
     (t\<lparr>cancelled := False\<rparr>,
      \<lparr>h_verb = GET, h_url = base @ ''/api/v1/files/'' @ fileId @ ''/download'', h_authorization = None, h_body = NoBody\<rparr>)"

definition download_reply :: "bool \<Rightarrow> string \<Rightarrow> string + string \<Rightarrow> transfer \<Rightarrow> transfer_signal list \<times> (string \<times> string) option" where
  "download_reply writable savePath r t =
     (if cancelled t then ([], None)
      else case r of
             Inl err \<Rightarrow> ([TError err], None)
           | Inr content \<Rightarrow>
               (if \<not> writable then ([TError (''Could not write to: '' @ savePath)], None)
                else ([DownloadFinished], Some (savePath, content))))"

definition transfer_cancel :: "transfer \<Rightarrow> transfer" where
  "transfer_cancel t = t\<lparr>cancelled := True\<rparr>"

subsection \<open>Adapters and notifications\<close>

definition adaptChatType :: "string \<Rightarrow> string" where
  "adaptChatType t = (if t \<in> {''private'', ''group'', ''channel'', ''supergroup''} then t else ''private'')"

definition adaptMessageType :: "string \<Rightarrow> string" where
  "adaptMessageType t =
     (if t \<in> {''text'', ''photo'', ''video'', ''audio'', ''document'', ''sticker'', ''system''} then t else ''text'')"

record notifications =
  totalUnread :: int

datatype notification_signal = ShowDesktop string string string | UpdateBadge int | TypingIndicator string string bool

definition handleNotification :: "json \<Rightarrow> notifications \<Rightarrow> notifications \<times> notification_signal list" where
  "handleNotification j n =
     (let n' = n\<lparr>totalUnread := totalUnread n + 1\<rparr>
      in (n', [ShowDesktop (str j ''type'') (str j ''content'') (str j ''chat_id''), UpdateBadge (totalUnread n')]))"

definition handleTyping :: "string \<Rightarrow> string \<Rightarrow> notification_signal list" where
  "handleTyping u c = [TypingIndicator u c True]"

subsection \<open>The backend object\<close>

text \<open>The backend owns a session manager of its own beside the one of the API; both read the file.\<close>

record backend =
  b_initialized :: bool
  b_api :: "api option"
  b_session :: "session option"
  b_notifications :: "notifications option"

definition no_backend :: backend where
  "no_backend = \<lparr>b_initialized = False, b_api = None, b_session = None, b_notifications = None\<rparr>"

definition backend_initialize :: "storage \<Rightarrow> string \<Rightarrow> backend \<Rightarrow> backend" where
  "backend_initialize st url b =
     (if b_initialized b then b
      else let a = setBackendUrl url (new_CustomApi st);
               s = new_SessionManager st;
               a = (if isAuthenticated s then connectWebSocket (setBackendUrl url a) else a)
           in \<lparr>b_initialized = True, b_api = Some a, b_session = Some s, b_notifications = Some \<lparr>totalUnread = 0\<rparr>\<rparr>)"

text \<open>The API disconnects its socket and goes away with everything else.\<close>

definition backend_shutdown :: "backend \<Rightarrow> backend" where
  "backend_shutdown b = (if \<not> b_initialized b then b else no_backend)"

definition auth_isAuthenticated :: "api \<Rightarrow> bool" where
  "auth_isAuthenticated a = isAuthenticated (a_session a)"

subsection \<open>Tokens\<close>

inductive api_step :: "bool \<Rightarrow> api \<Rightarrow> api \<Rightarrow> bool" for w where
  "api_step w a (setBackendUrl url a)"
| "api_step w a (login email password rememberMe a)"
| "api_step w a (registerUser email username displayName password a)"
| "api_step w a (api_refreshToken a)"
| "api_step w a (logout a)"
| "api_step w a (getMe a)"
| "api_step w a (updateProfile query_string displayName avatarUrl a)"
| "api_step w a (getChats a)"
| "api_step w a (createChat title description chatType memberIds a)"
| "api_step w a (getChat chatId a)"
| "api_step w a (getMessages chatId offset limit a)"
| "api_step w a (sendMessage chatId content messageType mediaUrl replyToId a)"
| "api_step w a (editMessage messageId content a)"
| "api_step w a (deleteMessage messageId a)"
| "api_step w a (searchUsers query a)"
| "api_step w a (fst (markRead chatId messageId a))"
| "api_step w a (connectWebSocket a)"
| "api_step w a (disconnectWebSocket a)"
| "ws_step (a_ws a) v \<Longrightarrow> api_step w a (a\<lparr>a_ws := v\<rparr>)"
| "i < length (inflight a) \<Longrightarrow> api_step w a (fst (reply w i r a))"

definition stored :: "api \<Rightarrow> bool" where
  "stored a \<longleftrightarrow> (let s = new_SessionManager (a_storage a)
     in accessToken s = accessToken (a_session a) \<and> refreshToken s = refreshToken (a_session a)
        \<and> userId s = userId (a_session a))"

definition tokens_ok :: "bool \<Rightarrow> api \<Rightarrow> bool" where
  "tokens_ok w a \<longleftrightarrow> authToken (a_rest a) = accessToken (a_session a) \<and> (w \<longrightarrow> stored a)"

lemma load_saved:
  "new_SessionManager (saveToStorage True s st)
    = s\<lparr>refreshTimer := (if accessToken s \<noteq> '''' then Some 60000 else None)\<rparr>"
  by (simp add: new_SessionManager_def saveToStorage_def loadFromStorage_def field_def no_session_def Let_def)

lemma request_tokens [simp]:
  "a_rest (request v p b c a) = a_rest a" "a_session (request v p b c a) = a_session a"
  "a_storage (request v p b c a) = a_storage a"
  by (simp_all add: request_def)

lemma set_tokens_ok: "tokens_ok w (setAuthToken t (set_tokens w t r a))"
  by (cases w) (simp_all add: tokens_ok_def stored_def set_tokens_def setTokens_def setAuthToken_def Let_def load_saved)

lemma tokens_ok_cong:
  "authToken (a_rest b) = authToken (a_rest a) \<Longrightarrow> a_session b = a_session a \<Longrightarrow> a_storage b = a_storage a
    \<Longrightarrow> tokens_ok w b = tokens_ok w a"
  by (simp add: tokens_ok_def stored_def)

lemma set_tokens_access [simp]: "accessToken (a_session (set_tokens w t r a)) = t"
  by (simp add: set_tokens_def setTokens_def Let_def)

lemma reply_ok:
  assumes "tokens_ok w a"
  shows "tokens_ok w (fst (reply w i r a))"
proof -
  define b where "b = a\<lparr>inflight := take i (inflight a) @ drop (Suc i) (inflight a)\<rparr>"
  have b: "tokens_ok w b" using assms by (simp add: b_def tokens_ok_def stored_def)
  have "tokens_ok w (fst (on_done w c j b))" for c j
    using b set_tokens_ok
    by (cases c) (simp_all add: login_done_def refresh_done_def Let_def tokens_ok_cong [of "request _ _ _ _ _"])
  then show ?thesis using b by (cases r) (simp_all add: reply_def b_def Let_def)
qed

lemma logout_ok: "tokens_ok w (logout a)"
  by (simp add: logout_def session_clear_def setAuthToken_def tokens_ok_def stored_def Let_def
      new_SessionManager_def loadFromStorage_def no_session_def)

lemmas request_ops = login_def registerUser_def api_refreshToken_def getMe_def updateProfile_def getChats_def
  createChat_def getChat_def getMessages_def sendMessage_def editMessage_def deleteMessage_def searchUsers_def

lemma api_step_ok: "api_step w a a' \<Longrightarrow> tokens_ok w a \<Longrightarrow> tokens_ok w a'"
proof (induction rule: api_step.induct)
  case (5 a)
  then show ?case by (simp add: logout_ok)
next
  case (20 i a r)
  then show ?case by (simp add: reply_ok)
qed (simp_all add: request_ops tokens_ok_def stored_def setBackendUrl_def markRead_def connectWebSocket_def
    disconnectWebSocket_def Let_def)

text \<open>
  C11. A backend API that started without a session file: whatever is called, whatever replies come
  and in whatever order, the token of the REST client is the access token of the session, so every
  request is authorised exactly when the session counts as authenticated; and as long as the file
  can be written, a session manager started from the file has the same tokens and user.
\<close>
theorem tokens_agree:
  assumes "(api_step w)\<^sup>*\<^sup>* (new_CustomApi None) a"
  shows "authToken (a_rest a) = accessToken (a_session a)
    \<and> (h_authorization (createRequest (a_rest a) v path b) \<noteq> None \<longleftrightarrow> isAuthenticated (a_session a))
    \<and> (w \<longrightarrow> accessToken (new_SessionManager (a_storage a)) = accessToken (a_session a)
        \<and> refreshToken (new_SessionManager (a_storage a)) = refreshToken (a_session a)
        \<and> userId (new_SessionManager (a_storage a)) = userId (a_session a))"
proof -
  have "tokens_ok w (new_CustomApi None)"
    by (simp add: tokens_ok_def stored_def new_CustomApi_def new_rest_def new_SessionManager_def
        loadFromStorage_def no_session_def)
  with assms have "tokens_ok w a" by (induction rule: rtranclp_induct) (auto intro: api_step_ok)
  then show ?thesis
    by (auto simp: tokens_ok_def stored_def Let_def createRequest_def isAuthenticated_def)
qed

theorem tokens_agree_witness:
  "\<exists>a. (api_step True)\<^sup>*\<^sup>* (new_CustomApi None) a \<and> authToken (a_rest a) = ''t''
    \<and> h_authorization (createRequest (a_rest a) GET ''/x'' NoBody) \<noteq> None"
proof -
  let ?a1 = "login ''e'' ''p'' True (new_CustomApi None)"
  let ?a2 = "fst (reply True 0 (Inr (JObject [(''access_token'', JString ''t'')])) ?a1)"
  have "api_step True (new_CustomApi None) ?a1" by (rule api_step.intros)
  moreover have i: "inflight ?a1 = [(createRequest new_rest POST ''/auth/login''
      (JsonBody (JObject [(''email'', JString ''e''), (''password'', JString ''p''), (''remember_me'', JBool True)])), CLogin)]"
    by (simp add: login_def request_def new_CustomApi_def)
  then have "0 < length (inflight ?a1)" by simp
  then have "api_step True ?a1 ?a2" by (rule api_step.intros)
  ultimately have run: "(api_step True)\<^sup>*\<^sup>* (new_CustomApi None) ?a2" by (meson rtranclp.rtrancl_into_rtrancl rtranclp.rtrancl_refl)
  have "accessToken (a_session ?a2) = ''t''"
    using i by (simp add: reply_def login_done_def setAuthToken_def str_def field_def)
  then show ?thesis using tokens_agree [OF run, of GET "''/x''" NoBody] run by (auto simp: isAuthenticated_def)
qed

text \<open>
  C33. A defect at the next start. With a stored session the backend counts as authenticated and
  opens the WebSocket with the stored token, but the REST client is not given it: the first request,
  for the user's own data, goes out without authorisation.
\<close>
theorem restart_without_token:
  assumes "st = Some j" "str j ''access_token'' \<noteq> ''''"
  shows "\<exists>a s. b_api (backend_initialize st url no_backend) = Some a
    \<and> b_session (backend_initialize st url no_backend) = Some s \<and> isAuthenticated s \<and> auth_isAuthenticated a
    \<and> ws_token (a_ws a) = str j ''access_token'' \<and> ws_socket (a_ws a) = Opening
    \<and> h_authorization (fst (last (inflight (getMe a)))) = None"
proof -
  have s: "accessToken (new_SessionManager st) = str j ''access_token''"
    using assms by (simp add: new_SessionManager_def loadFromStorage_def str_def Let_def)
  show ?thesis
    using assms(2) s
    by (simp add: backend_initialize_def no_backend_def isAuthenticated_def auth_isAuthenticated_def Let_def
        connectWebSocket_def setBackendUrl_def new_CustomApi_def ws_connectToServer_def getMe_def request_def
        createRequest_def new_rest_def)
qed

theorem restart_without_token_witness:
  "\<exists>a. b_api (backend_initialize (Some (JObject [(''access_token'', JString ''t'')])) ''http://h'' no_backend) = Some a
    \<and> auth_isAuthenticated a \<and> h_authorization (fst (last (inflight (getMe a)))) = None"
  using restart_without_token [of _ "JObject [(''access_token'', JString ''t'')]" "''http://h''"]
  by (fastforce simp: str_def field_def)

text \<open>
  A reply that was in flight at the time of a logout brings the session back: a refresh that is
  answered afterwards stores its tokens and the client is authenticated again.
\<close>

theorem refresh_after_logout:
  assumes "i < length (inflight a)" "snd (inflight a ! i) = CRefresh" "str j ''access_token'' \<noteq> ''''"
  shows "\<not> isAuthenticated (a_session (logout a))
    \<and> isAuthenticated (a_session (fst (reply w i (Inr j) (logout a))))"
proof -
  have "inflight (logout a) ! i = inflight a ! i"
    using assms(1) by (simp add: logout_def request_def session_clear_def setAuthToken_def Let_def nth_append)
  then have "accessToken (a_session (fst (reply w i (Inr j) (logout a)))) = str j ''access_token''"
    using assms(2) by (simp add: reply_def refresh_done_def setAuthToken_def Let_def)
  moreover have "accessToken (a_session (logout a)) = ''''"
    by (simp add: logout_def session_clear_def setAuthToken_def Let_def)
  ultimately show ?thesis using assms(3) by (simp add: isAuthenticated_def)
qed

end
