(* ===== verification/Flat_Map.thy ===== *)
theory Flat_Map
  imports Prelude
begin

text \<open>
  The sorted vector of pairs behind \<open>base::flat_map\<close>, which is iterated in the order of its keys:
  \<open>find\<close> is \<open>map_of\<close>, \<open>emplace\<close> keeps an entry that is already there, \<open>erase\<close> removes one. The
  laws relate each to the finite map; the operations are the interface through which the sessions
  keep their requests.
\<close>

type_synonym ('k, 'v) flat_map = "('k \<times> 'v) list"

abbreviation fm_ok :: "('k::linorder, 'v) flat_map \<Rightarrow> bool" where
  "fm_ok m \<equiv> strictly_sorted (map fst m)"

abbreviation fm_keys :: "('k, 'v) flat_map \<Rightarrow> 'k set" where
  "fm_keys m \<equiv> fst ` set m"

fun fm_emplace :: "'k::linorder \<Rightarrow> 'v \<Rightarrow> ('k, 'v) flat_map \<Rightarrow> ('k, 'v) flat_map" where
  "fm_emplace k v [] = [(k, v)]"
| "fm_emplace k v (e # m) =
     (if k < fst e then (k, v) # e # m else if k = fst e then e # m else e # fm_emplace k v m)"

definition fm_erase :: "'k \<Rightarrow> ('k, 'v) flat_map \<Rightarrow> ('k, 'v) flat_map" where
  "fm_erase k m = filter (\<lambda>e. fst e \<noteq> k) m"

text \<open>\<open>while (size-- > n) map.erase(map.begin())\<close>\<close>

definition fm_trim :: "nat \<Rightarrow> ('k, 'v) flat_map \<Rightarrow> ('k, 'v) flat_map" where
  "fm_trim n m = drop (length m - n) m"

lemma fm_keys_emplace [simp]: "fm_keys (fm_emplace k v m) = insert k (fm_keys m)"
  by (induction m) auto

lemma fm_ok_emplace [simp]: "fm_ok m \<Longrightarrow> fm_ok (fm_emplace k v m)"
proof (induction m)
  case (Cons e m)
  then show ?case using fm_keys_emplace [of k v m] by (auto simp: image_def)
qed simp

lemma map_of_emplace:
  "fm_ok m \<Longrightarrow> map_of (fm_emplace k v m) x = (if x = k \<and> map_of m k = None then Some v else map_of m x)"
proof (induction m)
  case (Cons e m)
  then have above: "k < fst e \<Longrightarrow> map_of (e # m) k = None"
    by (cases e) (auto simp: map_of_eq_None_iff)
  show ?case using Cons above by (cases e) auto
qed simp

lemma fm_erase_absent: "k \<notin> fm_keys m \<Longrightarrow> fm_erase k m = m"
  by (induction m) (auto simp: fm_erase_def)

lemma fm_keys_erase [simp]: "fm_keys (fm_erase k m) = fm_keys m - {k}"
  by (auto simp: fm_erase_def)

lemma fm_ok_erase [simp]: "fm_ok m \<Longrightarrow> fm_ok (fm_erase k m)"
  by (simp add: fm_erase_def sorted_wrt_map sorted_wrt_filter)

lemma map_of_erase [simp]: "map_of (fm_erase k m) x = (if x = k then None else map_of m x)"
  by (induction m) (auto simp: fm_erase_def)

lemma set_erase: "set (fm_erase k m) = {e \<in> set m. fst e \<noteq> k}"
  by (auto simp: fm_erase_def)

lemma set_emplace: "k \<notin> fm_keys m \<Longrightarrow> set (fm_emplace k v m) = insert (k, v) (set m)"
  by (induction m) auto

lemma length_emplace: "length (fm_emplace k v m) \<ge> length m"
  by (induction m) auto

lemma fm_ok_trim [simp]: "fm_ok m \<Longrightarrow> fm_ok (fm_trim n m)"
  by (simp add: fm_trim_def drop_map [symmetric] sorted_wrt_drop)

lemma length_trim [simp]: "length (fm_trim n m) = min n (length m)"
  by (simp add: fm_trim_def)

lemma set_trim: "set (fm_trim n m) \<subseteq> set m"
  by (simp add: fm_trim_def set_drop_subset)

lemma fm_ok_distinct: "fm_ok m \<Longrightarrow> distinct (map fst m)"
  by (simp add: strictly_sorted_iff)

lemma map_of_iff: "fm_ok m \<Longrightarrow> map_of m k = Some v \<longleftrightarrow> (k, v) \<in> set m"
  by (simp add: fm_ok_distinct)

text \<open>What a trim takes away lies before everything it leaves.\<close>

lemma trimmed_before:
  assumes "fm_ok m" "k \<in> fm_keys m" "k \<notin> fm_keys (fm_trim n m)" "x \<in> fm_keys (fm_trim n m)"
  shows "k < x"
proof -
  let ?d = "length m - n"
  have "k \<in> set (take ?d (map fst m))"
    using assms(2,3) append_take_drop_id [of ?d "map fst m"]
    by (metis (no_types, lifting) Un_iff drop_map fm_trim_def image_set set_append)
  moreover have "x \<in> set (drop ?d (map fst m))"
    using assms(4) by (simp add: fm_trim_def drop_map)
  moreover have "sorted_wrt (<) (take ?d (map fst m) @ drop ?d (map fst m))" using assms(1) by simp
  ultimately show ?thesis unfolding sorted_wrt_append by blast
qed

subsection \<open>Relations that hold along a loop\<close>

text \<open>
  What a session promises from one state to the next, when it is reflexive and transitive, holds
  from the first state of a loop to its last, also where the loop carries a result besides the state.
\<close>

locale promise =
  fixes R :: "'s \<Rightarrow> 's \<Rightarrow> bool"
  assumes at_rest: "R s s"
    and in_turn: "R s t \<Longrightarrow> R t u \<Longrightarrow> R s u"
begin

lemma along: "(\<And>x s. R s (f x s)) \<Longrightarrow> R s (fold f xs s)"
  by (induction xs arbitrary: s) (auto intro: at_rest in_turn)

lemma along_pairs:
  assumes "\<And>x b s. R s (snd (f x (b, s)))"
  shows "R (snd bs) (snd (fold f xs bs))"
proof (induction xs arbitrary: bs)
  case (Cons x xs)
  have "R (snd bs) (snd (f x bs))" using assms [of "snd bs" x "fst bs"] by simp
  then show ?case using Cons [of "f x bs"] in_turn by simp
qed (simp add: at_rest)

end

end
