(* ===== verification/Received_Ids.thy ===== *)
theory Received_Ids
  imports Flat_Map
begin

text \<open>
  The ids of received messages (\<open>mtproto/details/mtproto_received_ids_manager.{h,cpp}\<close>): the last
  ones are kept to recognise a message that comes again. The state is the map \<open>_idsNeedAck\<close>.
\<close>

type_synonym mtpMsgId = "64 word"
type_synonym received_ids = "(mtpMsgId, bool) flat_map"

definition kIdsBufferSize :: nat where "kIdsBufferSize = 400"

datatype ids_state = NotFound | NeedsAck | NoAckNeeded
datatype register_result = Registered | Duplicate | TooOld

definition ids_min :: "received_ids \<Rightarrow> mtpMsgId" where
  "ids_min m = (case m of [] \<Rightarrow> 0 | e # _ \<Rightarrow> fst e)"

definition ids_max :: "received_ids \<Rightarrow> mtpMsgId" where
  "ids_max m = (if m = [] then 0 else fst (last m))"

definition registerMsgId :: "mtpMsgId \<Rightarrow> bool \<Rightarrow> received_ids \<Rightarrow> received_ids \<times> register_result" where
  "registerMsgId msgId needAck m =
     (if map_of m msgId \<noteq> None then (m, Duplicate)
      else if length m < kIdsBufferSize \<or> msgId > ids_min m then (fm_emplace msgId needAck m, Registered)
      else (m, TooOld))"

definition ids_lookup :: "mtpMsgId \<Rightarrow> received_ids \<Rightarrow> ids_state" where
  "ids_lookup msgId m =
     (case map_of m msgId of None \<Rightarrow> NotFound | Some needAck \<Rightarrow> if needAck then NeedsAck else NoAckNeeded)"

definition ids_shrink :: "received_ids \<Rightarrow> received_ids" where
  "ids_shrink m = fm_trim kIdsBufferSize m"

definition ids_clear :: "received_ids \<Rightarrow> received_ids" where
  "ids_clear m = []"

subsection \<open>Every message once\<close>

datatype ids_op = Register mtpMsgId bool | Shrink

fun ids_run :: "ids_op list \<Rightarrow> received_ids \<Rightarrow> received_ids \<times> (mtpMsgId \<times> register_result) list" where
  "ids_run [] m = (m, [])"
| "ids_run (Register i a # os) m =
     (let r = registerMsgId i a m; rest = ids_run os (fst r) in (fst rest, (i, snd r) # snd rest))"
| "ids_run (Shrink # os) m = ids_run os (ids_shrink m)"

text \<open>An id that was handled is still known, or every id the full buffer knows is greater.\<close>

definition covers :: "received_ids \<Rightarrow> mtpMsgId \<Rightarrow> bool" where
  "covers m i \<longleftrightarrow> i \<in> fm_keys m \<or> (kIdsBufferSize \<le> length m \<and> (\<forall>x \<in> fm_keys m. i < x))"

lemma ids_min_in: "m \<noteq> [] \<Longrightarrow> ids_min m \<in> fm_keys m"
  by (cases m) (auto simp: ids_min_def)

lemma covers_rejected:
  assumes "covers m i"
  shows "snd (registerMsgId i a m) \<noteq> Registered"
proof (cases "i \<in> fm_keys m")
  case False
  then have "kIdsBufferSize \<le> length m" "\<forall>x \<in> fm_keys m. i < x" using assms by (auto simp: covers_def)
  then have "\<not> length m < kIdsBufferSize" and "m \<noteq> []" by (auto simp: kIdsBufferSize_def)
  moreover have "i < ids_min m" using \<open>m \<noteq> []\<close> \<open>\<forall>x \<in> fm_keys m. i < x\<close> ids_min_in by blast
  ultimately show ?thesis by (auto simp: registerMsgId_def)
next
  case True
  then have "map_of m i \<noteq> None" by (simp add: map_of_eq_None_iff)
  then show ?thesis by (simp add: registerMsgId_def)
qed

lemma registerMsgId_ok: "fm_ok m \<Longrightarrow> fm_ok (fst (registerMsgId i a m))"
  by (simp add: registerMsgId_def)

lemma ids_shrink_ok: "fm_ok m \<Longrightarrow> fm_ok (ids_shrink m)"
  by (simp add: ids_shrink_def)

lemma ids_run_ok: "fm_ok m \<Longrightarrow> fm_ok (fst (ids_run os m))"
  by (induction os m rule: ids_run.induct) (simp_all add: Let_def registerMsgId_ok ids_shrink_ok)

lemma ids_max_ge: "fm_ok m \<Longrightarrow> x \<in> fm_keys m \<Longrightarrow> x \<le> ids_max m"
  using strictly_sorted_last_ge [of "map fst m" x] by (auto simp: ids_max_def last_map)

lemma ids_max_shrink: "ids_max (ids_shrink m) = ids_max m"
proof (cases "m = []")
  case False
  then have "length m - kIdsBufferSize < length m" by (simp add: kIdsBufferSize_def)
  then show ?thesis using False by (simp add: ids_max_def ids_shrink_def fm_trim_def)
qed (simp add: ids_shrink_def fm_trim_def)

lemma register_covers:
  assumes "covers m j"
  shows "covers (fst (registerMsgId i a m)) j"
proof (cases "snd (registerMsgId i a m) = Registered")
  case True
  then have e: "fst (registerMsgId i a m) = fm_emplace i a m"
    and c: "length m < kIdsBufferSize \<or> ids_min m < i" by (auto simp: registerMsgId_def split: if_splits)
  show ?thesis
  proof (cases "j \<in> fm_keys m")
    case False
    then have j: "kIdsBufferSize \<le> length m" "\<forall>x \<in> fm_keys m. j < x" using assms by (auto simp: covers_def)
    then have "j < i" using c ids_min_in [of m] by (force simp: kIdsBufferSize_def)
    then show ?thesis using j length_emplace [of m i a] unfolding e covers_def by auto
  qed (simp add: e covers_def)
next
  case False
  then have "fst (registerMsgId i a m) = m" by (auto simp: registerMsgId_def split: if_splits)
  then show ?thesis using assms by simp
qed

lemma registered_covers: "snd (registerMsgId i a m) = Registered \<Longrightarrow> covers (fst (registerMsgId i a m)) i"
  by (auto simp: registerMsgId_def covers_def split: if_splits)

lemma shrink_covers:
  assumes "fm_ok m" "covers m j"
  shows "covers (ids_shrink m) j"
proof (cases "j \<in> fm_keys (ids_shrink m)")
  case False
  have "\<forall>x \<in> fm_keys (ids_shrink m). j < x"
  proof (cases "j \<in> fm_keys m")
    case True
    then show ?thesis using trimmed_before assms(1) False unfolding ids_shrink_def by blast
  next
    case outside: False
    then show ?thesis
      using assms(2) set_trim [of kIdsBufferSize m] unfolding covers_def ids_shrink_def by blast
  qed
  moreover have "kIdsBufferSize \<le> length (ids_shrink m)"
  proof (rule ccontr)
    assume "\<not> ?thesis"
    then have "length m < kIdsBufferSize" by (simp add: ids_shrink_def)
    then have "ids_shrink m = m" by (simp add: ids_shrink_def fm_trim_def)
    then show False using False assms(2) \<open>length m < kIdsBufferSize\<close> by (simp add: covers_def)
  qed
  ultimately show ?thesis by (simp add: covers_def)
qed (simp add: covers_def)

lemma ids_run_covered:
  assumes "fm_ok m" "covers m i"
  shows "(i, Registered) \<notin> set (snd (ids_run os m))"
  using assms
proof (induction os m rule: ids_run.induct)
  case (2 j a os m)
  have "covers (fst (registerMsgId j a m)) i" "fm_ok (fst (registerMsgId j a m))"
    using 2 register_covers registerMsgId_ok by auto
  then show ?case using 2 covers_rejected [of m i a] by (auto simp: Let_def)
qed (simp_all add: shrink_covers ids_shrink_ok)

lemma ids_run_once:
  assumes "fm_ok m"
  shows "distinct [i. (i, r) \<leftarrow> snd (ids_run os m), r = Registered]"
  using assms
proof (induction os m rule: ids_run.induct)
  case (2 j a os m)
  have ok: "fm_ok (fst (registerMsgId j a m))" using 2 registerMsgId_ok by auto
  have "(j, Registered) \<notin> set (snd (ids_run os (fst (registerMsgId j a m))))"
    if "snd (registerMsgId j a m) = Registered"
    using ids_run_covered [OF ok registered_covers [OF that]] .
  then show ?case using 2 ok by (auto simp: Let_def)
qed (simp_all add: ids_shrink_ok)

text \<open>
  C15. Replay protection: from an empty manager, whatever ids arrive in whatever order and whenever
  the buffer is cut to its last 400 ids, no id is registered a second time; an id greater than all
  the known ones is always accepted, an id that is known is reported as a duplicate, and
  cutting leaves at most 400 ids.
\<close>
theorem received_once:
  "distinct [i. (i, r) \<leftarrow> snd (ids_run os []), r = Registered]
    \<and> (let m = fst (ids_run os [])
       in (i > ids_max m \<longrightarrow> snd (registerMsgId i a m) = Registered)
        \<and> (ids_lookup i m \<noteq> NotFound \<longleftrightarrow> snd (registerMsgId i a m) = Duplicate)
        \<and> length (ids_shrink m) \<le> 400 \<and> ids_max (ids_shrink m) = ids_max m)"
proof -
  define m where "m = fst (ids_run os [])"
  have ok: "fm_ok m" unfolding m_def by (rule ids_run_ok) simp
  have "snd (registerMsgId i a m) = Registered" if "i > ids_max m"
  proof -
    have new: "map_of m i = None" using that ids_max_ge [OF ok, of i] unfolding map_of_eq_None_iff by fastforce
    have "length m < kIdsBufferSize \<or> ids_min m < i"
      using that ids_max_ge [OF ok ids_min_in] by (cases "m = []") (auto simp: kIdsBufferSize_def)
    with new show ?thesis by (simp add: registerMsgId_def)
  qed
  moreover have "ids_lookup i m \<noteq> NotFound \<longleftrightarrow> snd (registerMsgId i a m) = Duplicate"
    by (auto simp: ids_lookup_def registerMsgId_def split: option.splits)
  moreover have "length (ids_shrink m) \<le> 400" by (simp add: ids_shrink_def kIdsBufferSize_def)
  ultimately show ?thesis using ids_run_once [of "[]" os] ids_max_shrink unfolding m_def Let_def by auto
qed

theorem received_once_witness:
  "snd (registerMsgId 9 True (fst (ids_run [Register 5 True, Register 5 True, Shrink] []))) = Registered"
  using received_once [of "[Register 5 True, Register 5 True, Shrink]" 9 True]
  by (simp add: registerMsgId_def ids_shrink_def fm_trim_def kIdsBufferSize_def ids_max_def Let_def)

end
