(* ===== verification/Serialized_Request.thy ===== *)
theory Serialized_Request
  imports Received_Ids Tcp_Framing
begin

text \<open>
  Requests as they are kept and sent (\<open>mtproto/details/mtproto_serialized_request.{h,cpp}\<close>) and the
  outer layout of an encrypted message, written by \<open>SessionPrivate::sendSecureRequest\<close> and checked
  by \<open>SessionPrivate::handleReceived\<close> (\<open>mtproto/session_private.cpp\<close>). A \<open>RequestData\<close> is a buffer of
  32 bit ints with a header of eight (salt, session, message id, sequence number, length) and a few
  fields. \<open>Expects\<close> asks for a buffer of more than eight ints; \<open>request_ok\<close> says so, and that the body
  has the length the header gives. AES and SHA-256 wrap the layout and are not part of it.
\<close>

type_synonym mtpRequestId = int

record request_data =
  rd_ints :: "prime list"
  rd_after :: "nat option"
  rd_lastSentTime :: int
  rd_requestId :: mtpRequestId
  rd_needsLayer :: bool
  rd_forceSendInContainer :: bool

definition kMessageIdPosition :: nat where "kMessageIdPosition = 4"
definition kSeqNoPosition :: nat where "kSeqNoPosition = 6"
definition kMessageLengthPosition :: nat where "kMessageLengthPosition = 7"
definition kMessageBodyPosition :: nat where "kMessageBodyPosition = 8"

lemmas position_defs = kMessageIdPosition_def kSeqNoPosition_def kMessageLengthPosition_def kMessageBodyPosition_def

text \<open>A 64 bit number in two ints, the lower half first.\<close>

definition low_int :: "64 word \<Rightarrow> prime" where
  "low_int x = ucast x"

definition high_int :: "64 word \<Rightarrow> prime" where
  "high_int x = ucast (drop_bit 32 x)"

definition long_of :: "prime \<Rightarrow> prime \<Rightarrow> 64 word" where
  "long_of lo hi = ucast lo OR push_bit 32 (ucast hi)"

definition Prepare :: "int \<Rightarrow> nat \<Rightarrow> request_data" where
  "Prepare now ints =
     \<lparr>rd_ints = (replicate kMessageBodyPosition 0)[kMessageLengthPosition := push_bit 2 (word_of_nat ints)],
      rd_after = None, rd_lastSentTime = now, rd_requestId = 0, rd_needsLayer = False,
      rd_forceSendInContainer = False\<rparr>"

text \<open>The ints of a request of the scheme are an argument.\<close>

definition Serialize :: "int \<Rightarrow> prime list \<Rightarrow> request_data" where
  "Serialize now request =
     (let d = Prepare now (length request) in d\<lparr>rd_ints := rd_ints d @ request\<rparr>)"

definition setMsgId :: "mtpMsgId \<Rightarrow> request_data \<Rightarrow> request_data" where
  "setMsgId i d = d\<lparr>rd_ints := (rd_ints d)[kMessageIdPosition := low_int i, kMessageIdPosition + 1 := high_int i]\<rparr>"

definition getMsgId :: "request_data \<Rightarrow> mtpMsgId" where
  "getMsgId d = long_of (rd_ints d ! kMessageIdPosition) (rd_ints d ! (kMessageIdPosition + 1))"

definition setSeqNo :: "32 word \<Rightarrow> request_data \<Rightarrow> request_data" where
  "setSeqNo n d = d\<lparr>rd_ints := (rd_ints d)[kSeqNoPosition := n]\<rparr>"

definition getSeqNo :: "request_data \<Rightarrow> 32 word" where
  "getSeqNo d = rd_ints d ! kSeqNoPosition"

text \<open>\<open>tl::count_length\<close> of a request counts the bytes that \<open>write\<close> puts: \<open>sizeInBytes\<close>.\<close>

definition count_length :: "request_data \<Rightarrow> nat" where
  "count_length d = unat (rd_ints d ! kMessageLengthPosition)"

definition body_ints :: "request_data \<Rightarrow> nat" where
  "body_ints d = count_length d div 4"

definition CountPaddingPrimesCount :: "byte \<Rightarrow> nat \<Rightarrow> bool \<Rightarrow> nat" where
  "CountPaddingPrimesCount random requestSize forAuthKeyInner =
     (let result = (if (8 + requestSize) mod 4 \<noteq> 0 then 4 - (8 + requestSize) mod 4 else 0)
      in if forAuthKeyInner then result
         else (if result < 3 then result + 4 else result) + 4 * unat (random AND 0x0F))"

definition resize :: "nat \<Rightarrow> prime list \<Rightarrow> prime list" where
  "resize n xs = take n xs @ replicate (n - length xs) 0"

definition addPadding :: "byte \<Rightarrow> (nat \<Rightarrow> prime) \<Rightarrow> bool \<Rightarrow> request_data \<Rightarrow> request_data" where
  "addPadding random fill forAuthKeyInner d =
     (let requestSize = body_ints d;
          padding = CountPaddingPrimesCount random requestSize forAuthKeyInner;
          fullSize = kMessageBodyPosition + requestSize + padding
      in if length (rd_ints d) \<noteq> fullSize
         then d\<lparr>rd_ints := take (fullSize - padding) (resize fullSize (rd_ints d)) @ map fill [0..<padding]\<rparr>
         else d)"

definition messageSize :: "request_data \<Rightarrow> nat" where
  "messageSize d = 2 + 1 + 1 + body_ints d"

definition mtpc_msg_container :: prime where "mtpc_msg_container = 0x73f1f8dc"
definition mtpc_msgs_ack :: prime where "mtpc_msgs_ack = 0x62d6b459"
definition mtpc_http_wait :: prime where "mtpc_http_wait = 0x9299359f"
definition mtpc_bad_msg_notification :: prime where "mtpc_bad_msg_notification = 0xa7eff811"
definition mtpc_msgs_all_info :: prime where "mtpc_msgs_all_info = 0x8cc0d131"
definition mtpc_msgs_state_info :: prime where "mtpc_msgs_state_info = 0x04deb57d"
definition mtpc_msg_detailed_info :: prime where "mtpc_msg_detailed_info = 0x276d3ec6"
definition mtpc_msg_new_detailed_info :: prime where "mtpc_msg_new_detailed_info = 0x809db6df"

definition needAck :: "request_data \<Rightarrow> bool" where
  "needAck d = (rd_ints d ! kMessageBodyPosition \<notin>
     {mtpc_msg_container, mtpc_msgs_ack, mtpc_http_wait, mtpc_bad_msg_notification,
      mtpc_msgs_all_info, mtpc_msgs_state_info, mtpc_msg_detailed_info, mtpc_msg_new_detailed_info})"

definition request_body :: "request_data \<Rightarrow> prime list" where
  "request_body d = take (body_ints d) (drop kMessageBodyPosition (rd_ints d))"

subsection \<open>The encrypted part of a message\<close>

text \<open>What \<open>sendSecureRequest\<close> encrypts, \<open>None\<close> where it returns \<open>false\<close>.\<close>

definition secure_ints :: "byte \<Rightarrow> (nat \<Rightarrow> prime) \<Rightarrow> 64 word \<Rightarrow> 64 word \<Rightarrow> request_data \<Rightarrow> request_data option" where
  "secure_ints random fill salt sessionId d =
     (let d = addPadding random fill False d;
          fullSize = length (rd_ints d)
      in if fullSize < 9 then None
         else if messageSize d < 5 \<or> fullSize < messageSize d + 4 then None
         else Some (d\<lparr>rd_ints := (rd_ints d)[0 := low_int salt, 1 := high_int salt,
                                               2 := low_int sessionId, 3 := high_int sessionId]\<rparr>))"

definition kMaxMessageLength :: "32 word" where "kMaxMessageLength = 16 * 1024 * 1024"

record secure_message =
  sm_salt :: "64 word"
  sm_msgId :: mtpMsgId
  sm_seqNo :: "32 word"
  sm_ints :: "prime list"

text \<open>
  The checks of \<open>handleReceived\<close> on a packet of \<open>intsCount\<close> ints, two for the id of the key and four for
  the hash of the message before the encrypted ones, which are \<open>decryptedInts\<close> after decryption; \<open>None\<close>
  where it restarts the connection. The size of the padding is computed in \<open>uint32\<close>.
\<close>

definition kExternalHeaderIntsCount :: nat where "kExternalHeaderIntsCount = 6"
definition kMinimalIntsCount :: nat where "kMinimalIntsCount = kExternalHeaderIntsCount + (8 + 4)"

definition open_secure :: "nat \<Rightarrow> 64 word \<Rightarrow> prime list \<Rightarrow> secure_message option" where
  "open_secure intsCount sessionId decryptedInts =
     (let serverSalt = long_of (decryptedInts ! 0) (decryptedInts ! 1);
          session = long_of (decryptedInts ! 2) (decryptedInts ! 3);
          msgId = long_of (decryptedInts ! 4) (decryptedInts ! 5);
          seqNo = decryptedInts ! 6;
          messageLength = decryptedInts ! 7;
          fullDataLength = 8 * 4 + messageLength;
          paddingSize = word_of_nat (4 * length decryptedInts) - fullDataLength
      in if intsCount < kMinimalIntsCount \<or> intsCount > unat kMaxMessageLength div 4 then None
         else if messageLength > kMaxMessageLength \<or> messageLength AND 3 \<noteq> 0 \<or> paddingSize < 12 \<or> paddingSize > 1024
         then None
         else if session \<noteq> sessionId then None
         else if msgId AND 3 \<noteq> 1 \<and> msgId AND 3 \<noteq> 3 then None
         else Some \<lparr>sm_salt = serverSalt, sm_msgId = msgId, sm_seqNo = seqNo,
                    sm_ints = take (unat messageLength div 4) (drop 8 decryptedInts)\<rparr>)"

subsection \<open>Reading what was written\<close>

definition request_ok :: "request_data \<Rightarrow> bool" where
  "request_ok d \<longleftrightarrow> 8 + body_ints d \<le> length (rd_ints d) \<and> 0 < body_ints d \<and> count_length d mod 4 = 0"

lemma long_of_halves [simp]: "long_of (low_int x) (high_int x) = x"
proof (rule bit_word_eqI)
  fix n
  assume "n < LENGTH(64)"
  then show "bit (long_of (low_int x) (high_int x)) n = bit x n"
    by (auto simp: long_of_def low_int_def high_int_def bit_or_iff bit_push_bit_iff bit_ucast_iff bit_drop_bit_eq)
qed

lemma getMsgId_set [simp]: "8 < length (rd_ints d) \<Longrightarrow> getMsgId (setMsgId i d) = i"
  by (simp add: getMsgId_def setMsgId_def position_defs)

lemma set_fields [simp]:
  "rd_requestId (setMsgId i d) = rd_requestId d" "rd_requestId (setSeqNo n d) = rd_requestId d"
  "length (rd_ints (setMsgId i d)) = length (rd_ints d)" "length (rd_ints (setSeqNo n d)) = length (rd_ints d)"
  "getMsgId (setSeqNo n d) = getMsgId d" "body_ints (setMsgId i d) = body_ints d"
  "body_ints (setSeqNo n d) = body_ints d" "request_body (setMsgId i d) = request_body d" "request_body (setSeqNo n d) = request_body d"
  "needAck (setMsgId i d) = needAck d" "needAck (setSeqNo n d) = needAck d"
  "rd_after (setMsgId i d) = rd_after d" "rd_after (setSeqNo n d) = rd_after d"
  "rd_needsLayer (setMsgId i d) = rd_needsLayer d" "rd_needsLayer (setSeqNo n d) = rd_needsLayer d"
  by (simp_all add: setMsgId_def setSeqNo_def getMsgId_def body_ints_def count_length_def request_body_def needAck_def position_defs)

lemma request_ok_set [simp]: "request_ok (setMsgId i d) = request_ok d" "request_ok (setSeqNo n d) = request_ok d"
  by (simp_all add: request_ok_def count_length_def setMsgId_def setSeqNo_def body_ints_def position_defs)

lemma up_to_four: "((a::nat) + (if a mod 4 \<noteq> 0 then 4 - a mod 4 else 0)) mod 4 = 0"
  by presburger

lemma padding_count:
  "(8 + n + CountPaddingPrimesCount r n inner) mod 4 = 0"
  "CountPaddingPrimesCount r n True < 4"
  "3 \<le> CountPaddingPrimesCount r n False" "CountPaddingPrimesCount r n False \<le> 66"
proof -
  have "r AND 0x0F = take_bit 4 r" by (simp add: take_bit_eq_mask mask_eq_exp_minus_1)
  then have small: "unat (r AND 0x0F) < 16"
    using take_bit_nat_less_exp [of 4 "unat r"] by (simp add: unsigned_take_bit_eq)
  show "CountPaddingPrimesCount r n True < 4" by (simp add: CountPaddingPrimesCount_def Let_def)
  show "3 \<le> CountPaddingPrimesCount r n False" "CountPaddingPrimesCount r n False \<le> 66"
    using small by (auto simp: CountPaddingPrimesCount_def Let_def)
  show "(8 + n + CountPaddingPrimesCount r n inner) mod 4 = 0"
  proof -
    define q where "q = (if (8 + n) mod 4 \<noteq> 0 then 4 - (8 + n) mod 4 else 0)"
    have q: "(8 + n + q) mod 4 = 0" unfolding q_def by (rule up_to_four)
    have "\<exists>k. CountPaddingPrimesCount r n inner = q + 4 * k"
      unfolding CountPaddingPrimesCount_def q_def [symmetric] Let_def
      by (cases inner; cases "q < 3")
        (auto intro: exI [of _ "0::nat"] exI [of _ "Suc (unat (r AND 0x0F))"])
    with q show ?thesis by (metis add.assoc mod_mult_self2)
  qed
qed

lemma addPadding_ints:
  assumes "request_ok d"
  shows "\<exists>pad. rd_ints (addPadding r fill inner d) = take (8 + body_ints d) (rd_ints d) @ pad
    \<and> length pad = CountPaddingPrimesCount r (body_ints d) inner"
proof -
  let ?p = "CountPaddingPrimesCount r (body_ints d) inner" and ?n = "8 + body_ints d"
  have l: "?n \<le> length (rd_ints d)" using assms by (simp add: request_ok_def)
  show ?thesis
  proof (cases "length (rd_ints d) = ?n + ?p")
    case True
    then have "rd_ints (addPadding r fill inner d) = take ?n (rd_ints d) @ drop ?n (rd_ints d)"
      by (simp add: addPadding_def position_defs Let_def)
    then show ?thesis using True by (intro exI [of _ "drop ?n (rd_ints d)"]) simp
  next
    case False
    then have "rd_ints (addPadding r fill inner d) = take ?n (rd_ints d) @ map fill [0..<?p]"
      using l by (simp add: addPadding_def position_defs resize_def Let_def)
    then show ?thesis by auto
  qed
qed

lemma addPadding_header:
  assumes "request_ok d" "i < 8 + body_ints d"
  shows "rd_ints (addPadding r fill inner d) ! i = rd_ints d ! i"
proof -
  obtain pad where "rd_ints (addPadding r fill inner d) = take (8 + body_ints d) (rd_ints d) @ pad"
    using addPadding_ints [OF assms(1)] by blast
  then show ?thesis using assms by (simp add: request_ok_def nth_append)
qed

lemma addPadding_sizes:
  assumes "request_ok d"
  shows "count_length (addPadding r fill inner d) = count_length d"
    "body_ints (addPadding r fill inner d) = body_ints d"
    "length (rd_ints (addPadding r fill inner d)) = 8 + body_ints d + CountPaddingPrimesCount r (body_ints d) inner"
    "rd_requestId (addPadding r fill inner d) = rd_requestId d"
    "request_ok (addPadding r fill inner d)"
    "getMsgId (addPadding r fill inner d) = getMsgId d" "getSeqNo (addPadding r fill inner d) = getSeqNo d"
    "needAck (addPadding r fill inner d) = needAck d"
proof -
  let ?d = "addPadding r fill inner d"
  have h: "rd_ints ?d ! i = rd_ints d ! i" if "i < 9" for i
    using addPadding_header [OF assms, of i] assms that by (simp add: request_ok_def)
  show c: "count_length ?d = count_length d" using h [of 7] by (simp add: count_length_def position_defs)
  then show b: "body_ints ?d = body_ints d" by (simp add: body_ints_def)
  show l: "length (rd_ints ?d) = 8 + body_ints d + CountPaddingPrimesCount r (body_ints d) inner"
    using addPadding_ints [OF assms, of r fill inner] assms by (auto simp: request_ok_def)
  show "rd_requestId ?d = rd_requestId d" by (simp add: addPadding_def Let_def)
  show "request_ok ?d" using assms c b l by (simp add: request_ok_def)
  show "getMsgId ?d = getMsgId d" "getSeqNo ?d = getSeqNo d" "needAck ?d = needAck d"
    using h by (simp_all add: getMsgId_def getSeqNo_def needAck_def position_defs)
qed

lemma addPadding_body:
  assumes "request_ok d"
  shows "request_body (addPadding r fill inner d) = request_body d"
proof -
  obtain pad where "rd_ints (addPadding r fill inner d) = take (8 + body_ints d) (rd_ints d) @ pad"
    using addPadding_ints [OF assms] by blast
  then show ?thesis
    using assms addPadding_sizes(2) [OF assms]
    by (auto simp: request_body_def position_defs request_ok_def drop_take)
qed

lemma padding_size_word:
  assumes "l = 8 + n + p" "4 * n = unat ml"
  shows "word_of_nat (4 * l) - (8 * 4 + ml :: 32 word) = word_of_nat (4 * p)"
proof -
  have "word_of_nat (4 * n) = ml" using assms(2) by simp
  then show ?thesis unfolding assms(1) by (simp add: algebra_simps flip: of_nat_mult)
qed

text \<open>
  C10. The encrypted layout and its checks agree. Every request of at most 16 megabytes is laid out,
  in a multiple of four ints and with 12 to 264 bytes of padding, and the checks of
  \<open>handleReceived\<close> on the packet, with six ints for the key and the hash in front, give back its salt,
  message id, sequence number and exactly its own ints, whatever padding the buffer had kept from an
  earlier attempt; they refuse it exactly when the whole packet has more than 16 megabytes, which
  only a request within 320 bytes of that size can cause, when the session is another one, or when
  the id is not one that a server uses.
\<close>
theorem secure_roundtrip:
  assumes "request_ok d" "count_length d \<le> 16 * 1024 * 1024"
  shows "\<exists>e. secure_ints random fill salt sessionId d = Some e \<and> length (rd_ints e) mod 4 = 0
    \<and> 8 + body_ints d + 3 \<le> length (rd_ints e) \<and> length (rd_ints e) \<le> 8 + body_ints d + 66
    \<and> open_secure (kExternalHeaderIntsCount + length (rd_ints e)) session (rd_ints e)
      = (if 4 * (kExternalHeaderIntsCount + length (rd_ints e)) > 16 * 1024 * 1024
            \<or> session \<noteq> sessionId \<or> getMsgId d AND 3 \<noteq> 1 \<and> getMsgId d AND 3 \<noteq> 3 then None
         else Some \<lparr>sm_salt = salt, sm_msgId = getMsgId d, sm_seqNo = getSeqNo d, sm_ints = request_body d\<rparr>)
    \<and> (4 * (kExternalHeaderIntsCount + length (rd_ints e)) > 16 * 1024 * 1024
        \<longrightarrow> count_length d + 320 > 16 * 1024 * 1024)"
proof -
  define p where "p = addPadding random fill False d"
  define q where "q = CountPaddingPrimesCount random (body_ints d) False"
  note sizes = addPadding_sizes [OF assms(1), of random fill False, folded p_def]
  have len: "length (rd_ints p) = 8 + body_ints d + q" using sizes(3) by (simp add: q_def)
  have q: "3 \<le> q" "q \<le> 66" "(8 + body_ints d + q) mod 4 = 0" unfolding q_def using padding_count by auto
  have n: "0 < body_ints d" "4 * body_ints d = count_length d"
    using assms(1) by (auto simp: request_ok_def body_ints_def)
  define e where "e = p\<lparr>rd_ints := (rd_ints p)[0 := low_int salt, 1 := high_int salt,
                                               2 := low_int sessionId, 3 := high_int sessionId]\<rparr>"
  have e: "secure_ints random fill salt sessionId d = Some e"
    using len q(1) n(1) sizes(2) by (simp add: secure_ints_def messageSize_def Let_def e_def flip: p_def)
  have lene: "length (rd_ints e) = 8 + body_ints d + q" by (simp add: e_def len)
  have i: "rd_ints e ! 0 = low_int salt" "rd_ints e ! 1 = high_int salt" "rd_ints e ! 2 = low_int sessionId"
    "rd_ints e ! 3 = high_int sessionId" using len by (simp_all add: e_def)
  have m: "long_of (rd_ints e ! 4) (rd_ints e ! 5) = getMsgId d" "rd_ints e ! 6 = getSeqNo d"
    using sizes(6,7) by (simp_all add: e_def getMsgId_def getSeqNo_def position_defs)
  have c: "rd_ints e ! 7 = rd_ints d ! 7"
    using addPadding_header [OF assms(1), of 7] by (simp add: e_def p_def)
  have u: "unat (rd_ints d ! 7) = 4 * body_ints d" using n(2) by (simp add: count_length_def position_defs)
  have w: "\<not> kMaxMessageLength < rd_ints d ! 7"
    using assms(2) by (simp add: word_less_nat_alt kMaxMessageLength_def count_length_def position_defs)
  have "rd_ints d ! 7 AND 3 = take_bit 2 (rd_ints d ! 7)" by (simp add: take_bit_eq_mask mask_eq_exp_minus_1)
  moreover have "unat (take_bit 2 (rd_ints d ! 7)) = take_bit 2 (unat (rd_ints d ! 7))" by (rule unsigned_take_bit_eq)
  ultimately have "unat (rd_ints d ! 7 AND 3) = 0" using u by (simp add: take_bit_eq_mod)
  then have a: "rd_ints d ! 7 AND 3 = 0" by (simp only: unat_eq_zero)
  have s: "word_of_nat (4 * length (rd_ints e)) - (8 * 4 + rd_ints e ! 7) = (word_of_nat (4 * q) :: 32 word)"
    by (rule padding_size_word [OF lene]) (simp add: c u)
  have r: "\<not> (word_of_nat (4 * q) :: 32 word) < 12" "\<not> (1024 :: 32 word) < word_of_nat (4 * q)"
  proof -
    have "unat (word_of_nat (4 * q) :: 32 word) = 4 * q"
      using q(2) by (simp only: unsigned_of_nat) (simp add: take_bit_nat_eq_self)
    then show "\<not> (word_of_nat (4 * q) :: 32 word) < 12" "\<not> (1024 :: 32 word) < word_of_nat (4 * q)"
      using q(1,2) by (simp_all add: word_less_nat_alt del: of_nat_mult)
  qed
  have b: "take (4 * body_ints d div 4) (drop 8 (rd_ints e)) = request_body d"
    using addPadding_body [OF assms(1), of random fill False, folded p_def] sizes(2)
    by (simp add: e_def request_body_def position_defs drop_update_cancel)
  have size: "unat kMaxMessageLength div 4 = 4 * 1024 * 1024" by (simp add: kMaxMessageLength_def)
  have "open_secure (kExternalHeaderIntsCount + length (rd_ints e)) session (rd_ints e)
      = (if 4 * (kExternalHeaderIntsCount + length (rd_ints e)) > 16 * 1024 * 1024
            \<or> session \<noteq> sessionId \<or> getMsgId d AND 3 \<noteq> 1 \<and> getMsgId d AND 3 \<noteq> 3 then None
         else Some \<lparr>sm_salt = salt, sm_msgId = getMsgId d, sm_seqNo = getSeqNo d, sm_ints = request_body d\<rparr>)"
    unfolding open_secure_def Let_def s size kMinimalIntsCount_def
    using lene q(1) n(1) w a r b by (simp add: i i(2) [unfolded One_nat_def] m c u)
  then show ?thesis using e lene q n(2) by (auto simp: kExternalHeaderIntsCount_def)
qed

theorem secure_roundtrip_witness:
  "\<exists>e. secure_ints 0 (\<lambda>i. of_nat i) 5 6 (setMsgId 9 (Serialize 0 [1, 2])) = Some e
    \<and> open_secure (kExternalHeaderIntsCount + length (rd_ints e)) 6 (rd_ints e) = Some \<lparr>sm_salt = 5, sm_msgId = 9, sm_seqNo = 0, sm_ints = [1, 2]\<rparr>"
proof -
  define d where "d = setMsgId 9 (Serialize 0 [1, 2])"
  have d: "rd_ints d = [0, 0, 0, 0, 9, 0, 0, 8, 1, 2]"
  proof -
    have "replicate 8 (0 :: prime) = [0, 0, 0, 0, 0, 0, 0, 0]" by (simp add: eval_nat_numeral)
    moreover have "low_int 9 = 9" "high_int 9 = 0" "push_bit 2 (2 :: prime) = 8"
      by (simp_all add: low_int_def high_int_def)
    ultimately show ?thesis
      by (simp add: d_def Serialize_def Prepare_def setMsgId_def position_defs Let_def)
  qed
  have "request_ok d" "count_length d \<le> 16 * 1024 * 1024" "\<not> 16 * 1024 * 1024 < count_length d + 320" "getSeqNo d = 0" "request_body d = [1, 2]"
    by (simp_all add: request_ok_def body_ints_def count_length_def getSeqNo_def request_body_def position_defs d)
  moreover have "getMsgId d = 9" by (simp add: getMsgId_def long_of_def position_defs d)
  ultimately show ?thesis
    using secure_roundtrip [of d 0 "\<lambda>i. of_nat i" 5 6 6] unfolding d_def [symmetric] by auto
qed

end
