(* ===== verification/Session_Requests.thy ===== *)
theory Session_Requests
  imports Serialized_Request
begin

text \<open>
  The requests of an MTProto session (\<open>mtproto/session_private.{h,cpp}\<close>, the maps of
  \<open>SessionData\<close> and \<open>sendPrepared\<close>, \<open>cancel\<close> of \<open>mtproto/session.{h,cpp}\<close>). A request is an object
  that several maps and the instance share: the maps hold addresses into \<open>objects\<close>. It waits in
  \<open>toSend\<close> under its request id, moves to \<open>haveSent\<close> under its message id when it is sent, back when
  it has to be sent again (\<open>resendingIds\<close>) and leaves when it is answered or acknowledged
  (\<open>ackedIds\<close>). \<open>base::unixtime::mtproto_msg_id\<close> belongs to a library outside the repository: it is
  the argument \<open>draw\<close>, the sequence of ids it gives. The scheduling of other threads appears as the
  list \<open>asks\<close>; timers, logs and locks are left out, every operation is one step.
\<close>

datatype asked = SendAnything int | NeedToResumeAndSend | TryToReceive | ResetDone | ConnectionStateChange int
  | ConnectionInited | BindAnswered "prime list"

record sent_container =
  sc_sent :: int
  sc_messages :: "mtpMsgId list"

record response =
  rs_reply :: "prime list"
  rs_outerMsgId :: mtpMsgId
  rs_requestId :: mtpRequestId

record mtp_session =
  objects :: "nat \<Rightarrow> request_data"
  toSend :: "(mtpRequestId, nat) flat_map"
  haveSent :: "(mtpMsgId, nat) flat_map"
  haveReceived :: "response list"
  resendingIds :: "(mtpMsgId, mtpRequestId) flat_map"
  ackedIds :: "(mtpMsgId, mtpRequestId) flat_map"
  stateAndResendRequests :: "(mtpMsgId, request_data) flat_map"
  sentContainers :: "(mtpMsgId, sent_container) flat_map"
  ackRequestData :: "mtpMsgId list"
  resendRequestData :: "mtpMsgId list"
  stateRequestData :: "mtpMsgId list"
  receivedMessageIds :: received_ids
  sessionId :: "64 word"
  sessionSalt :: "64 word"
  messagesCounter :: "32 word"
  sessionMarkedAsStarted :: bool
  pingId :: "64 word"
  pingIdToSend :: "64 word"
  pingSendAt :: int
  pingMsgId :: mtpMsgId
  bindMsgId :: mtpMsgId
  bindMessageSent :: int
  st_state :: int
  drawn :: nat
  asks :: "asked list"

definition new_mtp_session :: "(nat \<Rightarrow> request_data) \<Rightarrow> mtp_session" where
  "new_mtp_session os =
     \<lparr>objects = os, toSend = [], haveSent = [], haveReceived = [], resendingIds = [], ackedIds = [],
      stateAndResendRequests = [], sentContainers = [], ackRequestData = [], resendRequestData = [],
      stateRequestData = [], receivedMessageIds = [], sessionId = 0, sessionSalt = 0, messagesCounter = 0,
      sessionMarkedAsStarted = False, pingId = 0, pingIdToSend = 0, pingSendAt = 0, pingMsgId = 0,
      bindMsgId = 0, bindMessageSent = 0, st_state = 0, drawn = 0, asks = []\<rparr>"

definition ask :: "asked \<Rightarrow> mtp_session \<Rightarrow> mtp_session" where
  "ask a s = s\<lparr>asks := asks s @ [a]\<rparr>"

definition mtproto_msg_id :: "(nat \<Rightarrow> mtpMsgId) \<Rightarrow> mtp_session \<Rightarrow> mtpMsgId \<times> mtp_session" where
  "mtproto_msg_id draw s = (draw (drawn s), s\<lparr>drawn := Suc (drawn s)\<rparr>)"

definition kAnyId :: mtpRequestId where "kAnyId = -1"

definition kDisconnectedState :: int where "kDisconnectedState = 0"
definition kConnectingState :: int where "kConnectingState = 1"
definition kConnectedState :: int where "kConnectedState = 2"

text \<open>
  \<open>setState(state, ifState)\<close>, \<open>None\<close> for \<open>kUpdateStateAlways\<close>; a negative state also starts the
  retry timer, which belongs to the supervision of the connection.
\<close>

definition setState :: "int \<Rightarrow> int option \<Rightarrow> mtp_session \<Rightarrow> bool \<times> mtp_session" where
  "setState new ifState s =
     (if ifState \<noteq> None \<and> ifState \<noteq> Some (st_state s) then (False, s)
      else if st_state s = new then (False, s)
      else (True, ask (ConnectionStateChange new) (s\<lparr>st_state := new\<rparr>)))"

definition changeSessionId :: "64 word \<Rightarrow> mtp_session \<Rightarrow> mtp_session" where
  "changeSessionId random s =
     s\<lparr>sessionId := random, messagesCounter := 0, sessionMarkedAsStarted := False, ackRequestData := [],
       resendRequestData := [], stateRequestData := [], receivedMessageIds := ids_clear (receivedMessageIds s)\<rparr>"

definition resetSession :: "64 word \<Rightarrow> mtp_session \<Rightarrow> mtp_session" where
  "resetSession random s = ask ResetDone (changeSessionId random s)"

definition nextRequestSeqNumber :: "bool \<Rightarrow> mtp_session \<Rightarrow> 32 word \<times> mtp_session" where
  "nextRequestSeqNumber ack s =
     (messagesCounter s * 2 + (if ack then 1 else 0),
      s\<lparr>messagesCounter := messagesCounter s + (if ack then 1 else 0)\<rparr>)"

definition markSessionAsStarted :: "mtp_session \<Rightarrow> bool \<times> mtp_session" where
  "markSessionAsStarted s =
     (if sessionMarkedAsStarted s then (False, s) else (True, s\<lparr>sessionMarkedAsStarted := True\<rparr>))"

subsection \<open>The main thread\<close>

definition clear_ids :: "request_data \<Rightarrow> request_data" where
  "clear_ids d = d\<lparr>rd_ints := (rd_ints d)[4 := 0, 5 := 0, 6 := 0]\<rparr>"

definition sendPrepared :: "nat \<Rightarrow> int \<Rightarrow> mtp_session \<Rightarrow> mtp_session" where
  "sendPrepared a msCanWait s =
     (let s = s\<lparr>toSend := fm_emplace (rd_requestId (objects s a)) a (toSend s),
                objects := (objects s)(a := clear_ids (objects s a))\<rparr>
      in if msCanWait \<ge> 0 then ask (SendAnything msCanWait) s else s)"

definition cancel :: "mtpRequestId \<Rightarrow> mtpMsgId \<Rightarrow> mtp_session \<Rightarrow> mtp_session" where
  "cancel requestId msgId s =
     (let s = (if requestId \<noteq> 0 then s\<lparr>toSend := fm_erase requestId (toSend s)\<rparr> else s)
      in if msgId \<noteq> 0 then s\<lparr>haveSent := fm_erase msgId (haveSent s)\<rparr> else s)"

subsection \<open>Message ids\<close>

text \<open>
  The loop of \<open>replaceMsgId\<close> draws until an id is not in use. With ids that never repeat it ends
  after as many rounds as there are ids in use, which is the fuel.
\<close>

fun unused_id :: "nat \<Rightarrow> (nat \<Rightarrow> mtpMsgId) \<Rightarrow> (mtpMsgId \<Rightarrow> bool) \<Rightarrow> mtpMsgId \<Rightarrow> nat \<Rightarrow> mtpMsgId \<times> nat" where
  "unused_id 0 draw used newId n = (newId, n)"
| "unused_id (Suc fuel) draw used newId n =
     (if used newId then unused_id fuel draw used (draw n) (Suc n) else (newId, n))"

definition id_used :: "mtp_session \<Rightarrow> mtpMsgId \<Rightarrow> bool" where
  "id_used s i \<longleftrightarrow> map_of (resendingIds s) i \<noteq> None \<or> map_of (ackedIds s) i \<noteq> None \<or> map_of (haveSent s) i \<noteq> None"

definition ids_in_use :: "mtp_session \<Rightarrow> nat" where
  "ids_in_use s = length (resendingIds s) + length (ackedIds s) + length (haveSent s)"

definition rename_key :: "mtpMsgId \<Rightarrow> mtpMsgId \<Rightarrow> (mtpMsgId, 'v) flat_map \<Rightarrow> (mtpMsgId, 'v) flat_map" where
  "rename_key old new m = (case map_of m old of None \<Rightarrow> m | Some v \<Rightarrow> fm_emplace new v (fm_erase old m))"

definition replaceMsgId :: "(nat \<Rightarrow> mtpMsgId) \<Rightarrow> request_data \<Rightarrow> mtpMsgId \<Rightarrow> mtp_session
    \<Rightarrow> mtpMsgId \<times> request_data \<times> mtp_session" where
  "replaceMsgId draw d newId s =
     (let oldMsgId = getMsgId d
      in if oldMsgId = newId then (newId, d, s)
         else let (newId, n) = unused_id (Suc (ids_in_use s)) draw (id_used s) newId (drawn s);
                  s = s\<lparr>drawn := n,
                        resendingIds := rename_key oldMsgId newId (resendingIds s),
                        ackedIds := rename_key oldMsgId newId (ackedIds s),
                        haveSent := rename_key oldMsgId newId (haveSent s),
                        sentContainers := map (\<lambda>(m, c). (m, c\<lparr>sc_messages :=
                          map (\<lambda>i. if i = oldMsgId then newId else i) (sc_messages c)\<rparr>)) (sentContainers s)\<rparr>;
                  (seqNo, s) = nextRequestSeqNumber (needAck d) s
              in (newId, setSeqNo seqNo (setMsgId newId d), s))"

definition prepareToSend :: "(nat \<Rightarrow> mtpMsgId) \<Rightarrow> request_data \<Rightarrow> mtpMsgId \<Rightarrow> bool \<Rightarrow> mtp_session
    \<Rightarrow> mtpMsgId \<times> request_data \<times> mtp_session" where
  "prepareToSend draw d currentLastId forceNewMsgId s =
     (let msgId = getMsgId d
      in if msgId \<noteq> 0 then
           let s = s\<lparr>resendingIds := fm_erase msgId (resendingIds s)\<rparr>
           in if forceNewMsgId \<or> msgId > currentLastId then replaceMsgId draw d currentLastId s
              else (msgId, d, s)
         else let (seqNo, s) = nextRequestSeqNumber (needAck d) s
              in (currentLastId, setSeqNo seqNo (setMsgId currentLastId d), s))"

subsection \<open>Sending again\<close>

definition clearSpecialMsgId :: "mtpMsgId \<Rightarrow> mtp_session \<Rightarrow> mtp_session" where
  "clearSpecialMsgId msgId s =
     (if msgId = pingMsgId s then s\<lparr>pingMsgId := 0, pingId := 0\<rparr>
      else if msgId = bindMsgId s then s\<lparr>bindMsgId := 0\<rparr>
      else s)"

definition again :: "int \<Rightarrow> request_data \<Rightarrow> request_data" where
  "again now d = d\<lparr>rd_lastSentTime := now, rd_forceSendInContainer := True\<rparr>"

definition resend_request :: "int \<Rightarrow> mtpMsgId \<Rightarrow> mtp_session \<Rightarrow> mtp_session" where
  "resend_request now msgId s =
     (case map_of (haveSent s) msgId of
        None \<Rightarrow> s
      | Some a \<Rightarrow>
          (let requestId = rd_requestId (objects s a)
           in s\<lparr>haveSent := fm_erase msgId (haveSent s),
                objects := (objects s)(a := again now (objects s a)),
                resendingIds := fm_emplace msgId requestId (resendingIds s),
                toSend := fm_emplace requestId a (toSend s)\<rparr>))"

text \<open>
  A container is sent again by sending its messages again, which may be containers themselves: the
  fuel is one more than the number of containers, of which every level removes one.
\<close>

primrec resend_fuel :: "nat \<Rightarrow> int \<Rightarrow> int \<Rightarrow> mtpMsgId \<Rightarrow> mtp_session \<Rightarrow> mtp_session" where
  "resend_fuel 0 now msCanWait msgId s = s"
| "resend_fuel (Suc fuel) now msCanWait msgId s =
     (let s = (case map_of (sentContainers s) msgId of
                 Some c \<Rightarrow> fold (resend_fuel fuel now (-1)) (sc_messages c)
                             (s\<lparr>sentContainers := fm_erase msgId (sentContainers s)\<rparr>)
               | None \<Rightarrow> resend_request now msgId s);
          s = clearSpecialMsgId msgId s
      in if msCanWait \<ge> 0 then ask (SendAnything msCanWait) s else s)"

definition resend :: "int \<Rightarrow> int \<Rightarrow> mtpMsgId \<Rightarrow> mtp_session \<Rightarrow> mtp_session" where
  "resend now msCanWait msgId s = resend_fuel (Suc (length (sentContainers s))) now msCanWait msgId s"

definition resend_taken :: "int \<Rightarrow> mtpMsgId \<times> nat \<Rightarrow> mtp_session \<Rightarrow> mtp_session" where
  "resend_taken now = (\<lambda>(msgId, a) s.
     let requestId = rd_requestId (objects s a)
     in s\<lparr>objects := (objects s)(a := again now (objects s a)),
          resendingIds := fm_emplace msgId requestId (resendingIds s),
          toSend := fm_emplace requestId a (toSend s)\<rparr>)"

definition resendAll :: "int \<Rightarrow> mtp_session \<Rightarrow> mtp_session" where
  "resendAll now s =
     ask (SendAnything 0) (fold (resend_taken now) (haveSent s) (s\<lparr>haveSent := []\<rparr>))"

definition kSentContainerLives :: int where "kSentContainerLives = 600 * 1000"
definition kCheckSentRequestTimeout :: int where "kCheckSentRequestTimeout = 10 * 1000"
definition kSendStateRequestWaiting :: int where "kSendStateRequestWaiting = 1000"

text \<open>One old container after the other; a request in none of the maps is left alone.\<close>

definition clear_old_one :: "int \<Rightarrow> mtpMsgId \<times> sent_container \<Rightarrow> bool \<times> mtp_session \<Rightarrow> bool \<times> mtp_session" where
  "clear_old_one now = (\<lambda>(m, c) (resent, s).
     if sc_sent c \<le> now - kSentContainerLives
     then (resent \<or> sc_messages c \<noteq> [],
           fold (resend now (-1)) (sc_messages c) (s\<lparr>sentContainers := fm_erase m (sentContainers s)\<rparr>))
     else (resent, s))"

definition clearOldContainers :: "int \<Rightarrow> mtp_session \<Rightarrow> mtp_session" where
  "clearOldContainers now s =
     (let (resent, s) = fold (clear_old_one now) (sentContainers s) (False, s)
      in if resent then ask NeedToResumeAndSend s else s)"

text \<open>
  The ids of requests that have waited too long for a word from the server; while a key waits to be
  bound for as long, the connection is restarted instead.
\<close>

definition check_sent_one :: "int \<Rightarrow> mtpMsgId \<times> nat \<Rightarrow> bool \<times> mtp_session \<Rightarrow> bool \<times> mtp_session" where
  "check_sent_one now = (\<lambda>(msgId, a) (requesting, s).
     if rd_lastSentTime (objects s a) \<le> now - kCheckSentRequestTimeout
     then (requesting \<or> msgId \<notin> set (stateRequestData s),
           s\<lparr>objects := (objects s)(a := (objects s a)\<lparr>rd_lastSentTime := now\<rparr>),
             stateRequestData := flat_insert msgId (stateRequestData s)\<rparr>)
     else (requesting, s))"

definition checkSentRequests :: "int \<Rightarrow> mtp_session \<Rightarrow> mtp_session" where
  "checkSentRequests now s =
     (if bindMsgId s \<noteq> 0 \<and> bindMessageSent s < now - kCheckSentRequestTimeout then s
      else let (requesting, s) = fold (check_sent_one now) (haveSent s) (False, s)
           in if requesting then ask (SendAnything kSendStateRequestWaiting) s else s)"

subsection \<open>Acknowledgements and answers\<close>

text \<open>One id of \<open>requestsAcked\<close>; the second component are the ids of a container.\<close>

definition ack_one :: "(mtpRequestId \<Rightarrow> bool) \<Rightarrow> bool \<Rightarrow> mtpMsgId \<Rightarrow> mtp_session \<Rightarrow> mtp_session \<times> mtpMsgId list" where
  "ack_one hasCallback byResponse msgId s =
     (case map_of (sentContainers s) msgId of
        Some c \<Rightarrow> (s\<lparr>sentContainers := fm_erase msgId (sentContainers s)\<rparr>, sc_messages c)
      | None \<Rightarrow>
          (if map_of (stateAndResendRequests s) msgId \<noteq> None
           then (s\<lparr>stateAndResendRequests := fm_erase msgId (stateAndResendRequests s)\<rparr>, [])
           else
             (case map_of (haveSent s) msgId of
                Some a \<Rightarrow>
                  (let requestId = rd_requestId (objects s a)
                   in if \<not> byResponse \<and> hasCallback requestId then (s, [])
                      else (s\<lparr>haveSent := fm_erase msgId (haveSent s),
                              ackedIds := fm_emplace msgId requestId (ackedIds s)\<rparr>, []))
              | None \<Rightarrow>
                  (case map_of (resendingIds s) msgId of
                     Some requestId \<Rightarrow>
                       (if \<not> byResponse \<and> hasCallback requestId then (s, [])
                        else let s = s\<lparr>resendingIds := fm_erase msgId (resendingIds s)\<rparr>
                             in (case map_of (toSend s) requestId of
                                   None \<Rightarrow> (s, [])
                                 | Some a \<Rightarrow>
                                     (s\<lparr>ackedIds := fm_emplace msgId (rd_requestId (objects s a)) (ackedIds s),
                                        toSend := fm_erase requestId (toSend s)\<rparr>, [])))
                   | None \<Rightarrow> (s, [])))))"

fun ack_pass :: "(mtpRequestId \<Rightarrow> bool) \<Rightarrow> bool \<Rightarrow> mtpMsgId list \<Rightarrow> mtp_session \<Rightarrow> mtp_session \<times> mtpMsgId list" where
  "ack_pass hasCallback byResponse [] s = (s, [])"
| "ack_pass hasCallback byResponse (msgId # ids) s =
     (let r = ack_one hasCallback byResponse msgId s; rest = ack_pass hasCallback byResponse ids (fst r)
      in (fst rest, snd r @ snd rest))"

definition trim_acked :: "mtp_session \<Rightarrow> mtp_session" where
  "trim_acked s = s\<lparr>ackedIds := fm_trim kIdsBufferSize (ackedIds s)\<rparr>"

lemma ack_one_containers:
  "length (sentContainers (fst (ack_one hc b m s))) \<le> length (sentContainers s)
    \<and> (snd (ack_one hc b m s) \<noteq> [] \<longrightarrow> length (sentContainers (fst (ack_one hc b m s))) < length (sentContainers s))"
proof (cases "map_of (sentContainers s) m")
  case None
  then show ?thesis by (simp add: ack_one_def Let_def split: option.splits)
next
  case (Some c)
  then have "(m, c) \<in> set (sentContainers s)" by (rule map_of_SomeD)
  then have "length (fm_erase m (sentContainers s)) < length (sentContainers s)"
    unfolding fm_erase_def by (intro length_filter_less) auto
  with Some show ?thesis by (simp add: ack_one_def)
qed

lemma ack_pass_containers:
  "length (sentContainers (fst (ack_pass hc b ids s))) \<le> length (sentContainers s)
    \<and> (snd (ack_pass hc b ids s) \<noteq> [] \<longrightarrow> length (sentContainers (fst (ack_pass hc b ids s))) < length (sentContainers s))"
proof (induction ids arbitrary: s)
  case (Cons i ids)
  show ?case using Cons [of "fst (ack_one hc b i s)"] ack_one_containers [of hc b i s] by (auto simp: Let_def)
qed simp

function requestsAcked :: "(mtpRequestId \<Rightarrow> bool) \<Rightarrow> bool \<Rightarrow> mtpMsgId list \<Rightarrow> mtp_session \<Rightarrow> mtp_session" where
  "requestsAcked hasCallback byResponse ids s =
     (let r = ack_pass hasCallback byResponse ids s; s' = trim_acked (fst r)
      in if snd r \<noteq> [] then requestsAcked hasCallback False (snd r) s' else s')"
  by pat_completeness auto
termination
  by (relation "measure (\<lambda>(hc, b, ids, s). length (sentContainers s))")
    (use ack_pass_containers in \<open>auto simp: trim_acked_def\<close>)

declare requestsAcked.simps [simp del]

definition wasSent :: "mtpMsgId \<Rightarrow> mtp_session \<Rightarrow> mtpRequestId" where
  "wasSent msgId s =
     (if msgId = pingMsgId s \<or> msgId = bindMsgId s then kAnyId
      else case map_of (resendingIds s) msgId of
        Some requestId \<Rightarrow> requestId
      | None \<Rightarrow>
         (case map_of (ackedIds s) msgId of
            Some requestId \<Rightarrow> requestId
          | None \<Rightarrow>
             (if map_of (sentContainers s) msgId \<noteq> None then kAnyId
              else case map_of (haveSent s) msgId of
                None \<Rightarrow> 0
              | Some a \<Rightarrow> if rd_requestId (objects s a) \<noteq> 0 then rd_requestId (objects s a) else kAnyId)))"

definition state_of_one :: "int \<Rightarrow> mtpMsgId \<times> byte \<Rightarrow> mtpMsgId list \<times> mtp_session \<Rightarrow> mtpMsgId list \<times> mtp_session" where
  "state_of_one now = (\<lambda>(requestMsgId, state) (acked, s).
     if map_of (haveSent s) requestMsgId = None
     then (if map_of (resendingIds s) requestMsgId \<noteq> None \<and> state AND 0x07 = 0x04
           then (acked @ [requestMsgId], s) else (acked, s))
     else if state AND 0x07 \<noteq> 0x04 then (acked, resend now 10 requestMsgId s)
     else (acked @ [requestMsgId], s))"

definition handleMsgsStates :: "(mtpRequestId \<Rightarrow> bool) \<Rightarrow> int \<Rightarrow> mtpMsgId list \<Rightarrow> byte list \<Rightarrow> mtp_session \<Rightarrow> mtp_session" where
  "handleMsgsStates hasCallback now ids states s =
     (if ids = [] then s
      else if length states \<noteq> length ids then s
      else let (acked, s) = fold (state_of_one now) (zip ids states) ([], s)
           in requestsAcked hasCallback False acked s)"

end
