(* ===== verification/Session_Send.thy ===== *)
theory Session_Send
  imports Session_Requests
begin

text \<open>
  Sending (\<open>SessionPrivate::tryToSend\<close> with \<open>WrapInvokeAfter\<close> and \<open>placeToContainer\<close>,
  \<open>mtproto/session_private.cpp\<close>): what waits, together with pings, acknowledgements and other
  service messages, goes out alone or in one container. The service messages and the wrapper of the
  first request of a connection are serialized by generated code: their ints are arguments
  (\<open>scheme\<close>, \<open>en_init\<close>). What surrounds the session when it sends is \<open>send_env\<close>.
\<close>

record scheme =
  tl_ping :: "64 word \<Rightarrow> prime list"
  tl_ping_delay_disconnect :: "64 word \<Rightarrow> prime list"
  tl_msgs_ack :: "mtpMsgId list \<Rightarrow> prime list"
  tl_msg_resend_req :: "mtpMsgId list \<Rightarrow> prime list"
  tl_msgs_state_req :: "mtpMsgId list \<Rightarrow> prime list"
  tl_http_wait :: "prime list"
  tl_bind :: "mtpMsgId \<Rightarrow> prime list"

text \<open>\<open>en_keyCreator\<close> is \<open>None\<close> without a key creator, else whether it is ready to bind.\<close>

record send_env =
  en_connection :: bool
  en_key :: bool
  en_connectionInited :: bool
  en_keyCreator :: "bool option"
  en_isMainSession :: bool
  en_usingHttpWait :: bool
  en_now :: int
  en_ping :: "64 word"
  en_init :: "prime list"

definition kPingSendAfter :: int where "kPingSendAfter = 30 * 1000"
definition kCutContainerOnSize :: nat where "kCutContainerOnSize = 16 * 1024"
definition mtpc_invokeAfterMsg :: prime where "mtpc_invokeAfterMsg = 0xcb9f372d"

subsection \<open>Service messages\<close>

record service =
  sv_ping :: "request_data option"
  sv_ack :: "request_data option"
  sv_resend :: "request_data option"
  sv_state :: "request_data option"
  sv_httpWait :: "request_data option"
  sv_bind :: "request_data option"

definition no_service :: service where
  "no_service = \<lparr>sv_ping = None, sv_ack = None, sv_resend = None, sv_state = None, sv_httpWait = None, sv_bind = None\<rparr>"

definition take_ping :: "scheme \<Rightarrow> send_env \<Rightarrow> bool \<Rightarrow> service \<times> mtp_session \<Rightarrow> service \<times> mtp_session" where
  "take_ping sch env sendOnlyFirstPing = (\<lambda>(v, s).
     if pingIdToSend s \<noteq> 0
     then (v\<lparr>sv_ping := Some (Serialize (en_now env)
             (if sendOnlyFirstPing \<or> \<not> en_isMainSession env then tl_ping sch (pingIdToSend s)
              else tl_ping_delay_disconnect sch (pingIdToSend s)))\<rparr>,
           s\<lparr>pingSendAt := en_now env + kPingSendAfter, pingId := pingIdToSend s, pingIdToSend := 0\<rparr>)
     else (v, s))"

definition take_ack :: "scheme \<Rightarrow> send_env \<Rightarrow> service \<times> mtp_session \<Rightarrow> service \<times> mtp_session" where
  "take_ack sch env = (\<lambda>(v, s).
     if ackRequestData s \<noteq> []
     then (v\<lparr>sv_ack := Some (Serialize (en_now env) (tl_msgs_ack sch (ackRequestData s)))\<rparr>, s\<lparr>ackRequestData := []\<rparr>)
     else (v, s))"

definition take_resend :: "scheme \<Rightarrow> send_env \<Rightarrow> service \<times> mtp_session \<Rightarrow> service \<times> mtp_session" where
  "take_resend sch env = (\<lambda>(v, s).
     if resendRequestData s \<noteq> []
     then (v\<lparr>sv_resend := Some (Serialize (en_now env) (tl_msg_resend_req sch (resendRequestData s)))\<rparr>,
           s\<lparr>resendRequestData := []\<rparr>)
     else (v, s))"

definition take_state :: "scheme \<Rightarrow> send_env \<Rightarrow> service \<times> mtp_session \<Rightarrow> service \<times> mtp_session" where
  "take_state sch env = (\<lambda>(v, s).
     if stateRequestData s \<noteq> []
     then (v\<lparr>sv_state := Some (Serialize (en_now env) (tl_msgs_state_req sch (stateRequestData s)))\<rparr>,
           s\<lparr>stateRequestData := []\<rparr>)
     else (v, s))"

definition take_http_wait :: "scheme \<Rightarrow> send_env \<Rightarrow> service \<times> mtp_session \<Rightarrow> service \<times> mtp_session" where
  "take_http_wait sch env = (\<lambda>(v, s).
     if en_usingHttpWait env then (v\<lparr>sv_httpWait := Some (Serialize (en_now env) (tl_http_wait sch))\<rparr>, s) else (v, s))"

text \<open>The request that binds a key carries its own message id, which it also has inside.\<close>

definition take_bind :: "(nat \<Rightarrow> mtpMsgId) \<Rightarrow> scheme \<Rightarrow> send_env \<Rightarrow> service \<times> mtp_session \<Rightarrow> service \<times> mtp_session" where
  "take_bind draw sch env = (\<lambda>(v, s).
     if bindMsgId s = 0 \<and> en_keyCreator env = Some True
     then let (i, s) = mtproto_msg_id draw s;
              d = setMsgId i (Serialize (en_now env) (tl_bind sch i));
              (seqNo, s) = nextRequestSeqNumber (needAck d) s
          in (v\<lparr>sv_bind := Some (setSeqNo seqNo d)\<rparr>, s)
     else (v, s))"

definition collect_service :: "(nat \<Rightarrow> mtpMsgId) \<Rightarrow> scheme \<Rightarrow> send_env \<Rightarrow> bool \<Rightarrow> mtp_session \<Rightarrow> service \<times> mtp_session" where
  "collect_service draw sch env sendOnlyFirstPing s =
     (let r = take_ping sch env sendOnlyFirstPing (no_service, s)
      in if sendOnlyFirstPing then r
         else take_bind draw sch env (take_http_wait sch env (take_state sch env (take_resend sch env (take_ack sch env r)))))"

subsection \<open>Requests\<close>

text \<open>How many requests go into one container: the one that reaches the limit is the last.\<close>

fun cut_count :: "nat \<Rightarrow> nat list \<Rightarrow> nat" where
  "cut_count combined [] = 0"
| "cut_count combined (n # ns) =
     (if combined + n \<ge> kCutContainerOnSize then 1 else Suc (cut_count (combined + n) ns))"

definition bump :: "nat \<Rightarrow> nat \<Rightarrow> prime list \<Rightarrow> prime list" where
  "bump i bytes xs = xs[i := xs ! i + word_of_nat bytes]"

definition overwrite :: "nat \<Rightarrow> prime list \<Rightarrow> prime list \<Rightarrow> prime list" where
  "overwrite i ys xs = take i xs @ ys @ drop (i + length ys) xs"

text \<open>\<open>afterId\<close> is the message id of \<open>from->after\<close>.\<close>

definition WrapInvokeAfter :: "mtpMsgId \<Rightarrow> (mtpMsgId, nat) flat_map \<Rightarrow> nat \<Rightarrow> prime list \<Rightarrow> nat \<Rightarrow> prime list \<Rightarrow> prime list" where
  "WrapInvokeAfter afterId have skipBeforeRequest from lenInInts to =
     (let sz = length to; headlen = 4;
          header = take headlen (drop 4 from);
          request = take lenInInts (drop (4 + headlen) from);
          gap = replicate skipBeforeRequest 0
      in if afterId = 0 \<or> map_of have afterId = None then to @ header @ gap @ request
         else let to = to @ header @ gap @ [mtpc_invokeAfterMsg, low_int afterId, high_int afterId] @ request;
                  to = bump (sz + 3) (3 * 4) to
              in if sz + 3 \<noteq> 7 then bump 7 (3 * 4) to else to)"

record container =
  cn_ints :: "prime list"
  cn_bigMsgId :: mtpMsgId
  cn_messages :: "mtpMsgId list"
  cn_need :: bool

definition after_id :: "mtp_session \<Rightarrow> nat \<Rightarrow> mtpMsgId" where
  "after_id s b = getMsgId (objects s b)"

definition message_ints :: "request_data \<Rightarrow> prime list" where
  "message_ints d = take (messageSize d) (drop 4 (rd_ints d))"

definition next_big :: "(nat \<Rightarrow> mtpMsgId) \<Rightarrow> mtpMsgId \<Rightarrow> container \<times> mtp_session \<Rightarrow> container \<times> mtp_session" where
  "next_big draw msgId = (\<lambda>(c, s).
     if msgId \<ge> cn_bigMsgId c
     then let (i, s) = mtproto_msg_id draw s in (c\<lparr>cn_bigMsgId := i\<rparr>, s)
     else (c, s))"

definition placeToContainer :: "(nat \<Rightarrow> mtpMsgId) \<Rightarrow> bool \<Rightarrow> request_data \<Rightarrow> container \<times> mtp_session
    \<Rightarrow> mtpMsgId \<times> request_data \<times> container \<times> mtp_session" where
  "placeToContainer draw forceNewMsgId req = (\<lambda>(c, s).
     let (msgId, req, s) = prepareToSend draw req (cn_bigMsgId c) forceNewMsgId s;
         (c, s) = next_big draw msgId (c, s)
     in (msgId, req, c\<lparr>cn_ints := cn_ints c @ message_ints req\<rparr>, s))"

text \<open>The ints of one request in a container, wrapped when it follows another or opens the connection.\<close>

definition place_ints :: "send_env \<Rightarrow> mtp_session \<Rightarrow> request_data \<Rightarrow> prime list \<Rightarrow> prime list" where
  "place_ints env s req ints =
     (let n = length (en_init env);
          reqNeedsLayer = (if \<not> en_connectionInited env \<and> rd_needsLayer req then length ints else 0)
      in if rd_requestId req = 0 \<or> \<not> needAck req then ints @ message_ints req
         else case rd_after req of
           Some b \<Rightarrow>
             (let ints = WrapInvokeAfter (after_id s b) (haveSent s) (if reqNeedsLayer \<noteq> 0 then n else 0)
                           (rd_ints req) (body_ints req) ints
              in if reqNeedsLayer \<noteq> 0
                 then bump (reqNeedsLayer + 3) (4 * n) (overwrite (reqNeedsLayer + 4) (en_init env) ints)
                 else ints)
         | None \<Rightarrow>
             (if reqNeedsLayer \<noteq> 0
              then bump (reqNeedsLayer + 3) (4 * n) (ints @ take 4 (drop 4 (rd_ints req)) @ en_init env @ request_body req)
              else ints @ message_ints req))"

definition place_request :: "(nat \<Rightarrow> mtpMsgId) \<Rightarrow> send_env \<Rightarrow> bool \<Rightarrow> mtpRequestId \<times> nat
    \<Rightarrow> container \<times> mtp_session \<Rightarrow> container \<times> mtp_session" where
  "place_request draw env forceNewMsgId = (\<lambda>(requestId, a) (c, s).
     let (msgId, req, s) = prepareToSend draw (objects s a) (cn_bigMsgId c) forceNewMsgId s;
         s = s\<lparr>objects := (objects s)(a := req)\<rparr>;
         (c, s) = next_big draw msgId (c, s);
         c = c\<lparr>cn_ints := place_ints env s req (cn_ints c)\<rparr>
     in if rd_requestId req = 0 then (c, s)
        else if needAck req
        then (c\<lparr>cn_messages := cn_messages c @ [msgId], cn_need := True\<rparr>,
              s\<lparr>objects := (objects s)(a := req\<lparr>rd_lastSentTime := en_now env\<rparr>),
                haveSent := fm_emplace msgId a (haveSent s)\<rparr>)
        else (c, s\<lparr>ackedIds := fm_emplace msgId (rd_requestId req) (ackedIds s)\<rparr>))"

definition place_service :: "(nat \<Rightarrow> mtpMsgId) \<Rightarrow> bool \<Rightarrow> request_data option
    \<Rightarrow> (mtpMsgId \<Rightarrow> request_data \<Rightarrow> container \<times> mtp_session \<Rightarrow> container \<times> mtp_session)
    \<Rightarrow> container \<times> mtp_session \<Rightarrow> container \<times> mtp_session" where
  "place_service draw forceNewMsgId req note_id cs =
     (case req of None \<Rightarrow> cs
      | Some d \<Rightarrow> let (msgId, d, cs) = placeToContainer draw forceNewMsgId d cs in note_id msgId d cs)"

definition note_bind :: "send_env \<Rightarrow> mtpMsgId \<Rightarrow> request_data \<Rightarrow> container \<times> mtp_session \<Rightarrow> container \<times> mtp_session" where
  "note_bind env msgId d = (\<lambda>(c, s).
     (c\<lparr>cn_messages := cn_messages c @ [msgId], cn_need := True\<rparr>,
      s\<lparr>bindMsgId := msgId, bindMessageSent := en_now env\<rparr>))"

definition note_ping :: "mtpMsgId \<Rightarrow> request_data \<Rightarrow> container \<times> mtp_session \<Rightarrow> container \<times> mtp_session" where
  "note_ping msgId d = (\<lambda>(c, s).
     (c\<lparr>cn_messages := cn_messages c @ [msgId], cn_need := True\<rparr>, s\<lparr>pingMsgId := msgId\<rparr>))"

definition note_state :: "mtpMsgId \<Rightarrow> request_data \<Rightarrow> container \<times> mtp_session \<Rightarrow> container \<times> mtp_session" where
  "note_state msgId d = (\<lambda>(c, s).
     (c\<lparr>cn_need := True\<rparr>, s\<lparr>stateAndResendRequests := fm_emplace msgId d (stateAndResendRequests s)\<rparr>))"

definition note_nothing :: "mtpMsgId \<Rightarrow> request_data \<Rightarrow> container \<times> mtp_session \<Rightarrow> container \<times> mtp_session" where
  "note_nothing msgId d cs = cs"

record sending =
  sn_packet :: "request_data option"
  sn_shared :: "nat option"
  sn_needAnyResponse :: bool
  sn_someSkipped :: bool

definition no_sending :: sending where
  "no_sending = \<lparr>sn_packet = None, sn_shared = None, sn_needAnyResponse = False, sn_someSkipped = False\<rparr>"

definition option_size :: "request_data option \<Rightarrow> nat" where
  "option_size d = (case d of None \<Rightarrow> 0 | Some d \<Rightarrow> messageSize d)"

definition container_size :: "send_env \<Rightarrow> service \<Rightarrow> request_data list \<Rightarrow> nat" where
  "container_size env v reqs =
     2 + option_size (sv_ping v) + option_size (sv_ack v) + option_size (sv_resend v) + option_size (sv_state v)
       + option_size (sv_httpWait v) + option_size (sv_bind v)
       + sum_list (map (\<lambda>d. messageSize d
           + (if \<not> en_connectionInited env \<and> rd_needsLayer d then length (en_init env) else 0)) reqs)"

text \<open>Everything in a container.\<close>

definition send_container :: "(nat \<Rightarrow> mtpMsgId) \<Rightarrow> send_env \<Rightarrow> service \<Rightarrow> bool \<Rightarrow> nat \<Rightarrow> nat \<Rightarrow> mtp_session
    \<Rightarrow> sending \<times> mtp_session" where
  "send_container draw env v forceNewMsgId sendingCount totalSending s =
     (let range = take sendingCount (toSend s);
          whole = Prepare (en_now env) (container_size env v (map (\<lambda>(r, a). objects s a) range));
          (big, s) = mtproto_msg_id draw s;
          c = \<lparr>cn_ints = rd_ints whole @ [mtpc_msg_container, word_of_nat totalSending], cn_bigMsgId = big,
               cn_messages = [], cn_need = False\<rparr>;
          cs = place_service draw False (sv_bind v) (note_bind env) (c, s);
          cs = place_service draw forceNewMsgId (sv_ping v) note_ping cs;
          cs = fold (place_request draw env forceNewMsgId) range cs;
          cs = (fst cs, (snd cs)\<lparr>toSend := drop sendingCount (toSend (snd cs))\<rparr>);
          cs = place_service draw forceNewMsgId (sv_state v) note_state cs;
          cs = place_service draw forceNewMsgId (sv_resend v) note_state cs;
          cs = place_service draw forceNewMsgId (sv_ack v) note_nothing cs;
          (c, s) = place_service draw forceNewMsgId (sv_httpWait v) note_nothing cs;
          (i, whole, s) = prepareToSend draw (whole\<lparr>rd_ints := cn_ints c\<rparr>) (cn_bigMsgId c) forceNewMsgId s
      in (\<lparr>sn_packet = Some whole, sn_shared = None, sn_needAnyResponse = cn_need c, sn_someSkipped = False\<rparr>,
          s\<lparr>sentContainers := fm_emplace i \<lparr>sc_sent = en_now env, sc_messages = cn_messages c\<rparr> (sentContainers s)\<rparr>))"

text \<open>A service message alone.\<close>

definition send_service :: "(nat \<Rightarrow> mtpMsgId) \<Rightarrow> send_env \<Rightarrow> service \<Rightarrow> bool \<Rightarrow> request_data \<Rightarrow> mtp_session
    \<Rightarrow> sending \<times> mtp_session" where
  "send_service draw env v forceNewMsgId d s =
     (let (i, s) = mtproto_msg_id draw s;
          (msgId, d, s) = prepareToSend draw d i (forceNewMsgId \<and> sv_bind v = None) s;
          s = (if sv_bind v \<noteq> None then s\<lparr>bindMsgId := msgId, bindMessageSent := en_now env\<rparr>
               else if sv_ping v \<noteq> None then s\<lparr>pingMsgId := msgId\<rparr>
               else if sv_state v \<noteq> None \<or> sv_resend v \<noteq> None
               then s\<lparr>stateAndResendRequests := fm_emplace msgId d (stateAndResendRequests s)\<rparr>
               else s)
      in (\<lparr>sn_packet = Some d, sn_shared = None,
           sn_needAnyResponse = (sv_bind v \<noteq> None \<or> sv_ping v \<noteq> None \<or> sv_state v \<noteq> None \<or> sv_resend v \<noteq> None),
           sn_someSkipped = False\<rparr>, s))"

definition wrap_after :: "mtp_session \<Rightarrow> send_env \<Rightarrow> nat \<Rightarrow> request_data \<Rightarrow> request_data" where
  "wrap_after s env b d =
     (let wrapped = Prepare (en_now env) (body_ints d)
      in wrapped\<lparr>rd_ints := WrapInvokeAfter (after_id s b) (haveSent s) 0 (rd_ints d) (body_ints d) (take 4 (rd_ints d))\<rparr>)"

definition wrap_layer :: "send_env \<Rightarrow> request_data \<Rightarrow> request_data" where
  "wrap_layer env d =
     (let n = body_ints d; wrapped = Prepare (en_now env) (n + length (en_init env))
      in wrapped\<lparr>rd_ints := overwrite 0 (take 7 (rd_ints d)) (rd_ints wrapped) @ en_init env
                             @ take n (drop 8 (rd_ints d))\<rparr>)"

text \<open>A request alone. Without a wrapper it is the shared object itself that is sent.\<close>

definition send_single :: "(nat \<Rightarrow> mtpMsgId) \<Rightarrow> send_env \<Rightarrow> bool \<Rightarrow> nat \<Rightarrow> mtp_session \<Rightarrow> sending \<times> mtp_session" where
  "send_single draw env forceNewMsgId a s =
     (let s = s\<lparr>toSend := drop 1 (toSend s)\<rparr>;
          (i, s) = mtproto_msg_id draw s;
          (msgId, d, s) = prepareToSend draw (objects s a) i forceNewMsgId s;
          s = s\<lparr>objects := (objects s)(a := d)\<rparr>
      in if rd_requestId d = 0
         then (no_sending\<lparr>sn_packet := Some d, sn_shared := Some a\<rparr>, s)
         else if \<not> needAck d
         then (no_sending\<lparr>sn_packet := Some d, sn_shared := Some a\<rparr>,
               s\<lparr>ackedIds := fm_emplace msgId (rd_requestId d) (ackedIds s)\<rparr>)
         else let d = d\<lparr>rd_lastSentTime := en_now env\<rparr>;
                  s = s\<lparr>objects := (objects s)(a := d), haveSent := fm_emplace msgId a (haveSent s)\<rparr>;
                  layer = (\<not> en_connectionInited env \<and> rd_needsLayer d);
                  packet = (case rd_after d of None \<Rightarrow> d | Some b \<Rightarrow> wrap_after s env b d);
                  packet = (if layer then wrap_layer env packet else packet)
              in (\<lparr>sn_packet = Some packet, sn_shared = (if rd_after d = None \<and> \<not> layer then Some a else None),
                   sn_needAnyResponse = True, sn_someSkipped = False\<rparr>, s))"

definition is_some :: "'a option \<Rightarrow> nat" where
  "is_some x = (case x of None \<Rightarrow> 0 | Some _ \<Rightarrow> 1)"

definition service_count :: "service \<Rightarrow> nat" where
  "service_count v = is_some (sv_ping v) + is_some (sv_ack v) + is_some (sv_resend v) + is_some (sv_state v)
     + is_some (sv_httpWait v) + is_some (sv_bind v)"

definition first_service :: "service \<Rightarrow> request_data option" where
  "first_service v =
     (case sv_ping v of Some d \<Rightarrow> Some d | None \<Rightarrow>
      (case sv_ack v of Some d \<Rightarrow> Some d | None \<Rightarrow>
       (case sv_resend v of Some d \<Rightarrow> Some d | None \<Rightarrow>
        (case sv_state v of Some d \<Rightarrow> Some d | None \<Rightarrow>
         (case sv_httpWait v of Some d \<Rightarrow> Some d | None \<Rightarrow> sv_bind v)))))"

definition send_prepared_range :: "(nat \<Rightarrow> mtpMsgId) \<Rightarrow> send_env \<Rightarrow> service \<Rightarrow> bool \<Rightarrow> bool \<Rightarrow> mtp_session
    \<Rightarrow> sending \<times> mtp_session" where
  "send_prepared_range draw env v sendAll forceNewMsgId s =
     (let queue = (if sendAll then toSend s else []);
          sendingCount = cut_count 0 (map (\<lambda>(r, a). length (rd_ints (objects s a))) queue);
          totalSending = sendingCount + service_count v;
          (r, s) =
            (if totalSending = 0 then (no_sending, s)
             else case first_service v of
               Some d \<Rightarrow>
                 (if totalSending = 1 \<and> \<not> rd_forceSendInContainer d then send_service draw env v forceNewMsgId d s
                  else send_container draw env v forceNewMsgId sendingCount totalSending s)
             | None \<Rightarrow>
                 (let a = snd (hd queue)
                  in if totalSending = 1 \<and> \<not> rd_forceSendInContainer (objects s a)
                     then send_single draw env forceNewMsgId a s
                     else send_container draw env v forceNewMsgId sendingCount totalSending s))
      in (r\<lparr>sn_someSkipped := (sendingCount < length queue)\<rparr>, s))"

definition tryToSend :: "(nat \<Rightarrow> mtpMsgId) \<Rightarrow> scheme \<Rightarrow> send_env \<Rightarrow> mtp_session \<Rightarrow> sending \<times> mtp_session" where
  "tryToSend draw sch env s =
     (let sendOnlyFirstPing = (st_state s \<noteq> kConnectedState);
          sendAll = (\<not> sendOnlyFirstPing \<and> en_keyCreator env = None)
      in if \<not> en_connection env \<or> \<not> en_key env \<or> sendOnlyFirstPing \<and> pingIdToSend s = 0 then (no_sending, s)
         else let s = (if en_isMainSession env \<and> \<not> sendOnlyFirstPing \<and> pingIdToSend s = 0 \<and> pingId s = 0
                          \<and> pingSendAt s \<le> en_now env
                       then s\<lparr>pingIdToSend := en_ping env\<rparr> else s);
                  (forceNewMsgId, s) = (if sendAll then markSessionAsStarted s else (False, s));
                  (v, s) = collect_service draw sch env sendOnlyFirstPing s
              in send_prepared_range draw env v sendAll forceNewMsgId s)"

text \<open>Padding is added to the packet itself, so to the shared object when that is what is sent.\<close>

definition sendSecureRequest :: "byte \<Rightarrow> (nat \<Rightarrow> prime) \<Rightarrow> sending \<Rightarrow> mtp_session \<Rightarrow> mtp_session" where
  "sendSecureRequest random fill r s =
     (case (sn_packet r, sn_shared r) of
        (Some d, Some a) \<Rightarrow>
          (let padded = (case secure_ints random fill (sessionSalt s) (sessionId s) d of
                 Some e \<Rightarrow> e | None \<Rightarrow> addPadding random fill False d)
           in s\<lparr>objects := (objects s)(a := padded)\<rparr>)
      | _ \<Rightarrow> s)"

end
