(* ===== verification/Session_Invariant.thy ===== *)
theory Session_Invariant
  imports Session_Send
begin

text \<open>
  Where a request of a session is: the invariant that ties the maps of \<open>Session_Requests\<close> and the
  objects together, for every operation, and the set of requests a session still has to deliver.
  The invariant is stated over the maps alone, because \<open>tryToSend\<close> erases what it sent from
  \<open>toSend\<close> only at the end.
\<close>

abbreviation drawn_ids :: "(nat \<Rightarrow> mtpMsgId) \<Rightarrow> nat \<Rightarrow> mtpMsgId set" where
  "drawn_ids draw n \<equiv> draw ` {..<n}"

definition waiting_one :: "mtpMsgId set \<Rightarrow> request_data \<Rightarrow> mtpRequestId \<Rightarrow> bool" where
  "waiting_one ids d r \<longleftrightarrow> rd_requestId d = r \<and> r \<noteq> 0 \<and> request_ok d \<and> (getMsgId d = 0 \<or> getMsgId d \<in> ids)"

definition sent_one :: "mtpMsgId set \<Rightarrow> request_data \<Rightarrow> mtpMsgId \<Rightarrow> bool" where
  "sent_one ids d m \<longleftrightarrow> getMsgId d = m \<and> m \<noteq> 0 \<and> m \<in> ids \<and> rd_requestId d \<noteq> 0 \<and> request_ok d"

definition waiting_ok :: "mtpMsgId set \<Rightarrow> (nat \<Rightarrow> request_data) \<Rightarrow> (mtpRequestId, nat) flat_map \<Rightarrow> bool" where
  "waiting_ok ids os ts \<longleftrightarrow> fm_ok ts
     \<and> (\<forall>r a. (r, a) \<in> set ts \<longrightarrow> waiting_one ids (os a) r)
     \<and> (\<forall>r a r' a'. (r, a) \<in> set ts \<longrightarrow> (r', a') \<in> set ts \<longrightarrow> getMsgId (os a) = getMsgId (os a')
          \<longrightarrow> getMsgId (os a) \<noteq> 0 \<longrightarrow> r = r')"

definition sent_ok :: "mtpMsgId set \<Rightarrow> (nat \<Rightarrow> request_data) \<Rightarrow> (mtpMsgId, nat) flat_map \<Rightarrow> bool" where
  "sent_ok ids os hs \<longleftrightarrow> fm_ok hs
     \<and> (\<forall>m a. (m, a) \<in> set hs \<longrightarrow> sent_one ids (os a) m)
     \<and> (\<forall>m a m' a'. (m, a) \<in> set hs \<longrightarrow> (m', a') \<in> set hs \<longrightarrow> rd_requestId (os a) = rd_requestId (os a') \<longrightarrow> m = m')"

definition apart :: "(nat \<Rightarrow> request_data) \<Rightarrow> (mtpRequestId, nat) flat_map \<Rightarrow> (mtpMsgId, nat) flat_map \<Rightarrow> bool" where
  "apart os ts hs \<longleftrightarrow>
     (\<forall>m a r b. (m, a) \<in> set hs \<longrightarrow> (r, b) \<in> set ts \<longrightarrow> rd_requestId (os a) \<noteq> r \<and> getMsgId (os b) \<noteq> m)"

definition noted_ok :: "mtpMsgId set \<Rightarrow> (mtpMsgId, mtpRequestId) flat_map \<Rightarrow> bool" where
  "noted_ok ids m \<longleftrightarrow> fm_ok m \<and> fm_keys m \<subseteq> ids"

definition maps_ok :: "mtpMsgId set \<Rightarrow> (nat \<Rightarrow> request_data) \<Rightarrow> (mtpRequestId, nat) flat_map
    \<Rightarrow> (mtpMsgId, nat) flat_map \<Rightarrow> bool" where
  "maps_ok ids os ts hs \<longleftrightarrow> waiting_ok ids os ts \<and> sent_ok ids os hs \<and> apart os ts hs"

definition session_ok :: "(nat \<Rightarrow> mtpMsgId) \<Rightarrow> mtp_session \<Rightarrow> bool" where
  "session_ok draw s \<longleftrightarrow>
     maps_ok (drawn_ids draw (drawn s)) (objects s) (toSend s) (haveSent s)
     \<and> noted_ok (drawn_ids draw (drawn s)) (resendingIds s) \<and> noted_ok (drawn_ids draw (drawn s)) (ackedIds s)"

definition requests_in :: "(nat \<Rightarrow> request_data) \<Rightarrow> (mtpRequestId, nat) flat_map \<Rightarrow> (mtpMsgId, nat) flat_map
    \<Rightarrow> mtpRequestId set" where
  "requests_in os ts hs = fm_keys ts \<union> (\<lambda>e. rd_requestId (os (snd e))) ` set hs"

definition pending :: "mtp_session \<Rightarrow> mtpRequestId set" where
  "pending s = requests_in (objects s) (toSend s) (haveSent s)"

lemmas maps_defs = maps_ok_def waiting_ok_def sent_ok_def apart_def

subsection \<open>The moves of a request\<close>

lemma set_emplace_new: "k \<notin> fm_keys m \<Longrightarrow> (x, y) \<in> set (fm_emplace k v m) \<longleftrightarrow> x = k \<and> y = v \<or> (x, y) \<in> set m"
  by (auto simp: set_emplace)

lemma in_erase: "(x, y) \<in> set (fm_erase k m) \<longleftrightarrow> x \<noteq> k \<and> (x, y) \<in> set m"
  by (auto simp: set_erase)

lemma sent_unique: "sent_ok ids os hs \<Longrightarrow> (m, a) \<in> set hs \<Longrightarrow> (m, b) \<in> set hs \<Longrightarrow> a = b"
  unfolding sent_ok_def by (metis map_of_iff option.inject)

lemma sentD:
  assumes "maps_ok ids os ts hs" "(m, a) \<in> set hs"
  shows "getMsgId (os a) = m" "m \<noteq> 0" "m \<in> ids" "rd_requestId (os a) \<noteq> 0" "request_ok (os a)"
    "rd_requestId (os a) \<notin> fm_keys ts" "(r, b) \<in> set ts \<Longrightarrow> getMsgId (os b) \<noteq> m"
proof -
  have p: "sent_ok ids os hs" "apart os ts hs" using assms(1) by (simp_all add: maps_ok_def)
  show "getMsgId (os a) = m" "m \<noteq> 0" "m \<in> ids" "rd_requestId (os a) \<noteq> 0" "request_ok (os a)"
    using p(1) assms(2) unfolding sent_ok_def sent_one_def by blast+
  show "rd_requestId (os a) \<notin> fm_keys ts" using p(2) assms(2) unfolding apart_def by force
  show "(r, b) \<in> set ts \<Longrightarrow> getMsgId (os b) \<noteq> m" using p(2) assms(2) unfolding apart_def by blast
qed

lemma waitingD:
  assumes "maps_ok ids os ts hs" "(r, a) \<in> set ts"
  shows "rd_requestId (os a) = r" "r \<noteq> 0" "request_ok (os a)" "getMsgId (os a) = 0 \<or> getMsgId (os a) \<in> ids"
  using assms unfolding maps_ok_def waiting_ok_def waiting_one_def by blast+

lemma maps_ok_fewer:
  assumes "maps_ok ids os ts hs" "fm_ok ts'" "set ts' \<subseteq> set ts" "fm_ok hs'" "set hs' \<subseteq> set hs"
  shows "maps_ok ids os ts' hs'"
proof -
  have "waiting_ok ids os ts'" using assms(1-3) unfolding maps_ok_def waiting_ok_def by blast
  moreover have "sent_ok ids os hs'" using assms(1,4,5) unfolding maps_ok_def sent_ok_def by blast
  moreover have "apart os ts' hs'" using assms(1,3,5) unfolding maps_ok_def apart_def by blast
  ultimately show ?thesis by (simp add: maps_ok_def)
qed

lemma maps_fm_ok: "maps_ok ids os ts hs \<Longrightarrow> fm_ok ts" "maps_ok ids os ts hs \<Longrightarrow> fm_ok hs"
  by (simp_all add: maps_defs)

lemma erase_subset [simp]: "set (fm_erase k m) \<subseteq> set m"
  by (auto simp: set_erase)

text \<open>A request that becomes a waiting one.\<close>

lemma add_waiting:
  assumes m: "maps_ok ids os ts hs" and new: "rd_requestId (os a) \<notin> requests_in os ts hs"
    and a: "rd_requestId (os a) \<noteq> 0" "request_ok (os a)" "getMsgId (os a) = 0 \<or> getMsgId (os a) \<in> ids"
    and i: "\<And>r b. (r, b) \<in> set ts \<Longrightarrow> getMsgId (os a) = 0 \<or> getMsgId (os b) \<noteq> getMsgId (os a)"
      "getMsgId (os a) \<notin> fm_keys hs"
  shows "maps_ok ids os (fm_emplace (rd_requestId (os a)) a ts) hs"
    "requests_in os (fm_emplace (rd_requestId (os a)) a ts) hs = insert (rd_requestId (os a)) (requests_in os ts hs)"
proof -
  let ?r = "rd_requestId (os a)"
  have k: "?r \<notin> fm_keys ts" and h: "\<And>m b. (m, b) \<in> set hs \<Longrightarrow> rd_requestId (os b) \<noteq> ?r"
    using new unfolding requests_in_def by force+
  have "waiting_ok ids os (fm_emplace ?r a ts)"
    unfolding waiting_ok_def set_emplace_new [OF k]
  proof (intro conjI allI impI)
    show "fm_ok (fm_emplace ?r a ts)" using maps_fm_ok(1) [OF m] by simp
  next
    fix r a' r' b
    assume "r = ?r \<and> a' = a \<or> (r, a') \<in> set ts" "r' = ?r \<and> b = a \<or> (r', b) \<in> set ts"
      and "getMsgId (os a') = getMsgId (os b)" "getMsgId (os a') \<noteq> 0"
    then show "r = r'" using m i(1) unfolding maps_ok_def waiting_ok_def by metis
  next
    fix r b
    assume "r = ?r \<and> b = a \<or> (r, b) \<in> set ts"
    moreover have "waiting_one ids (os a) ?r" using a by (simp add: waiting_one_def)
    ultimately show "waiting_one ids (os b) r" using m unfolding maps_ok_def waiting_ok_def by blast
  qed
  moreover have "apart os (fm_emplace ?r a ts) hs"
    using m i(2) h unfolding maps_ok_def apart_def set_emplace_new [OF k] by force
  ultimately show "maps_ok ids os (fm_emplace ?r a ts) hs" using m by (simp add: maps_ok_def)
  show "requests_in os (fm_emplace ?r a ts) hs = insert ?r (requests_in os ts hs)"
    by (simp add: requests_in_def)
qed

lemma requests_erase_sent:
  assumes "maps_ok ids os ts hs"
  shows "(m, a) \<in> set hs \<Longrightarrow> requests_in os ts (fm_erase m hs) = requests_in os ts hs - {rd_requestId (os a)}"
    "m \<notin> fm_keys hs \<Longrightarrow> fm_erase m hs = hs"
proof -
  assume a: "(m, a) \<in> set hs"
  have "rd_requestId (os b) \<noteq> rd_requestId (os a)" if "(m', b) \<in> set hs" "m' \<noteq> m" for m' b
    using assms a that unfolding maps_ok_def sent_ok_def by blast
  moreover have "b = a" if "(m, b) \<in> set hs" for b using sent_unique assms that a unfolding maps_ok_def by blast
  ultimately have "(\<lambda>e. rd_requestId (os (snd e))) ` set (fm_erase m hs)
      = (\<lambda>e. rd_requestId (os (snd e))) ` set hs - {rd_requestId (os a)}"
    unfolding set_erase by force
  then show "requests_in os ts (fm_erase m hs) = requests_in os ts hs - {rd_requestId (os a)}"
    using sentD(6) [OF assms a] by (auto simp: requests_in_def)
qed (rule fm_erase_absent)

text \<open>Back to the waiting ones.\<close>

lemma move_back:
  assumes "maps_ok ids os ts hs" "(m, a) \<in> set hs"
  shows "maps_ok ids os (fm_emplace (rd_requestId (os a)) a ts) (fm_erase m hs)"
    "requests_in os (fm_emplace (rd_requestId (os a)) a ts) (fm_erase m hs) = requests_in os ts hs"
proof -
  note d = sentD [OF assms]
  have e: "maps_ok ids os ts (fm_erase m hs)"
    by (rule maps_ok_fewer [OF assms(1)]) (use maps_fm_ok [OF assms(1)] in simp_all)
  have r: "requests_in os ts (fm_erase m hs) = requests_in os ts hs - {rd_requestId (os a)}"
    by (rule requests_erase_sent(1) [OF assms])
  have i: "getMsgId (os a) = 0 \<or> getMsgId (os b) \<noteq> getMsgId (os a)" if "(r, b) \<in> set ts" for r b
    using d(1) d(7) that by blast
  show "maps_ok ids os (fm_emplace (rd_requestId (os a)) a ts) (fm_erase m hs)"
    by (rule add_waiting(1) [OF e _ d(4,5)]) (use d(1,3) r i in simp_all)
  have "rd_requestId (os a) \<in> requests_in os ts hs" using assms(2) by (force simp: requests_in_def)
  moreover have "requests_in os (fm_emplace (rd_requestId (os a)) a ts) (fm_erase m hs)
      = insert (rd_requestId (os a)) (requests_in os ts (fm_erase m hs))"
    by (rule add_waiting(2) [OF e _ d(4,5)]) (use d(1,3) r i in simp_all)
  ultimately show "requests_in os (fm_emplace (rd_requestId (os a)) a ts) (fm_erase m hs) = requests_in os ts hs"
    using r by auto
qed

lemma drop_waiting:
  assumes "maps_ok ids os ts hs"
  shows "maps_ok ids os (fm_erase r ts) hs"
    "requests_in os ts hs - {r} \<subseteq> requests_in os (fm_erase r ts) hs"
proof -
  show "maps_ok ids os (fm_erase r ts) hs"
    by (rule maps_ok_fewer [OF assms]) (use maps_fm_ok [OF assms] in simp_all)
qed (auto simp: requests_in_def)

lemma drop_sent:
  assumes "maps_ok ids os ts hs"
  shows "maps_ok ids os ts (fm_erase m hs)"
    "requests_in os ts hs - {rd_requestId (os a) |a. (m, a) \<in> set hs} \<subseteq> requests_in os ts (fm_erase m hs)"
proof -
  show "maps_ok ids os ts (fm_erase m hs)"
    by (rule maps_ok_fewer [OF assms]) (use maps_fm_ok [OF assms] in simp_all)
qed (force simp: requests_in_def set_erase)

text \<open>Changes of an object that keep its ids.\<close>

definition same_request :: "request_data \<Rightarrow> request_data \<Rightarrow> bool" where
  "same_request d e \<longleftrightarrow> rd_requestId e = rd_requestId d \<and> getMsgId e = getMsgId d \<and> needAck e = needAck d
     \<and> (request_ok d \<longrightarrow> request_ok e)"

lemma same_objects:
  assumes "\<And>a. same_request (os a) (os' a)"
  shows "maps_ok ids os ts hs \<Longrightarrow> maps_ok ids os' ts hs" "requests_in os' ts hs = requests_in os ts hs"
proof -
  have e: "rd_requestId (os' a) = rd_requestId (os a)" "getMsgId (os' a) = getMsgId (os a)"
    "request_ok (os a) \<Longrightarrow> request_ok (os' a)" for a
    using assms [of a] by (auto simp: same_request_def)
  show "requests_in os' ts hs = requests_in os ts hs" by (simp add: requests_in_def e)
  assume "maps_ok ids os ts hs"
  moreover have "waiting_one ids (os a) r \<Longrightarrow> waiting_one ids (os' a) r"
    "sent_one ids (os a) m \<Longrightarrow> sent_one ids (os' a) m" for a r m
    using e(3) by (auto simp: waiting_one_def sent_one_def e)
  ultimately show "maps_ok ids os' ts hs" unfolding maps_defs e by blast
qed

lemma same_again [simp]: "same_request d (again now d)"
  by (simp add: same_request_def again_def getMsgId_def needAck_def request_ok_def body_ints_def count_length_def)

lemma same_time [simp]: "same_request d (d\<lparr>rd_lastSentTime := now\<rparr>)"
  by (simp add: same_request_def getMsgId_def needAck_def request_ok_def body_ints_def count_length_def)

lemma same_refl [simp]: "same_request d d"
  by (simp add: same_request_def)

lemma maps_ok_mono:
  assumes "maps_ok ids os ts hs" "ids \<subseteq> ids'"
  shows "maps_ok ids' os ts hs"
proof -
  have "waiting_one ids (os a) r \<Longrightarrow> waiting_one ids' (os a) r" "sent_one ids (os a) m \<Longrightarrow> sent_one ids' (os a) m"
    for a r m using assms(2) by (auto simp: waiting_one_def sent_one_def)
  then show ?thesis using assms(1) unfolding maps_ok_def waiting_ok_def sent_ok_def by blast
qed

lemma noted_ok_mono: "noted_ok ids m \<Longrightarrow> ids \<subseteq> ids' \<Longrightarrow> noted_ok ids' m"
  by (auto simp: noted_ok_def)

lemma noted_emplace [simp]: "noted_ok ids m \<Longrightarrow> i \<in> ids \<Longrightarrow> noted_ok ids (fm_emplace i r m)"
  by (simp add: noted_ok_def)

lemma noted_erase [simp]: "noted_ok ids m \<Longrightarrow> noted_ok ids (fm_erase i m)"
  by (auto simp: noted_ok_def)

lemma noted_trim [simp]: "noted_ok ids m \<Longrightarrow> noted_ok ids (fm_trim n m)"
  using set_trim [of n m] by (auto simp: noted_ok_def)

lemma drawn_ids_mono: "n \<le> n' \<Longrightarrow> drawn_ids draw n \<subseteq> drawn_ids draw n'"
  by auto

subsection \<open>Operations that keep every request\<close>

definition keeps :: "(nat \<Rightarrow> mtpMsgId) \<Rightarrow> mtp_session \<Rightarrow> mtp_session \<Rightarrow> bool" where
  "keeps draw s s' \<longleftrightarrow> (session_ok draw s \<longrightarrow> session_ok draw s' \<and> pending s' = pending s)"

definition core :: "mtp_session \<Rightarrow> (nat \<Rightarrow> request_data) \<times> (mtpRequestId, nat) flat_map \<times> (mtpMsgId, nat) flat_map
    \<times> (mtpMsgId, mtpRequestId) flat_map \<times> (mtpMsgId, mtpRequestId) flat_map \<times> nat" where
  "core s = (objects s, toSend s, haveSent s, resendingIds s, ackedIds s, drawn s)"

lemma session_ok_core: "core s' = core s \<Longrightarrow> session_ok draw s' = session_ok draw s"
  by (simp add: core_def session_ok_def)

lemma pending_core: "core s' = core s \<Longrightarrow> pending s' = pending s"
  by (simp add: core_def pending_def)

lemma keeps_core: "core s' = core s \<Longrightarrow> keeps draw s s'"
  using session_ok_core pending_core unfolding keeps_def by blast

lemma keeps_refl [simp]: "keeps draw s s"
  by (simp add: keeps_def)

lemma keeps_trans: "keeps draw s s' \<Longrightarrow> keeps draw s' s'' \<Longrightarrow> keeps draw s s''"
  by (simp add: keeps_def)

interpretation keeping: promise "keeps draw" for draw
  by unfold_locales (simp, rule keeps_trans)

lemma keeps_ask [simp]: "keeps draw s (ask a s)"
  by (rule keeps_core) (simp add: core_def ask_def)

lemma keeps_asked: "keeps draw s s' \<Longrightarrow> keeps draw s (ask a s')"
  by (rule keeps_trans [OF _ keeps_ask])

lemma same_update: "same_request (os a) d \<Longrightarrow> same_request (os b) ((os(a := d)) b)"
  by simp

lemma resend_request_keeps: "keeps draw s (resend_request now m s)"
proof (cases "map_of (haveSent s) m")
  case (Some a)
  let ?r = "rd_requestId (objects s a)" and ?os = "(objects s)(a := again now (objects s a))"
  let ?ts = "fm_emplace ?r a (toSend s)" and ?hs = "fm_erase m (haveSent s)"
  have e: "resend_request now m s = s\<lparr>haveSent := ?hs, objects := ?os,
      resendingIds := fm_emplace m ?r (resendingIds s), toSend := ?ts\<rparr>"
    using Some by (simp add: resend_request_def Let_def)
  have same: "same_request (objects s b) (?os b)" for b by simp
  have a: "(m, a) \<in> set (haveSent s)" using Some by (rule map_of_SomeD)
  show ?thesis unfolding keeps_def
  proof
    assume ok: "session_ok draw s"
    let ?ids = "drawn_ids draw (drawn s)"
    have m: "maps_ok ?ids (objects s) (toSend s) (haveSent s)" using ok by (simp add: session_ok_def)
    have "maps_ok ?ids ?os ?ts ?hs" by (rule same_objects(1) [where os = "objects s" and os' = ?os, OF same]) (rule move_back(1) [OF m a])
    moreover have "requests_in ?os ?ts ?hs = pending s"
      using same_objects(2) [where os = "objects s" and os' = ?os and ts = ?ts and hs = ?hs, OF same] move_back(2) [OF m a] by (simp add: pending_def)
    ultimately show "session_ok draw (resend_request now m s) \<and> pending (resend_request now m s) = pending s"
      using ok sentD(3) [OF m a] unfolding e by (simp add: session_ok_def pending_def)
  qed
qed (simp add: resend_request_def)

lemma clearSpecial_keeps [simp]: "keeps draw s (clearSpecialMsgId m s)"
  by (rule keeps_core) (simp add: core_def clearSpecialMsgId_def)

lemma keeps_erase_container [simp]: "keeps draw s (s\<lparr>sentContainers := c\<rparr>)"
  by (rule keeps_core) (simp add: core_def)

lemma resend_fuel_keeps: "keeps draw s (resend_fuel fuel now w m s)"
proof (induction fuel arbitrary: w m s)
  case (Suc fuel)
  define t where "t = (case map_of (sentContainers s) m of
      Some c \<Rightarrow> fold (resend_fuel fuel now (-1)) (sc_messages c) (s\<lparr>sentContainers := fm_erase m (sentContainers s)\<rparr>)
    | None \<Rightarrow> resend_request now m s)"
  have "keeps draw s t"
  proof (cases "map_of (sentContainers s) m")
    case None
    then show ?thesis by (simp add: t_def resend_request_keeps)
  next
    case (Some c)
    have "keeps draw (s\<lparr>sentContainers := x\<rparr>) (fold (resend_fuel fuel now (-1)) ms (s\<lparr>sentContainers := x\<rparr>))" for x ms
      by (rule keeping.along) (rule Suc.IH)
    then show ?thesis using Some unfolding t_def by (auto intro: keeps_trans [OF keeps_erase_container])
  qed
  then have "keeps draw s (clearSpecialMsgId m t)" by (rule keeps_trans) simp
  moreover have "resend_fuel (Suc fuel) now w m s
      = (if w \<ge> 0 then ask (SendAnything w) (clearSpecialMsgId m t) else clearSpecialMsgId m t)"
    by (simp add: t_def Let_def)
  ultimately show ?case by (simp add: keeps_asked)
qed simp

lemma resend_keeps: "keeps draw s (resend now w m s)"
  unfolding resend_def by (rule resend_fuel_keeps)

lemma resend_taken_haveSent: "(resend_taken now e s)\<lparr>haveSent := x\<rparr> = resend_taken now e (s\<lparr>haveSent := x\<rparr>)"
  by (cases e) (simp add: resend_taken_def Let_def)

lemma resend_taken_all:
  "keeps draw (s\<lparr>haveSent := hs\<rparr>) ((fold (resend_taken now) hs s)\<lparr>haveSent := []\<rparr>)"
proof (induction hs arbitrary: s)
  case (Cons e hs)
  obtain m a where ma: "e = (m, a)" by (cases e)
  show ?case unfolding keeps_def
  proof
    assume ok: "session_ok draw (s\<lparr>haveSent := e # hs\<rparr>)"
    then have f: "fm_ok (e # hs)" by (simp add: session_ok_def maps_ok_def sent_ok_def)
    then have erase: "fm_erase m (e # hs) = hs"
      using fm_erase_absent [of m hs] by (auto simp: ma fm_erase_def)
    have "(resend_taken now e s)\<lparr>haveSent := hs\<rparr> = resend_request now m (s\<lparr>haveSent := e # hs\<rparr>)"
      using erase by (simp add: resend_request_def resend_taken_def ma Let_def)
    then have "keeps draw (s\<lparr>haveSent := e # hs\<rparr>) ((resend_taken now e s)\<lparr>haveSent := hs\<rparr>)"
      using resend_request_keeps by simp
    with Cons.IH [of "resend_taken now e s"] ok
    show "session_ok draw ((fold (resend_taken now) (e # hs) s)\<lparr>haveSent := []\<rparr>)
        \<and> pending ((fold (resend_taken now) (e # hs) s)\<lparr>haveSent := []\<rparr>) = pending (s\<lparr>haveSent := e # hs\<rparr>)"
      by (simp add: keeps_def)
  qed
qed simp

lemma resend_taken_leaves: "haveSent (fold (resend_taken now) hs s) = haveSent s"
  by (induction hs arbitrary: s) (auto simp: resend_taken_def Let_def split: prod.splits)

lemma resendAll_keeps: "keeps draw s (resendAll now s)"
proof -
  have "keeps draw s ((fold (resend_taken now) (haveSent s) (s\<lparr>haveSent := []\<rparr>))\<lparr>haveSent := []\<rparr>)"
    using resend_taken_all [where draw = draw and s = "s\<lparr>haveSent := []\<rparr>" and hs = "haveSent s" and now = now] by simp
  moreover have "(fold (resend_taken now) (haveSent s) (s\<lparr>haveSent := []\<rparr>))\<lparr>haveSent := []\<rparr>
      = fold (resend_taken now) (haveSent s) (s\<lparr>haveSent := []\<rparr>)"
    using resend_taken_leaves [of now "haveSent s" "s\<lparr>haveSent := []\<rparr>"]
    by (metis mtp_session.surjective mtp_session.update_convs(3) mtp_session.select_convs(3))
  ultimately show ?thesis by (simp add: resendAll_def keeps_asked)
qed

lemma clearOldContainers_keeps: "keeps draw s (clearOldContainers now s)"
proof -
  have "keeps draw t (fold (resend now (-1)) ms (t\<lparr>sentContainers := x\<rparr>))" for t ms x
    by (rule keeps_trans [OF keeps_erase_container keeping.along]) (rule resend_keeps)
  then have "keeps draw t (snd (clear_old_one now e (b, t)))" for e b t by (cases e) (simp add: clear_old_one_def)
  then have "keeps draw (snd (False, s)) (snd (fold (clear_old_one now) (sentContainers s) (False, s)))"
    by (rule keeping.along_pairs)
  then show ?thesis by (simp add: clearOldContainers_def keeps_asked split_beta)
qed

lemma keeps_objects:
  assumes "\<And>a. same_request (objects s a) (os a)"
  shows "keeps draw s (s\<lparr>objects := os\<rparr>)"
  using same_objects [where os = "objects s" and os' = os, OF assms]
  by (simp add: keeps_def session_ok_def pending_def)

lemma checkSentRequests_keeps: "keeps draw s (checkSentRequests now s)"
proof -
  have "keeps draw t (t\<lparr>objects := (objects t)(a := (objects t a)\<lparr>rd_lastSentTime := now\<rparr>), stateRequestData := x\<rparr>)"
    for t a x
  proof (rule keeps_trans)
    show "keeps draw t (t\<lparr>objects := (objects t)(a := (objects t a)\<lparr>rd_lastSentTime := now\<rparr>)\<rparr>)"
      by (rule keeps_objects) simp
  qed (rule keeps_core, simp add: core_def)
  then have "keeps draw t (snd (check_sent_one now e (b, t)))" for e b t by (cases e) (simp add: check_sent_one_def)
  then have "keeps draw (snd (False, s)) (snd (fold (check_sent_one now) (haveSent s) (False, s)))"
    by (rule keeping.along_pairs)
  then show ?thesis by (simp add: checkSentRequests_def keeps_asked split_beta)
qed

subsection \<open>Sending again ends\<close>

lemma resend_request_containers [simp]: "sentContainers (resend_request now m s) = sentContainers s"
  by (simp add: resend_request_def Let_def split: option.splits)

lemma clearSpecial_containers [simp]: "sentContainers (clearSpecialMsgId m s) = sentContainers s"
  by (simp add: clearSpecialMsgId_def)

lemma ask_containers [simp]: "sentContainers (ask a s) = sentContainers s"
  by (simp add: ask_def)

lemma erase_shorter: "map_of m k = Some v \<Longrightarrow> length (fm_erase k m) < length m"
  unfolding fm_erase_def by (drule map_of_SomeD, rule length_filter_less) auto

interpretation fewer: promise "\<lambda>s s'. length (sentContainers s') \<le> length (sentContainers s)"
  by unfold_locales simp_all

lemma resend_fuel_containers: "length (sentContainers (resend_fuel fuel now w m s)) \<le> length (sentContainers s)"
proof (induction fuel arbitrary: w m s)
  case (Suc fuel)
  show ?case
  proof (cases "map_of (sentContainers s) m")
    case (Some c)
    have "length (sentContainers (fold (resend_fuel fuel now (-1)) (sc_messages c)
        (s\<lparr>sentContainers := fm_erase m (sentContainers s)\<rparr>))) \<le> length (fm_erase m (sentContainers s))"
      using fewer.along [of "resend_fuel fuel now (-1)" "sc_messages c"
          "s\<lparr>sentContainers := fm_erase m (sentContainers s)\<rparr>", OF Suc.IH] by simp
    then show ?thesis using Some erase_shorter [OF Some] by (simp add: Let_def)
  qed (simp add: Let_def)
qed simp

lemma fold_agree:
  assumes "\<And>x s. length (sentContainers s) < n \<Longrightarrow> f x s = g x s"
    and "\<And>x s. length (sentContainers (f x s)) \<le> length (sentContainers s)" "length (sentContainers s) < n"
  shows "fold f xs s = fold g xs s"
  using assms(3)
proof (induction xs arbitrary: s)
  case (Cons x xs)
  have "f x s = g x s" "length (sentContainers (f x s)) < n" using assms(1,2) Cons.prems le_less_trans by blast+
  then show ?case using Cons.IH [of "f x s"] by simp
qed simp

lemma resend_fuel_enough:
  "length (sentContainers s) < f \<Longrightarrow> length (sentContainers s) < g
    \<Longrightarrow> resend_fuel f now w m s = resend_fuel g now w m s"
proof (induction f arbitrary: g w m s)
  case (Suc f)
  obtain g' where g: "g = Suc g'" using Suc.prems(2) by (cases g) auto
  show ?case
  proof (cases "map_of (sentContainers s) m")
    case (Some c)
    let ?n = "Suc (length (fm_erase m (sentContainers s)))"
    have "?n \<le> f" "?n \<le> g'" using erase_shorter [OF Some] Suc.prems g by linarith+
    then have "resend_fuel f now (-1) x t = resend_fuel g' now (-1) x t" if "length (sentContainers t) < ?n" for x t
      using that by (intro Suc.IH) linarith+
    then have "fold (resend_fuel f now (-1)) (sc_messages c) (s\<lparr>sentContainers := fm_erase m (sentContainers s)\<rparr>)
        = fold (resend_fuel g' now (-1)) (sc_messages c) (s\<lparr>sentContainers := fm_erase m (sentContainers s)\<rparr>)"
      by (intro fold_agree [where n = ?n]) (simp_all add: resend_fuel_containers)
    then show ?thesis using Some g by (simp add: Let_def)
  qed (simp add: g Let_def)
qed simp

text \<open>
  C17. Sending a message again ends, however containers refer to each other: the recursion of the
  code, without any bound, holds for \<open>resend\<close>, and neither the requests the session has to deliver
  nor its invariant are touched by it.
\<close>
theorem resend_recursion:
  "resend now msCanWait msgId s =
     (let t = (case map_of (sentContainers s) msgId of
                 Some c \<Rightarrow> fold (resend now (-1)) (sc_messages c)
                             (s\<lparr>sentContainers := fm_erase msgId (sentContainers s)\<rparr>)
               | None \<Rightarrow> resend_request now msgId s);
          t = clearSpecialMsgId msgId t
      in if msCanWait \<ge> 0 then ask (SendAnything msCanWait) t else t)
    \<and> (session_ok draw s \<longrightarrow> session_ok draw (resend now msCanWait msgId s)
        \<and> pending (resend now msCanWait msgId s) = pending s)"
proof -
  let ?n = "length (sentContainers s)"
  have "fold (resend_fuel ?n now (-1)) (sc_messages c) (s\<lparr>sentContainers := fm_erase msgId (sentContainers s)\<rparr>)
      = fold (resend now (-1)) (sc_messages c) (s\<lparr>sentContainers := fm_erase msgId (sentContainers s)\<rparr>)"
    if "map_of (sentContainers s) msgId = Some c" for c
  proof (rule fold_agree [where n = ?n])
    show "resend_fuel ?n now (-1) x t = resend now (-1) x t" if "length (sentContainers t) < ?n" for x t
      unfolding resend_def by (rule resend_fuel_enough) (use that in simp_all)
  qed (use erase_shorter [OF that] in \<open>simp_all add: resend_fuel_containers del: resend_fuel.simps\<close>)
  then show ?thesis
    using resend_keeps [of draw s now msCanWait msgId]
    by (cases "map_of (sentContainers s) msgId") (simp_all add: keeps_def resend_def Let_def)
qed

text \<open>Two containers that name each other.\<close>

theorem resend_recursion_witness:
  "session_ok (\<lambda>n. 1) (resend 5 0 1 ((new_mtp_session (\<lambda>a. Prepare 0 1))
     \<lparr>sentContainers := [(1, \<lparr>sc_sent = 0, sc_messages = [2]\<rparr>), (2, \<lparr>sc_sent = 0, sc_messages = [1]\<rparr>)]\<rparr>))"
proof -
  let ?s = "(new_mtp_session (\<lambda>a. Prepare 0 1))
     \<lparr>sentContainers := [(1, \<lparr>sc_sent = 0, sc_messages = [2]\<rparr>), (2, \<lparr>sc_sent = 0, sc_messages = [1]\<rparr>)]\<rparr>"
  have "session_ok (\<lambda>n. 1) ?s" by (simp add: session_ok_def new_mtp_session_def maps_defs noted_ok_def)
  then show ?thesis using resend_recursion [of 5 0 1 ?s "\<lambda>n. 1"] by blast
qed

end
