(* ===== verification/Session_Acks.thy ===== *)
theory Session_Acks
  imports Session_Invariant
begin

text \<open>
  Which requests leave a session: those of the main thread (\<open>sendPrepared\<close>, \<open>cancel\<close>) and those that
  \<open>requestsAcked\<close> takes away. An acknowledgement alone never ends a request somebody waits for; only
  an answer to one of its message ids does.
\<close>

subsection \<open>Acknowledgements\<close>

definition stands_for :: "mtp_session \<Rightarrow> mtpMsgId \<Rightarrow> mtpRequestId \<Rightarrow> bool" where
  "stands_for s m r \<longleftrightarrow> (\<exists>a. (m, a) \<in> set (haveSent s) \<and> rd_requestId (objects s a) = r) \<or> (m, r) \<in> set (resendingIds s)"

text \<open>What an acknowledgement of the ids in \<open>ms\<close> may do.\<close>

definition acks :: "(nat \<Rightarrow> mtpMsgId) \<Rightarrow> (mtpRequestId \<Rightarrow> bool) \<Rightarrow> bool \<Rightarrow> mtpMsgId set \<Rightarrow> mtp_session \<Rightarrow> mtp_session \<Rightarrow> bool" where
  "acks draw hc b ms s s' \<longleftrightarrow> session_ok draw s' \<and> pending s' \<subseteq> pending s
     \<and> (\<forall>r \<in> pending s. r \<notin> pending s' \<longrightarrow> (\<exists>m \<in> ms. stands_for s m r) \<and> (b \<or> \<not> hc r))
     \<and> (\<forall>m r. stands_for s' m r \<longrightarrow> stands_for s m r)"

lemma acks_same:
  assumes "session_ok draw s" "core s' = core s"
  shows "acks draw hc b ms s s'"
  using assms session_ok_core pending_core
  by (auto simp: acks_def stands_for_def core_def session_ok_def pending_def)

lemma ack_have_sent:
  assumes ok: "session_ok draw s" and a: "map_of (haveSent s) m = Some a" and b: "b \<or> \<not> hc (rd_requestId (objects s a))"
  shows "acks draw hc b {m} s (s\<lparr>haveSent := fm_erase m (haveSent s),
      ackedIds := fm_emplace m (rd_requestId (objects s a)) (ackedIds s)\<rparr>)" (is "acks draw hc b _ s ?s")
proof -
  have m: "maps_ok (drawn_ids draw (drawn s)) (objects s) (toSend s) (haveSent s)" using ok by (simp add: session_ok_def)
  have i: "(m, a) \<in> set (haveSent s)" using a by (rule map_of_SomeD)
  have "session_ok draw ?s"
    using ok drop_sent(1) [OF m] sentD(3) [OF m i] by (simp add: session_ok_def)
  moreover have "pending ?s = pending s - {rd_requestId (objects s a)}"
    using requests_erase_sent(1) [OF m i] by (simp add: pending_def)
  moreover have "stands_for s m (rd_requestId (objects s a))" using i by (auto simp: stands_for_def)
  moreover have "stands_for ?s m' r \<Longrightarrow> stands_for s m' r" for m' r
    by (auto simp: stands_for_def in_erase)
  ultimately show ?thesis using b unfolding acks_def by blast
qed

lemma ack_resending:
  assumes ok: "session_ok draw s" and r: "map_of (resendingIds s) m = Some r" "map_of (toSend s) r = Some a"
    and b: "b \<or> \<not> hc r"
  shows "acks draw hc b {m} s (s\<lparr>resendingIds := fm_erase m (resendingIds s),
      ackedIds := fm_emplace m (rd_requestId (objects s a)) (ackedIds s), toSend := fm_erase r (toSend s)\<rparr>)"
    (is "acks draw hc b _ s ?s")
proof -
  have m: "maps_ok (drawn_ids draw (drawn s)) (objects s) (toSend s) (haveSent s)" using ok by (simp add: session_ok_def)
  have "m \<in> drawn_ids draw (drawn s)"
    using ok map_of_SomeD [OF r(1)] unfolding session_ok_def noted_ok_def by force
  then have "session_ok draw ?s" using ok drop_waiting(1) [OF m] by (simp add: session_ok_def)
  moreover have "pending s - {r} \<subseteq> pending ?s" "pending ?s \<subseteq> pending s"
    using drop_waiting(2) [OF m, of r] by (auto simp: pending_def requests_in_def)
  moreover have "stands_for s m r" using map_of_SomeD [OF r(1)] by (simp add: stands_for_def)
  moreover have "stands_for ?s m' r' \<Longrightarrow> stands_for s m' r'" for m' r'
    by (auto simp: stands_for_def in_erase)
  ultimately show ?thesis using b unfolding acks_def by blast
qed

lemma ack_forget:
  assumes "session_ok draw s"
  shows "acks draw hc b ms s (s\<lparr>resendingIds := fm_erase m (resendingIds s)\<rparr>)"
  using assms by (auto simp: acks_def stands_for_def session_ok_def pending_def in_erase)

lemma ack_one_acks:
  assumes "session_ok draw s"
  shows "acks draw hc b {m} s (fst (ack_one hc b m s))"
proof (cases "map_of (sentContainers s) m \<noteq> None \<or> map_of (stateAndResendRequests s) m \<noteq> None")
  case True
  then have "core (fst (ack_one hc b m s)) = core s"
    by (cases "map_of (sentContainers s) m") (auto simp: ack_one_def core_def)
  then show ?thesis using assms by (rule acks_same [rotated])
next
  case False
  then have e: "map_of (sentContainers s) m = None" "map_of (stateAndResendRequests s) m = None" by simp_all
  have same: "acks draw hc b {m} s s" using assms by (rule acks_same) simp
  show ?thesis
  proof (cases "map_of (haveSent s) m")
    case (Some a)
    then show ?thesis
      using same ack_have_sent [OF assms Some, of b hc] e
      by (cases "\<not> b \<and> hc (rd_requestId (objects s a))") (auto simp: ack_one_def Let_def)
  next
    case None
    show ?thesis
    proof (cases "map_of (resendingIds s) m")
      case none: None
      then show ?thesis using same e None by (simp add: ack_one_def)
    next
      case (Some r)
      show ?thesis
      proof (cases "\<not> b \<and> hc r")
        case True
        then show ?thesis using same e None Some by (simp add: ack_one_def)
      next
        case False
        then show ?thesis
          using e None Some ack_resending [OF assms Some, of _ b hc] ack_forget [OF assms]
          by (cases "map_of (toSend s) r") (auto simp: ack_one_def Let_def)
      qed
    qed
  qed
qed

lemma acks_trans:
  assumes "acks draw hc b ms s t" "acks draw hc b' ms' t u" "b' \<Longrightarrow> b"
  shows "acks draw hc b (ms \<union> ms') s u"
  using assms unfolding acks_def by blast

lemma acks_widen: "acks draw hc b ms s t \<Longrightarrow> ms \<subseteq> ms' \<Longrightarrow> acks draw hc b ms' s t"
  unfolding acks_def by blast

lemma ack_pass_acks: "session_ok draw s \<Longrightarrow> acks draw hc b (set ids) s (fst (ack_pass hc b ids s))"
proof (induction ids arbitrary: s)
  case (Cons i ids)
  have one: "acks draw hc b {i} s (fst (ack_one hc b i s))" by (rule ack_one_acks [OF Cons.prems])
  then have "session_ok draw (fst (ack_one hc b i s))" by (simp add: acks_def)
  from acks_trans [OF one Cons.IH [OF this]] show ?case by (simp add: Let_def)
qed (simp add: acks_same)

lemma trim_acks: "session_ok draw s \<Longrightarrow> acks draw hc b ms s (trim_acked s)"
  by (auto simp: acks_def trim_acked_def session_ok_def pending_def stands_for_def)

text \<open>The messages of a container that is acknowledged are acknowledged, not answered.\<close>

lemma requestsAcked_ok:
  "session_ok draw s \<Longrightarrow> session_ok draw (requestsAcked hc b ids s)
    \<and> pending (requestsAcked hc b ids s) \<subseteq> pending s
    \<and> (\<forall>r \<in> pending s. hc r \<longrightarrow> r \<notin> pending (requestsAcked hc b ids s) \<longrightarrow> b \<and> (\<exists>m \<in> set ids. stands_for s m r))
    \<and> (\<forall>m r. stands_for (requestsAcked hc b ids s) m r \<longrightarrow> stands_for s m r)"
proof (induction hc b ids s rule: requestsAcked.induct)
  case (1 hc b ids s)
  define t where "t = trim_acked (fst (ack_pass hc b ids s))"
  have p: "acks draw hc b (set ids) s (fst (ack_pass hc b ids s))" by (rule ack_pass_acks [OF 1(2)])
  then have "acks draw hc b (set ids) (fst (ack_pass hc b ids s)) t"
    unfolding t_def by (intro trim_acks) (simp add: acks_def)
  with p have t: "acks draw hc b (set ids) s t" using acks_trans by fastforce
  then have ok: "session_ok draw t" by (simp add: acks_def)
  show ?case
  proof (cases "snd (ack_pass hc b ids s) = []")
    case True
    then have "requestsAcked hc b ids s = t" by (subst requestsAcked.simps) (simp add: t_def Let_def)
    then show ?thesis using t unfolding acks_def by blast
  next
    case False
    define u where "u = requestsAcked hc False (snd (ack_pass hc b ids s)) t"
    have e: "requestsAcked hc b ids s = u" using False by (subst requestsAcked.simps) (simp add: t_def u_def Let_def)
    have "session_ok draw u \<and> pending u \<subseteq> pending t
        \<and> (\<forall>r \<in> pending t. hc r \<longrightarrow> r \<notin> pending u \<longrightarrow> False) \<and> (\<forall>m r. stands_for u m r \<longrightarrow> stands_for t m r)"
      using 1(1) [OF refl] False ok unfolding u_def t_def by simp
    then show ?thesis using t unfolding e acks_def by blast
  qed
qed

lemma handleMsgsStates_ok:
  assumes "session_ok draw s"
  shows "session_ok draw (handleMsgsStates hc now ids states s)
    \<and> pending (handleMsgsStates hc now ids states s) \<subseteq> pending s
    \<and> (\<forall>r \<in> pending s. hc r \<longrightarrow> r \<in> pending (handleMsgsStates hc now ids states s))"
proof -
  define f where "f = fold (state_of_one now) (zip ids states) ([], s)"
  have "keeps draw t (snd (state_of_one now e (acked, t)))" for e acked t
    by (cases e) (simp add: state_of_one_def resend_keeps)
  then have "keeps draw (snd ([] :: mtpMsgId list, s)) (snd f)" unfolding f_def by (intro keeping.along_pairs)
  then have f: "session_ok draw (snd f)" "pending (snd f) = pending s" using assms by (simp_all add: keeps_def)
  have e: "handleMsgsStates hc now ids states s = s
      \<or> handleMsgsStates hc now ids states s = requestsAcked hc False (fst f) (snd f)"
    by (simp add: handleMsgsStates_def f_def split_beta)
  show ?thesis using e assms requestsAcked_ok [OF f(1), of hc False "fst f"] f(2) by auto
qed

subsection \<open>The main thread\<close>

definition addresses :: "mtp_session \<Rightarrow> nat set" where
  "addresses s = snd ` set (toSend s) \<union> snd ` set (haveSent s)"

lemma maps_agree:
  assumes "\<And>b. b \<in> snd ` set ts \<union> snd ` set hs \<Longrightarrow> os' b = os b" "maps_ok ids os ts hs"
  shows "maps_ok ids os' ts hs"
proof -
  have t: "os' a = os a" if "(r, a) \<in> set ts" for r a using assms(1) that by force
  have h: "os' a = os a" if "(m, a) \<in> set hs" for m a using assms(1) that by force
  have p: "waiting_ok ids os ts" "sent_ok ids os hs" "apart os ts hs" using assms(2) by (simp_all add: maps_ok_def)
  have "waiting_ok ids os' ts" unfolding waiting_ok_def
  proof (intro conjI allI impI)
    show "waiting_one ids (os' a) r" if "(r, a) \<in> set ts" for r a
      using p(1) that unfolding waiting_ok_def t [OF that] by blast
    show "r = r'" if "(r, a) \<in> set ts" "(r', a') \<in> set ts" "getMsgId (os' a) = getMsgId (os' a')" "getMsgId (os' a) \<noteq> 0"
      for r a r' a'
      using p(1) that unfolding waiting_ok_def t [OF that(1)] t [OF that(2)] by blast
  qed (use p(1) in \<open>simp add: waiting_ok_def\<close>)
  moreover have "sent_ok ids os' hs" unfolding sent_ok_def
  proof (intro conjI allI impI)
    show "sent_one ids (os' a) m" if "(m, a) \<in> set hs" for m a
      using p(2) that unfolding sent_ok_def h [OF that] by blast
    show "m = m'" if "(m, a) \<in> set hs" "(m', a') \<in> set hs" "rd_requestId (os' a) = rd_requestId (os' a')" for m a m' a'
      using p(2) that unfolding sent_ok_def h [OF that(1)] h [OF that(2)] by blast
  qed (use p(2) in \<open>simp add: sent_ok_def\<close>)
  moreover have "apart os' ts hs" unfolding apart_def
  proof (intro allI impI)
    fix m a r b
    assume "(m, a) \<in> set hs" "(r, b) \<in> set ts"
    then show "rd_requestId (os' a) \<noteq> r \<and> getMsgId (os' b) \<noteq> m"
      using p(3) t h unfolding apart_def by metis
  qed
  ultimately show ?thesis by (simp add: maps_ok_def)
qed

lemma requests_agree:
  "(\<And>b. b \<in> snd ` set hs \<Longrightarrow> os' b = os b) \<Longrightarrow> requests_in os' ts hs = requests_in os ts hs"
  by (simp add: requests_in_def)

lemma pending_addresses:
  assumes "session_ok draw s" "a \<in> addresses s"
  shows "rd_requestId (objects s a) \<in> pending s"
proof -
  have m: "maps_ok (drawn_ids draw (drawn s)) (objects s) (toSend s) (haveSent s)" using assms(1) by (simp add: session_ok_def)
  show ?thesis using assms(2) waitingD(1) [OF m] by (force simp: addresses_def pending_def requests_in_def)
qed

lemma clear_ids_facts:
  assumes "request_ok d"
  shows "getMsgId (clear_ids d) = 0" "rd_requestId (clear_ids d) = rd_requestId d" "request_ok (clear_ids d)"
proof -
  have "8 < length (rd_ints d)" using assms by (simp add: request_ok_def)
  then show "getMsgId (clear_ids d) = 0" by (simp add: getMsgId_def clear_ids_def position_defs long_of_def)
  show "rd_requestId (clear_ids d) = rd_requestId d" by (simp add: clear_ids_def)
  have "count_length (clear_ids d) = count_length d" by (simp add: clear_ids_def count_length_def position_defs)
  then show "request_ok (clear_ids d)" using assms by (simp add: request_ok_def body_ints_def clear_ids_def)
qed

lemma sendPrepared_ok:
  assumes ok: "session_ok draw s" and d: "request_ok (objects s a)" "rd_requestId (objects s a) \<noteq> 0"
    and new: "rd_requestId (objects s a) \<notin> pending s"
  shows "session_ok draw (sendPrepared a w s)
    \<and> pending (sendPrepared a w s) = insert (rd_requestId (objects s a)) (pending s)"
proof -
  let ?r = "rd_requestId (objects s a)" and ?os = "(objects s)(a := clear_ids (objects s a))"
  let ?ids = "drawn_ids draw (drawn s)"
  define t where "t = s\<lparr>toSend := fm_emplace ?r a (toSend s), objects := ?os\<rparr>"
  have m: "maps_ok ?ids (objects s) (toSend s) (haveSent s)" using ok by (simp add: session_ok_def)
  have a: "a \<notin> addresses s" using new pending_addresses [OF ok] by blast
  have same: "?os b = objects s b" if "b \<in> snd ` set (toSend s) \<union> snd ` set (haveSent s)" for b
    using a that by (auto simp: addresses_def)
  have m': "maps_ok ?ids ?os (toSend s) (haveSent s)"
    by (rule maps_agree [where os = "objects s", OF same m])
  have p': "requests_in ?os (toSend s) (haveSent s) = pending s"
    unfolding pending_def by (rule requests_agree) (use same in blast)
  have r: "rd_requestId (?os a) = ?r" "request_ok (?os a)" "getMsgId (?os a) = 0" using clear_ids_facts [OF d(1)] by simp_all
  have z: "0 \<notin> fm_keys (haveSent s)" using sentD(2) [OF m] by force
  have "maps_ok ?ids ?os (fm_emplace (rd_requestId (?os a)) a (toSend s)) (haveSent s)"
    by (rule add_waiting(1) [OF m']) (use r d(2) new z p' in auto)
  moreover have "requests_in ?os (fm_emplace (rd_requestId (?os a)) a (toSend s)) (haveSent s)
      = insert (rd_requestId (?os a)) (requests_in ?os (toSend s) (haveSent s))"
    by (rule add_waiting(2) [OF m']) (use r d(2) new z p' in auto)
  ultimately have t: "session_ok draw t" "pending t = insert ?r (pending s)"
    using ok r(1) p' by (simp_all add: t_def session_ok_def pending_def)
  have e: "sendPrepared a w s = (if w \<ge> 0 then ask (SendAnything w) t else t)" by (simp add: sendPrepared_def t_def Let_def)
  have "keeps draw t (sendPrepared a w s)" unfolding e by simp
  then show ?thesis using t by (simp add: keeps_def)
qed

text \<open>A request that is taken back is one the session has; the instance reads both ids from it.\<close>

lemma cancel_ok:
  assumes ok: "session_ok draw s" and a: "a \<in> addresses s"
  shows "session_ok draw (cancel (rd_requestId (objects s a)) (getMsgId (objects s a)) s)
    \<and> pending (cancel (rd_requestId (objects s a)) (getMsgId (objects s a)) s) = pending s - {rd_requestId (objects s a)}"
proof -
  let ?r = "rd_requestId (objects s a)" and ?m = "getMsgId (objects s a)" and ?ids = "drawn_ids draw (drawn s)"
  let ?ts = "fm_erase ?r (toSend s)"
  have m: "maps_ok ?ids (objects s) (toSend s) (haveSent s)" using ok by (simp add: session_ok_def)
  have r: "?r \<noteq> 0" using a waitingD(1,2) [OF m] sentD(4) [OF m] by (force simp: addresses_def)
  have m': "maps_ok ?ids (objects s) ?ts (haveSent s)" by (rule drop_waiting(1) [OF m])
  have e: "cancel ?r ?m s = s\<lparr>toSend := ?ts, haveSent := fm_erase ?m (haveSent s)\<rparr>"
  proof (cases "?m = 0")
    case True
    then have "?m \<notin> fm_keys (haveSent s)" using sentD(2) [OF m] by force
    then show ?thesis using r True by (simp add: cancel_def Let_def fm_erase_absent)
  qed (simp add: cancel_def Let_def r)
  have sess: "session_ok draw (cancel ?r ?m s)"
    using ok drop_sent(1) [OF m'] unfolding e by (simp add: session_ok_def)
  have "requests_in (objects s) ?ts (fm_erase ?m (haveSent s)) = pending s - {?r}"
  proof (cases "\<exists>b. (?m, b) \<in> set (haveSent s)")
    case True
    then obtain b where b: "(?m, b) \<in> set (haveSent s)" by blast
    have "b = a"
    proof (cases "a \<in> snd ` set (haveSent s)")
      case True
      then obtain k where k: "(k, a) \<in> set (haveSent s)" by force
      then have "k = ?m" using sentD(1) [OF m k] by simp
      then show ?thesis using sent_unique m b k unfolding maps_ok_def by blast
    next
      case False
      then obtain k where "(k, a) \<in> set (toSend s)" using a by (force simp: addresses_def)
      then show ?thesis using sentD(7) [OF m b] by blast
    qed
    then have "requests_in (objects s) ?ts (fm_erase ?m (haveSent s)) = requests_in (objects s) ?ts (haveSent s) - {?r}"
      using requests_erase_sent(1) [OF m' b] by simp
    moreover have "requests_in (objects s) ?ts (haveSent s) - {?r} = pending s - {?r}"
      by (auto simp: pending_def requests_in_def)
    ultimately show ?thesis by simp
  next
    case False
    then have h: "fm_erase ?m (haveSent s) = haveSent s" by (intro fm_erase_absent) force
    have "a \<notin> snd ` set (haveSent s)" using False sentD(1) [OF m] by force
    then obtain k where "(k, a) \<in> set (toSend s)" using a by (force simp: addresses_def)
    then have k: "?r \<in> fm_keys (toSend s)" using waitingD(1) [OF m] by force
    have "rd_requestId (objects s (snd e)) \<noteq> ?r" if "e \<in> set (haveSent s)" for e
      using sentD(6) [OF m, of "fst e" "snd e"] that k by (metis prod.collapse)
    then show ?thesis unfolding h by (force simp: pending_def requests_in_def)
  qed
  then show ?thesis using sess by (simp add: e pending_def)
qed

end
