(* ===== verification/Session_Frames.thy ===== *)
theory Session_Frames
  imports Session_Acks
begin

text \<open>
  The ints of a container. Whatever \<open>tryToSend\<close> puts behind each other, wrapped or not, is a frame:
  message id, sequence number, length in bytes and content; the length of the whole is adjusted along.
\<close>

definition message_frame :: "request_data \<Rightarrow> prime list \<Rightarrow> prime list" where
  "message_frame d content = take 3 (drop 4 (rd_ints d)) @ word_of_nat (4 * length content) # content"

definition follows :: "mtp_session \<Rightarrow> request_data \<Rightarrow> mtpMsgId option" where
  "follows s req =
     (case rd_after req of None \<Rightarrow> None
      | Some b \<Rightarrow> if rd_requestId req = 0 \<or> \<not> needAck req \<or> after_id s b = 0 \<or> map_of (haveSent s) (after_id s b) = None
                then None else Some (after_id s b))"

definition opens :: "send_env \<Rightarrow> request_data \<Rightarrow> bool" where
  "opens env req \<longleftrightarrow> rd_requestId req \<noteq> 0 \<and> needAck req \<and> \<not> en_connectionInited env \<and> rd_needsLayer req"

definition content :: "send_env \<Rightarrow> mtp_session \<Rightarrow> request_data \<Rightarrow> prime list" where
  "content env s req =
     (if opens env req then en_init env else [])
     @ (case follows s req of None \<Rightarrow> [] | Some i \<Rightarrow> [mtpc_invokeAfterMsg, low_int i, high_int i])
     @ request_body req"

lemma count_word: "request_ok d \<Longrightarrow> rd_ints d ! 7 = word_of_nat (4 * body_ints d)"
proof -
  assume "request_ok d"
  then have "4 * body_ints d = unat (rd_ints d ! 7)"
    by (auto simp: request_ok_def body_ints_def count_length_def position_defs)
  then show ?thesis by simp
qed

lemma length_body [simp]: "request_ok d \<Longrightarrow> length (request_body d) = body_ints d"
  by (auto simp: request_ok_def request_body_def position_defs)

lemma request_header:
  assumes "request_ok d"
  shows "take 4 (drop 4 (rd_ints d)) = take 3 (drop 4 (rd_ints d)) @ [word_of_nat (4 * body_ints d)]"
proof -
  have "8 \<le> length (rd_ints d)" using assms by (simp add: request_ok_def)
  then have "take (Suc 3) (drop 4 (rd_ints d)) = take 3 (drop 4 (rd_ints d)) @ [drop 4 (rd_ints d) ! 3]"
    by (intro take_Suc_conv_app_nth) simp
  then show ?thesis using \<open>8 \<le> _\<close> count_word [OF assms] by simp
qed

lemma message_ints_frame:
  assumes "request_ok d"
  shows "message_ints d = message_frame d (request_body d)"
proof -
  have "message_ints d = take 4 (drop 4 (rd_ints d)) @ take (body_ints d) (drop 8 (rd_ints d))"
    by (simp add: message_ints_def messageSize_def take_add)
  also have "take (body_ints d) (drop 8 (rd_ints d)) = request_body d" by (simp add: request_body_def position_defs)
  finally show ?thesis using assms by (simp add: request_header message_frame_def)
qed

lemma bump_append: "i < length xs \<Longrightarrow> bump i k (xs @ ys) = bump i k xs @ ys"
  by (simp add: bump_def nth_append list_update_append)

lemma bump_zero [simp]: "bump i 0 xs = xs"
  by (simp add: bump_def)

lemma length_bump [simp]: "length (bump i k xs) = length xs"
  by (simp add: bump_def)

lemma bump_in_frame:
  "bump (length xs + 3) k (xs @ take 3 hs @ w # ys) = xs @ take 3 hs @ (w + word_of_nat k) # ys" if "3 \<le> length hs"
  using that by (simp add: bump_def nth_append list_update_append)

lemma overwrite_gap:
  "length gap = length ys \<Longrightarrow> i = length xs \<Longrightarrow> overwrite i ys (xs @ gap @ zs) = xs @ ys @ zs"
  by (simp add: overwrite_def)

lemma wrap_none:
  assumes "request_ok d" "i = 0 \<or> map_of have i = None"
  shows "WrapInvokeAfter i have n (rd_ints d) (body_ints d) to
    = to @ (take 3 (drop 4 (rd_ints d)) @ [word_of_nat (4 * body_ints d)]) @ replicate n 0 @ request_body d"
  using assms by (simp add: WrapInvokeAfter_def Let_def request_header request_body_def position_defs)

lemma wrap_some:
  assumes "request_ok d" "i \<noteq> 0" "map_of have i \<noteq> None" "8 \<le> length to"
  shows "WrapInvokeAfter i have n (rd_ints d) (body_ints d) to
    = bump 7 12 to @ (take 3 (drop 4 (rd_ints d)) @ [word_of_nat (4 * body_ints d) + 12]) @ replicate n 0
      @ [mtpc_invokeAfterMsg, low_int i, high_int i] @ request_body d"
proof -
  have l: "3 \<le> length (drop 4 (rd_ints d))" using assms(1) by (auto simp: request_ok_def)
  have "bump (length to + 3) 12 (to @ take 3 (drop 4 (rd_ints d)) @ word_of_nat (4 * body_ints d) # ys)
      = to @ take 3 (drop 4 (rd_ints d)) @ (word_of_nat (4 * body_ints d) + 12) # ys" for ys
    using bump_in_frame [OF l, of to 12] by simp
  moreover have "length to + 3 \<noteq> 7" "7 < length to" using assms(4) by simp_all
  ultimately show ?thesis
    using assms by (simp add: WrapInvokeAfter_def Let_def request_header request_body_def position_defs bump_append)
qed

lemma place_ints_frame:
  assumes req: "request_ok req" and to: "8 \<le> length ints"
  shows "place_ints env s req ints
    = bump 7 (if follows s req = None then 0 else 12) ints @ message_frame req (content env s req)"
proof -
  let ?h = "take 3 (drop 4 (rd_ints req))" and ?w = "word_of_nat (4 * body_ints req) :: prime"
  let ?n = "length (en_init env)"
  have lh: "length ?h = 3" using req by (auto simp: request_ok_def)
  have l3: "3 \<le> length (drop 4 (rd_ints req))" using req by (auto simp: request_ok_def)
  show ?thesis
  proof (cases "rd_requestId req = 0 \<or> \<not> needAck req")
    case True
    then have "follows s req = None" "\<not> opens env req" by (auto simp: follows_def opens_def split: option.splits)
    then show ?thesis using True message_ints_frame [OF req] by (simp add: place_ints_def content_def Let_def)
  next
    case False
    have op: "opens env req \<longleftrightarrow> \<not> en_connectionInited env \<and> rd_needsLayer req" using False by (simp add: opens_def)
    have ints: "ints \<noteq> []" using to by auto
    have add: "?w + 12 + word_of_nat (4 * ?n) = word_of_nat (4 * (?n + (3 + body_ints req)))"
      "?w + word_of_nat (4 * ?n) = word_of_nat (4 * (?n + body_ints req))"
      "?w + 12 = word_of_nat (4 * (3 + body_ints req))" by (simp_all add: algebra_simps)
    show ?thesis
    proof (cases "rd_after req")
      case None
      then have "follows s req = None" by (simp add: follows_def)
      moreover have "bump (length ints + 3) (4 * ?n) (ints @ ?h @ ?w # en_init env @ request_body req)
          = ints @ ?h @ (?w + word_of_nat (4 * ?n)) # en_init env @ request_body req" by (rule bump_in_frame [OF l3])
      ultimately show ?thesis
        using False None op ints message_ints_frame [OF req] add(2)
        by (simp add: place_ints_def content_def message_frame_def request_header [OF req] req Let_def add.commute)
    next
      case (Some b)
      have gap: "overwrite (length xs + 4) (en_init env) (xs @ (?h @ [w]) @ replicate ?n 0 @ zs)
          = xs @ (?h @ [w]) @ en_init env @ zs" for xs w zs
        using overwrite_gap [of "replicate ?n 0" "en_init env" "length xs + 4" "xs @ ?h @ [w]" zs] lh by simp
      show ?thesis
      proof (cases "follows s req")
        case none: None
        then have n: "after_id s b = 0 \<or> map_of (haveSent s) (after_id s b) = None"
          using False Some by (auto simp: follows_def split: if_splits)
        have "bump (length ints + 3) (4 * ?n) (ints @ ?h @ ?w # en_init env @ request_body req)
            = ints @ ?h @ (?w + word_of_nat (4 * ?n)) # en_init env @ request_body req" by (rule bump_in_frame [OF l3])
        then show ?thesis
          using False Some none op ints add(2) gap [of ints ?w "request_body req"]
          by (simp add: place_ints_def content_def message_frame_def wrap_none [OF req n] req Let_def add.commute)
      next
        case (Some i)
        then have i: "i = after_id s b" "after_id s b \<noteq> 0" "map_of (haveSent s) (after_id s b) \<noteq> None"
          using \<open>rd_after req = Some b\<close> by (auto simp: follows_def split: if_splits)
        let ?xs = "bump 7 12 ints" and ?z = "[mtpc_invokeAfterMsg, low_int i, high_int i] @ request_body req"
        have "bump (length ?xs + 3) (4 * ?n) (?xs @ ?h @ (?w + 12) # en_init env @ ?z)
            = ?xs @ ?h @ (?w + 12 + word_of_nat (4 * ?n)) # en_init env @ ?z" by (rule bump_in_frame [OF l3])
        then show ?thesis
          using False Some \<open>rd_after req = Some b\<close> op ints add(1,3) gap [of ?xs "?w + 12" ?z] i
          by (simp add: place_ints_def content_def message_frame_def wrap_some [OF req i(2,3) to] req Let_def add.commute)
      qed
    qed
  qed
qed

end
