(* ===== verification/Session_Sending.thy ===== *)
theory Session_Sending
  imports Session_Frames
begin

text \<open>
  Sending keeps the invariant and loses nothing: while \<open>tryToSend\<close> fills a container the requests it
  has placed are among the sent ones and the others still wait; every message gets an id no other
  one has. This needs of \<open>base::unixtime::mtproto_msg_id\<close> that it does not repeat itself; \<open>N\<close> bounds
  how often it is asked, since there are only finitely many ids.
\<close>

definition fresh_ids :: "nat \<Rightarrow> (nat \<Rightarrow> mtpMsgId) \<Rightarrow> bool" where
  "fresh_ids N draw \<longleftrightarrow> inj_on draw {..<N} \<and> (\<forall>n < N. draw n \<noteq> 0)"

lemma fresh_new: "fresh_ids N draw \<Longrightarrow> n < N \<Longrightarrow> draw n \<notin> drawn_ids draw n"
  unfolding fresh_ids_def inj_on_def by fastforce

subsection \<open>Giving an id\<close>

lemma unused_at_once: "\<not> used i \<Longrightarrow> unused_id fuel draw used i n = (i, n)"
  by (cases fuel) simp_all

text \<open>With ids that do not repeat the loop of \<open>replaceMsgId\<close> ends within its fuel.\<close>

lemma unused_id_all:
  "used (fst (unused_id fuel draw used i n)) \<Longrightarrow> \<forall>x \<in> set (i # map draw [n..<n + fuel]). used x"
proof (induction fuel arbitrary: i n)
  case (Suc fuel)
  show ?case
  proof (cases "used i")
    case True
    then have "used (fst (unused_id fuel draw used (draw n) (Suc n)))" using Suc.prems by simp
    then have "\<forall>x \<in> set (draw n # map draw [Suc n..<Suc n + fuel]). used x" by (rule Suc.IH)
    moreover have "[n..<n + Suc fuel] = n # [Suc n..<Suc n + fuel]" by (simp add: upt_conv_Cons)
    ultimately show ?thesis using True by simp
  next
    case False
    then show ?thesis using Suc.prems by simp
  qed
qed simp

lemma unused_id_free:
  assumes "distinct (i # map draw [n..<n + fuel])" "finite {x. used x}" "card {x. used x} \<le> fuel"
  shows "\<not> used (fst (unused_id fuel draw used i n))"
proof
  let ?l = "i # map draw [n..<n + fuel]"
  assume "used (fst (unused_id fuel draw used i n))"
  then have "set ?l \<subseteq> {x. used x}" using unused_id_all by blast
  then have "card (set ?l) \<le> card {x. used x}" using assms(2) by (rule card_mono [rotated])
  moreover have "card (set ?l) = Suc fuel" using distinct_card [OF assms(1)] by simp
  ultimately show False using assms(3) by simp
qed

lemma id_used_bound: "finite {x. id_used s x}" "card {x. id_used s x} \<le> ids_in_use s"
proof -
  have u: "{x. id_used s x} = fm_keys (resendingIds s) \<union> fm_keys (ackedIds s) \<union> fm_keys (haveSent s)"
    by (auto simp: id_used_def map_of_eq_None_iff)
  show "finite {x. id_used s x}" unfolding u by simp
  have "card (fm_keys m) \<le> length m" for m :: "(mtpMsgId, 'v) flat_map"
    by (metis card_length length_map list.set_map)
  then have "card (fm_keys (resendingIds s) \<union> fm_keys (ackedIds s) \<union> fm_keys (haveSent s)) \<le> ids_in_use s"
    unfolding ids_in_use_def by (meson add_mono card_Un_le le_trans)
  then show "card {x. id_used s x} \<le> ids_in_use s" by (simp only: u)
qed

lemma prepare_state:
  assumes e: "prepareToSend draw d cur force s = (m, d', s')"
    and n: "noted_ok ids (resendingIds s)" "noted_ok ids (ackedIds s)"
    and cur: "\<not> id_used s cur" "cur \<in> ids" and d: "getMsgId d \<notin> fm_keys (haveSent s)"
  shows "objects s' = objects s" "toSend s' = toSend s" "haveSent s' = haveSent s" "drawn s' = drawn s"
    "noted_ok ids (resendingIds s')" "noted_ok ids (ackedIds s')"
    "fm_keys (resendingIds s') \<subseteq> fm_keys (resendingIds s)" "fm_keys (ackedIds s') \<subseteq> insert cur (fm_keys (ackedIds s))"
    "m = cur \<or> m = getMsgId d \<and> m \<noteq> 0 \<and> m \<le> cur \<and> ackedIds s' = ackedIds s"
    "getMsgId d = 0 \<Longrightarrow> m = cur"
proof -
  define u where "u = s\<lparr>resendingIds := fm_erase (getMsgId d) (resendingIds s)\<rparr>"
  have rename: "rename_key (getMsgId d) i (resendingIds u) = resendingIds u"
    "rename_key (getMsgId d) i (haveSent u) = haveSent u" for i
  proof -
    have "map_of (haveSent u) (getMsgId d) = None" using d by (simp add: u_def map_of_eq_None_iff)
    then show "rename_key (getMsgId d) i (haveSent u) = haveSent u" by (simp add: rename_key_def)
  qed (simp add: rename_key_def u_def)
  have acked: "noted_ok ids (rename_key (getMsgId d) cur (ackedIds u))"
    "fm_keys (rename_key (getMsgId d) cur (ackedIds u)) \<subseteq> insert cur (fm_keys (ackedIds s))"
    using n(2) cur(2) by (auto simp: rename_key_def u_def split: option.splits)
  have "\<not> id_used u cur" using cur(1) by (auto simp: id_used_def u_def)
  then have once: "unused_id (Suc (ids_in_use u)) draw (id_used u) cur (drawn u) = (cur, drawn u)" by simp
  have all: "objects s' = objects s \<and> toSend s' = toSend s \<and> haveSent s' = haveSent s \<and> drawn s' = drawn s
    \<and> noted_ok ids (resendingIds s') \<and> noted_ok ids (ackedIds s')
    \<and> fm_keys (resendingIds s') \<subseteq> fm_keys (resendingIds s) \<and> fm_keys (ackedIds s') \<subseteq> insert cur (fm_keys (ackedIds s))
    \<and> (m = cur \<or> m = getMsgId d \<and> m \<noteq> 0 \<and> m \<le> cur \<and> ackedIds s' = ackedIds s)
    \<and> (getMsgId d = 0 \<longrightarrow> m = cur)"
  proof (cases "getMsgId d = 0")
    case True
    then show ?thesis using e n by (auto simp: prepareToSend_def nextRequestSeqNumber_def Let_def)
  next
    case False
    show ?thesis
    proof (cases "force \<or> getMsgId d > cur")
      case keep: False
      then have "(m, d', s') = (getMsgId d, d, u)" using e False by (auto simp: prepareToSend_def u_def Let_def)
      then show ?thesis using keep False n by (auto simp: u_def)
    next
      case True
      then have r: "replaceMsgId draw d cur u = (m, d', s')" using e False by (simp add: prepareToSend_def u_def Let_def)
      show ?thesis
      proof (cases "getMsgId d = cur")
        case True
        then have "m = cur" "s' = u" using r by (simp_all add: replaceMsgId_def)
        then show ?thesis using n by (simp add: u_def Diff_subset subset_insertI)
      next
        case False
        define v where "v = u\<lparr>drawn := drawn u,
            resendingIds := rename_key (getMsgId d) cur (resendingIds u),
            ackedIds := rename_key (getMsgId d) cur (ackedIds u),
            haveSent := rename_key (getMsgId d) cur (haveSent u),
            sentContainers := map (\<lambda>(m, c). (m, c\<lparr>sc_messages :=
              map (\<lambda>i. if i = getMsgId d then cur else i) (sc_messages c)\<rparr>)) (sentContainers u)\<rparr>"
        have "fst (replaceMsgId draw d cur u) = cur"
          "snd (snd (replaceMsgId draw d cur u)) = snd (nextRequestSeqNumber (needAck d) v)"
          using False by (simp_all add: replaceMsgId_def once v_def Let_def split_beta cong: if_cong del: unused_id.simps)
        then have s': "m = cur" "s' = snd (nextRequestSeqNumber (needAck d) v)" using r by simp_all
        have "objects s' = objects s" "toSend s' = toSend s" "haveSent s' = haveSent s" "drawn s' = drawn s"
          "resendingIds s' = fm_erase (getMsgId d) (resendingIds s)"
          "ackedIds s' = rename_key (getMsgId d) cur (ackedIds u)"
          unfolding s'(2) using rename by (simp_all add: nextRequestSeqNumber_def v_def) (simp_all add: u_def)
        then show ?thesis using s'(1) n acked by (simp add: Diff_subset)
      qed
    qed
  qed
  then show "objects s' = objects s" "toSend s' = toSend s" "haveSent s' = haveSent s" "drawn s' = drawn s"
    "noted_ok ids (resendingIds s')" "noted_ok ids (ackedIds s')"
    "fm_keys (resendingIds s') \<subseteq> fm_keys (resendingIds s)" "fm_keys (ackedIds s') \<subseteq> insert cur (fm_keys (ackedIds s))"
    "m = cur \<or> m = getMsgId d \<and> m \<noteq> 0 \<and> m \<le> cur \<and> ackedIds s' = ackedIds s"
    "getMsgId d = 0 \<Longrightarrow> m = cur" by blast+
qed

lemma prepare_data:
  assumes e: "prepareToSend draw d cur force s = (m, d', s')" and d: "8 < length (rd_ints d)"
  shows "getMsgId d' = m" "rd_requestId d' = rd_requestId d" "request_ok d' = request_ok d" "needAck d' = needAck d"
    "rd_after d' = rd_after d" "rd_needsLayer d' = rd_needsLayer d" "body_ints d' = body_ints d" "request_body d' = request_body d"
proof -
  have "\<exists>n. d' = setSeqNo n (setMsgId m d) \<or> d' = d \<and> m = getMsgId d"
    using e by (auto simp: prepareToSend_def replaceMsgId_def Let_def split: if_splits prod.splits)
  then show "getMsgId d' = m" "rd_requestId d' = rd_requestId d" "request_ok d' = request_ok d" "needAck d' = needAck d"
    "rd_after d' = rd_after d" "rd_needsLayer d' = rd_needsLayer d" "body_ints d' = body_ints d" "request_body d' = request_body d"
    using d by auto
qed

subsection \<open>From waiting to sent\<close>

lemma add_sent:
  assumes m: "maps_ok ids os ts hs" and new: "rd_requestId (os a) \<notin> requests_in os ts hs"
    and a: "rd_requestId (os a) \<noteq> 0" "request_ok (os a)" "getMsgId (os a) = i" "i \<noteq> 0" "i \<in> ids"
    and i: "i \<notin> fm_keys hs" "\<And>r b. (r, b) \<in> set ts \<Longrightarrow> getMsgId (os b) \<noteq> i"
  shows "maps_ok ids os ts (fm_emplace i a hs)"
    "requests_in os ts (fm_emplace i a hs) = insert (rd_requestId (os a)) (requests_in os ts hs)"
proof -
  let ?r = "rd_requestId (os a)"
  have k: "?r \<notin> fm_keys ts" and h: "\<And>m b. (m, b) \<in> set hs \<Longrightarrow> rd_requestId (os b) \<noteq> ?r"
    using new unfolding requests_in_def by force+
  have "sent_ok ids os (fm_emplace i a hs)"
    unfolding sent_ok_def set_emplace_new [OF i(1)]
  proof (intro conjI allI impI)
    show "fm_ok (fm_emplace i a hs)" using maps_fm_ok(2) [OF m] by simp
  next
    fix x b
    assume "x = i \<and> b = a \<or> (x, b) \<in> set hs"
    moreover have "sent_one ids (os a) i" using a by (simp add: sent_one_def)
    ultimately show "sent_one ids (os b) x" using m unfolding maps_ok_def sent_ok_def by blast
  next
    fix x b x' b'
    assume "x = i \<and> b = a \<or> (x, b) \<in> set hs" "x' = i \<and> b' = a \<or> (x', b') \<in> set hs"
      and "rd_requestId (os b) = rd_requestId (os b')"
    then show "x = x'" using m h unfolding maps_ok_def sent_ok_def by metis
  qed
  moreover have "apart os ts (fm_emplace i a hs)"
    using m i(2) k unfolding maps_ok_def apart_def set_emplace_new [OF i(1)] by force
  ultimately show "maps_ok ids os ts (fm_emplace i a hs)" using m by (simp add: maps_ok_def)
  show "requests_in os ts (fm_emplace i a hs) = insert ?r (requests_in os ts hs)"
    by (auto simp: requests_in_def set_emplace [OF i(1)])
qed

text \<open>The first waiting request gets its id.\<close>

lemma take_first:
  assumes m: "maps_ok ids os ((r, a) # rest) hs" and d: "rd_requestId d = r"
  shows "maps_ok ids (os(a := d)) rest hs"
    "requests_in (os(a := d)) rest hs = requests_in os ((r, a) # rest) hs - {r}"
    "\<And>b. b \<in> snd ` set rest \<union> snd ` set hs \<Longrightarrow> b \<noteq> a"
proof -
  let ?os = "os(a := d)"
  have f: "fm_ok ((r, a) # rest)" "fm_ok hs" using maps_fm_ok [OF m] .
  have r: "rd_requestId (os a) = r" using waitingD(1) [OF m, of r a] by simp
  have k: "r \<notin> fm_keys rest" using f(1) by auto
  have h: "rd_requestId (os b) \<noteq> r" if "(x, b) \<in> set hs" for x b
    using sentD(6) [OF m that] by auto
  show out: "b \<noteq> a" if "b \<in> snd ` set rest \<union> snd ` set hs" for b
  proof
    assume "b = a"
    then have "a \<in> snd ` set rest \<union> snd ` set hs" using that by simp
    then consider x where "(x, a) \<in> set rest" | x where "(x, a) \<in> set hs" by force
    then show False
    proof cases
      case 1
      then have "x = r" using waitingD(1) [OF m, of x a] r by simp
      then show False using 1 k by force
    next
      case 2
      then show False using h r by blast
    qed
  qed
  have m': "maps_ok ids os rest hs" by (rule maps_ok_fewer [OF m]) (use f in auto)
  show "maps_ok ids ?os rest hs" by (rule maps_agree [where os = os, OF _ m']) (use out in auto)
  have "requests_in ?os rest hs = requests_in os rest hs" by (rule requests_agree) (use out in auto)
  also have "\<dots> = requests_in os ((r, a) # rest) hs - {r}" using k h by (force simp: requests_in_def)
  finally show "requests_in ?os rest hs = requests_in os ((r, a) # rest) hs - {r}" .
qed

definition sending_ok :: "(nat \<Rightarrow> mtpMsgId) \<Rightarrow> (mtpRequestId, nat) flat_map \<Rightarrow> container \<times> mtp_session \<Rightarrow> bool" where
  "sending_ok draw rest cs \<longleftrightarrow>
     (let s = snd cs; ids = drawn_ids draw (drawn s); big = cn_bigMsgId (fst cs)
      in maps_ok ids (objects s) rest (haveSent s) \<and> noted_ok ids (resendingIds s) \<and> noted_ok ids (ackedIds s)
        \<and> big \<in> ids \<and> big \<noteq> 0 \<and> \<not> id_used s big
        \<and> (\<forall>r a. (r, a) \<in> set rest \<longrightarrow> getMsgId (objects s a) \<noteq> big))"

lemma sending_okD:
  assumes "sending_ok draw rest (c, s)"
  shows "maps_ok (drawn_ids draw (drawn s)) (objects s) rest (haveSent s)"
    "noted_ok (drawn_ids draw (drawn s)) (resendingIds s)" "noted_ok (drawn_ids draw (drawn s)) (ackedIds s)"
    "cn_bigMsgId c \<in> drawn_ids draw (drawn s)" "cn_bigMsgId c \<noteq> 0" "\<not> id_used s (cn_bigMsgId c)"
    "(r, a) \<in> set rest \<Longrightarrow> getMsgId (objects s a) \<noteq> cn_bigMsgId c"
  using assms by (simp_all add: sending_ok_def Let_def)

lemma id_used_keys: "id_used s i \<longleftrightarrow> i \<in> fm_keys (resendingIds s) \<union> fm_keys (ackedIds s) \<union> fm_keys (haveSent s)"
  by (auto simp: id_used_def map_of_eq_None_iff)

lemma unassigned_draw:
  assumes N: "fresh_ids N draw" "drawn s < N"
    and ok: "maps_ok (drawn_ids draw (drawn s)) (objects s) rest (haveSent s)"
    "noted_ok (drawn_ids draw (drawn s)) (resendingIds s)" "noted_ok (drawn_ids draw (drawn s)) (ackedIds s)"
    and e: "mtproto_msg_id draw s = (i, s')"
  shows "sending_ok draw rest (c\<lparr>cn_bigMsgId := i\<rparr>, s')"
proof -
  let ?ids = "drawn_ids draw (drawn s)" and ?ids' = "drawn_ids draw (Suc (drawn s))"
  have s': "s' = s\<lparr>drawn := Suc (drawn s)\<rparr>" "i = draw (drawn s)" using e by (auto simp: mtproto_msg_id_def)
  have i: "i \<notin> ?ids" "i \<noteq> 0" using fresh_new [OF N] N by (auto simp: s' fresh_ids_def)
  have sub: "?ids \<subseteq> ?ids'" "i \<in> ?ids'" by (auto simp: s')
  have "\<not> id_used s i"
    using i ok sentD(3) [OF ok(1)] by (force simp: id_used_keys noted_ok_def)
  then have "\<not> id_used s' i" by (simp add: s' id_used_def)
  moreover have "getMsgId (objects s a) \<noteq> i" if "(r, a) \<in> set rest" for r a
    using waitingD(4) [OF ok(1) that] i by auto
  ultimately show ?thesis
    using maps_ok_mono [OF ok(1) sub(1)] noted_ok_mono [OF ok(2) sub(1)] noted_ok_mono [OF ok(3) sub(1)] sub(2) i(2)
    by (simp add: sending_ok_def Let_def s')
qed

text \<open>A step of filling a container.\<close>

definition requests_of :: "(mtpRequestId, nat) flat_map \<Rightarrow> mtp_session \<Rightarrow> mtpRequestId set" where
  "requests_of rest s = requests_in (objects s) rest (haveSent s)"

definition silent :: "(mtpRequestId, nat) flat_map \<Rightarrow> mtp_session \<Rightarrow> mtpRequestId set" where
  "silent rest s = {r. \<exists>a. (r, a) \<in> set rest \<and> \<not> needAck (objects s a)}"

definition fills :: "nat \<Rightarrow> (nat \<Rightarrow> mtpMsgId) \<Rightarrow> (mtpRequestId, nat) flat_map \<Rightarrow> container \<times> mtp_session
    \<Rightarrow> (mtpRequestId, nat) flat_map \<Rightarrow> container \<times> mtp_session \<Rightarrow> bool" where
  "fills N draw rest cs rest' cs' \<longleftrightarrow>
     drawn (snd cs) \<le> drawn (snd cs') \<and> toSend (snd cs') = toSend (snd cs)
     \<and> (drawn (snd cs') \<le> N \<longrightarrow> sending_ok draw rest cs \<longrightarrow>
          sending_ok draw rest' cs'
          \<and> requests_of rest' (snd cs') \<subseteq> requests_of rest (snd cs)
          \<and> requests_of rest (snd cs) - silent rest (snd cs) \<subseteq> requests_of rest' (snd cs')
          \<and> silent rest' (snd cs') \<subseteq> silent rest (snd cs))"

lemma fills_refl [simp]: "fills N draw rest cs rest cs"
  by (auto simp: fills_def)

lemma fills_trans:
  assumes "fills N draw r1 a r2 b" "fills N draw r2 b r3 c"
  shows "fills N draw r1 a r3 c"
proof -
  have d: "drawn (snd a) \<le> drawn (snd b)" "drawn (snd b) \<le> drawn (snd c)" "toSend (snd c) = toSend (snd a)"
    using assms by (simp_all add: fills_def)
  show ?thesis unfolding fills_def
  proof (intro conjI impI)
    assume N: "drawn (snd c) \<le> N" and ok: "sending_ok draw r1 a"
    have b: "sending_ok draw r2 b" "requests_of r2 (snd b) \<subseteq> requests_of r1 (snd a)"
      "requests_of r1 (snd a) - silent r1 (snd a) \<subseteq> requests_of r2 (snd b)" "silent r2 (snd b) \<subseteq> silent r1 (snd a)"
      using assms(1) N ok d unfolding fills_def by auto
    have c: "sending_ok draw r3 c" "requests_of r3 (snd c) \<subseteq> requests_of r2 (snd b)"
      "requests_of r2 (snd b) - silent r2 (snd b) \<subseteq> requests_of r3 (snd c)" "silent r3 (snd c) \<subseteq> silent r2 (snd b)"
      using assms(2) N b(1) unfolding fills_def by auto
    show "sending_ok draw r3 c" by (rule c(1))
    show "requests_of r3 (snd c) \<subseteq> requests_of r1 (snd a)" using b(2) c(2) by blast
    show "requests_of r1 (snd a) - silent r1 (snd a) \<subseteq> requests_of r3 (snd c)" using b c by blast
    show "silent r3 (snd c) \<subseteq> silent r1 (snd a)" using b(4) c(4) by blast
  qed (use d in auto)
qed

lemma next_big_fields [simp]:
  "objects (snd (next_big draw m (c, s))) = objects s" "toSend (snd (next_big draw m (c, s))) = toSend s"
  "haveSent (snd (next_big draw m (c, s))) = haveSent s" "ackedIds (snd (next_big draw m (c, s))) = ackedIds s"
  "resendingIds (snd (next_big draw m (c, s))) = resendingIds s"
  "cn_ints (fst (next_big draw m (c, s))) = cn_ints c" "cn_messages (fst (next_big draw m (c, s))) = cn_messages c"
  "cn_need (fst (next_big draw m (c, s))) = cn_need c"
  by (simp_all add: next_big_def mtproto_msg_id_def Let_def)

lemma next_big_ids:
  "drawn (snd (next_big draw m (c, s))) = (if m \<ge> cn_bigMsgId c then Suc (drawn s) else drawn s)"
  "cn_bigMsgId (fst (next_big draw m (c, s))) = (if m \<ge> cn_bigMsgId c then draw (drawn s) else cn_bigMsgId c)"
  by (simp_all add: next_big_def mtproto_msg_id_def Let_def)

lemma next_big_drawn: "drawn s \<le> drawn (snd (next_big draw m (c, s)))"
  by (simp add: next_big_def mtproto_msg_id_def Let_def)

lemma next_big_ok:
  assumes N: "fresh_ids N draw" "drawn (snd (next_big draw m (c, s))) \<le> N"
    and ok: "maps_ok (drawn_ids draw (drawn s)) (objects s) rest (haveSent s)"
    "noted_ok (drawn_ids draw (drawn s)) (resendingIds s)" "noted_ok (drawn_ids draw (drawn s)) (ackedIds s)"
    and big: "cn_bigMsgId c \<in> drawn_ids draw (drawn s)" "cn_bigMsgId c \<noteq> 0"
    and free: "m < cn_bigMsgId c \<Longrightarrow> \<not> id_used s (cn_bigMsgId c)"
      "\<And>r a. m < cn_bigMsgId c \<Longrightarrow> (r, a) \<in> set rest \<Longrightarrow> getMsgId (objects s a) \<noteq> cn_bigMsgId c"
  shows "sending_ok draw rest (next_big draw m (c, s))"
proof (cases "m \<ge> cn_bigMsgId c")
  case True
  obtain i s' where e: "mtproto_msg_id draw s = (i, s')" by (cases "mtproto_msg_id draw s")
  then have n: "next_big draw m (c, s) = (c\<lparr>cn_bigMsgId := i\<rparr>, s')" using True by (simp add: next_big_def)
  then have "drawn s < N" using N(2) e by (auto simp: mtproto_msg_id_def)
  then show ?thesis unfolding n by (rule unassigned_draw [OF N(1) _ ok e])
next
  case False
  then have "next_big draw m (c, s) = (c, s)" by (simp add: next_big_def)
  then show ?thesis using False ok big free by (simp add: sending_ok_def Let_def)
qed

definition quiet_note :: "(mtpMsgId \<Rightarrow> request_data \<Rightarrow> container \<times> mtp_session \<Rightarrow> container \<times> mtp_session) \<Rightarrow> bool" where
  "quiet_note note_id \<longleftrightarrow> (\<forall>m d c s. core (snd (note_id m d (c, s))) = core s
     \<and> cn_bigMsgId (fst (note_id m d (c, s))) = cn_bigMsgId c \<and> cn_ints (fst (note_id m d (c, s))) = cn_ints c)"

lemma quiet_notes [simp]: "quiet_note (note_bind env)" "quiet_note note_ping" "quiet_note note_state" "quiet_note note_nothing"
  by (auto simp: quiet_note_def core_def note_bind_def note_ping_def note_state_def note_nothing_def)

lemma unused_id_later: "n \<le> snd (unused_id fuel draw used i n)"
proof (induction fuel arbitrary: i n)
  case (Suc fuel)
  then show ?case using Suc_leD by fastforce
qed simp

lemma prepare_mono:
  assumes "prepareToSend draw d cur force s = (m, d', s')"
  shows "drawn s \<le> drawn s'" "toSend s' = toSend s" "objects s' = objects s"
proof -
  have "drawn t \<le> drawn t' \<and> toSend t' = toSend t \<and> objects t' = objects t"
    if "replaceMsgId draw d cur t = (m, d', t')" for t t'
    using that unused_id_later [of "drawn t" "Suc (ids_in_use t)" draw "id_used t" cur]
    by (auto simp: replaceMsgId_def nextRequestSeqNumber_def Let_def split_beta split: if_splits simp del: unused_id.simps)
  then show "drawn s \<le> drawn s'" "toSend s' = toSend s" "objects s' = objects s"
    using assms by (fastforce simp: prepareToSend_def nextRequestSeqNumber_def Let_def split: if_splits)+
qed

lemma place_service_fills:
  assumes N: "fresh_ids N draw" and quiet: "quiet_note note_id"
    and id: "\<And>d. req = Some d \<Longrightarrow> getMsgId d = 0 \<or> getMsgId d \<notin> fm_keys (haveSent (snd cs))"
  shows "fills N draw rest cs rest (place_service draw force req note_id cs)"
proof (cases req)
  case (Some d)
  obtain c s where cs: "cs = (c, s)" by (cases cs)
  obtain m d' s1 where p: "prepareToSend draw d (cn_bigMsgId c) force s = (m, d', s1)" by (metis prod_cases3)
  define n where "n = next_big draw m (c, s1)"
  define c2 where "c2 = (fst n)\<lparr>cn_ints := cn_ints (fst n) @ message_ints d'\<rparr>"
  define cs' where "cs' = note_id m d' (c2, snd n)"
  have e: "place_service draw force req note_id cs = cs'"
    by (simp add: place_service_def placeToContainer_def Some cs p Let_def split_beta cs'_def c2_def n_def)
  have core: "objects (snd cs') = objects (snd n)" "toSend (snd cs') = toSend (snd n)" "haveSent (snd cs') = haveSent (snd n)"
    "resendingIds (snd cs') = resendingIds (snd n)" "ackedIds (snd cs') = ackedIds (snd n)" "drawn (snd cs') = drawn (snd n)"
    "cn_bigMsgId (fst cs') = cn_bigMsgId (fst n)"
    using quiet by (auto simp: quiet_note_def core_def cs'_def c2_def)
  note mono = prepare_mono [OF p]
  show ?thesis unfolding fills_def e unfolding cs
  proof (intro conjI impI)
    show "drawn (snd (c, s)) \<le> drawn (snd cs')"
      using mono next_big_drawn [of s1 draw m c] by (simp add: core n_def)
    show "toSend (snd cs') = toSend (snd (c, s))" using mono by (simp add: core n_def)
    assume b: "drawn (snd cs') \<le> N" and ok: "sending_ok draw rest (c, s)"
    note o = sending_okD [OF ok]
    have z: "getMsgId d \<notin> fm_keys (haveSent s)" using id [OF Some] sentD(2) [OF o(1)] by (force simp: cs)
    note q = prepare_state [OF p o(2,3,6,4) z]
    have free: "\<not> id_used s1 (cn_bigMsgId c)" if "m < cn_bigMsgId c"
      using o(6) q that by (auto simp: id_used_keys)
    have "sending_ok draw rest n" unfolding n_def
      by (rule next_big_ok [OF N]) (use b o q free core in \<open>auto simp: n_def\<close>)
    then show "sending_ok draw rest cs'" by (simp add: sending_ok_def Let_def core id_used_def)
    have same: "objects (snd cs') = objects s" "haveSent (snd cs') = haveSent s" using q by (simp_all add: core n_def)
    show "requests_of rest (snd cs') \<subseteq> requests_of rest (snd (c, s))"
      "requests_of rest (snd (c, s)) - silent rest (snd (c, s)) \<subseteq> requests_of rest (snd cs')"
      "silent rest (snd cs') \<subseteq> silent rest (snd (c, s))"
      by (auto simp: requests_of_def silent_def same)
  qed
qed (simp add: place_service_def)

text \<open>The id that the first waiting request gets: its own or the drawn one.\<close>

lemma give_id:
  assumes ok: "sending_ok draw ((r, a) # rest) (c, s)"
    and p: "prepareToSend draw (objects s a) (cn_bigMsgId c) force s = (m, d, s1)"
  shows "objects s1 = objects s" "toSend s1 = toSend s" "haveSent s1 = haveSent s" "drawn s1 = drawn s"
    "noted_ok (drawn_ids draw (drawn s)) (resendingIds s1)" "noted_ok (drawn_ids draw (drawn s)) (ackedIds s1)"
    "fm_keys (resendingIds s1) \<subseteq> fm_keys (resendingIds s)"
    "m < cn_bigMsgId c \<Longrightarrow> ackedIds s1 = ackedIds s"
    "rd_requestId d = r" "r \<noteq> 0" "request_ok d" "getMsgId d = m" "needAck d = needAck (objects s a)"
    "m \<noteq> 0" "m \<in> drawn_ids draw (drawn s)" "m \<notin> fm_keys (haveSent s)"
    "\<And>x b. (x, b) \<in> set rest \<Longrightarrow> getMsgId (objects s b) \<noteq> m"
proof -
  note o = sending_okD [OF ok]
  have ra: "(r, a) \<in> set ((r, a) # rest)" by simp
  note w = waitingD [OF o(1) ra]
  have z: "getMsgId (objects s a) \<notin> fm_keys (haveSent s)" using sentD(7) [OF o(1) _ ra] by force
  note q = prepare_state [OF p o(2,3,6,4) z]
  show "objects s1 = objects s" "toSend s1 = toSend s" "haveSent s1 = haveSent s" "drawn s1 = drawn s"
    "noted_ok (drawn_ids draw (drawn s)) (resendingIds s1)" "noted_ok (drawn_ids draw (drawn s)) (ackedIds s1)"
    "fm_keys (resendingIds s1) \<subseteq> fm_keys (resendingIds s)" by (fact q)+
  have long: "8 < length (rd_ints (objects s a))" using w(3) by (auto simp: request_ok_def)
  show "rd_requestId d = r" "r \<noteq> 0" "request_ok d" "getMsgId d = m" "needAck d = needAck (objects s a)"
    using prepare_data [OF p long] w by simp_all
  have own: "m = cn_bigMsgId c \<or> m = getMsgId (objects s a) \<and> m \<noteq> 0 \<and> m \<le> cn_bigMsgId c \<and> ackedIds s1 = ackedIds s"
    by (rule q(9))
  show "m < cn_bigMsgId c \<Longrightarrow> ackedIds s1 = ackedIds s" using own by auto
  show "m \<noteq> 0" "m \<in> drawn_ids draw (drawn s)" using own o(4,5) w(4) by auto
  show "m \<notin> fm_keys (haveSent s)" using own o(6) z unfolding id_used_keys by (metis Un_iff)
  show "getMsgId (objects s b) \<noteq> m" if "(x, b) \<in> set rest" for x b
  proof
    assume e: "getMsgId (objects s b) = m"
    have xb: "(x, b) \<in> set ((r, a) # rest)" using that by simp
    from own show False
    proof
      assume "m = cn_bigMsgId c"
      then show False using o(7) [OF xb] e by simp
    next
      assume "m = getMsgId (objects s a) \<and> m \<noteq> 0 \<and> m \<le> cn_bigMsgId c \<and> ackedIds s1 = ackedIds s"
      then have "x = r" using o(1) xb ra e unfolding maps_ok_def waiting_ok_def by metis
      then show False using that maps_fm_ok(1) [OF o(1)] by force
    qed
  qed
qed

lemma place_maps:
  assumes ok: "sending_ok draw ((r, a) # rest) (c, s)"
    and p: "prepareToSend draw (objects s a) (cn_bigMsgId c) force s = (m, d, s1)"
    and d': "rd_requestId d' = rd_requestId d" "request_ok d'" "getMsgId d' = getMsgId d"
    and os: "os = (objects s)(a := d')" and hs: "hs = (if needAck d then fm_emplace m a (haveSent s) else haveSent s)"
  shows "maps_ok (drawn_ids draw (drawn s)) os rest hs"
    "requests_in os rest hs = requests_in (objects s) ((r, a) # rest) (haveSent s) - (if needAck d then {} else {r})"
    "(x, b) \<in> set rest \<Longrightarrow> os b = objects s b"
proof -
  note g = give_id [OF ok p] and o = sending_okD [OF ok]
  note t = take_first [OF o(1), of d', folded os]
  have t1: "maps_ok (drawn_ids draw (drawn s)) os rest (haveSent s)"
    and t2: "requests_in os rest (haveSent s) = requests_in (objects s) ((r, a) # rest) (haveSent s) - {r}"
    using t(1,2) d' g(9) by simp_all
  show same: "os b = objects s b" if "(x, b) \<in> set rest" for x b
    using t(3) [of b] that d' g(9) by (force simp: os)
  have ord: "rd_requestId (os a) = r" "request_ok (os a)" "getMsgId (os a) = m" using d' g by (simp_all add: os)
  have uniq: "getMsgId (os b) \<noteq> m" if "(x, b) \<in> set rest" for x b using g(17) [OF that] same [OF that] by simp
  have new: "rd_requestId (os a) \<notin> requests_in os rest (haveSent s)" using t2 ord by simp
  have r0: "rd_requestId (os a) \<noteq> 0" using g(10) ord by simp
  have inr: "r \<in> requests_in (objects s) ((r, a) # rest) (haveSent s)" by (simp add: requests_in_def)
  note as = add_sent [OF t1 new r0 ord(2,3) g(14,15,16) uniq]
  show "maps_ok (drawn_ids draw (drawn s)) os rest hs" using as(1) t1 by (simp add: hs)
  show "requests_in os rest hs = requests_in (objects s) ((r, a) # rest) (haveSent s) - (if needAck d then {} else {r})"
    using as(2) t2 ord inr by (auto simp: hs)
qed

lemma place_request_fills:
  assumes N: "fresh_ids N draw"
  shows "fills N draw ((r, a) # rest) cs rest (place_request draw env force (r, a) cs)"
proof -
  obtain c s where cs: "cs = (c, s)" by (cases cs)
  obtain m d s1 where p: "prepareToSend draw (objects s a) (cn_bigMsgId c) force s = (m, d, s1)" by (metis prod_cases3)
  define s2 where "s2 = s1\<lparr>objects := (objects s1)(a := d)\<rparr>"
  define n where "n = next_big draw m (c, s2)"
  define cs' where "cs' = place_request draw env force (r, a) cs"
  define d' where "d' = (if needAck d \<and> rd_requestId d \<noteq> 0 then d\<lparr>rd_lastSentTime := en_now env\<rparr> else d)"
  have n: "objects (snd n) = (objects s1)(a := d)" "toSend (snd n) = toSend s1" "haveSent (snd n) = haveSent s1"
    "ackedIds (snd n) = ackedIds s1" "resendingIds (snd n) = resendingIds s1" by (simp_all add: n_def s2_def)
  have cs': "cn_bigMsgId (fst cs') = cn_bigMsgId (fst n)" "drawn (snd cs') = drawn (snd n)"
    "toSend (snd cs') = toSend (snd n)" "resendingIds (snd cs') = resendingIds (snd n)"
    "objects (snd cs') = (objects s1)(a := d')"
    "haveSent (snd cs') = (if rd_requestId d \<noteq> 0 \<and> needAck d then fm_emplace m a (haveSent s1) else haveSent s1)"
    "ackedIds (snd cs') = (if rd_requestId d \<noteq> 0 \<and> \<not> needAck d
        then fm_emplace m (rd_requestId d) (ackedIds s1) else ackedIds s1)"
    using n by (simp_all add: cs'_def place_request_def cs p Let_def split_beta d'_def flip: s2_def n_def)
  note mono = prepare_mono [OF p]
  show ?thesis unfolding fills_def cs'_def [symmetric] unfolding cs
  proof (intro conjI impI)
    show "drawn (snd (c, s)) \<le> drawn (snd cs')"
      using mono next_big_drawn [of s2 draw m c] by (simp add: cs' n_def s2_def)
    show "toSend (snd cs') = toSend (snd (c, s))" using mono by (simp add: cs' n)
    assume b: "drawn (snd cs') \<le> N" and ok: "sending_ok draw ((r, a) # rest) (c, s)"
    note o = sending_okD [OF ok] and g = give_id [OF ok p]
    have d': "rd_requestId d' = rd_requestId d" "request_ok d'" "getMsgId d' = getMsgId d"
      using g(11) same_time [of d "en_now env"] by (auto simp: d'_def same_request_def)
    define os where "os = (objects s)(a := d')"
    define hs where "hs = (if needAck d then fm_emplace m a (haveSent s) else haveSent s)"
    note pm = place_maps [OF ok p d' os_def hs_def]
    have fields: "objects (snd cs') = os" "haveSent (snd cs') = hs"
      using g(1,3,9,10) by (simp_all add: cs' os_def hs_def)
    define s3 where "s3 = s2\<lparr>objects := os, haveSent := hs, ackedIds := ackedIds (snd cs')\<rparr>"
    have s3: "objects s3 = os" "haveSent s3 = hs" "ackedIds s3 = ackedIds (snd cs')" "resendingIds s3 = resendingIds s1"
      "drawn s3 = drawn s" using g(4) by (simp_all add: s3_def s2_def)
    have acked: "noted_ok (drawn_ids draw (drawn s)) (ackedIds (snd cs'))"
      "m < cn_bigMsgId c \<Longrightarrow> fm_keys (ackedIds (snd cs')) \<subseteq> insert m (fm_keys (ackedIds s))"
      using g(6,8,15) by (auto simp: cs')
    have "sending_ok draw rest (next_big draw m (c, s3))"
    proof (rule next_big_ok [OF N])
      show "drawn (snd (next_big draw m (c, s3))) \<le> N"
        using b g(4) by (simp add: cs' n_def next_big_ids s3 s2_def cong: if_cong)
      show "\<not> id_used s3 (cn_bigMsgId c)" if "m < cn_bigMsgId c"
        using that o(6) g(7) acked(2) by (auto simp: id_used_keys s3 hs_def)
      show "getMsgId (objects s3 b) \<noteq> cn_bigMsgId c" if "(x, b) \<in> set rest" for x b
        using o(7) [of x b] pm(3) [OF that] that by (simp add: s3)
    qed (use pm(1) g(5) acked(1) o(4,5) in \<open>simp_all add: s3\<close>)
    moreover have "cn_bigMsgId (fst (next_big draw m (c, s3))) = cn_bigMsgId (fst n)"
      "drawn (snd (next_big draw m (c, s3))) = drawn (snd n)"
      using g(4) by (simp_all add: n_def next_big_ids s3 s2_def cong: if_cong)
    ultimately show "sending_ok draw rest cs'"
      by (simp add: sending_ok_def Let_def id_used_def fields cs'(1,2,4) n s3)
    show "requests_of rest (snd cs') \<subseteq> requests_of ((r, a) # rest) (snd (c, s))"
      using pm(2) by (auto simp: requests_of_def fields)
    show "requests_of ((r, a) # rest) (snd (c, s)) - silent ((r, a) # rest) (snd (c, s)) \<subseteq> requests_of rest (snd cs')"
      using pm(2) g(13) by (auto simp: requests_of_def silent_def fields)
    show "silent rest (snd cs') \<subseteq> silent ((r, a) # rest) (snd (c, s))"
      using pm(3) by (fastforce simp: silent_def fields)
  qed
qed

lemma place_requests_fill:
  assumes "fresh_ids N draw"
  shows "fills N draw (xs @ rest) cs rest (fold (place_request draw env force) xs cs)"
proof (induction xs arbitrary: cs)
  case (Cons e xs)
  obtain r a where e: "e = (r, a)" by (cases e)
  have "fills N draw ((r, a) # xs @ rest) cs (xs @ rest) (place_request draw env force e cs)"
    unfolding e by (rule place_request_fills [OF assms])
  then show ?case using fills_trans [OF _ Cons.IH] by (simp add: e)
qed simp

subsection \<open>A whole container\<close>

text \<open>The container itself has no id before the end.\<close>

definition unnamed :: "prime list \<Rightarrow> bool" where
  "unnamed xs \<longleftrightarrow> 8 \<le> length xs \<and> xs ! 4 = 0 \<and> xs ! 5 = 0"

lemma unnamed_append: "unnamed xs \<Longrightarrow> unnamed (xs @ ys)"
  by (auto simp: unnamed_def nth_append)

lemma unnamed_bump: "unnamed xs \<Longrightarrow> 7 \<le> i \<Longrightarrow> unnamed (bump i k xs)"
  by (simp add: unnamed_def bump_def)

lemma unnamed_overwrite: "unnamed xs \<Longrightarrow> 8 \<le> i \<Longrightarrow> unnamed (overwrite i ys xs)"
  by (auto simp: unnamed_def overwrite_def nth_append)

lemma unnamed_length: "unnamed xs \<Longrightarrow> 8 \<le> length xs"
  by (simp add: unnamed_def)

lemma unnamed_wrap: "unnamed xs \<Longrightarrow> unnamed (WrapInvokeAfter i have n from k xs)"
  by (auto simp: WrapInvokeAfter_def Let_def intro!: unnamed_append unnamed_bump dest: unnamed_length)

lemma unnamed_place_ints:
  assumes "unnamed ints"
  shows "unnamed (place_ints env s req ints)"
proof -
  have l: "8 \<le> length ints" by (rule unnamed_length [OF assms])
  show ?thesis
    unfolding place_ints_def Let_def
    by (auto intro!: unnamed_append unnamed_bump unnamed_overwrite unnamed_wrap assms split: option.splits) (use l in auto)
qed

lemma unnamed_place_request:
  "unnamed (cn_ints (fst cs)) \<Longrightarrow> unnamed (cn_ints (fst (place_request draw env force e cs)))"
proof -
  assume "unnamed (cn_ints (fst cs))"
  moreover obtain c s where "cs = (c, s)" by (cases cs)
  moreover obtain r a where "e = (r, a)" by (cases e)
  ultimately show ?thesis
    by (simp add: place_request_def Let_def split_beta unnamed_place_ints)
qed

lemma unnamed_requests:
  "unnamed (cn_ints (fst cs)) \<Longrightarrow> unnamed (cn_ints (fst (fold (place_request draw env force) xs cs)))"
proof (induction xs arbitrary: cs)
  case (Cons e xs)
  show ?case using Cons.IH [OF unnamed_place_request [OF Cons.prems]] by simp
qed simp

lemma unnamed_service:
  assumes "unnamed (cn_ints (fst cs))" "quiet_note note_id"
  shows "unnamed (cn_ints (fst (place_service draw force req note_id cs)))"
proof (cases req)
  case (Some d)
  have n: "cn_ints (fst (note_id m d' (c, s))) = cn_ints c" for m d' c s using assms(2) by (simp add: quiet_note_def)
  show ?thesis
    using assms(1) by (cases cs) (simp add: place_service_def placeToContainer_def Some Let_def split_beta n unnamed_append)
qed (use assms in \<open>simp add: place_service_def\<close>)

lemma zero_word: "long_of 0 0 = 0"
  by (simp add: long_of_def)

lemma unnamed_id: "unnamed (rd_ints d) \<Longrightarrow> getMsgId d = 0"
  by (simp add: unnamed_def getMsgId_def position_defs zero_word)

lemma unnamed_Prepare: "unnamed (rd_ints (Prepare now n) @ xs)"
  by (intro unnamed_append) (simp add: unnamed_def Prepare_def position_defs)

lemma Serialize_id [simp]: "getMsgId (Serialize now xs) = 0"
  by (rule unnamed_id) (simp add: Serialize_def Let_def unnamed_Prepare)

text \<open>What the service messages must bring: no id, or one that is nowhere in use.\<close>

definition service_ids :: "(mtpMsgId \<Rightarrow> bool) \<Rightarrow> service \<Rightarrow> bool" where
  "service_ids free v \<longleftrightarrow>
     (\<forall>d. Some d \<in> {sv_ping v, sv_ack v, sv_resend v, sv_state v, sv_httpWait v} \<longrightarrow> getMsgId d = 0)
     \<and> (\<forall>d. sv_bind v = Some d \<longrightarrow> free (getMsgId d))"

lemma sending_pending:
  "sending_ok draw (toSend s) (c, s) \<Longrightarrow> session_ok draw s"
  "requests_of (toSend s) s = pending s"
  by (simp_all add: sending_ok_def session_ok_def requests_of_def pending_def Let_def)

text \<open>Sending may only lose requests that ask for no acknowledgement.\<close>

definition sends :: "nat \<Rightarrow> (nat \<Rightarrow> mtpMsgId) \<Rightarrow> mtp_session \<Rightarrow> mtp_session \<Rightarrow> bool" where
  "sends N draw s s' \<longleftrightarrow> drawn s \<le> drawn s'
     \<and> (drawn s' \<le> N \<longrightarrow> session_ok draw s \<longrightarrow>
          session_ok draw s' \<and> pending s' \<subseteq> pending s \<and> pending s - silent (toSend s) s \<subseteq> pending s')"

lemma fills_container:
  assumes N: "fresh_ids N draw" and v: "service_ids (\<lambda>i. i \<notin> fm_keys (haveSent s)) v" and hs: "haveSent (snd cs) = haveSent s"
  shows "fills N draw (take n ts @ drop n ts) cs (drop n ts)
    (fold (place_request draw env force) (take n ts)
      (place_service draw force (sv_ping v) note_ping (place_service draw False (sv_bind v) (note_bind env) cs)))"
proof -
  have b: "fills N draw (take n ts @ drop n ts) cs (take n ts @ drop n ts) (place_service draw False (sv_bind v) (note_bind env) cs)"
    by (rule place_service_fills [OF N]) (use v hs in \<open>auto simp: service_ids_def\<close>)
  have p: "fills N draw (take n ts @ drop n ts) t (take n ts @ drop n ts) (place_service draw force (sv_ping v) note_ping t)" for t
    by (rule place_service_fills [OF N]) (use v in \<open>auto simp: service_ids_def\<close>)
  show ?thesis by (rule fills_trans [OF fills_trans [OF b p] place_requests_fill [OF N]])
qed

lemma fills_after:
  assumes N: "fresh_ids N draw" and v: "service_ids free v"
  shows "fills N draw rest cs rest
    (place_service draw force (sv_httpWait v) note_nothing (place_service draw force (sv_ack v) note_nothing
      (place_service draw force (sv_resend v) note_state (place_service draw force (sv_state v) note_state cs))))"
proof -
  have p: "fills N draw rest t rest (place_service draw force x note_id t)"
    if "x \<in> {sv_state v, sv_resend v, sv_ack v, sv_httpWait v}" "quiet_note note_id" for t x note_id
    by (rule place_service_fills [OF N that(2)]) (use v that(1) in \<open>auto simp: service_ids_def\<close>)
  show ?thesis by (rule fills_trans [OF fills_trans [OF fills_trans [OF p p] p] p]) simp_all
qed

lemma send_container_sends:
  assumes N: "fresh_ids N draw" and v: "service_ids (\<lambda>i. i \<notin> fm_keys (haveSent s)) v"
  shows "sends N draw s (snd (send_container draw env v force n m s))"
proof -
  define whole where "whole = Prepare (en_now env) (container_size env v (map (\<lambda>(r, a). objects s a) (take n (toSend s))))"
  obtain i s1 where i: "mtproto_msg_id draw s = (i, s1)" by (cases "mtproto_msg_id draw s")
  define c where "c = \<lparr>cn_ints = rd_ints whole @ [mtpc_msg_container, word_of_nat m], cn_bigMsgId = i,
               cn_messages = [], cn_need = False\<rparr>"
  define t where "t = fold (place_request draw env force) (take n (toSend s))
      (place_service draw force (sv_ping v) note_ping (place_service draw False (sv_bind v) (note_bind env) (c, s1)))"
  define t' where "t' = (fst t, (snd t)\<lparr>toSend := drop n (toSend (snd t))\<rparr>)"
  define u where "u = place_service draw force (sv_httpWait v) note_nothing (place_service draw force (sv_ack v) note_nothing
      (place_service draw force (sv_resend v) note_state (place_service draw force (sv_state v) note_state t')))"
  obtain x d s' where p: "prepareToSend draw (whole\<lparr>rd_ints := cn_ints (fst u)\<rparr>) (cn_bigMsgId (fst u)) force (snd u) = (x, d, s')"
    by (metis prod_cases3)
  have e: "core (snd (send_container draw env v force n m s)) = core s'"
    using p by (simp add: send_container_def Let_def split_beta i core_def
        flip: whole_def c_def t_def t'_def u_def)
  have s1: "objects s1 = objects s" "toSend s1 = toSend s" "haveSent s1 = haveSent s" "resendingIds s1 = resendingIds s"
    "ackedIds s1 = ackedIds s" "drawn s1 = Suc (drawn s)" using i by (auto simp: mtproto_msg_id_def)
  have ft: "fills N draw (toSend s) (c, s1) (drop n (toSend s)) t"
    using fills_container [OF N v, of "(c, s1)" n "toSend s"] by (simp add: t_def s1)
  have fu: "fills N draw (drop n (toSend s)) t' (drop n (toSend s)) u"
    unfolding u_def by (rule fills_after [OF N v])
  have mono: "drawn s1 \<le> drawn (snd t)" "drawn (snd t') \<le> drawn (snd u)" "toSend (snd t) = toSend s"
    "toSend (snd u) = drop n (toSend s)" "drawn (snd u) \<le> drawn s'"
    using ft fu prepare_mono(1) [OF p] s1 by (auto simp: fills_def t'_def)
  show ?thesis
    unfolding sends_def session_ok_core [OF e] pending_core [OF e]
  proof (intro conjI impI)
    have "drawn (snd (send_container draw env v force n m s)) = drawn s'" using e by (simp add: core_def)
    then show "drawn s \<le> drawn (snd (send_container draw env v force n m s))"
      using mono s1 by (simp add: t'_def)
    assume "drawn (snd (send_container draw env v force n m s)) \<le> N" and ok: "session_ok draw s"
    then have b: "drawn s' \<le> N" "drawn (snd u) \<le> N" "drawn (snd t) \<le> N" "drawn s < N"
      using e mono s1 by (auto simp: core_def t'_def)
    have "sending_ok draw (toSend s) (c\<lparr>cn_bigMsgId := i\<rparr>, s1)"
      by (rule unassigned_draw [OF N b(4) _ _ _ i]) (use ok in \<open>simp_all add: session_ok_def\<close>)
    then have c: "sending_ok draw (toSend s) (c, s1)" by (simp add: c_def)
    have t: "sending_ok draw (drop n (toSend s)) t'" and rt: "requests_of (drop n (toSend s)) (snd t) \<subseteq> requests_of (toSend s) s1"
      "requests_of (toSend s) s1 - silent (toSend s) s1 \<subseteq> requests_of (drop n (toSend s)) (snd t)"
      using ft c b(3) by (auto simp: fills_def t'_def sending_ok_def Let_def id_used_def)
    have u: "sending_ok draw (drop n (toSend s)) (fst u, snd u)"
      and ru: "requests_of (drop n (toSend s)) (snd u) \<subseteq> requests_of (drop n (toSend s)) (snd t)"
      "requests_of (drop n (toSend s)) (snd t) - silent (drop n (toSend s)) (snd t) \<subseteq> requests_of (drop n (toSend s)) (snd u)"
      "silent (drop n (toSend s)) (snd t) \<subseteq> silent (toSend s) s1"
      using fu t b(2) ft c b(3) by (auto simp: fills_def t'_def requests_of_def silent_def)
    note o = sending_okD [OF u]
    have "unnamed (cn_ints (fst u))"
      unfolding u_def t'_def t_def
      by (simp add: unnamed_service unnamed_requests c_def whole_def unnamed_Prepare)
    then have z: "getMsgId (whole\<lparr>rd_ints := cn_ints (fst u)\<rparr>) = 0" by (intro unnamed_id) simp
    have z': "getMsgId (whole\<lparr>rd_ints := cn_ints (fst u)\<rparr>) \<notin> fm_keys (haveSent (snd u))"
      using sentD(2) [OF o(1)] by (force simp: z)
    note q = prepare_state [OF p o(2,3,6,4) z']
    show "session_ok draw s'" using q o(1) mono(4) by (simp add: session_ok_def)
    have pend: "pending s' = requests_of (drop n (toSend s)) (snd u)"
      using q mono(4) by (simp add: pending_def requests_of_def)
    have start: "requests_of (toSend s) s1 = pending s" "silent (toSend s) s1 = silent (toSend s) s"
      by (simp_all add: requests_of_def pending_def silent_def s1)
    show "pending s' \<subseteq> pending s" unfolding pend using ru(1) rt(1) start by blast
    show "pending s - silent (toSend s) s \<subseteq> pending s'" unfolding pend using ru rt start by blast
  qed
qed

lemma send_service_sends:
  assumes N: "fresh_ids N draw" and d: "getMsgId d = 0 \<or> getMsgId d \<notin> fm_keys (haveSent s)"
  shows "sends N draw s (snd (send_service draw env v force d s))"
proof -
  obtain i s1 where i: "mtproto_msg_id draw s = (i, s1)" by (cases "mtproto_msg_id draw s")
  obtain x d' s' where p: "prepareToSend draw d i (force \<and> sv_bind v = None) s1 = (x, d', s')" by (metis prod_cases3)
  have e: "core (snd (send_service draw env v force d s)) = core s'"
    by (simp add: send_service_def i p Let_def core_def)
  have s1: "s1 = s\<lparr>drawn := Suc (drawn s)\<rparr>" using i by (auto simp: mtproto_msg_id_def)
  have "drawn s \<le> drawn s'" using prepare_mono(1) [OF p] by (simp add: s1)
  moreover have "session_ok draw s' \<and> pending s' = pending s" if b: "drawn s' \<le> N" and ok: "session_ok draw s"
  proof -
    have "drawn s < N" using prepare_mono(1) [OF p] b by (simp add: s1)
    then have "sending_ok draw (toSend s) (c\<lparr>cn_bigMsgId := i\<rparr>, s1)" for c
      by (rule unassigned_draw [OF N(1) _ _ _ _ i]) (use ok in \<open>simp_all add: session_ok_def\<close>)
    then have o: "sending_ok draw (toSend s) (\<lparr>cn_ints = [], cn_bigMsgId = i, cn_messages = [], cn_need = False\<rparr>, s1)"
      by (metis container.update_convs(2))
    note o = sending_okD [OF o, simplified]
    have z: "getMsgId d \<notin> fm_keys (haveSent s1)" using d sentD(2) [OF o(1)] by (force simp: s1)
    note q = prepare_state [OF p o(2,3,6,4) z]
    show ?thesis using q o(1) by (simp add: session_ok_def pending_def s1)
  qed
  ultimately show ?thesis unfolding sends_def session_ok_core [OF e] pending_core [OF e] using e by (auto simp: core_def)
qed

lemma send_single_sends:
  assumes N: "fresh_ids N draw" and ts: "toSend s = (r, a) # rest"
  shows "sends N draw s (snd (send_single draw env force a s))"
proof -
  define s0 where "s0 = s\<lparr>toSend := rest\<rparr>"
  obtain i s1 where i: "mtproto_msg_id draw s0 = (i, s1)" by (cases "mtproto_msg_id draw s0")
  obtain m d s2 where p: "prepareToSend draw (objects s1 a) i force s1 = (m, d, s2)" by (metis prod_cases3)
  have s1: "s1 = s0\<lparr>drawn := Suc (drawn s)\<rparr>" using i by (auto simp: mtproto_msg_id_def s0_def)
  define s' where "s' = snd (send_single draw env force a s)"
  define d' where "d' = (if needAck d \<and> rd_requestId d \<noteq> 0 then d\<lparr>rd_lastSentTime := en_now env\<rparr> else d)"
  have s': "drawn s' = drawn s2" "toSend s' = toSend s2" "resendingIds s' = resendingIds s2"
    "objects s' = (objects s2)(a := d')"
    "haveSent s' = (if rd_requestId d \<noteq> 0 \<and> needAck d then fm_emplace m a (haveSent s2) else haveSent s2)"
    "ackedIds s' = (if rd_requestId d \<noteq> 0 \<and> \<not> needAck d then fm_emplace m (rd_requestId d) (ackedIds s2) else ackedIds s2)"
    using p by (simp_all add: s'_def send_single_def ts s0_def [symmetric] i Let_def d'_def)
  show ?thesis unfolding sends_def s'_def [symmetric]
  proof (intro conjI impI)
    show "drawn s \<le> drawn s'" using prepare_mono(1) [OF p] by (simp add: s' s1)
    assume b: "drawn s' \<le> N" and ok: "session_ok draw s"
    have lt: "drawn s < N" using prepare_mono(1) [OF p] b by (simp add: s' s1)
    define c where "c = \<lparr>cn_ints = [], cn_bigMsgId = i, cn_messages = [], cn_need = False\<rparr>"
    have "sending_ok draw (toSend s) (c\<lparr>cn_bigMsgId := i\<rparr>, s1)"
      by (rule unassigned_draw [OF N _ _ _ _ i]) (use ok lt in \<open>simp_all add: session_ok_def s0_def\<close>)
    then have so: "sending_ok draw ((r, a) # rest) (c, s1)" by (simp add: c_def ts)
    have p': "prepareToSend draw (objects s1 a) (cn_bigMsgId c) force s1 = (m, d, s2)" using p by (simp add: c_def)
    note g = give_id [OF so p']
    have d': "rd_requestId d' = rd_requestId d" "request_ok d'" "getMsgId d' = getMsgId d"
      using g(11) same_time [of d "en_now env"] by (auto simp: d'_def same_request_def)
    define hs where "hs = (if needAck d then fm_emplace m a (haveSent s1) else haveSent s1)"
    note pm = place_maps [OF so p' d' refl hs_def]
    have h: "haveSent s' = hs" "objects s' = (objects s1)(a := d')" "toSend s' = rest" "drawn s' = drawn s1"
      using g s0_def by (simp_all add: s' hs_def s1)
    have ak: "noted_ok (drawn_ids draw (drawn s1)) (ackedIds s')" using g(6,15) by (simp add: s')
    show "session_ok draw s'" using pm(1) ak g(5) by (simp add: session_ok_def h s')
    have "pending s' = pending s - (if needAck d then {} else {r})"
      using pm(2) by (simp add: pending_def h ts s1 s0_def)
    moreover have "\<not> needAck d \<Longrightarrow> r \<in> silent (toSend s) s" using g(13) by (auto simp: silent_def ts s1 s0_def)
    ultimately show "pending s' \<subseteq> pending s" "pending s - silent (toSend s) s \<subseteq> pending s'" by auto
  qed
qed

lemma first_service_none:
  assumes "first_service v = None"
  shows "service_count v = 0"
  using assms by (auto simp: first_service_def service_count_def is_some_def split: option.splits)

lemma first_service_id:
  assumes "service_ids free v" "first_service v = Some d"
  shows "getMsgId d = 0 \<or> free (getMsgId d)"
  using assms by (auto simp: first_service_def service_ids_def split: option.splits)

lemma cut_count_zero: "cut_count k ns = 0 \<longleftrightarrow> ns = []"
  by (cases ns) auto

lemma sends_refl: "sends N draw s s"
  by (auto simp: sends_def)

lemma send_prepared_range_sends:
  assumes N: "fresh_ids N draw" and v: "service_ids (\<lambda>i. i \<notin> fm_keys (haveSent s)) v"
  shows "sends N draw s (snd (send_prepared_range draw env v all force s))"
proof -
  define n where "n = cut_count 0 (map (\<lambda>(r, a). length (rd_ints (objects s a))) (if all then toSend s else []))"
  define total_n where "total_n = n + service_count v"
  note c = send_container_sends [OF N v, of env force n total_n]
  show ?thesis
  proof (cases "first_service v")
    case (Some d)
    have "sends N draw s (snd (send_service draw env v force d s))"
      by (rule send_service_sends [OF N first_service_id [OF v Some]])
    then show ?thesis
      using c Some sends_refl
      by (auto simp: send_prepared_range_def Let_def split_beta total_n_def n_def [symmetric])
  next
    case None
    then have t: "total_n = n" using first_service_none by (simp add: total_n_def)
    show ?thesis
    proof (cases "n = 0")
      case True
      then show ?thesis
        using t sends_refl by (simp add: send_prepared_range_def Let_def total_n_def flip: n_def)
    next
      case False
      then obtain r a rest where q: "toSend s = (r, a) # rest" "all"
        by (cases "toSend s"; cases all) (auto simp: n_def)
      have "sends N draw s (snd (send_single draw env force a s))" by (rule send_single_sends [OF N q(1)])
      then show ?thesis
        using c None q False t by (auto simp: send_prepared_range_def Let_def split_beta total_n_def n_def)
    qed
  qed
qed

lemma sends_before:
  assumes "core s0 = core s" "sends N draw s0 s'"
  shows "sends N draw s s'"
  using assms session_ok_core [OF assms(1)] pending_core [OF assms(1)]
  by (auto simp: sends_def core_def silent_def)

lemma bind_id: "getMsgId (setSeqNo n (setMsgId i (Serialize now xs))) = i"
proof -
  have "5 < length (rd_ints (Serialize now xs))" by (simp add: Serialize_def Prepare_def position_defs Let_def)
  then show ?thesis by (simp add: getMsgId_def setMsgId_def setSeqNo_def position_defs)
qed

lemma take_ping_core: "core (snd (take_ping sch env b (v, s))) = core s"
  by (simp add: take_ping_def core_def)

lemma collect_service_ids:
  assumes N: "fresh_ids N draw" and ok: "session_ok draw s" and b: "drawn (snd (collect_service draw sch env first s)) \<le> N"
  shows "service_ids (\<lambda>i. i \<notin> fm_keys (haveSent s)) (fst (collect_service draw sch env first s))"
proof -
  define x where "x = (if first then take_ping sch env first (no_service, s)
    else take_http_wait sch env (take_state sch env (take_resend sch env (take_ack sch env (take_ping sch env first (no_service, s))))))"
  have zero: "service_ids free (fst x)" "sv_bind (fst x) = None" "core (snd x) = core s" for free
    by (auto simp: x_def service_ids_def take_http_wait_def take_state_def take_resend_def take_ack_def take_ping_def
        no_service_def core_def)
  have new: "draw (drawn s) \<notin> fm_keys (haveSent s)" if "drawn s < N"
    using fresh_new [OF N that] sentD(3) [of "drawn_ids draw (drawn s)" "objects s" "toSend s" "haveSent s"] ok
    by (force simp: session_ok_def)
  show ?thesis
  proof (cases "first \<or> \<not> (bindMsgId (snd x) = 0 \<and> en_keyCreator env = Some True)")
    case True
    then have "collect_service draw sch env first s = x"
      by (auto simp: collect_service_def x_def take_bind_def Let_def split_beta)
    then show ?thesis using zero(1) by simp
  next
    case False
    then have e: "collect_service draw sch env first s = take_bind draw sch env x"
      by (simp add: collect_service_def x_def Let_def)
    have f: "\<exists>d. fst (take_bind draw sch env x) = (fst x)\<lparr>sv_bind := Some d\<rparr> \<and> getMsgId d = draw (drawn s)"
      "drawn (snd (take_bind draw sch env x)) = Suc (drawn s)"
      using False zero(3)
      by (simp_all add: take_bind_def split_beta Let_def mtproto_msg_id_def core_def nextRequestSeqNumber_def) (metis bind_id)
    then obtain d where d: "fst (take_bind draw sch env x) = (fst x)\<lparr>sv_bind := Some d\<rparr>" "getMsgId d = draw (drawn s)"
      by blast
    have "draw (drawn s) \<notin> fm_keys (haveSent s)" using new b f(2) unfolding e by simp
    then show ?thesis using zero(1) unfolding e d(1) service_ids_def by (simp add: d(2))
  qed
qed

lemma sends_later:
  assumes e: "core t = core (s\<lparr>drawn := drawn t\<rparr>)" "drawn s \<le> drawn t" and t: "sends N draw t s'"
  shows "sends N draw s s'"
proof -
  have f: "objects t = objects s" "toSend t = toSend s" "haveSent t = haveSent s" "resendingIds t = resendingIds s"
    "ackedIds t = ackedIds s" using e(1) by (simp_all add: core_def)
  have sub: "drawn_ids draw (drawn s) \<subseteq> drawn_ids draw (drawn t)" by (rule drawn_ids_mono [OF e(2)])
  have "session_ok draw s \<Longrightarrow> session_ok draw t"
    unfolding session_ok_def f using maps_ok_mono [OF _ sub] noted_ok_mono [OF _ sub] by blast
  moreover have "pending t = pending s" "silent (toSend t) t = silent (toSend s) s" by (simp_all add: pending_def silent_def f)
  ultimately show ?thesis using t e(2) unfolding sends_def by auto
qed

lemma collect_service_core:
  "core (snd (collect_service draw sch env first s)) = core (s\<lparr>drawn := drawn (snd (collect_service draw sch env first s))\<rparr>)"
  "drawn s \<le> drawn (snd (collect_service draw sch env first s))"
  by (simp_all add: collect_service_def take_bind_def take_http_wait_def take_state_def take_resend_def take_ack_def
      take_ping_def mtproto_msg_id_def nextRequestSeqNumber_def core_def Let_def split_beta)

lemma place_service_drawn:
  assumes "quiet_note note_id"
  shows "drawn (snd cs) \<le> drawn (snd (place_service draw force req note_id cs))"
proof (cases req)
  case (Some d)
  obtain c s where cs: "cs = (c, s)" by (cases cs)
  obtain m d' s1 where p: "prepareToSend draw d (cn_bigMsgId c) force s = (m, d', s1)" by (metis prod_cases3)
  have n: "drawn (snd (note_id x y (z, w))) = drawn w" for x y z w using assms by (auto simp: quiet_note_def core_def)
  show ?thesis
    using prepare_mono(1) [OF p] next_big_drawn [of s1 draw m c]
    by (simp add: place_service_def placeToContainer_def Some cs p Let_def split_beta n)
qed (simp add: place_service_def)

text \<open>What every step of filling a container promises holds for the whole of it.\<close>

lemma send_container_along:
  assumes "promise R" and service: "\<And>f req note_id cs. quiet_note note_id \<Longrightarrow> R cs (place_service draw f req note_id cs)"
    and requests: "\<And>cs. R cs (fold (place_request draw env force) (take n (toSend s)) cs)"
    and drop: "\<And>c t. R (c, t) (c, t\<lparr>toSend := drop n (toSend t)\<rparr>)"
  obtains c cs d i whole s' sent where "R (c, s\<lparr>drawn := Suc (drawn s)\<rparr>) cs"
    "prepareToSend draw d (cn_bigMsgId (fst cs)) force (snd cs) = (i, whole, s')"
    "snd (send_container draw env v force n m s) = s'\<lparr>sentContainers := sent\<rparr>"
proof -
  note in_turn = promise.in_turn [OF assms(1)]
  define whole where "whole = Prepare (en_now env) (container_size env v (map (\<lambda>(r, a). objects s a) (take n (toSend s))))"
  define c where "c = \<lparr>cn_ints = rd_ints whole @ [mtpc_msg_container, word_of_nat m], cn_bigMsgId = draw (drawn s),
               cn_messages = [], cn_need = False\<rparr>"
  define c1 where "c1 = place_service draw False (sv_bind v) (note_bind env) (c, s\<lparr>drawn := Suc (drawn s)\<rparr>)"
  define c2 where "c2 = place_service draw force (sv_ping v) note_ping c1"
  define t where "t = fold (place_request draw env force) (take n (toSend s)) c2"
  define t' where "t' = (fst t, (snd t)\<lparr>toSend := drop n (toSend (snd t))\<rparr>)"
  define c3 where "c3 = place_service draw force (sv_state v) note_state t'"
  define c4 where "c4 = place_service draw force (sv_resend v) note_state c3"
  define c5 where "c5 = place_service draw force (sv_ack v) note_nothing c4"
  define c6 where "c6 = place_service draw force (sv_httpWait v) note_nothing c5"
  have "R (c, s\<lparr>drawn := Suc (drawn s)\<rparr>) c1" "R c1 c2" unfolding c1_def c2_def by (simp_all add: service)
  moreover have "R c2 t" unfolding t_def by (rule requests)
  moreover have "R t t'" using drop [of "fst t" "snd t"] by (simp add: t'_def)
  moreover have "R t' c3" "R c3 c4" "R c4 c5" "R c5 c6" unfolding c3_def c4_def c5_def c6_def by (simp_all add: service)
  ultimately have R: "R (c, s\<lparr>drawn := Suc (drawn s)\<rparr>) c6" by (meson in_turn)
  obtain i d s' where p: "prepareToSend draw (whole\<lparr>rd_ints := cn_ints (fst c6)\<rparr>) (cn_bigMsgId (fst c6)) force (snd c6) = (i, d, s')"
    by (metis prod_cases3)
  have "snd (send_container draw env v force n m s) = s'\<lparr>sentContainers :=
      fm_emplace i \<lparr>sc_sent = en_now env, sc_messages = cn_messages (fst c6)\<rparr> (sentContainers s')\<rparr>"
    using p by (simp add: send_container_def Let_def split_beta mtproto_msg_id_def
        flip: whole_def c_def c1_def c2_def t_def t'_def c3_def c4_def c5_def c6_def)
  then show ?thesis using that [OF R p] by blast
qed

lemma send_container_drawn:
  assumes "fresh_ids N draw"
  shows "drawn s \<le> drawn (snd (send_container draw env v force n m s))"
proof -
  have f: "drawn (snd cs) \<le> drawn (snd (fold (place_request draw env force) xs cs))" for xs cs
    using place_requests_fill [OF assms, of xs "[]" cs env force] by (simp add: fills_def)
  show ?thesis
  proof (rule send_container_along [where R = "\<lambda>cs cs'. drawn (snd cs) \<le> drawn (snd cs')"
        and draw = draw and env = env and force = force and n = n and s = s and v = v and m = m])
    fix c cs d i whole s' sent
    assume "drawn (snd (c :: container, s\<lparr>drawn := Suc (drawn s)\<rparr>)) \<le> drawn (snd cs)"
      and p: "prepareToSend draw d (cn_bigMsgId (fst cs)) force (snd cs) = (i, whole, s')"
      and "snd (send_container draw env v force n m s) = s'\<lparr>sentContainers := sent\<rparr>"
    then show ?thesis using prepare_mono(1) [OF p] by simp
  qed (simp_all add: place_service_drawn f promise_def)
qed

lemma send_service_drawn: "drawn s \<le> drawn (snd (send_service draw env v force d s))"
proof -
  obtain x d' s' where p: "prepareToSend draw d (draw (drawn s)) (force \<and> sv_bind v = None) (s\<lparr>drawn := Suc (drawn s)\<rparr>) = (x, d', s')"
    by (metis prod_cases3)
  show ?thesis using prepare_mono(1) [OF p] by (simp add: send_service_def mtproto_msg_id_def p Let_def)
qed

lemma send_prepared_range_drawn:
  assumes "fresh_ids N draw"
  shows "drawn s \<le> drawn (snd (send_prepared_range draw env v all force s))"
proof -
  note c = send_container_drawn [OF assms]
  have single: "drawn s \<le> drawn (snd (send_single draw env force a s))" for a
  proof -
    obtain x d s' where p: "prepareToSend draw (objects s a) (draw (drawn s)) force
        (s\<lparr>toSend := drop (Suc 0) (toSend s), drawn := Suc (drawn s)\<rparr>) = (x, d, s')" by (metis prod_cases3)
    show ?thesis using prepare_mono(1) [OF p] by (simp add: send_single_def mtproto_msg_id_def p Let_def)
  qed
  show ?thesis
    using c send_service_drawn single
    by (simp add: send_prepared_range_def Let_def split_beta split: option.splits)
qed

lemma tryToSend_sends:
  assumes N: "fresh_ids N draw"
  shows "sends N draw s (snd (tryToSend draw sch env s))"
proof -
  define first where "first = (st_state s \<noteq> kConnectedState)"
  define all where "all = (\<not> first \<and> en_keyCreator env = None)"
  show ?thesis
  proof (cases "\<not> en_connection env \<or> \<not> en_key env \<or> first \<and> pingIdToSend s = 0")
    case True
    then have "tryToSend draw sch env s = (no_sending, s)" by (auto simp: tryToSend_def first_def)
    then show ?thesis by (simp add: sends_refl)
  next
    case False
    define s1 where "s1 = (if en_isMainSession env \<and> \<not> first \<and> pingIdToSend s = 0 \<and> pingId s = 0
        \<and> pingSendAt s \<le> en_now env then s\<lparr>pingIdToSend := en_ping env\<rparr> else s)"
    define fs where "fs = (if all then markSessionAsStarted s1 else (False, s1))"
    define vs where "vs = collect_service draw sch env first (snd fs)"
    have e: "tryToSend draw sch env s = send_prepared_range draw env (fst vs) all (fst fs) (snd vs)"
      unfolding tryToSend_def Let_def first_def [symmetric] if_not_P [OF False]
      by (simp add: split_beta all_def s1_def fs_def vs_def)
    have core: "core (snd fs) = core s" by (simp add: fs_def s1_def markSessionAsStarted_def core_def)
    note collect = collect_service_core [where draw = draw and sch = sch and env = env and first = first and s = "snd fs",
        folded vs_def]
    have "sends N draw (snd fs) (snd (tryToSend draw sch env s))"
    proof (cases "session_ok draw (snd fs) \<and> drawn (snd vs) \<le> N")
      case True
      have "haveSent (snd vs) = haveSent (snd fs)" using collect(1) by (simp add: core_def)
      then have "service_ids (\<lambda>i. i \<notin> fm_keys (haveSent (snd vs))) (fst vs)"
        using collect_service_ids [OF N] True unfolding vs_def by simp
      then have "sends N draw (snd vs) (snd (tryToSend draw sch env s))"
        unfolding e by (rule send_prepared_range_sends [OF N])
      then show ?thesis by (rule sends_later [OF collect])
    next
      case False
      moreover have "drawn (snd vs) \<le> drawn (snd (tryToSend draw sch env s))"
        unfolding e by (rule send_prepared_range_drawn [OF N])
      ultimately show ?thesis using collect(2) by (auto simp: sends_def)
    qed
    then show ?thesis using core sends_before by blast
  qed
qed

end
