(* ===== verification/Session_Receive.thy ===== *)
theory Session_Receive
  imports Session_Sending
begin

text \<open>
  What a session does with a decrypted message (\<open>SessionPrivate::handleReceived\<close>,
  \<open>handleOneReceived\<close> and what they call, \<open>mtproto/session_private.cpp\<close>). Containers and
  \<open>rpc_result\<close> are taken apart here as the code does it by hand; the other constructors are read by
  generated code, \<open>ungzip\<close> by zlib and the reply to a key binding by the key creator: they are
  arguments in \<open>receive_env\<close>. Corrections of the clock go to \<open>base::unixtime\<close> and are left out.
\<close>

text \<open>What the generated readers make of a message: \<open>TlUnreadable\<close> when a reader of the switch fails.\<close>

datatype tl_message =
    TlMsgsAck "mtpMsgId list"
  | TlBadMsgNotification mtpMsgId int
  | TlBadServerSalt mtpMsgId "64 word"
  | TlMsgsStateInfo mtpMsgId "byte list"
  | TlMsgsAllInfo "mtpMsgId list" "byte list"
  | TlMsgDetailedInfo mtpMsgId mtpMsgId
  | TlMsgNewDetailedInfo mtpMsgId
  | TlNewSessionCreated mtpMsgId "64 word" nat
  | TlPong mtpMsgId "64 word"
  | TlUnreadable
  | TlOther

datatype handle_result = HSuccess | HIgnored | HRestartConnection | HResetSession | HDestroyTemporaryKey | HParseError

record receive_env =
  re_read :: "prime list \<Rightarrow> tl_message"
  re_ungzip :: "prime list \<Rightarrow> prime list"
  re_stateIds :: "request_data \<Rightarrow> mtpMsgId list option"
  re_protocolError :: "prime list"
  re_destroyedKeyError :: "prime list \<Rightarrow> bool"
  re_hasCallback :: "mtpRequestId \<Rightarrow> bool"
  re_bind :: "(prime list \<Rightarrow> handle_result) option"
  re_now :: int
  re_regularDc :: bool
  re_past :: prime

record outer_info =
  oi_outerMsgId :: mtpMsgId
  oi_serverSalt :: "64 word"
  oi_badTime :: bool

definition mtpc_gzip_packed :: prime where "mtpc_gzip_packed = 0x3072cfa1"
definition mtpc_rpc_result :: prime where "mtpc_rpc_result = 0xf35c6d01"
definition mtpc_rpc_error :: prime where "mtpc_rpc_error = 0x2144ca19"

definition queue_response :: "prime list \<Rightarrow> mtpMsgId \<Rightarrow> mtpRequestId \<Rightarrow> mtp_session \<Rightarrow> mtp_session" where
  "queue_response reply outer requestId s = s\<lparr>haveReceived := haveReceived s
     @ [\<lparr>rs_reply = reply, rs_outerMsgId = outer, rs_requestId = requestId\<rparr>]\<rparr>"

definition success :: "outer_info \<Rightarrow> handle_result" where
  "success info = (if oi_badTime info then HIgnored else HSuccess)"

definition use_salt :: "outer_info \<Rightarrow> mtp_session \<Rightarrow> mtp_session" where
  "use_salt info s = (if oi_serverSalt info \<noteq> 0 then s\<lparr>sessionSalt := oi_serverSalt info\<rparr> else s)"

definition requestsFixTimeSalt :: "mtpMsgId list \<Rightarrow> outer_info \<Rightarrow> mtp_session \<Rightarrow> bool \<times> mtp_session" where
  "requestsFixTimeSalt ids info s =
     (if \<exists>i \<in> set ids. wasSent i s \<noteq> 0 then (True, use_salt info s) else (False, s))"

type_synonym handler = "outer_info \<Rightarrow> mtp_session \<Rightarrow> handle_result \<times> mtp_session"

text \<open>The handlers that first have to know the message the server talks about when the time is wrong.\<close>

definition with_time :: "mtpMsgId list \<Rightarrow> (mtp_session \<Rightarrow> handle_result \<times> mtp_session) \<Rightarrow> handler" where
  "with_time ids go info s =
     (if oi_badTime info
      then let (found, s) = requestsFixTimeSalt ids info s in if found then go s else (HIgnored, s)
      else go s)"

definition handle_msgs_ack :: "receive_env \<Rightarrow> mtpMsgId list \<Rightarrow> handler" where
  "handle_msgs_ack e ids info s =
     (if ids = [] then (success info, s)
      else with_time ids (\<lambda>s. (HSuccess, requestsAcked (re_hasCallback e) False ids s)) info s)"

definition handle_bad_msg_notification :: "receive_env \<Rightarrow> mtpMsgId \<Rightarrow> int \<Rightarrow> handler" where
  "handle_bad_msg_notification e resendId errorCode info s =
     (if errorCode \<in> {16, 17, 32, 33, 64} then
        (if wasSent resendId s = 0 then (success info, s)
         else if errorCode \<in> {16, 17, 64} then (HSuccess, resend (re_now e) 0 resendId (use_salt info s))
         else let s = (if oi_badTime info then use_salt info s else s)
              in if bindMsgId s \<noteq> 0 then (HRestartConnection, s) else (HResetSession, s))
      else if bindMsgId s \<noteq> 0 then (HRestartConnection, s)
      else let requestId = wasSent resendId s
           in (success info, if requestId \<noteq> 0 then queue_response (re_protocolError e) (oi_outerMsgId info) requestId s else s))"

definition handle_bad_server_salt :: "receive_env \<Rightarrow> mtpMsgId \<Rightarrow> 64 word \<Rightarrow> handler" where
  "handle_bad_server_salt e resendId newSalt info s =
     (if wasSent resendId s = 0 then (success info, s)
      else let s = s\<lparr>sessionSalt := newSalt\<rparr>
           in if bindMsgId s \<noteq> 0 then (HRestartConnection, s)
              else let (changed, s) = setState kConnectedState (Some kConnectingState) s;
                       s = (if changed then resendAll (re_now e) s else s)
                   in (HSuccess, resend (re_now e) 0 resendId s))"

definition handle_msgs_state_info :: "receive_env \<Rightarrow> mtpMsgId \<Rightarrow> byte list \<Rightarrow> handler" where
  "handle_msgs_state_info e reqMsgId states info s =
     (case map_of (stateAndResendRequests s) reqMsgId of
        None \<Rightarrow> (success info, s)
      | Some original \<Rightarrow>
          (let s = (if oi_badTime info then use_salt info s else s);
               s = requestsAcked (re_hasCallback e) True [reqMsgId] s
           in case re_stateIds e original of
                None \<Rightarrow> (HParseError, s)
              | Some ids \<Rightarrow> (HSuccess, handleMsgsStates (re_hasCallback e) (re_now e) ids states s)))"

definition handle_msgs_all_info :: "receive_env \<Rightarrow> mtpMsgId list \<Rightarrow> byte list \<Rightarrow> handler" where
  "handle_msgs_all_info e ids states info s =
     (if oi_badTime info then (HIgnored, s)
      else (HSuccess, handleMsgsStates (re_hasCallback e) (re_now e) ids states s))"

text \<open>An answer that is known is acknowledged again, another one asked for.\<close>

definition ask_for_answer :: "mtpMsgId \<Rightarrow> mtp_session \<Rightarrow> mtp_session" where
  "ask_for_answer resMsgId s =
     (if ids_lookup resMsgId (receivedMessageIds s) \<noteq> NotFound
      then s\<lparr>ackRequestData := ackRequestData s @ [resMsgId]\<rparr>
      else s\<lparr>resendRequestData := resendRequestData s @ [resMsgId]\<rparr>)"

definition handle_msg_detailed_info :: "receive_env \<Rightarrow> mtpMsgId \<Rightarrow> mtpMsgId \<Rightarrow> handler" where
  "handle_msg_detailed_info e msgId answerId =
     with_time [msgId] (\<lambda>s. (HSuccess, ask_for_answer answerId (requestsAcked (re_hasCallback e) False [msgId] s)))"

definition handle_msg_new_detailed_info :: "mtpMsgId \<Rightarrow> handler" where
  "handle_msg_new_detailed_info answerId info s =
     (if oi_badTime info then (HIgnored, s) else (HSuccess, ask_for_answer answerId s))"

text \<open>
  \<open>None\<close> is \<open>Ignored\<close>: the answer is not one to the binding of a key. What the answer does to the key
  creator belongs to the supervision of the connection; here it is noted as \<open>BindAnswered\<close>.
\<close>

definition handleBindResponse :: "receive_env \<Rightarrow> mtpMsgId \<Rightarrow> prime list \<Rightarrow> mtp_session \<Rightarrow> handle_result option \<times> mtp_session" where
  "handleBindResponse e requestMsgId response s =
     (case re_bind e of
        None \<Rightarrow> (None, s)
      | Some f \<Rightarrow>
          (if bindMsgId s = 0 \<or> bindMsgId s \<noteq> requestMsgId then (None, s)
           else let s = ask (BindAnswered response) (s\<lparr>bindMsgId := 0\<rparr>); r = f response
                in (Some r, if r = HDestroyTemporaryKey then s else ask NeedToResumeAndSend s)))"

text \<open>
  \<open>from[0]\<close> is read after the id without a test that anything is left: for a result without ints it
  is what lies behind the message, \<open>re_past\<close>.
\<close>

definition deliver_result :: "receive_env \<Rightarrow> mtpMsgId \<Rightarrow> prime list \<Rightarrow> handler" where
  "deliver_result e requestMsgId result info s =
     (let typeId = hd (result @ [re_past e]);
          packed = (typeId = mtpc_gzip_packed);
          response = (if packed then re_ungzip e (tl result) else result);
          typeId = (if packed then hd response else typeId)
      in if packed \<and> response = [] then (HRestartConnection, s)
         else if typeId = mtpc_rpc_error \<and> re_destroyedKeyError e response then (HDestroyTemporaryKey, s)
         else let s = (if typeId = mtpc_rpc_error then s else ask ConnectionInited s);
                  s = requestsAcked (re_hasCallback e) True [requestMsgId] s;
                  (bound, s) = handleBindResponse e requestMsgId response s
              in case bound of
                   Some r \<Rightarrow> (r, s)
                 | None \<Rightarrow>
                     (let requestId = wasSent requestMsgId s
                      in (HSuccess,
                          if requestId \<noteq> 0 \<and> requestId \<noteq> kAnyId
                          then queue_response response (oi_outerMsgId info) requestId s else s)))"

definition handle_rpc_result :: "receive_env \<Rightarrow> prime list \<Rightarrow> handler" where
  "handle_rpc_result e ints info s =
     (case ints of
        t # lo # hi # result \<Rightarrow> with_time [long_of lo hi] (deliver_result e (long_of lo hi) result info) info s
      | _ \<Rightarrow> (HParseError, s))"

definition older_than :: "mtpMsgId \<Rightarrow> mtp_session \<Rightarrow> mtpMsgId list" where
  "older_than firstMsgId s =
     map fst (filter (\<lambda>(m, a). rd_requestId (objects s a) \<noteq> 0) (takeWhile (\<lambda>(m, a). m < firstMsgId) (haveSent s)))"

definition handle_new_session_created :: "receive_env \<Rightarrow> prime list \<Rightarrow> mtpMsgId \<Rightarrow> 64 word \<Rightarrow> nat \<Rightarrow> handler" where
  "handle_new_session_created e ints firstMsgId salt used info =
     with_time [firstMsgId] (\<lambda>s.
       let s = s\<lparr>sessionSalt := salt\<rparr>;
           s = fold (resend (re_now e) 10) (older_than firstMsgId s) s
       in (HSuccess, queue_response (take used ints) (oi_outerMsgId info) 0 s)) info"

definition handle_pong :: "receive_env \<Rightarrow> mtpMsgId \<Rightarrow> 64 word \<Rightarrow> handler" where
  "handle_pong e msgId ping info s =
     (if wasSent msgId s = 0 then (HIgnored, s)
      else let s = (if ping = pingId s then s\<lparr>pingId := 0\<rparr> else s)
           in with_time [msgId] (\<lambda>s. (HSuccess, requestsAcked (re_hasCallback e) True [msgId] s)) info s)"

definition handle_updates :: "receive_env \<Rightarrow> prime list \<Rightarrow> handler" where
  "handle_updates e ints info s =
     (if oi_badTime info then (HResetSession, s)
      else (HSuccess, if re_regularDc e then queue_response ints (oi_outerMsgId info) 0 s else s))"

definition handle_simple :: "receive_env \<Rightarrow> prime list \<Rightarrow> handler" where
  "handle_simple e ints info s =
     (if hd ints = mtpc_rpc_result then handle_rpc_result e ints info s
      else if hd ints \<in> {mtpc_msgs_all_info, mtpc_msg_new_detailed_info} \<and> oi_badTime info then (HIgnored, s)
      else case re_read e ints of
        TlMsgsAck ids \<Rightarrow> handle_msgs_ack e ids info s
      | TlBadMsgNotification i code \<Rightarrow> handle_bad_msg_notification e i code info s
      | TlBadServerSalt i salt \<Rightarrow> handle_bad_server_salt e i salt info s
      | TlMsgsStateInfo i states \<Rightarrow> handle_msgs_state_info e i states info s
      | TlMsgsAllInfo ids states \<Rightarrow> handle_msgs_all_info e ids states info s
      | TlMsgDetailedInfo i answer \<Rightarrow> handle_msg_detailed_info e i answer info s
      | TlMsgNewDetailedInfo answer \<Rightarrow> handle_msg_new_detailed_info answer info s
      | TlNewSessionCreated first salt used \<Rightarrow> handle_new_session_created e ints first salt used info s
      | TlPong i ping \<Rightarrow> handle_pong e i ping info s
      | TlUnreadable \<Rightarrow> (HParseError, s)
      | TlOther \<Rightarrow> handle_updates e ints info s)"

subsection \<open>Containers\<close>

text \<open>
  The messages of a container up to the first one that is malformed, which comes with the result and
  the id that is to be acknowledged all the same.
\<close>

datatype item = Item mtpMsgId bool "prime list" | Broken handle_result "mtpMsgId option"

definition isServerId :: "mtpMsgId \<Rightarrow> bool" where
  "isServerId i \<longleftrightarrow> i AND 3 = 1 \<or> i AND 3 = 3"

fun container_items :: "nat \<Rightarrow> prime list \<Rightarrow> item list" where
  "container_items 0 from = []"
| "container_items (Suc n) (lo # hi # seqNo # bytes # m # rest) =
     (let i = long_of lo hi; ack = (seqNo AND 1 \<noteq> 0); ints = m # rest
      in if \<not> isServerId i then [Broken HRestartConnection None]
         else if bytes AND 3 \<noteq> 0 \<or> sint bytes < 4 then [Broken HRestartConnection None]
         else let k = nat (sint bytes) div 4
              in if length ints < k then [Broken HParseError (if ack then Some i else None)]
                 else Item i ack (take k ints) # container_items n (drop k ints))"
| "container_items (Suc n) _ = [Broken HParseError None]"

definition need_ack :: "bool \<Rightarrow> mtpMsgId \<Rightarrow> mtp_session \<Rightarrow> mtp_session" where
  "need_ack ack i s = (if ack then s\<lparr>ackRequestData := ackRequestData s @ [i]\<rparr> else s)"

definition register :: "mtpMsgId \<Rightarrow> bool \<Rightarrow> mtp_session \<Rightarrow> register_result \<times> mtp_session" where
  "register i ack s =
     (let (ids, r) = registerMsgId i ack (receivedMessageIds s) in (r, s\<lparr>receivedMessageIds := ids\<rparr>))"

type_synonym bounded_handler = "outer_info \<Rightarrow> mtp_session \<Rightarrow> (handle_result \<times> mtp_session) option"

text \<open>
  Containers and packed messages may be nested; what is unpacked can be larger than what was packed,
  so the depth is bounded by fuel: \<open>None\<close> where it would go deeper, and where the code
  expects at least one int and there is none.
\<close>

primrec container_loop :: "(prime list \<Rightarrow> bounded_handler) \<Rightarrow> item list \<Rightarrow> bounded_handler" where
  "container_loop go [] info s = Some (HSuccess, s)"
| "container_loop go (x # xs) info s =
     (case x of
        Broken r i \<Rightarrow> Some (r, case i of None \<Rightarrow> s | Some i \<Rightarrow> need_ack True i s)
      | Item i ack ints \<Rightarrow>
          (case register i ack (need_ack ack i s) of
             (Registered, s) \<Rightarrow>
               (case go ints info s of
                  None \<Rightarrow> None
                | Some (r, s) \<Rightarrow>
                    if r = HSuccess then container_loop go xs (info\<lparr>oi_badTime := False\<rparr>) s else Some (r, s))
           | (Duplicate, s) \<Rightarrow> container_loop go xs info s
           | (TooOld, s) \<Rightarrow> Some (HResetSession, s)))"

primrec handleOneReceived :: "nat \<Rightarrow> receive_env \<Rightarrow> prime list \<Rightarrow> bounded_handler" where
  "handleOneReceived 0 e ints info s = None"
| "handleOneReceived (Suc depth) e ints info s =
     (if ints = [] then None
      else if hd ints = mtpc_gzip_packed then
        (let response = re_ungzip e (tl ints)
         in if response = [] then Some (HRestartConnection, s) else handleOneReceived depth e response info s)
      else if hd ints = mtpc_msg_container then
        (case tl ints of
           [] \<Rightarrow> Some (HParseError, s)
         | n # from \<Rightarrow> container_loop (handleOneReceived depth e) (container_items (unat n) from) info s)
      else Some (handle_simple e ints info s))"

subsection \<open>A whole message\<close>

definition kAckSendWaiting :: int where "kAckSendWaiting = 10 * 1000"

definition server_time :: "mtpMsgId \<Rightarrow> int" where
  "server_time i = sint (high_int i)"

definition bad_time :: "int \<Rightarrow> mtpMsgId \<Rightarrow> bool" where
  "bad_time clientTime i \<longleftrightarrow> server_time i > clientTime + 60 \<or> server_time i + 300 < clientTime"

definition take_salt :: "receive_env \<Rightarrow> bool \<Rightarrow> 64 word \<Rightarrow> mtp_session \<Rightarrow> 64 word \<times> mtp_session" where
  "take_salt e badTime serverSalt s =
     (if serverSalt = sessionSalt s then (0, s)
      else if badTime then (serverSalt, s)
      else let (changed, s) = setState kConnectedState (Some kConnectingState) (s\<lparr>sessionSalt := serverSalt\<rparr>)
           in (serverSalt, if changed then resendAll (re_now e) s else s))"

text \<open>One round of the loop of \<open>handleReceived\<close>, for a message that \<open>open_secure\<close> let through.\<close>

definition handleReceived :: "nat \<Rightarrow> receive_env \<Rightarrow> int \<Rightarrow> secure_message \<Rightarrow> mtp_session
    \<Rightarrow> (handle_result \<times> mtp_session) option" where
  "handleReceived depth e clientTime m s =
     (let msgId = sm_msgId m; ack = (sm_seqNo m AND 1 \<noteq> 0); badTime = bad_time clientTime msgId;
          wasConnected = (st_state s = kConnectedState);
          (serverSalt, s) = take_salt e badTime (sm_salt m) s;
          (registered, s) = register msgId ack (need_ack ack msgId s);
          handled = (case registered of
              Registered \<Rightarrow> handleOneReceived depth e (sm_ints m)
                \<lparr>oi_outerMsgId = msgId, oi_serverSalt = serverSalt, oi_badTime = badTime\<rparr> s
            | TooOld \<Rightarrow> Some (HResetSession, s)
            | Duplicate \<Rightarrow> Some (HSuccess, s))
      in case handled of
           None \<Rightarrow> None
         | Some (res, s) \<Rightarrow>
             (let s = s\<lparr>receivedMessageIds := ids_shrink (receivedMessageIds s)\<rparr>;
                  s = (if ackRequestData s \<noteq> [] then ask (SendAnything kAckSendWaiting) s else s);
                  s = (if haveReceived s \<noteq> [] then ask TryToReceive s else s);
                  s = (if res \<in> {HSuccess, HIgnored} \<and> \<not> wasConnected \<and> st_state s = kConnectedState
                       then ask NeedToResumeAndSend s else s)
              in Some (res, s)))"

text \<open>\<open>tryToReceive\<close> of the main thread takes all that was queued for it.\<close>

definition take_received :: "mtp_session \<Rightarrow> response list \<times> mtp_session" where
  "take_received s = (haveReceived s, s\<lparr>haveReceived := []\<rparr>)"

subsection \<open>The connection comes and goes\<close>

text \<open>
  What \<open>connectToServer\<close> forgets, the start of a session on a connection whose key is known, and
  \<open>sendPingForce\<close> before it sends.
\<close>

definition forget_pings :: "mtp_session \<Rightarrow> mtp_session" where
  "forget_pings s = s\<lparr>bindMsgId := 0, pingId := 0, pingMsgId := 0, pingIdToSend := 0, pingSendAt := 0\<rparr>"

definition authKeyChecked :: "int \<Rightarrow> 64 word \<Rightarrow> mtp_session \<Rightarrow> mtp_session" where
  "authKeyChecked now random s =
     (let (changed, s) = (if sessionSalt s \<noteq> 0 then setState kConnectedState None s else (False, s));
          s = (if changed then resendAll now s else s)
      in ask NeedToResumeAndSend (s\<lparr>pingIdToSend := random\<rparr>))"

definition force_ping :: "mtp_session \<Rightarrow> mtp_session" where
  "force_ping s = (if pingId s = 0 then s\<lparr>pingSendAt := 0\<rparr> else s)"

end
