(* ===== verification/Session_Handling.thy ===== *)
theory Session_Handling
  imports Session_Receive
begin

text \<open>
  What receiving does to the requests of a session: the invariant is kept, nothing becomes pending,
  and a request somebody waits for ends only by an answer to one of the message ids that stand for
  it, \<open>answer_ids\<close>.
\<close>

subsection \<open>Operations that add nothing\<close>

definition calm :: "mtp_session \<Rightarrow> mtp_session \<Rightarrow> bool" where
  "calm s s' \<longleftrightarrow> drawn s' = drawn s \<and> addresses s' \<subseteq> addresses s \<and> (\<forall>a \<in> addresses s'. needAck (objects s' a) = needAck (objects s a))"

definition names :: "mtp_session \<Rightarrow> mtp_session \<Rightarrow> bool" where
  "names s s' \<longleftrightarrow> (\<forall>m r. stands_for s' m r \<longrightarrow> stands_for s m r)"

definition gentle :: "mtp_session \<Rightarrow> mtp_session \<Rightarrow> bool" where
  "gentle s s' \<longleftrightarrow> calm s s' \<and> names s s'"

lemma gentle_refl [simp]: "gentle s s"
  by (simp add: gentle_def calm_def names_def)

lemma gentle_trans: "gentle s t \<Longrightarrow> gentle t u \<Longrightarrow> gentle s u"
  unfolding gentle_def calm_def names_def by (metis subset_iff)

interpretation gently: promise gentle
  by unfold_locales (simp, rule gentle_trans)

lemma gentle_core: "core s' = core s \<Longrightarrow> gentle s s'"
  by (simp add: core_def gentle_def calm_def names_def stands_for_def addresses_def)

lemma gentle_asked: "gentle s s' \<Longrightarrow> gentle s (ask a s')"
  by (erule gentle_trans) (rule gentle_core, simp add: core_def ask_def)

lemma emplace_subset: "set (fm_emplace k v m) \<subseteq> insert (k, v) (set m)"
  by (induction m) auto

lemma again_fields [simp]: "needAck (again now d) = needAck d" "rd_requestId (again now d) = rd_requestId d"
  by (simp_all add: again_def needAck_def)

lemma resend_request_gentle: "gentle s (resend_request now m s)"
proof (cases "map_of (haveSent s) m")
  case (Some a)
  have i: "(m, a) \<in> set (haveSent s)" using Some by (rule map_of_SomeD)
  let ?r = "rd_requestId (objects s a)"
  have ts: "set (fm_emplace ?r a (toSend s)) \<subseteq> insert (?r, a) (set (toSend s))" by (rule emplace_subset)
  have rs: "set (fm_emplace m ?r (resendingIds s)) \<subseteq> insert (m, ?r) (set (resendingIds s))" by (rule emplace_subset)
  have "calm s (resend_request now m s)"
    using Some i ts by (force simp: calm_def resend_request_def addresses_def Let_def in_erase)
  moreover have "stands_for s k r" if "stands_for (resend_request now m s) k r" for k r
  proof (cases "(k, r) \<in> set (fm_emplace m ?r (resendingIds s))")
    case True
    then have "k = m \<and> r = ?r \<or> (k, r) \<in> set (resendingIds s)" using rs by blast
    then show ?thesis using i by (auto simp: stands_for_def)
  next
    case False
    moreover have "resendingIds (resend_request now m s) = fm_emplace m ?r (resendingIds s)"
      "haveSent (resend_request now m s) = fm_erase m (haveSent s)"
      "objects (resend_request now m s) = (objects s)(a := again now (objects s a))"
      using Some by (simp_all add: resend_request_def Let_def)
    ultimately have "\<exists>b. (k, b) \<in> set (fm_erase m (haveSent s)) \<and> rd_requestId (((objects s)(a := again now (objects s a))) b) = r"
      using that unfolding stands_for_def by simp
    then obtain b where b: "(k, b) \<in> set (fm_erase m (haveSent s))"
      "rd_requestId (((objects s)(a := again now (objects s a))) b) = r" by (elim exE conjE)
    from b(1) have h: "(k, b) \<in> set (haveSent s)" by (simp add: in_erase)
    have "rd_requestId (objects s b) = r" using b(2) by (simp add: again_def split: if_splits)
    with h show ?thesis unfolding stands_for_def by (intro disjI1 exI [of _ b] conjI)
  qed
  ultimately show ?thesis by (simp add: gentle_def names_def)
qed (simp add: resend_request_def)

lemma clearSpecial_gentle: "gentle s (clearSpecialMsgId m s)"
  by (rule gentle_core) (simp add: core_def clearSpecialMsgId_def)

lemma gentle_containers: "gentle s (s\<lparr>sentContainers := c\<rparr>)"
  by (rule gentle_core) (simp add: core_def)

lemma resend_fuel_gentle: "gentle s (resend_fuel fuel now w m s)"
proof (induction fuel arbitrary: w m s)
  case (Suc fuel)
  define t where "t = (case map_of (sentContainers s) m of
      Some c \<Rightarrow> fold (resend_fuel fuel now (-1)) (sc_messages c) (s\<lparr>sentContainers := fm_erase m (sentContainers s)\<rparr>)
    | None \<Rightarrow> resend_request now m s)"
  have "gentle u (fold (resend_fuel fuel now (-1)) ms u)" for ms u by (rule gently.along) (rule Suc.IH)
  then have "gentle s t"
    unfolding t_def by (auto intro: resend_request_gentle gentle_trans [OF gentle_containers] split: option.split)
  then have "gentle s (clearSpecialMsgId m t)" by (rule gentle_trans) (rule clearSpecial_gentle)
  then show ?case by (simp add: t_def Let_def gentle_asked)
qed simp

lemma resend_gentle: "gentle s (resend now w m s)"
  unfolding resend_def by (rule resend_fuel_gentle)

text \<open>While \<open>resendAll\<close> goes through the entries it has taken, the rest still counts as sent.\<close>

lemma resend_taken_gentle:
  "gentle (s\<lparr>haveSent := hs\<rparr>) ((fold (resend_taken now) hs s)\<lparr>haveSent := []\<rparr>)"
proof (induction hs arbitrary: s)
  case (Cons e hs)
  obtain m a where ma: "e = (m, a)" by (cases e)
  let ?r = "rd_requestId (objects s a)" and ?os = "(objects s)(a := again now (objects s a))"
  let ?ts = "fm_emplace ?r a (toSend s)" and ?rs = "fm_emplace m ?r (resendingIds s)"
  have sub: "set ?ts \<subseteq> insert (?r, a) (set (toSend s))" "set ?rs \<subseteq> insert (m, ?r) (set (resendingIds s))"
    by (rule emplace_subset)+
  have f: "objects (resend_taken now (m, a) s) = ?os" "resendingIds (resend_taken now (m, a) s) = ?rs"
    "toSend (resend_taken now (m, a) s) = ?ts" "drawn (resend_taken now (m, a) s) = drawn s"
    by (simp_all add: resend_taken_def Let_def)
  have r: "rd_requestId (?os b) = rd_requestId (objects s b)" "needAck (?os b) = needAck (objects s b)" for b
    by (simp_all add: again_def needAck_def)
  have "calm (s\<lparr>haveSent := e # hs\<rparr>) ((resend_taken now e s)\<lparr>haveSent := hs\<rparr>)"
  proof -
    have "snd ` set ?ts \<subseteq> insert a (snd ` set (toSend s))" using sub(1) by force
    then show ?thesis unfolding calm_def addresses_def by (auto simp: f r ma)
  qed
  moreover have "names (s\<lparr>haveSent := e # hs\<rparr>) ((resend_taken now e s)\<lparr>haveSent := hs\<rparr>)"
    using sub(2) by (auto simp: names_def stands_for_def f r ma)
  ultimately have "gentle (s\<lparr>haveSent := e # hs\<rparr>) ((resend_taken now e s)\<lparr>haveSent := hs\<rparr>)" by (simp add: gentle_def)
  then show ?case using gentle_trans Cons.IH [of "resend_taken now e s"] by simp
qed simp

lemma resendAll_gentle: "gentle s (resendAll now s)"
proof -
  have "(fold (resend_taken now) (haveSent s) (s\<lparr>haveSent := []\<rparr>))\<lparr>haveSent := []\<rparr>
      = fold (resend_taken now) (haveSent s) (s\<lparr>haveSent := []\<rparr>)"
    using resend_taken_leaves [of now "haveSent s" "s\<lparr>haveSent := []\<rparr>"]
    by (metis mtp_session.surjective mtp_session.update_convs(3) mtp_session.select_convs(3))
  then have "gentle s (fold (resend_taken now) (haveSent s) (s\<lparr>haveSent := []\<rparr>))"
    using resend_taken_gentle [where s = "s\<lparr>haveSent := []\<rparr>" and hs = "haveSent s" and now = now] by simp
  then show ?thesis by (simp add: resendAll_def gentle_asked)
qed

lemma clearOldContainers_gentle: "gentle s (clearOldContainers now s)"
proof -
  have "gentle t (fold (resend now (-1)) ms (t\<lparr>sentContainers := x\<rparr>))" for t ms x
    by (rule gentle_trans [OF gentle_containers gently.along]) (rule resend_gentle)
  then have "gentle t (snd (clear_old_one now e (b, t)))" for e b t by (cases e) (simp add: clear_old_one_def)
  then have "gentle (snd (False, s)) (snd (fold (clear_old_one now) (sentContainers s) (False, s)))"
    by (rule gently.along_pairs)
  then show ?thesis by (simp add: clearOldContainers_def gentle_asked split_beta)
qed

lemma gentle_objects:
  assumes "\<And>a. same_request (objects s a) (os a)"
  shows "gentle s (s\<lparr>objects := os\<rparr>)"
  using assms by (auto simp: gentle_def calm_def names_def stands_for_def addresses_def same_request_def)

lemma checkSentRequests_gentle: "gentle s (checkSentRequests now s)"
proof -
  have "gentle t (t\<lparr>objects := (objects t)(a := (objects t a)\<lparr>rd_lastSentTime := now\<rparr>), stateRequestData := x\<rparr>)"
    for t a x
  proof (rule gentle_trans)
    show "gentle t (t\<lparr>objects := (objects t)(a := (objects t a)\<lparr>rd_lastSentTime := now\<rparr>)\<rparr>)"
      by (rule gentle_objects) simp
  qed (rule gentle_core, simp add: core_def)
  then have "gentle t (snd (check_sent_one now e (b, t)))" for e b t by (cases e) (simp add: check_sent_one_def)
  then have "gentle (snd (False, s)) (snd (fold (check_sent_one now) (haveSent s) (False, s)))"
    by (rule gently.along_pairs)
  then show ?thesis by (simp add: checkSentRequests_def gentle_asked split_beta)
qed

subsection \<open>Acknowledgements\<close>

lemma gentle_fewer:
  assumes "objects s' = objects s" "drawn s' = drawn s" "set (toSend s') \<subseteq> set (toSend s)" "set (haveSent s') \<subseteq> set (haveSent s)"
    "set (resendingIds s') \<subseteq> set (resendingIds s)"
  shows "gentle s s'"
  using assms(2-5) unfolding gentle_def calm_def names_def stands_for_def addresses_def assms(1) by blast

lemma ack_one_gentle: "gentle s (fst (ack_one hc b m s))"
  by (rule gentle_fewer) (auto simp: ack_one_def Let_def in_erase split: option.splits)

lemma ack_pass_gentle: "gentle s (fst (ack_pass hc b ids s))"
proof (induction ids arbitrary: s)
  case (Cons i ids)
  show ?case using gentle_trans [OF ack_one_gentle Cons.IH] by (simp add: Let_def)
qed simp

lemma requestsAcked_gentle: "gentle s (requestsAcked hc b ids s)"
proof (induction hc b ids s rule: requestsAcked.induct)
  case (1 hc b ids s)
  define t where "t = trim_acked (fst (ack_pass hc b ids s))"
  have "gentle (fst (ack_pass hc b ids s)) t" by (rule gentle_fewer) (simp_all add: t_def trim_acked_def)
  then have t: "gentle s t" using ack_pass_gentle gentle_trans by blast
  have "requestsAcked hc b ids s = (if snd (ack_pass hc b ids s) \<noteq> [] then requestsAcked hc False (snd (ack_pass hc b ids s)) t else t)"
    by (subst requestsAcked.simps) (simp add: t_def Let_def)
  then show ?case using t 1 gentle_trans by (simp add: t_def)
qed

lemma handleMsgsStates_gentle: "gentle s (handleMsgsStates hc now ids states s)"
proof -
  have "gentle t (snd (state_of_one now e (acked, t)))" for e acked t
    by (cases e) (simp add: state_of_one_def resend_gentle)
  then have "gentle (snd ([] :: mtpMsgId list, s)) (snd (fold (state_of_one now) (zip ids states) ([], s)))"
    by (rule gently.along_pairs)
  then have "gentle s (requestsAcked hc False acked (snd (fold (state_of_one now) (zip ids states) ([], s))))" for acked
    using gentle_trans requestsAcked_gentle by (metis snd_conv)
  then show ?thesis by (simp add: handleMsgsStates_def split_beta)
qed

lemmas gentle_ops = resend_gentle resendAll_gentle clearOldContainers_gentle checkSentRequests_gentle
  requestsAcked_gentle handleMsgsStates_gentle

subsection \<open>Handlers\<close>

definition handled :: "(nat \<Rightarrow> mtpMsgId) \<Rightarrow> (mtpRequestId \<Rightarrow> bool) \<Rightarrow> mtpMsgId set \<Rightarrow> mtp_session \<Rightarrow> mtp_session \<Rightarrow> bool" where
  "handled draw hc ids s s' \<longleftrightarrow> gentle s s'
     \<and> (session_ok draw s \<longrightarrow> session_ok draw s' \<and> pending s' \<subseteq> pending s
        \<and> (\<forall>r \<in> pending s. hc r \<longrightarrow> r \<notin> pending s' \<longrightarrow> (\<exists>m \<in> ids. stands_for s m r)))"

lemma handled_trans:
  assumes "handled draw hc ids s t" "handled draw hc ids t u"
  shows "handled draw hc ids s u"
proof -
  have g: "gentle s u" using assms gentle_trans unfolding handled_def by blast
  have n: "stands_for t m r \<Longrightarrow> stands_for s m r" for m r
    using assms(1) unfolding handled_def gentle_def names_def by blast
  show ?thesis using assms g n unfolding handled_def by blast
qed

interpretation handling: promise "handled draw hc ids" for draw hc ids
  by unfold_locales (simp add: handled_def, rule handled_trans)

lemma handled_keeps: "keeps draw s s' \<Longrightarrow> gentle s s' \<Longrightarrow> handled draw hc ids s s'"
  by (simp add: handled_def keeps_def)

lemma handled_core: "core s' = core s \<Longrightarrow> handled draw hc ids s s'"
  by (rule handled_keeps [OF keeps_core gentle_core])

lemma handled_widen: "handled draw hc ids s s' \<Longrightarrow> ids \<subseteq> ids' \<Longrightarrow> handled draw hc ids' s s'"
  unfolding handled_def by blast

lemma handled_then_core: "handled draw hc ids s t \<Longrightarrow> core s' = core t \<Longrightarrow> handled draw hc ids s s'"
  using handled_trans handled_core by blast

lemma handled_acked: "handled draw hc (if b then set ids else {}) s (requestsAcked hc b ids s)"
  using requestsAcked_ok [of draw s hc b ids] requestsAcked_gentle [of s hc b ids] by (auto simp: handled_def)

lemma handled_not_acked: "handled draw hc ids' s (requestsAcked hc False ids s)"
  using handled_widen [OF handled_acked [where b = False]] by simp

lemma handled_states: "handled draw hc ids' s (handleMsgsStates hc now ids states s)"
  using handleMsgsStates_ok [of draw s hc now ids states] handleMsgsStates_gentle by (simp add: handled_def)

lemma handled_resend: "handled draw hc ids s (resend now w m s)"
  by (rule handled_keeps [OF resend_keeps resend_gentle])

lemma handled_resendAll: "handled draw hc ids s (resendAll now s)"
  by (rule handled_keeps [OF resendAll_keeps resendAll_gentle])

text \<open>A message id of a container or of a question about messages answers no request.\<close>

lemma handled_other:
  assumes "map_of (stateAndResendRequests s) m \<noteq> None"
  shows "handled draw hc ids' s (requestsAcked hc b [m] s)"
proof -
  define p where "p = ack_pass hc b [m] s"
  have c: "core (fst p) = core s"
    using assms by (auto simp: p_def ack_one_def core_def Let_def split: option.splits)
  have "handled draw hc ids' (fst p) (trim_acked (fst p))" unfolding handled_def
  proof (intro conjI impI)
    show "gentle (fst p) (trim_acked (fst p))" by (rule gentle_fewer) (simp_all add: trim_acked_def)
    assume "session_ok draw (fst p)"
    then show "session_ok draw (trim_acked (fst p))" by (simp add: trim_acked_def session_ok_def)
  qed (auto simp: trim_acked_def pending_def)
  then have t: "handled draw hc ids' s (trim_acked (fst p))" using handled_core [OF c] handled_trans by blast
  have "requestsAcked hc b [m] s
      = (if snd p \<noteq> [] then requestsAcked hc False (snd p) (trim_acked (fst p)) else trim_acked (fst p))"
    by (subst requestsAcked.simps) (simp add: p_def Let_def)
  then show ?thesis using t handled_trans handled_not_acked by simp
qed

definition answered_by :: "receive_env \<Rightarrow> prime list \<Rightarrow> mtpMsgId set" where
  "answered_by e ints =
     (if hd ints = mtpc_rpc_result then (case ints of t # lo # hi # _ \<Rightarrow> {long_of lo hi} | _ \<Rightarrow> {})
      else case re_read e ints of TlPong i _ \<Rightarrow> {i} | _ \<Rightarrow> {})"

text \<open>The message ids a message answers, with all that is packed or contained in it.\<close>

primrec answer_ids :: "nat \<Rightarrow> receive_env \<Rightarrow> prime list \<Rightarrow> mtpMsgId set" where
  "answer_ids 0 e ints = {}"
| "answer_ids (Suc depth) e ints =
     (if ints = [] then {}
      else if hd ints = mtpc_gzip_packed then answer_ids depth e (re_ungzip e (tl ints))
      else if hd ints = mtpc_msg_container then
        (case tl ints of [] \<Rightarrow> {}
         | n # from \<Rightarrow> (\<Union>x \<in> set (container_items (unat n) from).
             case x of Item i ack ints \<Rightarrow> answer_ids depth e ints | Broken r i \<Rightarrow> {}))
      else answered_by e ints)"

lemma core_simps [simp]:
  "core (use_salt info s) = core s" "core (s\<lparr>sessionSalt := salt\<rparr>) = core s" "core (queue_response r o' i s) = core s"
  "core (ask a s) = core s" "core (s\<lparr>bindMsgId := m\<rparr>) = core s" "core (s\<lparr>pingId := m\<rparr>) = core s"
  "core (ask_for_answer m s) = core s" "core (need_ack b m s) = core s" "core (snd (setState x y s)) = core s"
  "core (s\<lparr>receivedMessageIds := ids\<rparr>) = core s"
  by (simp_all add: core_def use_salt_def queue_response_def ask_def ask_for_answer_def need_ack_def setState_def)

lemma handled_same [simp]: "handled draw hc ids s s"
  by (simp add: handled_core)

lemma fix_time_core [simp]: "core (snd (requestsFixTimeSalt ids info s)) = core s"
  by (simp add: requestsFixTimeSalt_def)

lemma handled_with_time:
  assumes "\<And>s. handled draw hc ids s (snd (go s))"
  shows "handled draw hc ids s (snd (with_time ms go info s))"
proof -
  have "handled draw hc ids s (snd (requestsFixTimeSalt ms info s))" by (rule handled_core) simp
  then show ?thesis using assms handled_trans by (auto simp: with_time_def split_beta)
qed

lemma handled_msgs_ack: "handled draw (re_hasCallback e) ids s (snd (handle_msgs_ack e ms info s))"
  by (simp add: handle_msgs_ack_def handled_with_time handled_not_acked)

lemma handled_bad_msg: "handled draw (re_hasCallback e) ids s (snd (handle_bad_msg_notification e m c info s))"
proof -
  have "handled draw (re_hasCallback e) ids s (resend (re_now e) 0 m (use_salt info s))"
    using handled_trans [OF handled_core handled_resend] by simp
  then show ?thesis by (simp add: handle_bad_msg_notification_def Let_def handled_core)
qed

lemma handled_bad_salt: "handled draw (re_hasCallback e) ids s (snd (handle_bad_server_salt e m salt info s))"
proof -
  define c where "c = setState kConnectedState (Some kConnectingState) (s\<lparr>sessionSalt := salt\<rparr>)"
  have "handled draw (re_hasCallback e) ids s (snd c)" by (rule handled_core) (simp add: c_def)
  then have "handled draw (re_hasCallback e) ids s (if fst c then resendAll (re_now e) (snd c) else snd c)"
    using handled_trans handled_resendAll by simp
  then have "handled draw (re_hasCallback e) ids s
      (resend (re_now e) 0 m (if fst c then resendAll (re_now e) (snd c) else snd c))"
    using handled_trans handled_resend by blast
  then show ?thesis
    unfolding handle_bad_server_salt_def Let_def split_beta c_def [symmetric] by (simp add: handled_core)
qed

lemma handled_state_info: "handled draw (re_hasCallback e) ids s (snd (handle_msgs_state_info e m states info s))"
proof (cases "map_of (stateAndResendRequests s) m")
  case (Some d)
  define t where "t = (if oi_badTime info then use_salt info s else s)"
  have "handled draw (re_hasCallback e) ids s t" by (rule handled_core) (simp add: t_def)
  moreover have "map_of (stateAndResendRequests t) m \<noteq> None" using Some by (simp add: t_def use_salt_def)
  ultimately have "handled draw (re_hasCallback e) ids s (requestsAcked (re_hasCallback e) True [m] t)"
    using handled_trans handled_other by blast
  then show ?thesis
    using handled_trans handled_states by (auto simp: handle_msgs_state_info_def Some Let_def t_def split: option.split)
qed (simp add: handle_msgs_state_info_def)

lemma handled_bind: "handled draw hc ids s (snd (handleBindResponse e m response s))"
  by (rule handled_core) (simp add: handleBindResponse_def Let_def split: option.split)

lemma handled_deliver: "handled draw (re_hasCallback e) {m} s (snd (deliver_result e m result info s))"
proof -
  define typeId where "typeId = hd (result @ [re_past e])"
  define packed where "packed = (typeId = mtpc_gzip_packed)"
  define response where "response = (if packed then re_ungzip e (tl result) else result)"
  define inner where "inner = (if packed then hd response else typeId)"
  define s' where "s' = (if inner = mtpc_rpc_error then s else ask ConnectionInited s)"
  define b where "b = handleBindResponse e m response (requestsAcked (re_hasCallback e) True [m] s')"
  have "core s' = core s" by (simp add: s'_def)
  then have "handled draw (re_hasCallback e) {m} s (requestsAcked (re_hasCallback e) True [m] s')"
    using handled_trans [OF handled_core] handled_acked [where b = True and ids = "[m]"] by simp
  then have b: "handled draw (re_hasCallback e) {m} s (snd b)" unfolding b_def by (rule handled_trans [OF _ handled_bind])
  have q: "handled draw (re_hasCallback e) {m} s (queue_response response o' r (snd b))" for o' r
    by (rule handled_then_core [OF b]) simp
  show ?thesis
    unfolding deliver_result_def Let_def typeId_def [symmetric] packed_def [symmetric] response_def [symmetric]
      inner_def [symmetric] s'_def [symmetric] b_def [symmetric] split_beta
    by (cases "fst b") (simp_all add: b q)
qed

lemma handled_rpc_result:
  "handled draw (re_hasCallback e) (case ints of t # lo # hi # _ \<Rightarrow> {long_of lo hi} | _ \<Rightarrow> {}) s
     (snd (handle_rpc_result e ints info s))"
  by (auto simp: handle_rpc_result_def handled_with_time handled_deliver split: list.split)

lemma handled_new_session: "handled draw (re_hasCallback e) ids s (snd (handle_new_session_created e ints m salt used info s))"
proof -
  have "handled draw (re_hasCallback e) ids u (fold (resend now 10) ms (u\<lparr>sessionSalt := salt\<rparr>))" for u now ms
    by (rule handled_trans [OF handled_core handling.along]) (simp_all add: handled_resend)
  then have "handled draw (re_hasCallback e) ids u
      (queue_response r o' i (fold (resend now 10) ms (u\<lparr>sessionSalt := salt\<rparr>)))" for u now ms r o' i
    by (rule handled_then_core) simp
  then show ?thesis unfolding handle_new_session_created_def Let_def by (intro handled_with_time) simp
qed

lemma handled_pong: "handled draw (re_hasCallback e) {m} s (snd (handle_pong e m ping info s))"
proof -
  have "handled draw (re_hasCallback e) {m} u
      (snd (with_time [m] (\<lambda>s. (HSuccess, requestsAcked (re_hasCallback e) True [m] s)) info u))" for u
    by (rule handled_with_time) (use handled_acked [where b = True and ids = "[m]"] in simp)
  moreover have "handled draw (re_hasCallback e) {m} s (if ping = pingId s then s\<lparr>pingId := 0\<rparr> else s)"
    by (rule handled_core) simp
  ultimately have "handled draw (re_hasCallback e) {m} s
      (snd (with_time [m] (\<lambda>s. (HSuccess, requestsAcked (re_hasCallback e) True [m] s)) info
        (if ping = pingId s then s\<lparr>pingId := 0\<rparr> else s)))" using handled_trans by blast
  then show ?thesis unfolding handle_pong_def Let_def by (cases "wasSent m s = 0") (simp_all del: split_paired_All)
qed

lemma handled_simple: "handled draw (re_hasCallback e) (answered_by e ints) s (snd (handle_simple e ints info s))"
proof (cases "hd ints = mtpc_rpc_result")
  case True
  then show ?thesis using handled_rpc_result [of draw e ints s info] by (simp add: handle_simple_def answered_by_def)
next
  case False
  have detailed: "handled draw (re_hasCallback e) ids s (snd (handle_msg_detailed_info e m a info s))" for ids m a
    unfolding handle_msg_detailed_info_def
    by (rule handled_with_time) (simp add: handled_then_core [OF handled_not_acked])
  show ?thesis
    using False handled_pong
    by (auto simp: handle_simple_def answered_by_def handled_msgs_ack handled_bad_msg handled_bad_salt
        handled_state_info detailed handled_new_session handle_msgs_all_info_def handled_states
        handle_msg_new_detailed_info_def handle_updates_def handled_core split: tl_message.split)
qed

subsection \<open>Containers\<close>

definition item_answers :: "(prime list \<Rightarrow> mtpMsgId set) \<Rightarrow> item \<Rightarrow> mtpMsgId set" where
  "item_answers A x = (case x of Item i ack ints \<Rightarrow> A ints | Broken r i \<Rightarrow> {})"

lemma register_core [simp]: "core (snd (register i ack s)) = core s"
  by (simp add: register_def split_beta)

lemma handled_loop:
  assumes "\<And>ints info s r s'. go ints info s = Some (r, s') \<Longrightarrow> handled draw hc (A ints) s s'"
    and "container_loop go xs info s = Some (r, s')"
  shows "handled draw hc (\<Union>x \<in> set xs. item_answers A x) s s'"
  using assms(2)
proof (induction xs arbitrary: info s)
  case (Cons x xs)
  show ?case
  proof (cases x)
    case (Broken q i)
    then show ?thesis using Cons.prems by (auto simp: handled_core split: option.splits)
  next
    case (Item i ack ints)
    let ?A = "\<Union>x \<in> set (x # xs). item_answers A x"
    obtain g t where t: "register i ack (need_ack ack i s) = (g, t)" by (cases "register i ack (need_ack ack i s)")
    have "core t = core s" using register_core [of i ack "need_ack ack i s"] t by simp
    then have st: "handled draw hc ?A s t" by (rule handled_core)
    have rest: "container_loop go xs info' u = Some (r, s') \<Longrightarrow> handled draw hc ?A u s'" for info' u
      using handled_widen [OF Cons.IH] by (metis (no_types, lifting) UN_Un Un_upper2 list.set(2) insert_is_Un)
    show ?thesis
    proof (cases g)
      case Registered
      then obtain q u where u: "go ints info t = Some (q, u)"
        and loop: "if q = HSuccess then container_loop go xs (info\<lparr>oi_badTime := False\<rparr>) u = Some (r, s') else s' = u"
        using Cons.prems t by (auto simp: Item split: option.splits if_splits)
      have "handled draw hc ?A t u"
        by (rule handled_widen [OF assms(1) [OF u]]) (auto simp: item_answers_def Item)
      then have "handled draw hc ?A s u" by (rule handled_trans [OF st])
      then show ?thesis using loop rest handled_trans by (auto split: if_splits)
    next
      case Duplicate
      then show ?thesis using Cons.prems t handled_trans [OF st rest] by (simp add: Item)
    next
      case TooOld
      then show ?thesis using Cons.prems t st by (simp add: Item)
    qed
  qed
qed simp

lemma answer_ids_container:
  "ints \<noteq> [] \<Longrightarrow> hd ints = mtpc_msg_container \<Longrightarrow> tl ints = n # from
    \<Longrightarrow> answer_ids (Suc depth) e ints = (\<Union>x \<in> set (container_items (unat n) from). item_answers (answer_ids depth e) x)"
  by (simp add: item_answers_def mtpc_msg_container_def mtpc_gzip_packed_def cong: item.case_cong)

lemma handled_one:
  "handleOneReceived depth e ints info s = Some (r, s') \<Longrightarrow> handled draw (re_hasCallback e) (answer_ids depth e ints) s s'"
proof (induction depth arbitrary: ints info s r s')
  case (Suc depth)
  have i: "ints \<noteq> []" using Suc.prems by auto
  show ?case
  proof (cases "hd ints = mtpc_gzip_packed")
    case True
    then show ?thesis using Suc i by (auto simp: Let_def split: if_splits)
  next
    case packed: False
    show ?thesis
    proof (cases "hd ints = mtpc_msg_container")
      case False
      then have "s' = snd (handle_simple e ints info s)" using Suc.prems i packed by auto
      then show ?thesis using handled_simple i packed False by simp
    next
      case True
      show ?thesis
      proof (cases "tl ints")
        case Nil
        then show ?thesis using Suc.prems i packed True by simp
      next
        case (Cons n rest)
        then have l: "container_loop (handleOneReceived depth e) (container_items (unat n) rest) info s = Some (r, s')"
          using Suc.prems i packed True by simp
        show ?thesis
          unfolding answer_ids_container [OF i True Cons] by (rule handled_loop [OF _ l]) (rule Suc.IH)
      qed
    qed
  qed
qed simp

text \<open>A whole message; the salt it carries may send everything again.\<close>

lemma handled_received:
  assumes "handleReceived depth e now m s = Some (r, s')"
  shows "handled draw (re_hasCallback e) (answer_ids depth e (sm_ints m)) s s'"
proof -
  let ?A = "answer_ids depth e (sm_ints m)" and ?bad = "bad_time now (sm_msgId m)" and ?ack = "sm_seqNo m AND 1 \<noteq> 0"
  define c where "c = setState kConnectedState (Some kConnectingState) (s\<lparr>sessionSalt := sm_salt m\<rparr>)"
  define t where "t = take_salt e ?bad (sm_salt m) s"
  define u where "u = register (sm_msgId m) ?ack (need_ack ?ack (sm_msgId m) (snd t))"
  have "handled draw (re_hasCallback e) ?A s (snd c)" by (rule handled_core) (simp add: c_def)
  then have "handled draw (re_hasCallback e) ?A s (if fst c then resendAll (re_now e) (snd c) else snd c)"
    using handled_trans handled_resendAll by simp
  then have "handled draw (re_hasCallback e) ?A s (snd t)"
    unfolding t_def take_salt_def c_def [symmetric] split_beta by simp
  then have u: "handled draw (re_hasCallback e) ?A s (snd u)"
    by (rule handled_then_core) (simp add: u_def)
  define x where "x = (case fst u of
      Registered \<Rightarrow> handleOneReceived depth e (sm_ints m)
        \<lparr>oi_outerMsgId = sm_msgId m, oi_serverSalt = fst t, oi_badTime = ?bad\<rparr> (snd u)
    | TooOld \<Rightarrow> Some (HResetSession, snd u)
    | Duplicate \<Rightarrow> Some (HSuccess, snd u))"
  obtain q v where v: "x = Some (q, v)" "core s' = core v"
  proof (cases x)
    case None
    then show ?thesis using assms
      unfolding handleReceived_def Let_def t_def [symmetric] u_def [symmetric] split_beta x_def [symmetric] by simp
  next
    case (Some qv)
    then have "core s' = core (snd qv)" using assms
      unfolding handleReceived_def Let_def t_def [symmetric] u_def [symmetric] split_beta x_def [symmetric] by auto
    then show ?thesis using that [of "fst qv" "snd qv"] Some by simp
  qed
  have "handled draw (re_hasCallback e) ?A (snd u) v"
    using v(1) handled_one unfolding x_def by (cases "fst u") auto
  then have "handled draw (re_hasCallback e) ?A s v" by (rule handled_trans [OF u])
  then show ?thesis using v(2) handled_then_core by blast
qed

end
