(* ===== verification/Session_Runs.thy ===== *)
theory Session_Runs
  imports Session_Handling
begin

text \<open>
  Runs of a session: whatever the order in which requests come from the main thread, packets are
  sent, messages arrive, timers fire and connections come and go, a request somebody waits for is
  kept until it is cancelled or answered.
\<close>

subsection \<open>Sending, once more\<close>

text \<open>Addresses stay in a set, and no object becomes one that needs no acknowledgement.\<close>

definition serves :: "nat set \<Rightarrow> mtp_session \<Rightarrow> mtp_session \<Rightarrow> bool" where
  "serves A s s' \<longleftrightarrow> (addresses s \<subseteq> A \<longrightarrow> addresses s' \<subseteq> A) \<and> (\<forall>a. needAck (objects s' a) = needAck (objects s a))"

interpretation serving: promise "serves A" for A
  by unfold_locales (simp_all add: serves_def)

interpretation serving_container: promise "\<lambda>cs cs'. serves A (snd cs) (snd cs')" for A
  by unfold_locales (simp_all add: serves_def)

lemma serves_maps:
  "objects s' = objects s \<Longrightarrow> toSend s' = toSend s \<Longrightarrow> snd ` set (haveSent s') \<subseteq> snd ` set (haveSent s) \<Longrightarrow> serves A s s'"
  unfolding serves_def addresses_def by (simp, metis order_trans)

lemma emplace_values: "snd ` set (fm_emplace k v m) \<subseteq> insert v (snd ` set m)"
  by (induction m) auto

lemma rename_values: "snd ` set (rename_key old new m) \<subseteq> snd ` set m"
proof (cases "map_of m old")
  case (Some v)
  then have "v \<in> snd ` set m" by (metis image_eqI map_of_SomeD snd_conv)
  moreover have "snd ` set (fm_emplace new v (fm_erase old m)) \<subseteq> insert v (snd ` set m)"
    using emplace_values [of new v "fm_erase old m"] image_mono [OF erase_subset, of snd old m] by blast
  ultimately show ?thesis by (auto simp: rename_key_def Some)
qed (simp add: rename_key_def)

lemma replace_haveSent:
  "haveSent (snd (snd (replaceMsgId draw d i s))) = haveSent s
    \<or> (\<exists>old new. haveSent (snd (snd (replaceMsgId draw d i s))) = rename_key old new (haveSent s))"
proof (cases "getMsgId d = i")
  case False
  obtain j n where "unused_id (Suc (ids_in_use s)) draw (id_used s) i (drawn s) = (j, n)" by (metis surj_pair)
  then have "haveSent (snd (snd (replaceMsgId draw d i s))) = rename_key (getMsgId d) j (haveSent s)"
    using False by (simp add: replaceMsgId_def nextRequestSeqNumber_def Let_def split_beta del: unused_id.simps)
  then show ?thesis by blast
qed (simp add: replaceMsgId_def)

lemma prepare_serves:
  assumes "prepareToSend draw d cur force s = (m, d', s')"
  shows "serves A s s'" "needAck d' = needAck d"
proof -
  have "objects s' = objects s \<and> toSend s' = toSend s" using prepare_mono(2,3) [OF assms] by simp
  moreover have "haveSent s' = haveSent s \<or> (\<exists>old new. haveSent s' = rename_key old new (haveSent s))"
  proof (cases "getMsgId d \<noteq> 0 \<and> (force \<or> getMsgId d > cur)")
    case True
    then have "s' = snd (snd (replaceMsgId draw d cur (s\<lparr>resendingIds := fm_erase (getMsgId d) (resendingIds s)\<rparr>)))"
      using assms by (simp add: prepareToSend_def Let_def)
    then show ?thesis using replace_haveSent [of draw d cur "s\<lparr>resendingIds := fm_erase (getMsgId d) (resendingIds s)\<rparr>"] by simp
  next
    case False
    then have "haveSent s' = haveSent s"
      using assms by (auto simp: prepareToSend_def nextRequestSeqNumber_def Let_def split: if_splits)
    then show ?thesis ..
  qed
  then have "snd ` set (haveSent s') \<subseteq> snd ` set (haveSent s)" using rename_values by (metis order_refl)
  ultimately show "serves A s s'" by (simp add: serves_maps)
  show "needAck d' = needAck d"
    using assms by (auto simp: prepareToSend_def replaceMsgId_def Let_def split: if_splits prod.splits)
qed

lemma serves_core: "core s' = core (s\<lparr>drawn := n\<rparr>) \<Longrightarrow> serves A s s'"
  by (rule serves_maps) (simp_all add: core_def)

lemma serves_fields:
  "serves A s (s\<lparr>drawn := n\<rparr>)" "serves A s (s\<lparr>ackedIds := x\<rparr>)" "serves A s (s\<lparr>sentContainers := y\<rparr>)"
  "serves A s (s\<lparr>bindMsgId := m, bindMessageSent := t\<rparr>)" "serves A s (s\<lparr>pingMsgId := m\<rparr>)"
  "serves A s (s\<lparr>stateAndResendRequests := z\<rparr>)"
  by (simp_all add: serves_def addresses_def)

lemma next_big_serves: "serves A s (snd (next_big draw m (c, s)))"
  by (rule serves_maps) simp_all

text \<open>A request that is given its id and becomes a sent one.\<close>

lemma serves_sent:
  assumes "a \<in> A" "needAck d = needAck (objects s a)"
  shows "serves A s (s\<lparr>objects := (objects s)(a := d), haveSent := fm_emplace m a (haveSent s)\<rparr>)"
    "serves A s (s\<lparr>objects := (objects s)(a := d)\<rparr>)"
proof -
  have "snd ` set (haveSent s) \<subseteq> A \<Longrightarrow> snd ` set (fm_emplace m a (haveSent s)) \<subseteq> A"
    using emplace_values [of m a "haveSent s"] assms(1) by blast
  then show "serves A s (s\<lparr>objects := (objects s)(a := d), haveSent := fm_emplace m a (haveSent s)\<rparr>)"
    "serves A s (s\<lparr>objects := (objects s)(a := d)\<rparr>)" using assms(2) by (simp_all add: serves_def addresses_def)
qed

lemma needAck_time [simp]: "needAck (d\<lparr>rd_lastSentTime := t\<rparr>) = needAck d"
  by (simp add: needAck_def)

lemma place_request_serves:
  assumes "a \<in> A"
  shows "serves A (snd cs) (snd (place_request draw env force (r, a) cs))"
proof -
  obtain c s where cs: "cs = (c, s)" by (cases cs)
  obtain m d s1 where p: "prepareToSend draw (objects s a) (cn_bigMsgId c) force s = (m, d, s1)" by (metis prod_cases3)
  define s2 where "s2 = s1\<lparr>objects := (objects s1)(a := d)\<rparr>"
  obtain c3 s3 where n: "next_big draw m (c, s2) = (c3, s3)" by (metis surj_pair)
  have o1: "objects s1 = objects s" using prepare_mono(3) [OF p] .
  have "serves A s1 s2" unfolding s2_def by (rule serves_sent(2)) (use assms prepare_serves(2) [OF p] o1 in simp_all)
  moreover have "serves A s2 s3" using next_big_serves [of A s2 draw m c] n by simp
  ultimately have s3: "serves A s s3" using prepare_serves(1) [OF p] serving.in_turn by blast
  have "objects s3 = (objects s1)(a := d)" using next_big_fields(1) [of draw m c s2] n unfolding s2_def by simp
  then have "serves A s3 (s3\<lparr>objects := (objects s3)(a := d\<lparr>rd_lastSentTime := en_now env\<rparr>), haveSent := fm_emplace m a (haveSent s3)\<rparr>)"
    by (intro serves_sent(1)) (use assms in simp_all)
  then show ?thesis
    using s3 serving.in_turn [OF s3 serves_fields(2)] serving.in_turn [OF s3]
    by (simp add: place_request_def cs p n Let_def flip: s2_def)
qed

lemma place_service_serves:
  assumes "quiet_note note_id"
  shows "serves A (snd cs) (snd (place_service draw force req note_id cs))"
proof (cases req)
  case (Some d)
  obtain c s where cs: "cs = (c, s)" by (cases cs)
  obtain m d' s1 where p: "prepareToSend draw d (cn_bigMsgId c) force s = (m, d', s1)" by (metis prod_cases3)
  have n: "serves A s1 (snd (note_id x y (z, snd (next_big draw m (c, s1)))))" for x y z
    by (rule serving.in_turn [OF next_big_serves serves_core [where n = "drawn (snd (next_big draw m (c, s1)))"]])
      (use assms in \<open>auto simp: quiet_note_def core_def\<close>)
  show ?thesis
    using serving.in_turn [OF prepare_serves(1) [OF p] n]
    by (simp add: place_service_def placeToContainer_def Some cs p Let_def split_beta)
qed (simp add: place_service_def serving.at_rest)

lemma promise_serves: "promise (\<lambda>cs cs'. serves A (snd cs) (snd cs'))"
  by (rule serving_container.promise_axioms)

lemma place_requests_serve:
  "snd ` set xs \<subseteq> A \<Longrightarrow> serves A (snd cs) (snd (fold (place_request draw env force) xs cs))"
proof (induction xs arbitrary: cs)
  case (Cons e xs)
  have "serves A (snd cs) (snd (place_request draw env force e cs))"
    using place_request_serves [of "snd e" A cs draw env force "fst e"] Cons.prems by simp
  moreover have "serves A (snd (place_request draw env force e cs)) (snd (fold (place_request draw env force) (e # xs) cs))"
    using Cons by simp
  ultimately show ?case by (rule serving.in_turn)
qed (simp add: serving.at_rest)

lemma serves_drop: "serves A s (s\<lparr>toSend := drop n (toSend s)\<rparr>)"
proof -
  have "snd ` set (drop n (toSend s)) \<subseteq> snd ` set (toSend s)" by (intro image_mono set_drop_subset)
  then show ?thesis by (auto simp: serves_def addresses_def)
qed

lemma send_container_serves:
  assumes "snd ` set (toSend s) \<subseteq> A"
  shows "serves A s (snd (send_container draw env v force n m s))"
proof (rule send_container_along [where R = "\<lambda>cs cs'. serves A (snd cs) (snd cs')"
      and draw = draw and env = env and force = force and n = n and s = s and v = v and m = m, OF promise_serves])
  fix cs
  have "snd ` set (take n (toSend s)) \<subseteq> A" using assms set_take_subset [of n "toSend s"] by blast
  then show "serves A (snd cs) (snd (fold (place_request draw env force) (take n (toSend s)) cs))"
    by (rule place_requests_serve)
next
  fix c cs d i whole s' sent
  assume r: "serves A (snd (c :: container, s\<lparr>drawn := Suc (drawn s)\<rparr>)) (snd cs)"
    and p: "prepareToSend draw d (cn_bigMsgId (fst cs)) force (snd cs) = (i, whole, s')"
    and e: "snd (send_container draw env v force n m s) = s'\<lparr>sentContainers := sent\<rparr>"
  have "serves A s (snd cs)" using serving.in_turn [OF serves_fields(1) r [simplified]] by simp
  then have "serves A s s'" using prepare_serves(1) [OF p] by (rule serving.in_turn)
  then show "serves A s (snd (send_container draw env v force n m s))"
    unfolding e by (rule serving.in_turn) (rule serves_fields(3))
qed (simp_all add: place_service_serves serves_drop)

lemma send_service_serves: "serves A s (snd (send_service draw env v force d s))"
proof -
  obtain x d' s' where p: "prepareToSend draw d (draw (drawn s)) (force \<and> sv_bind v = None) (s\<lparr>drawn := Suc (drawn s)\<rparr>) = (x, d', s')"
    by (metis prod_cases3)
  have "serves A s s'" by (rule serving.in_turn [OF serves_fields(1) prepare_serves(1) [OF p]])
  then show ?thesis
    using serving.in_turn [OF _ serves_fields(4)] serving.in_turn [OF _ serves_fields(5)]
      serving.in_turn [OF _ serves_fields(6)]
    by (simp add: send_service_def mtproto_msg_id_def p Let_def)
qed

text \<open>A request that is sent alone, and the packet that is the shared object itself.\<close>

lemma send_single_serves:
  assumes "a \<in> A"
  shows "serves A s (snd (send_single draw env force a s))"
    "sn_shared (fst (send_single draw env force a s)) = Some b
      \<Longrightarrow> sn_packet (fst (send_single draw env force a s)) = Some (objects (snd (send_single draw env force a s)) b)"
proof -
  define t where "t = s\<lparr>toSend := drop 1 (toSend s), drawn := Suc (drawn s)\<rparr>"
  obtain m d s1 where p: "prepareToSend draw (objects s a) (draw (drawn s)) force t = (m, d, s1)" by (metis prod_cases3)
  have t: "serves A s t"
    unfolding t_def by (rule serving.in_turn [OF serves_drop serves_fields(1)])
  then have s1: "serves A s s1" using prepare_serves(1) [OF p] by (rule serving.in_turn)
  have o1: "objects s1 = objects s" using prepare_mono(3) [OF p] by (simp add: t_def)
  define d' where "d' = d\<lparr>rd_lastSentTime := en_now env\<rparr>"
  have d: "needAck d = needAck (objects s1 a)" "needAck d' = needAck (objects s1 a)"
    using prepare_serves(2) [OF p] o1 by (simp_all add: d'_def)
  have u: "serves A s (s1\<lparr>objects := (objects s1)(a := d)\<rparr>)"
    "serves A s (s1\<lparr>objects := (objects s1)(a := d'), haveSent := fm_emplace m a (haveSent s1)\<rparr>)"
    using serving.in_turn [OF s1] serves_sent [OF assms d(1)] serves_sent [OF assms d(2)] by blast+
  have e: "send_single draw env force a s = (if rd_requestId d = 0
         then (no_sending\<lparr>sn_packet := Some d, sn_shared := Some a\<rparr>, s1\<lparr>objects := (objects s1)(a := d)\<rparr>)
         else if \<not> needAck d
         then (no_sending\<lparr>sn_packet := Some d, sn_shared := Some a\<rparr>,
               s1\<lparr>objects := (objects s1)(a := d), ackedIds := fm_emplace m (rd_requestId d) (ackedIds s1)\<rparr>)
         else let s2 = s1\<lparr>objects := (objects s1)(a := d'), haveSent := fm_emplace m a (haveSent s1)\<rparr>;
                  layer = (\<not> en_connectionInited env \<and> rd_needsLayer d');
                  packet = (case rd_after d' of None \<Rightarrow> d' | Some b \<Rightarrow> wrap_after s2 env b d');
                  packet = (if layer then wrap_layer env packet else packet)
              in (\<lparr>sn_packet = Some packet, sn_shared = (if rd_after d' = None \<and> \<not> layer then Some a else None),
                   sn_needAnyResponse = True, sn_someSkipped = False\<rparr>, s2))"
    using p unfolding d'_def by (simp add: send_single_def mtproto_msg_id_def Let_def t_def)
  show "serves A s (snd (send_single draw env force a s))"
    unfolding e using u serving.in_turn [OF u(1) serves_fields(2)] by (simp add: Let_def)
  show "sn_shared (fst (send_single draw env force a s)) = Some b
      \<Longrightarrow> sn_packet (fst (send_single draw env force a s)) = Some (objects (snd (send_single draw env force a s)) b)"
    unfolding e by (auto simp: Let_def no_sending_def split: if_splits)
qed

lemma send_prepared_range_serves:
  assumes A: "addresses s \<subseteq> A"
  shows "serves A s (snd (send_prepared_range draw env v all force s))"
    "sn_shared (fst (send_prepared_range draw env v all force s)) = Some b
      \<Longrightarrow> sn_packet (fst (send_prepared_range draw env v all force s))
          = Some (objects (snd (send_prepared_range draw env v all force s)) b)"
proof -
  define queue where "queue = (if all then toSend s else [])"
  define n where "n = cut_count 0 (map (\<lambda>e. length (rd_ints (objects s (snd e)))) queue)"
  define k where "k = n + service_count v"
  define a where "a = snd (hd queue)"
  define r where "r = (if k = 0 then (no_sending, s)
      else case first_service v of
         Some d \<Rightarrow> (if k = 1 \<and> \<not> rd_forceSendInContainer d then send_service draw env v force d s
                    else send_container draw env v force n k s)
       | None \<Rightarrow> (if k = 1 \<and> \<not> rd_forceSendInContainer (objects s a) then send_single draw env force a s
                    else send_container draw env v force n k s))"
  have e: "send_prepared_range draw env v all force s = ((fst r)\<lparr>sn_someSkipped := (n < length queue)\<rparr>, snd r)"
    unfolding send_prepared_range_def Let_def split_beta queue_def [symmetric] n_def [symmetric] k_def [symmetric]
      a_def [symmetric] r_def [symmetric] by simp
  have c: "serves A s (snd (send_container draw env v force n k s))"
    by (rule send_container_serves) (use A in \<open>simp add: addresses_def\<close>)
  have shared: "sn_shared (fst (send_container draw env v force n k s)) = None"
    "sn_shared (fst (send_service draw env v force d s)) = None" for d
    by (simp_all add: send_container_def send_service_def Let_def split_beta)
  have a: "a \<in> A" if "first_service v = None" "k \<noteq> 0"
  proof -
    have "queue \<noteq> []" using that first_service_none [of v] cut_count_zero [of 0] by (auto simp: k_def n_def)
    then have "hd queue \<in> set (toSend s)" unfolding queue_def by (metis list.set_sel(1))
    then show ?thesis using A unfolding a_def addresses_def by blast
  qed
  have single: "serves A s (snd (send_single draw env force a s))"
    "sn_shared (fst (send_single draw env force a s)) = Some b
      \<Longrightarrow> sn_packet (fst (send_single draw env force a s)) = Some (objects (snd (send_single draw env force a s)) b)"
    if "first_service v = None" "k \<noteq> 0" using send_single_serves [OF a [OF that]] by blast+
  show "serves A s (snd (send_prepared_range draw env v all force s))"
    unfolding e using c single(1) send_service_serves
    by (auto simp: r_def serving.at_rest split: option.split)
  show "sn_shared (fst (send_prepared_range draw env v all force s)) = Some b
      \<Longrightarrow> sn_packet (fst (send_prepared_range draw env v all force s))
          = Some (objects (snd (send_prepared_range draw env v all force s)) b)"
    unfolding e using shared single(2) by (auto simp: r_def no_sending_def split: option.splits if_splits)
qed

lemma tryToSend_serves:
  "serves (addresses s) s (snd (tryToSend draw sch env s))"
  "sn_shared (fst (tryToSend draw sch env s)) = Some b
    \<Longrightarrow> sn_packet (fst (tryToSend draw sch env s)) = Some (objects (snd (tryToSend draw sch env s)) b)"
proof -
  define first where "first = (st_state s \<noteq> kConnectedState)"
  define all where "all = (\<not> first \<and> en_keyCreator env = None)"
  define skip where "skip = (\<not> en_connection env \<or> \<not> en_key env \<or> first \<and> pingIdToSend s = 0)"
  define s1 where "s1 = (if en_isMainSession env \<and> \<not> first \<and> pingIdToSend s = 0 \<and> pingId s = 0
      \<and> pingSendAt s \<le> en_now env then s\<lparr>pingIdToSend := en_ping env\<rparr> else s)"
  define fs where "fs = (if all then markSessionAsStarted s1 else (False, s1))"
  define vs where "vs = collect_service draw sch env first (snd fs)"
  have e: "tryToSend draw sch env s = (if skip then (no_sending, s) else send_prepared_range draw env (fst vs) all (fst fs) (snd vs))"
    unfolding tryToSend_def Let_def first_def [symmetric] skip_def [symmetric]
    by (simp add: split_beta all_def s1_def fs_def vs_def)
  have "core (snd fs) = core s" by (simp add: fs_def s1_def markSessionAsStarted_def core_def)
  then have "core (snd vs) = core (s\<lparr>drawn := drawn (snd vs)\<rparr>)"
    using collect_service_core(1) [of draw sch env first "snd fs"] by (simp add: vs_def core_def)
  then have s: "serves A s (snd vs)" for A by (rule serves_core)
  then have a: "addresses (snd vs) \<subseteq> addresses s" by (simp add: serves_def)
  show "serves (addresses s) s (snd (tryToSend draw sch env s))"
    unfolding e using serving.in_turn [OF s send_prepared_range_serves(1) [OF a]] by (simp add: serving.at_rest)
  show "sn_shared (fst (tryToSend draw sch env s)) = Some b
    \<Longrightarrow> sn_packet (fst (tryToSend draw sch env s)) = Some (objects (snd (tryToSend draw sch env s)) b)"
    unfolding e using send_prepared_range_serves(2) [OF a] by (auto simp: no_sending_def split: if_splits)
qed

subsection \<open>The packet that is the shared object\<close>

lemma secure_ints_same:
  assumes "request_ok d"
  shows "same_request d (addPadding random fill False d)"
    "secure_ints random fill salt sess d = Some e \<Longrightarrow> same_request d e"
proof -
  let ?p = "addPadding random fill False d"
  note p = addPadding_sizes [OF assms, of random fill False]
  show same: "same_request d ?p" using p by (simp add: same_request_def)
  assume "secure_ints random fill salt sess d = Some e"
  then have e: "e = ?p\<lparr>rd_ints := (rd_ints ?p)[0 := low_int salt, 1 := high_int salt, 2 := low_int sess, 3 := high_int sess]\<rparr>"
    by (auto simp: secure_ints_def Let_def split: if_splits)
  have "same_request ?p e"
    unfolding e by (simp add: same_request_def getMsgId_def needAck_def request_ok_def body_ints_def count_length_def position_defs)
  with same show "same_request d e" by (simp add: same_request_def)
qed

lemma calm_trans: "calm s t \<Longrightarrow> calm t u \<Longrightarrow> calm s u"
  unfolding calm_def by (metis subset_iff)

lemma sendSecure_keeps:
  assumes shared: "\<forall>a. sn_shared r = Some a \<longrightarrow> sn_packet r = Some (objects s a)"
  shows "keeps draw s (sendSecureRequest random fill r s)"
    "session_ok draw s \<Longrightarrow> calm s (sendSecureRequest random fill r s)"
    "drawn (sendSecureRequest random fill r s) = drawn s"
proof -
  show "drawn (sendSecureRequest random fill r s) = drawn s"
    by (auto simp: sendSecureRequest_def Let_def split: option.splits)
  have *: "keeps draw s (sendSecureRequest random fill r s) \<and> (session_ok draw s \<longrightarrow> calm s (sendSecureRequest random fill r s))"
  proof (cases "sn_shared r")
    case None
    then show ?thesis by (simp add: sendSecureRequest_def calm_def split: option.split)
  next
    case (Some a)
    let ?d = "objects s a"
    define e where "e = (case secure_ints random fill (sessionSalt s) (sessionId s) ?d of
        Some e \<Rightarrow> e | None \<Rightarrow> addPadding random fill False ?d)"
    have s': "sendSecureRequest random fill r s = s\<lparr>objects := (objects s)(a := e)\<rparr>"
      using shared Some by (simp add: sendSecureRequest_def e_def Let_def)
    show ?thesis
    proof (cases "a \<in> addresses s")
      case True
      have same: "same_request (objects s b) (((objects s)(a := e)) b)" if "session_ok draw s" for b
      proof -
        have m: "maps_ok (drawn_ids draw (drawn s)) (objects s) (toSend s) (haveSent s)" using that by (simp add: session_ok_def)
        have "request_ok ?d" using True waitingD(3) [OF m] sentD(5) [OF m] by (force simp: addresses_def)
        then have "same_request ?d e" using secure_ints_same by (simp add: e_def split: option.split)
        then show ?thesis by simp
      qed
      then have "session_ok draw s \<Longrightarrow> keeps draw s (s\<lparr>objects := (objects s)(a := e)\<rparr>)"
        "session_ok draw s \<Longrightarrow> gentle s (s\<lparr>objects := (objects s)(a := e)\<rparr>)"
        using keeps_objects [of s "(objects s)(a := e)"] gentle_objects [of s "(objects s)(a := e)"] by blast+
      then show ?thesis unfolding s' by (auto simp: keeps_def gentle_def)
    next
      case False
      have eq: "((objects s)(a := e)) b = objects s b" if "b \<in> snd ` set (toSend s) \<union> snd ` set (haveSent s)" for b
        using False that by (auto simp: addresses_def)
      have "maps_ok ids (objects s) (toSend s) (haveSent s) \<Longrightarrow> maps_ok ids ((objects s)(a := e)) (toSend s) (haveSent s)" for ids
        by (rule maps_agree [where os = "objects s", OF eq])
      moreover have "requests_in ((objects s)(a := e)) (toSend s) (haveSent s) = requests_in (objects s) (toSend s) (haveSent s)"
        by (rule requests_agree) (use eq in blast)
      ultimately have "keeps draw s (s\<lparr>objects := (objects s)(a := e)\<rparr>)"
        by (simp add: keeps_def session_ok_def pending_def)
      moreover have "calm s (s\<lparr>objects := (objects s)(a := e)\<rparr>)" using False by (auto simp: calm_def addresses_def)
      ultimately show ?thesis unfolding s' by blast
    qed
  qed
  show "keeps draw s (sendSecureRequest random fill r s)" using * by blast
  show "session_ok draw s \<Longrightarrow> calm s (sendSecureRequest random fill r s)" using * by blast
qed

subsection \<open>The run relation\<close>

datatype session_event =
    Submitted nat int
  | Cancelled nat
  | Sent scheme send_env byte "nat \<Rightarrow> prime"
  | Received nat receive_env int secure_message
  | RequestsChecked int
  | ContainersCleared int
  | SentAgain mtpMsgId int int
  | KeyChecked int "64 word"
  | StateSet int "int option"
  | PingsForgotten
  | PingForced
  | SessionChanged "64 word"
  | SessionReset "64 word"
  | SaltSet "64 word"
  | AskedFor asked
  | Taken

definition send_now :: "(nat \<Rightarrow> mtpMsgId) \<Rightarrow> scheme \<Rightarrow> send_env \<Rightarrow> byte \<Rightarrow> (nat \<Rightarrow> prime) \<Rightarrow> mtp_session \<Rightarrow> mtp_session" where
  "send_now draw sch env random fill s = (let (r, s) = tryToSend draw sch env s in sendSecureRequest random fill r s)"

text \<open>
  The main thread gives a request an id it does not use for another one that is still under way, and
  every request of the API needs an acknowledgement.
\<close>

inductive session_step :: "(nat \<Rightarrow> mtpMsgId) \<Rightarrow> mtp_session \<Rightarrow> session_event \<Rightarrow> mtp_session \<Rightarrow> bool" for draw where
  submitted: "request_ok (objects s a) \<Longrightarrow> needAck (objects s a) \<Longrightarrow> rd_requestId (objects s a) \<noteq> 0
    \<Longrightarrow> rd_requestId (objects s a) \<notin> pending s \<Longrightarrow> session_step draw s (Submitted a w) (sendPrepared a w s)"
| cancelled: "a \<in> addresses s
    \<Longrightarrow> session_step draw s (Cancelled a) (cancel (rd_requestId (objects s a)) (getMsgId (objects s a)) s)"
| sent: "session_step draw s (Sent sch env random fill) (send_now draw sch env random fill s)"
| received: "handleReceived depth e now m s = Some (r, s') \<Longrightarrow> session_step draw s (Received depth e now m) s'"
| checked: "session_step draw s (RequestsChecked now) (checkSentRequests now s)"
| cleared: "session_step draw s (ContainersCleared now) (clearOldContainers now s)"
| again: "session_step draw s (SentAgain m now w) (resend now w m s)"
| key: "session_step draw s (KeyChecked now random) (authKeyChecked now random s)"
| state: "session_step draw s (StateSet x y) (snd (setState x y s))"
| forgotten: "session_step draw s PingsForgotten (forget_pings s)"
| forced: "session_step draw s PingForced (force_ping s)"
| changed: "session_step draw s (SessionChanged random) (changeSessionId random s)"
| reset: "session_step draw s (SessionReset random) (resetSession random s)"
| salt: "session_step draw s (SaltSet x) (s\<lparr>sessionSalt := x\<rparr>)"
| asked: "session_step draw s (AskedFor a) (ask a s)"
| taken: "session_step draw s Taken (snd (take_received s))"

text \<open>The events of a run with the states they met.\<close>

inductive session_run :: "(nat \<Rightarrow> mtpMsgId) \<Rightarrow> mtp_session \<Rightarrow> (mtp_session \<times> session_event) list \<Rightarrow> mtp_session \<Rightarrow> bool"
  for draw s where
  stay: "session_run draw s [] s"
| step: "session_run draw s tr t \<Longrightarrow> session_step draw t ev u \<Longrightarrow> session_run draw s (tr @ [(t, ev)]) u"

text \<open>The requests an event may end.\<close>

definition ends :: "session_event \<Rightarrow> mtp_session \<Rightarrow> mtpRequestId set" where
  "ends ev s = (case ev of
       Cancelled a \<Rightarrow> {rd_requestId (objects s a)}
     | Received depth e now m \<Rightarrow> {r. \<exists>i \<in> answer_ids depth e (sm_ints m). stands_for s i r}
     | _ \<Rightarrow> {})"

definition waits_for :: "session_event \<Rightarrow> mtpRequestId \<Rightarrow> bool" where
  "waits_for ev r = (case ev of Received depth e now m \<Rightarrow> re_hasCallback e r | _ \<Rightarrow> True)"

definition needing :: "mtp_session \<Rightarrow> bool" where
  "needing s \<longleftrightarrow> (\<forall>a \<in> addresses s. needAck (objects s a))"

lemma needing_calm: "calm s s' \<Longrightarrow> needing s \<Longrightarrow> needing s'"
  unfolding calm_def needing_def by blast

lemma send_now_ok:
  assumes N: "fresh_ids N draw" and b: "drawn (send_now draw sch env random fill s) \<le> N"
    and ok: "session_ok draw s" "needing s"
  shows "session_ok draw (send_now draw sch env random fill s)" "needing (send_now draw sch env random fill s)"
    "pending (send_now draw sch env random fill s) = pending s" "drawn s \<le> drawn (send_now draw sch env random fill s)"
proof -
  obtain r t where rt: "tryToSend draw sch env s = (r, t)" by (cases "tryToSend draw sch env s")
  have s': "send_now draw sch env random fill s = sendSecureRequest random fill r t" by (simp add: send_now_def rt)
  have shared: "\<forall>a. sn_shared r = Some a \<longrightarrow> sn_packet r = Some (objects t a)"
    using tryToSend_serves(2) [of draw sch env s] by (simp add: rt)
  note keep = sendSecure_keeps [of r t, OF shared]
  have d: "drawn (send_now draw sch env random fill s) = drawn t" unfolding s' by (rule keep(3))
  have sends: "sends N draw s t" using tryToSend_sends [OF N, of s sch env] by (simp add: rt)
  have silent: "silent (toSend s) s = {}" using ok(2) by (force simp: silent_def needing_def addresses_def)
  have t: "session_ok draw t" "pending t = pending s" using sends ok(1) b d silent by (auto simp: sends_def)
  have serves: "serves (addresses s) s t" using tryToSend_serves(1) [of s draw sch env] by (simp add: rt)
  then have nt: "needing t" using ok(2) by (auto simp: serves_def needing_def)
  show "session_ok draw (send_now draw sch env random fill s)" "pending (send_now draw sch env random fill s) = pending s"
    unfolding s' using keep(1) [of draw random fill] t by (simp_all add: keeps_def)
  show "needing (send_now draw sch env random fill s)"
    unfolding s' by (rule needing_calm [OF keep(2) [OF t(1)] nt])
  show "drawn s \<le> drawn (send_now draw sch env random fill s)" using sends d by (simp add: sends_def)
qed

lemma core_connection [simp]:
  "core (forget_pings s) = core s" "core (force_ping s) = core s" "core (changeSessionId random s) = core s"
  "core (resetSession random s) = core s" "core (snd (take_received s)) = core s" "core (s\<lparr>pingIdToSend := p\<rparr>) = core s"
  "core (s\<lparr>sessionSalt := x\<rparr>) = core s"
  by (simp_all add: core_def forget_pings_def force_ping_def changeSessionId_def resetSession_def take_received_def ask_def)

lemma handled_key: "handled draw hc ids s (authKeyChecked now random s)"
proof -
  define c where "c = (if sessionSalt s \<noteq> 0 then setState kConnectedState None s else (False, s))"
  have "handled draw hc ids s (snd c)" by (rule handled_core) (simp add: c_def)
  then have "handled draw hc ids s (if fst c then resendAll now (snd c) else snd c)"
    using handled_trans handled_resendAll by simp
  then show ?thesis
    unfolding authKeyChecked_def Let_def c_def [symmetric] split_beta by (rule handled_then_core) simp
qed

definition step_ok :: "(nat \<Rightarrow> mtpMsgId) \<Rightarrow> session_event \<Rightarrow> mtp_session \<Rightarrow> mtp_session \<Rightarrow> bool" where
  "step_ok draw ev s s' \<longleftrightarrow> session_ok draw s' \<and> needing s'
     \<and> (\<forall>r \<in> pending s. waits_for ev r \<longrightarrow> r \<notin> ends ev s \<longrightarrow> r \<in> pending s')"

lemma step_handled:
  assumes "handled draw hc ids s s'" "session_ok draw s" "needing s"
    and "\<And>r. waits_for ev r \<Longrightarrow> hc r" "\<And>i r. i \<in> ids \<Longrightarrow> stands_for s i r \<Longrightarrow> r \<in> ends ev s"
  shows "step_ok draw ev s s'"
  using assms needing_calm unfolding step_ok_def handled_def gentle_def by blast

lemma step_quiet:
  assumes "handled draw (\<lambda>r. True) {} s s'" "session_ok draw s" "needing s"
  shows "step_ok draw ev s s'"
  by (rule step_handled [OF assms]) simp_all

lemma handled_drawn: "handled draw hc ids s s' \<Longrightarrow> drawn s' = drawn s"
  by (simp add: handled_def gentle_def calm_def)

lemma session_step_quiet:
  assumes "session_step draw s ev s'"
  shows "(\<exists>a w. ev = Submitted a w) \<or> (\<exists>a. ev = Cancelled a) \<or> (\<exists>sch env random fill. ev = Sent sch env random fill)
    \<or> (\<exists>depth e now m. ev = Received depth e now m) \<or> handled draw (\<lambda>r. True) {} s s'"
  using assms
  by cases (auto simp: handled_core handled_resend handled_key
      handled_keeps [OF checkSentRequests_keeps checkSentRequests_gentle]
      handled_keeps [OF clearOldContainers_keeps clearOldContainers_gentle])

lemma sendPrepared_needing:
  assumes "needing s" "needAck (objects s a)" "request_ok (objects s a)"
  shows "needing (sendPrepared a w s)"
proof -
  have c: "needAck (clear_ids (objects s a)) = needAck (objects s a)"
    using assms(3) by (simp add: needAck_def clear_ids_def position_defs)
  have "addresses (sendPrepared a w s) \<subseteq> insert a (addresses s)"
    using emplace_values [of "rd_requestId (objects s a)" a "toSend s"]
    by (auto simp: sendPrepared_def addresses_def ask_def Let_def)
  then show ?thesis using assms(1,2) c by (auto simp: needing_def sendPrepared_def ask_def Let_def)
qed

lemma session_step_ok:
  assumes "fresh_ids N draw" "session_step draw s ev s'" "drawn s' \<le> N" "session_ok draw s" "needing s"
  shows "step_ok draw ev s s'"
  using assms(2)
proof cases
  case (submitted a w)
  then show ?thesis
    using sendPrepared_ok [OF assms(4), of a w] sendPrepared_needing [OF assms(5)] by (simp add: step_ok_def)
next
  case (cancelled a)
  have "calm s (cancel (rd_requestId (objects s a)) (getMsgId (objects s a)) s)"
    using gentle_fewer [of "cancel (rd_requestId (objects s a)) (getMsgId (objects s a)) s" s]
    by (simp add: gentle_def cancel_def Let_def)
  then show ?thesis
    using cancelled cancel_ok [OF assms(4) cancelled(3)] needing_calm [OF _ assms(5)] by (simp add: step_ok_def ends_def)
next
  case (sent sch env random fill)
  then show ?thesis
    using send_now_ok [OF assms(1) _ assms(4,5), of sch env random fill] assms(3) by (simp add: step_ok_def)
next
  case (received depth e now m r)
  show ?thesis
    by (rule step_handled [OF handled_received [OF received(2)] assms(4,5)])
      (auto simp: received(1) waits_for_def ends_def)
qed (use session_step_quiet [OF assms(2)] step_quiet [OF _ assms(4,5)] in auto)

lemma session_step_drawn:
  assumes "fresh_ids N draw" "session_step draw s ev s'"
  shows "drawn s \<le> drawn s'"
  using assms(2)
proof cases
  case (sent sch env random fill)
  obtain r t where rt: "tryToSend draw sch env s = (r, t)" by (cases "tryToSend draw sch env s")
  have "drawn (sendSecureRequest random fill r t) = drawn t"
    by (auto simp: sendSecureRequest_def Let_def split: option.splits)
  then show ?thesis using tryToSend_sends [OF assms(1), of s sch env] sent by (simp add: rt send_now_def sends_def)
next
  case (received depth e now m r)
  then show ?thesis using handled_drawn [OF handled_received] by simp
qed (use session_step_quiet [OF assms(2)] handled_drawn in \<open>auto simp: sendPrepared_def cancel_def ask_def Let_def\<close>)

lemma session_run_drawn: "session_run draw s tr s' \<Longrightarrow> fresh_ids N draw \<Longrightarrow> drawn s \<le> drawn s'"
  by (induction rule: session_run.induct) (auto intro: le_trans session_step_drawn)

lemma session_run_ok:
  assumes "session_run draw s tr s'" "fresh_ids N draw" "session_ok draw s" "needing s"
  shows "drawn s' \<le> N \<Longrightarrow> session_ok draw s' \<and> needing s'
    \<and> (\<forall>r \<in> pending s. (\<forall>(t, ev) \<in> set tr. waits_for ev r \<and> r \<notin> ends ev t) \<longrightarrow> r \<in> pending s')"
  using assms(1)
proof (induction rule: session_run.induct)
  case (step tr t ev u)
  have "drawn t \<le> N" using session_step_drawn [OF assms(2) step.hyps(2)] step.prems by simp
  with step.IH have t: "session_ok draw t" "needing t"
    "\<forall>r \<in> pending s. (\<forall>(t, ev) \<in> set tr. waits_for ev r \<and> r \<notin> ends ev t) \<longrightarrow> r \<in> pending t" by blast+
  show ?case
    using session_step_ok [OF assms(2) step.hyps(2) step.prems t(1,2)] t(3) by (auto simp: step_ok_def)
qed (use assms in auto)

lemma new_session_ok: "session_ok draw (new_mtp_session os)" "needing (new_mtp_session os)"
  by (simp_all add: session_ok_def new_mtp_session_def maps_defs noted_ok_def needing_def addresses_def)

definition under_way :: "mtp_session \<Rightarrow> mtpRequestId \<Rightarrow> bool" where
  "under_way s r \<longleftrightarrow> (\<exists>m a. map_of (haveSent s) m = Some a \<and> rd_requestId (objects s a) = r \<and> getMsgId (objects s a) = m)"

lemma pending_somewhere:
  assumes "session_ok draw s" "r \<in> pending s"
  shows "(r \<in> fm_keys (toSend s)) \<noteq> under_way s r"
proof -
  have m: "maps_ok (drawn_ids draw (drawn s)) (objects s) (toSend s) (haveSent s)" using assms(1) by (simp add: session_ok_def)
  have f: "fm_ok (haveSent s)" using maps_fm_ok(2) [OF m] .
  have "r \<notin> fm_keys (toSend s)" if "map_of (haveSent s) k = Some a" "rd_requestId (objects s a) = r" for k a
    using sentD(6) [OF m] that map_of_iff [OF f] by metis
  moreover have "under_way s r" if "r \<notin> fm_keys (toSend s)"
  proof -
    have "r \<in> (\<lambda>e. rd_requestId (objects s (snd e))) ` set (haveSent s)"
      using assms(2) that unfolding pending_def requests_in_def by blast
    then obtain k a where "(k, a) \<in> set (haveSent s)" "rd_requestId (objects s a) = r" by auto
    then show ?thesis using sentD(1) [OF m] map_of_iff [OF f] unfolding under_way_def by metis
  qed
  ultimately show ?thesis unfolding under_way_def by blast
qed

text \<open>
  C1. No request is lost. In every run of a session, whatever was submitted, sent, received and
  whichever timers fired and connections changed, in any order, the maps fit together: every request
  waits or is under way, never both, each under an id of its own. And a request that somebody waits
  for, from any point of a run on, is still waiting to be sent or under way under its message id at
  every later point, unless it was cancelled or a message arrived that answers an id that stands for
  it; acknowledgements, resending, states of messages, new salts and new sessions never end it.
\<close>
theorem no_request_lost:
  assumes "fresh_ids N draw" "session_run draw (new_mtp_session os) before t" "session_run draw t after s" "drawn s \<le> N"
  shows "session_ok draw t \<and> session_ok draw s
    \<and> (\<forall>r \<in> pending t. (\<forall>(u, ev) \<in> set after. waits_for ev r \<and> r \<notin> ends ev u)
        \<longrightarrow> (r \<in> fm_keys (toSend s)) \<noteq> under_way s r)"
proof -
  have "drawn t \<le> N" using session_run_drawn [OF assms(3,1)] assms(4) by simp
  then have t: "session_ok draw t" "needing t"
    using session_run_ok [OF assms(2,1) new_session_ok] by blast+
  then have s: "session_ok draw s"
    "\<forall>r \<in> pending t. (\<forall>(u, ev) \<in> set after. waits_for ev r \<and> r \<notin> ends ev u) \<longrightarrow> r \<in> pending s"
    using session_run_ok [OF assms(3,1) t assms(4)] by blast+
  have "(r \<in> fm_keys (toSend s)) \<noteq> under_way s r" if "r \<in> pending s" for r by (rule pending_somewhere [OF s(1) that])
  then show ?thesis using t(1) s by blast
qed

subsection \<open>A run\<close>

definition ex_draw :: "nat \<Rightarrow> mtpMsgId" where "ex_draw n = word_of_nat (4 * n + 4)"

definition ex_request :: "nat \<Rightarrow> request_data" where
  "ex_request a = (Serialize 0 [1, 2])\<lparr>rd_requestId := 7\<rparr>"

definition ex_scheme :: scheme where
  "ex_scheme = \<lparr>tl_ping = (\<lambda>_. [3, 4]), tl_ping_delay_disconnect = (\<lambda>_. [5, 6]), tl_msgs_ack = (\<lambda>_. [7]),
     tl_msg_resend_req = (\<lambda>_. [8]), tl_msgs_state_req = (\<lambda>_. [9]), tl_http_wait = [10], tl_bind = (\<lambda>_. [11])\<rparr>"

definition ex_env :: send_env where
  "ex_env = \<lparr>en_connection = True, en_key = True, en_connectionInited = True, en_keyCreator = None,
     en_isMainSession = False, en_usingHttpWait = False, en_now = 5, en_ping = 1, en_init = []\<rparr>"

definition ex_waiting :: mtp_session where
  "ex_waiting = sendPrepared 0 0 (new_mtp_session ex_request)"

definition ex_connected :: mtp_session where
  "ex_connected = snd (setState kConnectedState None ex_waiting)"

definition ex_sent :: mtp_session where
  "ex_sent = send_now ex_draw ex_scheme ex_env 0 word_of_nat ex_connected"

lemma ex_fresh: "fresh_ids 2 ex_draw"
proof -
  have "{..<2} = {0, 1 :: nat}" by auto
  then show ?thesis by (auto simp: fresh_ids_def inj_on_def ex_draw_def less_2_cases_iff)
qed

lemma ex_values:
  "request_ok (ex_request 0)" "needAck (ex_request 0)" "rd_requestId (ex_request 0) = 7"
  "toSend ex_connected = [(7, 0)]" "map_of (haveSent ex_sent) 4 = Some 0" "drawn ex_sent = 1"
  by code_simp+

lemma ex_run:
  "session_run ex_draw (new_mtp_session ex_request)
     [(new_mtp_session ex_request, Submitted 0 0), (ex_waiting, StateSet kConnectedState None)] ex_connected"
  "session_run ex_draw ex_connected [(ex_connected, Sent ex_scheme ex_env 0 word_of_nat)] ex_sent"
proof -
  have o: "objects (new_mtp_session ex_request) = ex_request" "pending (new_mtp_session ex_request) = {}"
    by (simp_all add: new_mtp_session_def pending_def requests_in_def)
  have "session_step ex_draw (new_mtp_session ex_request) (Submitted 0 0) ex_waiting"
    unfolding ex_waiting_def by (rule session_step.submitted) (simp_all add: o ex_values)
  then have "session_run ex_draw (new_mtp_session ex_request) ([] @ [(new_mtp_session ex_request, Submitted 0 0)]) ex_waiting"
    by (rule session_run.step [OF session_run.stay])
  moreover have "session_step ex_draw ex_waiting (StateSet kConnectedState None) ex_connected"
    unfolding ex_connected_def by (rule session_step.state)
  ultimately show "session_run ex_draw (new_mtp_session ex_request)
      [(new_mtp_session ex_request, Submitted 0 0), (ex_waiting, StateSet kConnectedState None)] ex_connected"
    using session_run.step by fastforce
  have "session_step ex_draw ex_connected (Sent ex_scheme ex_env 0 word_of_nat) ex_sent"
    unfolding ex_sent_def by (rule session_step.sent)
  then show "session_run ex_draw ex_connected [(ex_connected, Sent ex_scheme ex_env 0 word_of_nat)] ex_sent"
    using session_run.step [OF session_run.stay] by fastforce
qed

theorem no_request_lost_witness:
  "7 \<in> pending ex_connected \<and> (7 \<in> fm_keys (toSend ex_sent)) \<noteq> under_way ex_sent 7 \<and> session_ok ex_draw ex_sent"
proof -
  have p: "7 \<in> pending ex_connected" by (simp add: pending_def requests_in_def ex_values)
  have "\<forall>(u, ev) \<in> set [(ex_connected, Sent ex_scheme ex_env 0 word_of_nat)]. waits_for ev 7 \<and> 7 \<notin> ends ev u"
    by (simp add: waits_for_def ends_def)
  then show ?thesis
    using no_request_lost [OF ex_fresh ex_run] p by (simp add: ex_values)
qed

end
