(* ===== verification/Session_Answers.thy ===== *)
theory Session_Answers
  imports Session_Runs
begin

text \<open>
  What becomes of an answer: when its request is still known the response is queued for the main
  thread; and handling a message returns, however deeply containers are nested.
\<close>

subsection \<open>Trimming the acknowledged ids\<close>

lemma emplace_split:
  "fm_ok m \<Longrightarrow> k \<notin> fm_keys m
    \<Longrightarrow> fm_emplace k v m = filter (\<lambda>e. fst e < k) m @ (k, v) # filter (\<lambda>e. k < fst e) m"
proof (induction m)
  case (Cons e m)
  show ?case
  proof (cases "k < fst e")
    case True
    then have "\<forall>x \<in> set m. k < fst x" using Cons.prems(1) by auto
    then have "filter (\<lambda>e. fst e < k) m = []" "filter (\<lambda>e. k < fst e) m = m"
      by (auto simp: filter_empty_conv filter_id_conv)
    then show ?thesis using True by auto
  next
    case False
    then show ?thesis using Cons by auto
  qed
qed simp

lemma trim_emplace:
  assumes "fm_ok m" "k \<notin> fm_keys m"
  shows "map_of (fm_trim n (fm_emplace k v m)) k = (if length (filter (\<lambda>e. k < fst e) m) < n then Some v else None)"
proof -
  let ?p = "filter (\<lambda>e. fst e < k) m" and ?q = "filter (\<lambda>e. k < fst e) m"
  define d where "d = length (?p @ (k, v) # ?q) - n"
  have t: "fm_trim n (fm_emplace k v m) = drop d ?p @ drop (d - length ?p) ((k, v) # ?q)"
    using emplace_split [OF assms, of v] unfolding fm_trim_def d_def by (simp only: drop_append)
  have p: "map_of (drop d ?p) k = None"
    by (auto simp: map_of_eq_None_iff dest!: in_set_dropD)
  show ?thesis
  proof (cases "length ?q < n")
    case True
    then have "d - length ?p = 0" by (simp add: d_def)
    then show ?thesis using True p by (simp add: t map_add_def)
  next
    case False
    then obtain c where c: "d - length ?p = Suc c" by (cases "d - length ?p") (auto simp: d_def)
    have "map_of (drop c ?q) k = None" by (auto simp: map_of_eq_None_iff dest!: in_set_dropD)
    then show ?thesis using False p c by (simp add: t map_add_def)
  qed
qed

subsection \<open>An answer\<close>

text \<open>The message id of a request under way, and of nothing else.\<close>

definition only_sent :: "mtp_session \<Rightarrow> mtpMsgId \<Rightarrow> bool" where
  "only_sent s m \<longleftrightarrow> m \<noteq> pingMsgId s \<and> m \<noteq> bindMsgId s \<and> m \<notin> fm_keys (resendingIds s) \<and> m \<notin> fm_keys (ackedIds s)
     \<and> m \<notin> fm_keys (sentContainers s) \<and> m \<notin> fm_keys (stateAndResendRequests s)"

lemma acked_only_sent:
  assumes m: "only_sent s m" and a: "map_of (haveSent s) m = Some a"
  shows "requestsAcked hc True [m] s = s\<lparr>haveSent := fm_erase m (haveSent s),
      ackedIds := fm_trim kIdsBufferSize (fm_emplace m (rd_requestId (objects s a)) (ackedIds s))\<rparr>"
proof -
  have "map_of (sentContainers s) m = None" "map_of (stateAndResendRequests s) m = None"
    using m by (simp_all add: only_sent_def map_of_eq_None_iff)
  then show ?thesis using a by (subst requestsAcked.simps) (simp add: ack_one_def trim_acked_def Let_def)
qed

lemma handled_pending_gone:
  assumes ok: "session_ok draw s" and a: "map_of (haveSent s) m = Some a"
  shows "rd_requestId (objects s a) \<notin> requests_in (objects s) (toSend s) (fm_erase m (haveSent s))"
proof -
  have p: "maps_ok (drawn_ids draw (drawn s)) (objects s) (toSend s) (haveSent s)" using ok by (simp add: session_ok_def)
  show ?thesis using requests_erase_sent(1) [OF p map_of_SomeD [OF a]] by simp
qed

lemma handled_result:
  assumes ok: "session_ok draw s" and a: "map_of (haveSent s) m = Some a" and m: "only_sent s m"
    and any: "rd_requestId (objects s a) \<noteq> kAnyId"
    and result: "result \<noteq> []" "response = (if hd result = mtpc_gzip_packed then re_ungzip e (tl result) else result)"
      "response \<noteq> []" "\<not> (hd response = mtpc_rpc_error \<and> re_destroyedKeyError e response)"
  shows "fst (deliver_result e m result info s) = HSuccess
    \<and> rd_requestId (objects s a) \<notin> pending (snd (deliver_result e m result info s))
    \<and> haveReceived (snd (deliver_result e m result info s)) = haveReceived s
        @ (if length (filter (\<lambda>e. m < fst e) (ackedIds s)) < kIdsBufferSize
           then [\<lparr>rs_reply = response, rs_outerMsgId = oi_outerMsgId info, rs_requestId = rd_requestId (objects s a)\<rparr>]
           else [])"
proof -
  let ?r = "rd_requestId (objects s a)"
  define inner where "inner = (if hd result = mtpc_gzip_packed then hd response else hd result)"
  have inner: "inner = hd response" using result(2) by (simp add: inner_def)
  define s1 where "s1 = (if inner = mtpc_rpc_error then s else ask ConnectionInited s)"
  have s1: "objects s1 = objects s" "toSend s1 = toSend s" "haveSent s1 = haveSent s" "ackedIds s1 = ackedIds s"
    "haveReceived s1 = haveReceived s" "only_sent s1 m" "bindMsgId s1 = bindMsgId s"
    using m by (simp_all add: s1_def ask_def only_sent_def)
  define s2 where "s2 = s1\<lparr>haveSent := fm_erase m (haveSent s1),
      ackedIds := fm_trim kIdsBufferSize (fm_emplace m ?r (ackedIds s1))\<rparr>"
  have s2: "requestsAcked (re_hasCallback e) True [m] s1 = s2"
    using acked_only_sent [OF s1(6), of a] a by (simp add: s2_def s1)
  have bind: "handleBindResponse e m response s2 = (None, s2)"
    using m by (auto simp: handleBindResponse_def s2_def s1(7) only_sent_def split: option.split)
  define kept where "kept = (length (filter (\<lambda>e. m < fst e) (ackedIds s)) < kIdsBufferSize)"
  have "fm_ok (ackedIds s)" using ok by (simp add: session_ok_def noted_ok_def)
  then have acked: "map_of (fm_trim kIdsBufferSize (fm_emplace m ?r (ackedIds s))) m = (if kept then Some ?r else None)"
    using trim_emplace [of "ackedIds s" m kIdsBufferSize ?r] m by (simp add: only_sent_def kept_def)
  have r0: "?r \<noteq> 0"
    using sentD(4) map_of_SomeD [OF a] ok unfolding session_ok_def by blast
  have sent: "wasSent m s2 = (if kept then ?r else 0)"
    using s1(6) acked unfolding wasSent_def s2_def only_sent_def
    by (simp add: s1 map_of_eq_None_iff [symmetric] del: map_of_eq_None_iff)
  define s' where "s' = (if kept then queue_response response (oi_outerMsgId info) ?r s2 else s2)"
  have "hd (result @ [re_past e]) = hd result" "hd result = mtpc_gzip_packed \<Longrightarrow> response = re_ungzip e (tl result)"
    "hd result \<noteq> mtpc_gzip_packed \<Longrightarrow> response = result"
    using result by simp_all
  then have e: "deliver_result e m result info s = (HSuccess, s')"
    using result(3,4) inner s2 bind sent any r0
    by (auto simp: deliver_result_def Let_def inner_def s1_def s'_def)
  have "pending s' = requests_in (objects s) (toSend s) (fm_erase m (haveSent s))"
    by (simp add: s'_def queue_response_def pending_def s2_def s1)
  then show ?thesis
    using handled_pending_gone [OF ok a] unfolding e
    by (simp add: s'_def queue_response_def s2_def s1 kept_def)
qed

text \<open>
  C6. Answers reach the main thread, if the request is not too old. Let a nonempty result or error arrive
  for a request that is under way and whose message id stands for nothing else: it is not the id of
  the last ping or key binding, of a container, of a service request, or of a request noted as resent,
  acknowledged or answered. If the answer is packed and does not unpack, the connection is to be
  restarted, and if it is the error of a destroyed key, the temporary key is to be destroyed; in both
  cases nothing changes and the request stays pending. Otherwise the request is no longer pending, and
  the response, unpacked when it was packed, is queued for the main thread with its request id behind
  what is queued already, provided fewer than 400 requests with later message ids are noted as
  acknowledged or answered; if there are 400, the response is dropped: \<open>requestsAcked\<close> forgets all but
  the 400 largest ids before \<open>wasSent\<close> looks the request up, and nobody ever hears of it.
\<close>
theorem answer_delivered:
  assumes ok: "session_ok draw s" and a: "map_of (haveSent s) m = Some a" and m: "only_sent s m"
    and any: "rd_requestId (objects s a) \<noteq> kAnyId" and result: "result \<noteq> []"
    and response: "response = (if hd result = mtpc_gzip_packed then re_ungzip e (tl result) else result)"
  shows "if response = []
    then deliver_result e m result info s = (HRestartConnection, s) \<and> rd_requestId (objects s a) \<in> pending s
    else if hd response = mtpc_rpc_error \<and> re_destroyedKeyError e response
    then deliver_result e m result info s = (HDestroyTemporaryKey, s) \<and> rd_requestId (objects s a) \<in> pending s
    else fst (deliver_result e m result info s) = HSuccess
    \<and> rd_requestId (objects s a) \<notin> pending (snd (deliver_result e m result info s))
    \<and> haveReceived (snd (deliver_result e m result info s)) = haveReceived s
        @ (if length (filter (\<lambda>e. m < fst e) (ackedIds s)) < kIdsBufferSize
           then [\<lparr>rs_reply = response, rs_outerMsgId = oi_outerMsgId info, rs_requestId = rd_requestId (objects s a)\<rparr>]
           else [])"
proof -
  have "a \<in> snd ` set (haveSent s)" using map_of_SomeD [OF a] by force
  then have p: "rd_requestId (objects s a) \<in> pending s" by (auto simp: pending_def requests_in_def)
  have h: "hd (result @ [re_past e]) = hd result" using result by simp
  have u: "deliver_result e m result info s = (HRestartConnection, s)" if "response = []"
  proof -
    have "hd result = mtpc_gzip_packed" "re_ungzip e (tl result) = []"
      using result response that by (metis (full_types))+
    then show ?thesis by (simp add: deliver_result_def Let_def h)
  qed
  have d: "deliver_result e m result info s = (HDestroyTemporaryKey, s)"
    if "response \<noteq> []" "hd response = mtpc_rpc_error \<and> re_destroyedKeyError e response"
    using that response by (cases "hd result = mtpc_gzip_packed") (simp_all add: deliver_result_def Let_def h)
  show ?thesis using p u d handled_result [OF ok a m any result response] by simp
qed

definition ex_receive :: receive_env where
  "ex_receive = \<lparr>re_read = (\<lambda>_. TlOther), re_ungzip = tl, re_stateIds = (\<lambda>_. None), re_protocolError = [1],
     re_destroyedKeyError = (\<lambda>_. False), re_hasCallback = (\<lambda>_. True), re_bind = None, re_now = 9,
     re_regularDc = True, re_past = 0\<rparr>"

lemma ex_sent_ok: "session_ok ex_draw ex_sent"
proof -
  have c: "session_ok ex_draw ex_connected" "needing ex_connected"
    using session_run_ok [OF ex_run(1) ex_fresh new_session_ok] session_run_drawn [OF ex_run(2) ex_fresh] by (simp_all add: ex_values)
  show ?thesis using session_run_ok [OF ex_run(2) ex_fresh c] by (simp add: ex_values)
qed

theorem answer_delivered_witness:
  "haveReceived (snd (deliver_result ex_receive 4 [5, 6] \<lparr>oi_outerMsgId = 1, oi_serverSalt = 0, oi_badTime = False\<rparr> ex_sent))
     = [\<lparr>rs_reply = [5, 6], rs_outerMsgId = 1, rs_requestId = 7\<rparr>]"
proof -
  have v: "only_sent ex_sent 4" "rd_requestId (objects ex_sent 0) = 7" "haveReceived ex_sent = []" "ackedIds ex_sent = []"
    by code_simp+
  show ?thesis
    using answer_delivered [OF ex_sent_ok ex_values(5) v(1), of "[5, 6]" "[5, 6]" ex_receive
        "\<lparr>oi_outerMsgId = 1, oi_serverSalt = 0, oi_badTime = False\<rparr>"]
    by (simp add: v kAnyId_def mtpc_gzip_packed_def mtpc_rpc_error_def kIdsBufferSize_def)
qed

subsection \<open>Handling a message returns\<close>

text \<open>What a container holds is shorter than the container.\<close>

lemma container_items_shorter:
  "Item i ack ints \<in> set (container_items n xs) \<Longrightarrow> ints \<noteq> [] \<and> length ints < length xs"
proof (induction n xs rule: container_items.induct)
  case (2 n lo hi seqNo bytes m rest)
  define k where "k = nat (sint bytes) div 4"
  have "\<not> (bytes AND 3 \<noteq> 0 \<or> sint bytes < 4)" "isServerId (long_of lo hi)" "k \<le> Suc (length rest)"
    and i: "ints = take k (m # rest) \<or> Item i ack ints \<in> set (container_items n (drop k (m # rest)))"
    using 2(2) by (auto simp: Let_def k_def split: if_splits)
  then have k: "0 < k" by (auto simp: k_def)
  show ?case
  proof (cases "ints = take k (m # rest)")
    case True
    then show ?thesis using k by auto
  next
    case False
    then have "ints \<noteq> [] \<and> length ints < length (drop k (m # rest))"
      using 2 i \<open>\<not> (bytes AND 3 \<noteq> 0 \<or> sint bytes < 4)\<close> \<open>isServerId (long_of lo hi)\<close> \<open>k \<le> Suc (length rest)\<close>
      by (auto simp: Let_def k_def)
    then show ?thesis by auto
  qed
qed (auto simp: Let_def split: if_splits)

lemma loop_returns:
  assumes "\<And>i ack ints info s. Item i ack ints \<in> set xs \<Longrightarrow> go ints info s \<noteq> None"
  shows "container_loop go xs info s \<noteq> None"
  using assms
proof (induction xs arbitrary: info s)
  case (Cons x xs)
  have "go ints info s \<noteq> None" if "Item i ack ints \<in> set xs" for i ack ints info s
    using Cons.prems [of i ack ints info s] that by simp
  then have rest: "container_loop go xs info s \<noteq> None" for info s by (rule Cons.IH)
  show ?case
  proof (cases x)
    case (Item i ack ints)
    have "go ints info s \<noteq> None" for info s using Cons.prems [of i ack ints] Item by simp
    moreover obtain g t where t: "register i ack (need_ack ack i s) = (g, t)" by (metis surj_pair)
    ultimately obtain r u where "go ints info t = Some (r, u)" by fastforce
    then show ?thesis using rest t by (cases g) (simp_all add: Item)
  qed (simp split: option.split)
qed simp

lemma one_returns:
  assumes flat: "\<And>xs. re_ungzip e xs \<noteq> [] \<Longrightarrow> hd (re_ungzip e xs) \<notin> {mtpc_gzip_packed, mtpc_msg_container}"
  shows "ints \<noteq> [] \<Longrightarrow> Suc (length ints) \<le> depth \<Longrightarrow> handleOneReceived depth e ints info s \<noteq> None"
proof (induction depth arbitrary: ints info s)
  case (Suc depth)
  have d: "depth \<noteq> 0" using Suc.prems by (cases ints) auto
  then obtain d' where d': "depth = Suc d'" by (cases depth) auto
  show ?case
  proof (cases "hd ints = mtpc_gzip_packed")
    case True
    then show ?thesis using Suc.prems flat [of "tl ints"] by (auto simp: d' Let_def)
  next
    case packed: False
    show ?thesis
    proof (cases "hd ints = mtpc_msg_container")
      case True
      show ?thesis
      proof (cases "tl ints")
        case (Cons n rest)
        have "handleOneReceived depth e x info s \<noteq> None" if "Item i ack x \<in> set (container_items (unat n) rest)" for i ack x info s
        proof (rule Suc.IH)
          have "length ints = Suc (Suc (length rest))" using Cons Suc.prems(1) by (cases ints) auto
          then show "x \<noteq> []" "Suc (length x) \<le> depth" using container_items_shorter [OF that] Suc.prems(2) by simp_all
        qed
        then have "container_loop (handleOneReceived depth e) (container_items (unat n) rest) info s \<noteq> None"
          by (rule loop_returns)
        then show ?thesis using Suc.prems(1) packed True Cons by simp
      qed (use Suc.prems packed True in simp)
    qed (use Suc.prems packed in simp)
  qed
qed simp

text \<open>
  C16. Handling a message ends. When what is unpacked is neither packed again nor a container, a
  recursion as deep as the message has ints, and one more, is enough for every message that is not
  empty, whatever it holds and however its containers are nested: \<open>handleOneReceived\<close> returns, and no
  assertion of it fails. An empty message fails the assertion at its start, whatever the depth.
\<close>
theorem receive_returns:
  assumes "\<forall>xs. re_ungzip e xs \<noteq> [] \<longrightarrow> hd (re_ungzip e xs) \<notin> {mtpc_gzip_packed, mtpc_msg_container}"
    and "length ints < depth"
  shows "(\<exists>r s'. handleOneReceived depth e ints info s = Some (r, s')) \<longleftrightarrow> ints \<noteq> []"
proof (cases "ints = []")
  case True
  then show ?thesis by (cases depth) simp_all
next
  case False
  then have "handleOneReceived depth e ints info s \<noteq> None" using assms by (intro one_returns) simp_all
  then show ?thesis using False by auto
qed

theorem receive_returns_witness:
  "\<exists>r s'. handleOneReceived 4 (ex_receive\<lparr>re_ungzip := \<lambda>xs. [1]\<rparr>) [mtpc_gzip_packed, 2, 3]
     \<lparr>oi_outerMsgId = 1, oi_serverSalt = 0, oi_badTime = False\<rparr> ex_sent = Some (r, s')"
  using receive_returns [of "ex_receive\<lparr>re_ungzip := \<lambda>xs. [1]\<rparr>" "[mtpc_gzip_packed, 2, 3]" 4]
  by (simp add: mtpc_gzip_packed_def mtpc_msg_container_def)

end
