(* ===== verification/Data_Stream.thy ===== *)
theory Data_Stream
  imports Tcp_Framing
begin

text \<open>
  \<open>QDataStream\<close> over a byte array, with the format Qt documents for version \<open>Qt_5_1\<close> (integers big
  endian, \<open>QByteArray\<close> and \<open>QString\<close> after their length in bytes, a length of \<open>0xFFFFFFFF\<close> for a null
  one, a string of an odd number of bytes being corrupt), and the operators of
  \<open>storage/serialize_common.h\<close>. Reading past the end gives zero and sets the status, which stays. The locale \<open>codec\<close> is the contract between a writer and its reader; every
  pair of operators is an interpretation of it, and what is written with them can be read one after
  the other.
\<close>

record in_stream =
  st_rest :: "byte list"
  st_ok :: bool

definition reading :: "byte list \<Rightarrow> in_stream" where
  "reading bs = \<lparr>st_rest = bs, st_ok = True\<rparr>"

definition atEnd :: "in_stream \<Rightarrow> bool" where
  "atEnd s \<longleftrightarrow> st_rest s = []"

lemma reading_fields [simp]: "st_rest (reading bs) = bs" "st_ok (reading bs)" "atEnd (reading bs) \<longleftrightarrow> bs = []"
  by (simp_all add: reading_def atEnd_def)

subsection \<open>The contract\<close>

locale codec =
  fixes put :: "'a \<Rightarrow> byte list" and get :: "in_stream \<Rightarrow> 'a \<times> in_stream" and fits :: "'a \<Rightarrow> bool"
  assumes get_put: "fits x \<Longrightarrow> get (reading (put x @ rest)) = (x, reading rest)"
begin

text \<open>No value is written as the beginning of another one.\<close>

lemma put_prefix_free: "fits x \<Longrightarrow> fits y \<Longrightarrow> put x @ r = put y @ r' \<Longrightarrow> x = y \<and> r = r'"
  using get_put [of x r] get_put [of y r'] by (simp add: reading_def)

lemma get_put_end: "fits x \<Longrightarrow> get (reading (put x)) = (x, reading [])"
  using get_put [of x "[]"] by simp

end

subsection \<open>Integers\<close>

definition readRawData :: "nat \<Rightarrow> in_stream \<Rightarrow> byte list \<times> in_stream" where
  "readRawData n s = (take n (st_rest s), \<lparr>st_rest = drop n (st_rest s), st_ok = st_ok s \<and> n \<le> length (st_rest s)\<rparr>)"

lemma readRawData_reading [simp]: "n \<le> length bs \<Longrightarrow> readRawData n (reading bs) = (take n bs, reading (drop n bs))"
  by (simp add: readRawData_def reading_def)

definition put_uint32 :: "32 word \<Rightarrow> byte list" where
  "put_uint32 w = rev (prime_bytes w)"

definition get_uint32 :: "in_stream \<Rightarrow> 32 word \<times> in_stream" where
  "get_uint32 s =
     (let (bs, s) = readRawData 4 s
      in (case bs of [a, b, c, d] \<Rightarrow> prime_of d c b a | _ \<Rightarrow> 0, s))"

lemma length_put_uint32 [simp]: "length (put_uint32 w) = 4"
  by (simp add: put_uint32_def prime_bytes_def)

interpretation uint32: codec put_uint32 get_uint32 "\<lambda>_. True"
proof
  fix w rest
  show "get_uint32 (reading (put_uint32 w @ rest)) = (w, reading rest)"
    by (simp add: get_uint32_def put_uint32_def prime_bytes_def byte_prime)
qed

text \<open>\<open>qint32\<close>; an \<open>int\<close> outside of its range is cut.\<close>

definition put_int32 :: "int \<Rightarrow> byte list" where
  "put_int32 x = put_uint32 (word_of_int x)"

definition get_int32 :: "in_stream \<Rightarrow> int \<times> in_stream" where
  "get_int32 s = (let (w, s) = get_uint32 s in (sint w, s))"

definition is_int32 :: "int \<Rightarrow> bool" where
  "is_int32 x \<longleftrightarrow> - (2 ^ 31) \<le> x \<and> x < 2 ^ 31"

lemma sint_of_int32 [simp]: "is_int32 x \<Longrightarrow> sint (word_of_int x :: 32 word) = x"
  by (simp add: is_int32_def signed_of_int signed_take_bit_int_eq_self)

lemma length_put_int32 [simp]: "length (put_int32 x) = 4"
  by (simp add: put_int32_def)

interpretation int32: codec put_int32 get_int32 is_int32
  by unfold_locales (simp add: get_int32_def put_int32_def uint32.get_put)

definition put_uint64 :: "64 word \<Rightarrow> byte list" where
  "put_uint64 x = put_uint32 (ucast (drop_bit 32 x)) @ put_uint32 (ucast x)"

definition get_uint64 :: "in_stream \<Rightarrow> 64 word \<times> in_stream" where
  "get_uint64 s =
     (let (bs, s) = readRawData 8 s
      in (if length bs < 8 then 0
          else push_bit 32 (ucast (fst (get_uint32 (reading bs)))) OR ucast (fst (get_uint32 (reading (drop 4 bs)))), s))"

lemma word_halves: "push_bit 32 (ucast (ucast (drop_bit 32 x) :: 32 word)) OR ucast (ucast x :: 32 word) = (x :: 64 word)"
by (rule bit_word_eqI) (auto simp: bit_or_iff bit_push_bit_iff bit_ucast_iff bit_drop_bit_eq)

interpretation uint64: codec put_uint64 get_uint64 "\<lambda>_. True"
proof
  fix x rest
  have "fst (get_uint32 (reading (put_uint64 x))) = ucast (drop_bit 32 x)"
    by (simp add: put_uint64_def uint32.get_put)
  moreover have "fst (get_uint32 (reading (drop 4 (put_uint64 x)))) = ucast x"
    by (simp add: put_uint64_def uint32.get_put_end)
  ultimately show "get_uint64 (reading (put_uint64 x @ rest)) = (x, reading rest)"
    using word_halves [of x] by (simp add: get_uint64_def put_uint64_def)
qed

subsection \<open>Bytes and strings\<close>

text \<open>A length counted with \<open>quint32\<close> that Qt's containers can have.\<close>

definition short :: "'a list \<Rightarrow> bool" where
  "short bs \<longleftrightarrow> length bs < 2 ^ 31"

lemma unat_short [simp]: "short bs \<Longrightarrow> unat (word_of_nat (length bs) :: 32 word) = length bs"
  by (simp add: short_def unat_of_nat take_bit_nat_eq_self)

lemma short_not_null [simp]: "short bs \<Longrightarrow> (word_of_nat (length bs) :: 32 word) \<noteq> 0xFFFFFFFF"
proof
  assume "short bs" "(word_of_nat (length bs) :: 32 word) = 0xFFFFFFFF"
  then have "length bs = unat (0xFFFFFFFF :: 32 word)" using unat_short by metis
  with \<open>short bs\<close> show False by (simp add: short_def)
qed

text \<open>
  \<open>Serialize::bytes\<close>. The reader takes blocks of a megabyte, one after the other until \<open>len\<close> bytes
  are there; a block that is cut short clears what was read.
\<close>

definition put_bytes :: "byte list \<Rightarrow> byte list" where
  "put_bytes bs = (if bs = [] then put_uint32 0xFFFFFFFF else put_uint32 (word_of_nat (length bs)) @ bs)"

definition kStep :: nat where "kStep = 1024 * 1024"

function read_blocks :: "nat \<Rightarrow> byte list \<Rightarrow> in_stream \<Rightarrow> byte list \<times> in_stream" where
  "read_blocks len bs s =
     (if length bs \<ge> len then (bs, s)
      else let blockSize = min kStep (len - length bs);
               (block, s) = readRawData blockSize s
           in if length block \<noteq> blockSize then ([], s\<lparr>st_ok := False\<rparr>)
              else read_blocks len (bs @ block) s)"
  by pat_completeness auto
termination
  by (relation "measure (\<lambda>(len, bs, s). len - length bs)") (auto simp: kStep_def)

declare read_blocks.simps [simp del]

definition get_bytes :: "in_stream \<Rightarrow> byte list \<times> in_stream" where
  "get_bytes s =
     (let (len, s) = get_uint32 s
      in if \<not> st_ok s \<or> len = 0xFFFFFFFF then ([], s) else read_blocks (unat len) [] s)"

lemma read_blocks_reading:
  "length bs + length xs = len \<Longrightarrow> read_blocks len bs (reading (xs @ rest)) = (bs @ xs, reading rest)"
proof (induction len bs "reading (xs @ rest)" arbitrary: xs rule: read_blocks.induct)
  case (1 len bs)
  show ?case
  proof (cases "length bs \<ge> len")
    case True
    then have "xs = []" using "1.prems" by (cases xs) auto
    then show ?thesis using True by (subst read_blocks.simps) simp
  next
    case False
    define n where "n = min kStep (len - length bs)"
    have n: "n \<le> length xs" using "1.prems" unfolding n_def by simp
    have r: "readRawData n (reading (xs @ rest)) = (take n xs, reading (drop n xs @ rest))"
      using n by simp
    have "read_blocks len (bs @ take n xs) (reading (drop n xs @ rest)) = ((bs @ take n xs) @ drop n xs, reading rest)"
      using "1.hyps" [OF False refl r [unfolded n_def, symmetric] refl] n "1.prems"
      unfolding n_def by simp
    then show ?thesis using False n r by (subst read_blocks.simps) (simp add: Let_def n_def)
  qed
qed

interpretation bytes: codec put_bytes get_bytes short
proof
  fix bs rest :: "byte list"
  assume "short bs"
  then show "get_bytes (reading (put_bytes bs @ rest)) = (bs, reading rest)"
    using read_blocks_reading [of "[]" bs "length bs" rest]
    by (cases "bs = []") (simp_all add: get_bytes_def put_bytes_def uint32.get_put)
qed

text \<open>\<open>QByteArray\<close> and \<open>QString\<close>; \<open>None\<close> is the null one.\<close>

definition put_bytearray :: "byte list option \<Rightarrow> byte list" where
  "put_bytearray b = (case b of None \<Rightarrow> put_uint32 0xFFFFFFFF | Some bs \<Rightarrow> put_uint32 (word_of_nat (length bs)) @ bs)"

definition get_bytearray :: "in_stream \<Rightarrow> byte list option \<times> in_stream" where
  "get_bytearray s =
     (let (len, s) = get_uint32 s
      in if \<not> st_ok s \<or> len = 0xFFFFFFFF then (None, s)
         else let (bs, s) = readRawData (unat len) s in (if st_ok s then Some bs else None, s))"

definition fits_bytearray :: "byte list option \<Rightarrow> bool" where
  "fits_bytearray b = (case b of None \<Rightarrow> True | Some bs \<Rightarrow> short bs)"

interpretation bytearray: codec put_bytearray get_bytearray fits_bytearray
proof
  fix b rest
  assume "fits_bytearray b"
  then show "get_bytearray (reading (put_bytearray b @ rest)) = (b, reading rest)"
    by (cases b) (simp_all add: get_bytearray_def put_bytearray_def fits_bytearray_def uint32.get_put)
qed

type_synonym qstring = "16 word list option"

fun units_bytes :: "16 word list \<Rightarrow> byte list" where
  "units_bytes [] = []"
| "units_bytes (u # us) = ucast (drop_bit 8 u) # ucast u # units_bytes us"

fun bytes_units :: "byte list \<Rightarrow> 16 word list" where
  "bytes_units (a # b # bs) = (push_bit 8 (ucast a) OR ucast b) # bytes_units bs"
| "bytes_units _ = []"

lemma bytes_units_bytes [simp]: "bytes_units (units_bytes us) = us"
proof (induction us)
  case (Cons u us)
  have "push_bit 8 (ucast (ucast (drop_bit 8 u) :: byte)) OR ucast (ucast u :: byte) = u"
    by (rule bit_word_eqI) (auto simp: bit_or_iff bit_push_bit_iff bit_ucast_iff bit_drop_bit_eq)
  with Cons show ?case by simp
qed simp

definition put_string :: "qstring \<Rightarrow> byte list" where
  "put_string q = put_bytearray (map_option units_bytes q)"

definition get_string :: "in_stream \<Rightarrow> qstring \<times> in_stream" where
  "get_string s =
     (let (len, s) = get_uint32 s
      in if \<not> st_ok s \<or> len = 0xFFFFFFFF then (None, s)
         else if odd (unat len) then (None, s\<lparr>st_ok := False\<rparr>)
         else let (bs, s) = readRawData (unat len) s in (if st_ok s then Some (bytes_units bs) else None, s))"

lemma even_units_bytes [simp]: "even (length (units_bytes us))"
  by (induction us) simp_all

definition fits_string :: "qstring \<Rightarrow> bool" where
  "fits_string q = fits_bytearray (map_option units_bytes q)"

interpretation qstrings: codec put_string get_string fits_string
proof
  fix q rest
  assume "fits_string q"
  then show "get_string (reading (put_string q @ rest)) = (q, reading rest)"
    by (cases q) (simp_all add: get_string_def put_string_def put_bytearray_def fits_string_def fits_bytearray_def uint32.get_put)
qed

end
