(* ===== verification/Dc_Keys.thy ===== *)
theory Dc_Keys
  imports Flat_Map "HOL-Library.Word"
begin

text \<open>
  The keys of a data centre (\<open>Dcenter\<close>, \<open>mtproto/details/mtproto_dcenter.{h,cpp}\<close>), which all
  sessions of the data centre share, and the part of \<open>Session\<close> (\<open>mtproto/session.cpp\<close>) that creates
  them: one session at a time may create a temporary key. Every operation holds the lock of the
  \<open>Dcenter\<close> or is one atomic exchange, so a run is a sequence of operations of any of the sessions. A
  shared pointer to a key is a number, \<open>None\<close> the null pointer; pointers are compared, not keys. A
  failed \<open>Expects\<close> is \<open>None\<close>.
\<close>

datatype dc_type = DcRegular | DcTemporary | DcMediaCluster | DcCdn

datatype temporary_type = TempRegular | TempMediaCluster

datatype creating_type = CreatingNone | CreatingPersistent | CreatingTemporaryRegular | CreatingTemporaryMediaCluster

type_synonym auth_key = nat

record dcenter =
  dc_temporaryKeys :: "temporary_type \<Rightarrow> auth_key option"
  dc_persistentKey :: "auth_key option"
  dc_connectionInited :: bool
  dc_creatingKeys :: "temporary_type \<Rightarrow> bool"

definition new_Dcenter :: "auth_key option \<Rightarrow> dcenter" where
  "new_Dcenter key = \<lparr>dc_temporaryKeys = (\<lambda>i. None), dc_persistentKey = key, dc_connectionInited = False,
     dc_creatingKeys = (\<lambda>i. False)\<rparr>"

definition TemporaryKeyTypeByDcType :: "dc_type \<Rightarrow> temporary_type" where
  "TemporaryKeyTypeByDcType type = (if type = DcMediaCluster then TempMediaCluster else TempRegular)"

text \<open>The two arrays are indexed by the kind of temporary key; \<open>Unexpected\<close> for \<open>None\<close>.\<close>

fun IndexByType :: "creating_type \<Rightarrow> temporary_type option" where
  "IndexByType CreatingPersistent = Some TempRegular"
| "IndexByType CreatingTemporaryRegular = Some TempRegular"
| "IndexByType CreatingTemporaryMediaCluster = Some TempMediaCluster"
| "IndexByType CreatingNone = None"

definition getTemporaryKey :: "temporary_type \<Rightarrow> dcenter \<Rightarrow> auth_key option" where
  "getTemporaryKey type d = dc_temporaryKeys d type"

definition getPersistentKey :: "dcenter \<Rightarrow> auth_key option" where
  "getPersistentKey d = dc_persistentKey d"

definition has_id :: "(auth_key \<Rightarrow> 64 word) \<Rightarrow> 64 word \<Rightarrow> auth_key option \<Rightarrow> bool" where
  "has_id keyIdOf keyId key = (case key of None \<Rightarrow> False | Some k \<Rightarrow> keyIdOf k = keyId)"

text \<open>The first of the two keys with the id.\<close>

definition dc_destroyTemporaryKey :: "(auth_key \<Rightarrow> 64 word) \<Rightarrow> 64 word \<Rightarrow> dcenter \<Rightarrow> bool \<times> dcenter" where
  "dc_destroyTemporaryKey keyIdOf keyId d =
     (if has_id keyIdOf keyId (dc_temporaryKeys d TempRegular)
      then (True, d\<lparr>dc_temporaryKeys := (dc_temporaryKeys d)(TempRegular := None), dc_connectionInited := False\<rparr>)
      else if has_id keyIdOf keyId (dc_temporaryKeys d TempMediaCluster)
      then (True, d\<lparr>dc_temporaryKeys := (dc_temporaryKeys d)(TempMediaCluster := None), dc_connectionInited := False\<rparr>)
      else (False, d))"

definition destroyConfirmedForgottenKey :: "(auth_key \<Rightarrow> 64 word) \<Rightarrow> 64 word \<Rightarrow> dcenter \<Rightarrow> bool \<times> dcenter" where
  "destroyConfirmedForgottenKey keyIdOf keyId d =
     (if \<not> has_id keyIdOf keyId (dc_persistentKey d) then (False, d)
      else (True, d\<lparr>dc_temporaryKeys := (\<lambda>i. None), dc_persistentKey := None, dc_connectionInited := False\<rparr>))"

definition setConnectionInited :: "bool \<Rightarrow> dcenter \<Rightarrow> dcenter" where
  "setConnectionInited inited d = d\<lparr>dc_connectionInited := inited\<rparr>"

text \<open>\<open>compare_exchange_strong(false, true)\<close>\<close>

definition exchange :: "temporary_type \<Rightarrow> dcenter \<Rightarrow> bool \<times> dcenter" where
  "exchange i d = (if dc_creatingKeys d i then (False, d)
     else (True, d\<lparr>dc_creatingKeys := (dc_creatingKeys d)(i := True)\<rparr>))"

definition dc_acquireKeyCreation :: "dc_type \<Rightarrow> dcenter \<Rightarrow> creating_type \<times> dcenter" where
  "dc_acquireKeyCreation type d =
     (let keyType = TemporaryKeyTypeByDcType type
      in if dc_temporaryKeys d keyType \<noteq> None then (CreatingNone, d)
         else if keyType = TempMediaCluster \<and> dc_temporaryKeys d TempRegular \<noteq> None
         then let (got, d) = exchange keyType d in (if got then CreatingTemporaryMediaCluster else CreatingNone, d)
         else let (got, d) = exchange TempRegular d
              in (if \<not> got then CreatingNone
                  else if type \<noteq> DcCdn \<and> dc_persistentKey d = None then CreatingPersistent
                  else CreatingTemporaryRegular, d))"

definition dc_releaseKeyCreationOnDone :: "creating_type \<Rightarrow> auth_key option \<Rightarrow> auth_key option \<Rightarrow> dcenter
    \<Rightarrow> (bool \<times> dcenter) option" where
  "dc_releaseKeyCreationOnDone type temporaryKey persistentKeyUsedForBind d =
     (case IndexByType type of
        None \<Rightarrow> None
      | Some i \<Rightarrow>
          (if \<not> dc_creatingKeys d i \<or> dc_temporaryKeys d i \<noteq> None \<or> temporaryKey = None then None
           else if type \<noteq> CreatingPersistent \<and> dc_persistentKey d \<noteq> persistentKeyUsedForBind then Some (False, d)
           else let d = (if type = CreatingPersistent then d\<lparr>dc_persistentKey := persistentKeyUsedForBind\<rparr> else d)
                in Some (True, d\<lparr>dc_temporaryKeys := (dc_temporaryKeys d)(i := temporaryKey),
                             dc_creatingKeys := (dc_creatingKeys d)(i := False), dc_connectionInited := False\<rparr>)))"

definition dc_releaseKeyCreationOnFail :: "creating_type \<Rightarrow> dcenter \<Rightarrow> dcenter option" where
  "dc_releaseKeyCreationOnFail type d =
     (case IndexByType type of
        None \<Rightarrow> None
      | Some i \<Rightarrow>
          (if \<not> dc_creatingKeys d i \<or> dc_temporaryKeys d i \<noteq> None then None
           else Some (d\<lparr>dc_creatingKeys := (dc_creatingKeys d)(i := False)\<rparr>)))"

subsection \<open>The sessions\<close>

text \<open>\<open>_myKeyCreation\<close> of every session, and the type each asked with.\<close>

record key_world =
  kw_dc :: dcenter
  kw_mine :: "nat \<Rightarrow> creating_type"
  kw_type :: "nat \<Rightarrow> dc_type"

definition new_key_world :: "auth_key option \<Rightarrow> key_world" where
  "new_key_world key = \<lparr>kw_dc = new_Dcenter key, kw_mine = (\<lambda>i. CreatingNone), kw_type = (\<lambda>i. DcRegular)\<rparr>"

definition acquireKeyCreation :: "nat \<Rightarrow> dc_type \<Rightarrow> key_world \<Rightarrow> (creating_type \<times> key_world) option" where
  "acquireKeyCreation i type w =
     (if kw_mine w i \<noteq> CreatingNone then None
      else let (c, d) = dc_acquireKeyCreation type (kw_dc w)
           in Some (c, w\<lparr>kw_dc := d, kw_mine := (kw_mine w)(i := c), kw_type := (kw_type w)(i := type)\<rparr>))"

definition releaseGenericKeyCreationOnDone :: "nat \<Rightarrow> auth_key option \<Rightarrow> auth_key option \<Rightarrow> key_world
    \<Rightarrow> (bool \<times> key_world) option" where
  "releaseGenericKeyCreationOnDone i temporaryKey persistentKeyUsedForBind w =
     (case dc_releaseKeyCreationOnDone (kw_mine w i) temporaryKey persistentKeyUsedForBind (kw_dc w) of
        None \<Rightarrow> None
      | Some (done_ok, d) \<Rightarrow> Some (done_ok, w\<lparr>kw_dc := d, kw_mine := (kw_mine w)(i := CreatingNone)\<rparr>))"

definition releaseKeyCreationOnDone :: "nat \<Rightarrow> auth_key option \<Rightarrow> auth_key option \<Rightarrow> key_world
    \<Rightarrow> (bool \<times> key_world) option" where
  "releaseKeyCreationOnDone i temporaryKey persistentKeyUsedForBind w =
     (if kw_mine w i = CreatingNone \<or> persistentKeyUsedForBind = None then None
      else releaseGenericKeyCreationOnDone i temporaryKey persistentKeyUsedForBind w)"

definition releaseCdnKeyCreationOnDone :: "nat \<Rightarrow> auth_key option \<Rightarrow> key_world \<Rightarrow> (bool \<times> key_world) option" where
  "releaseCdnKeyCreationOnDone i temporaryKey w =
     (if kw_mine w i \<noteq> CreatingTemporaryRegular then None
      else releaseGenericKeyCreationOnDone i temporaryKey None w)"

definition releaseKeyCreationOnFail :: "nat \<Rightarrow> key_world \<Rightarrow> key_world option" where
  "releaseKeyCreationOnFail i w =
     (if kw_mine w i = CreatingNone then None
      else map_option (\<lambda>d. w\<lparr>kw_dc := d, kw_mine := (kw_mine w)(i := CreatingNone)\<rparr>)
             (dc_releaseKeyCreationOnFail (kw_mine w i) (kw_dc w)))"

subsection \<open>Runs\<close>

text \<open>
  A session asks only while it has no key creator, which it has exactly while it may create a key; it
  releases what it has. The creator of a CDN binds no persistent key.
\<close>

datatype key_event =
    Acquire nat dc_type
  | BindDone nat auth_key auth_key
  | CdnDone nat auth_key
  | CreationFailed nat
  | TemporaryDestroyed "64 word"
  | PersistentDestroyed "64 word"
  | Inited

fun key_allowed :: "key_event \<Rightarrow> key_world \<Rightarrow> bool" where
  "key_allowed (Acquire i type) w = (kw_mine w i = CreatingNone)"
| "key_allowed (BindDone i temp pers) w = (kw_mine w i \<noteq> CreatingNone \<and> kw_type w i \<noteq> DcCdn)"
| "key_allowed (CdnDone i temp) w = (kw_mine w i \<noteq> CreatingNone \<and> kw_type w i = DcCdn)"
| "key_allowed (CreationFailed i) w = (kw_mine w i \<noteq> CreatingNone)"
| "key_allowed _ w = True"

fun key_do :: "(auth_key \<Rightarrow> 64 word) \<Rightarrow> key_event \<Rightarrow> key_world \<Rightarrow> key_world option" where
  "key_do ids (Acquire i type) w = map_option snd (acquireKeyCreation i type w)"
| "key_do ids (BindDone i temp pers) w = map_option snd (releaseKeyCreationOnDone i (Some temp) (Some pers) w)"
| "key_do ids (CdnDone i temp) w = map_option snd (releaseCdnKeyCreationOnDone i (Some temp) w)"
| "key_do ids (CreationFailed i) w = releaseKeyCreationOnFail i w"
| "key_do ids (TemporaryDestroyed k) w = Some (w\<lparr>kw_dc := snd (dc_destroyTemporaryKey ids k (kw_dc w))\<rparr>)"
| "key_do ids (PersistentDestroyed k) w = Some (w\<lparr>kw_dc := snd (destroyConfirmedForgottenKey ids k (kw_dc w))\<rparr>)"
| "key_do ids Inited w = Some (w\<lparr>kw_dc := setConnectionInited True (kw_dc w)\<rparr>)"

inductive key_run :: "(auth_key \<Rightarrow> 64 word) \<Rightarrow> key_world \<Rightarrow> key_world \<Rightarrow> bool" for ids w where
  start: "key_run ids w w"
| event: "key_run ids w u \<Longrightarrow> key_allowed ev u \<Longrightarrow> key_do ids ev u = Some v \<Longrightarrow> key_run ids w v"

subsection \<open>Exclusion\<close>

definition holds :: "key_world \<Rightarrow> nat \<Rightarrow> temporary_type \<Rightarrow> bool" where
  "holds w i t \<longleftrightarrow> IndexByType (kw_mine w i) = Some t"

definition key_inv :: "key_world \<Rightarrow> bool" where
  "key_inv w \<longleftrightarrow>
     (\<forall>i t. holds w i t \<longrightarrow> dc_creatingKeys (kw_dc w) t \<and> dc_temporaryKeys (kw_dc w) t = None)
     \<and> (\<forall>i j t. holds w i t \<longrightarrow> holds w j t \<longrightarrow> i = j)
     \<and> (\<forall>i. kw_mine w i \<noteq> CreatingNone \<longrightarrow> kw_type w i = DcCdn \<longrightarrow> kw_mine w i = CreatingTemporaryRegular)"

lemma IndexByType_none [simp]: "IndexByType c = None \<longleftrightarrow> c = CreatingNone"
  by (cases c) simp_all

lemma key_invD:
  assumes "key_inv w" "holds w i t"
  shows "dc_creatingKeys (kw_dc w) t" "dc_temporaryKeys (kw_dc w) t = None" "holds w j t \<Longrightarrow> j = i"
  using assms unfolding key_inv_def by blast+

text \<open>What each operation does to the slots.\<close>

lemma acquire_cases:
  "dc_acquireKeyCreation type d = (CreatingNone, d)
    \<or> (\<exists>c t. dc_acquireKeyCreation type d = (c, d\<lparr>dc_creatingKeys := (dc_creatingKeys d)(t := True)\<rparr>)
        \<and> IndexByType c = Some t \<and> \<not> dc_creatingKeys d t \<and> dc_temporaryKeys d t = None
        \<and> (type = DcCdn \<longrightarrow> c = CreatingTemporaryRegular))"
  by (cases type; cases "dc_temporaryKeys d TempRegular"; cases "dc_temporaryKeys d TempMediaCluster")
    (auto simp: dc_acquireKeyCreation_def exchange_def TemporaryKeyTypeByDcType_def Let_def)

lemma acquire_inv:
  assumes "key_inv w" "acquireKeyCreation i type w = Some (c, v)"
  shows "key_inv v"
proof -
  have i: "kw_mine w i = CreatingNone" using assms(2) by (simp add: acquireKeyCreation_def split: if_splits)
  from acquire_cases [of type "kw_dc w"] show ?thesis
  proof (elim disjE exE conjE)
    assume "dc_acquireKeyCreation type (kw_dc w) = (CreatingNone, kw_dc w)"
    then have "v = w\<lparr>kw_mine := (kw_mine w)(i := CreatingNone), kw_type := (kw_type w)(i := type)\<rparr>"
      using assms(2) i by (simp add: acquireKeyCreation_def)
    then show ?thesis using assms(1) i by (simp add: key_inv_def holds_def)
  next
    fix c' t
    assume a: "dc_acquireKeyCreation type (kw_dc w) = (c', (kw_dc w)\<lparr>dc_creatingKeys := (dc_creatingKeys (kw_dc w))(t := True)\<rparr>)"
      "IndexByType c' = Some t" "\<not> dc_creatingKeys (kw_dc w) t" "dc_temporaryKeys (kw_dc w) t = None"
      "type = DcCdn \<longrightarrow> c' = CreatingTemporaryRegular"
    have v: "v = w\<lparr>kw_dc := (kw_dc w)\<lparr>dc_creatingKeys := (dc_creatingKeys (kw_dc w))(t := True)\<rparr>,
        kw_mine := (kw_mine w)(i := c'), kw_type := (kw_type w)(i := type)\<rparr>"
      using assms(2) i a(1) by (auto simp: acquireKeyCreation_def)
    have none: "\<not> holds w j t" for j using key_invD(1) [OF assms(1)] a(3) by blast
    then show ?thesis using assms(1) a(2,4,5) unfolding v by (auto simp: key_inv_def holds_def)
  qed
qed

lemma key_inv_fewer:
  assumes "key_inv w" "\<And>j. kw_mine v j = kw_mine w j \<or> kw_mine v j = CreatingNone" "kw_type v = kw_type w"
    and "\<And>j t. holds v j t \<Longrightarrow> dc_creatingKeys (kw_dc v) t = dc_creatingKeys (kw_dc w) t
      \<and> (dc_temporaryKeys (kw_dc v) t = dc_temporaryKeys (kw_dc w) t \<or> dc_temporaryKeys (kw_dc v) t = None)"
  shows "key_inv v"
proof -
  have h: "holds w j t" if "holds v j t" for j t using that assms(2) [of j] by (auto simp: holds_def)
  then show ?thesis
    using assms(1,3) assms(2) assms(4) key_invD [OF assms(1)] unfolding key_inv_def by metis
qed

lemma done_ok:
  assumes "key_inv w" "kw_mine w i \<noteq> CreatingNone"
  obtains b v where "releaseGenericKeyCreationOnDone i (Some temp) pers w = Some (b, v)" "key_inv v"
    "b \<longleftrightarrow> kw_mine w i = CreatingPersistent \<or> dc_persistentKey (kw_dc w) = pers"
    "kw_mine v = (kw_mine w)(i := CreatingNone)" "\<not> b \<Longrightarrow> kw_dc v = kw_dc w"
proof -
  obtain t where t: "IndexByType (kw_mine w i) = Some t" using assms(2) by (cases "IndexByType (kw_mine w i)") auto
  then have h: "holds w i t" by (simp add: holds_def)
  note d = key_invD [OF assms(1) h]
  define b where "b = (kw_mine w i = CreatingPersistent \<or> dc_persistentKey (kw_dc w) = pers)"
  define dc where "dc = (if b then (if kw_mine w i = CreatingPersistent then (kw_dc w)\<lparr>dc_persistentKey := pers\<rparr> else kw_dc w)
      \<lparr>dc_temporaryKeys := (dc_temporaryKeys (kw_dc w))(t := Some temp),
       dc_creatingKeys := (dc_creatingKeys (kw_dc w))(t := False), dc_connectionInited := False\<rparr> else kw_dc w)"
  define v where "v = w\<lparr>kw_dc := dc, kw_mine := (kw_mine w)(i := CreatingNone)\<rparr>"
  have e: "releaseGenericKeyCreationOnDone i (Some temp) pers w = Some (b, v)"
    using d(1,2) by (simp add: releaseGenericKeyCreationOnDone_def dc_releaseKeyCreationOnDone_def t b_def v_def dc_def Let_def)
  have "key_inv v"
  proof (rule key_inv_fewer [OF assms(1)])
    fix j t'
    assume j: "holds v j t'"
    then have "holds w j t'" "j \<noteq> i" by (auto simp: holds_def v_def split: if_splits)
    then have "t' \<noteq> t" using d(3) by blast
    then show "dc_creatingKeys (kw_dc v) t' = dc_creatingKeys (kw_dc w) t'
        \<and> (dc_temporaryKeys (kw_dc v) t' = dc_temporaryKeys (kw_dc w) t' \<or> dc_temporaryKeys (kw_dc v) t' = None)"
      by (simp add: v_def dc_def)
  qed (simp_all add: v_def)
  then show ?thesis by (rule that [OF e]) (simp_all add: b_def v_def dc_def)
qed

lemma fail_ok:
  assumes "key_inv w" "kw_mine w i \<noteq> CreatingNone"
  obtains v where "releaseKeyCreationOnFail i w = Some v" "key_inv v"
proof -
  obtain t where t: "IndexByType (kw_mine w i) = Some t" using assms(2) by (cases "IndexByType (kw_mine w i)") auto
  then have h: "holds w i t" by (simp add: holds_def)
  note d = key_invD [OF assms(1) h]
  define v where "v = w\<lparr>kw_dc := (kw_dc w)\<lparr>dc_creatingKeys := (dc_creatingKeys (kw_dc w))(t := False)\<rparr>,
      kw_mine := (kw_mine w)(i := CreatingNone)\<rparr>"
  have e: "releaseKeyCreationOnFail i w = Some v"
    using d(1,2) assms(2) by (simp add: releaseKeyCreationOnFail_def dc_releaseKeyCreationOnFail_def t v_def)
  have "key_inv v"
  proof (rule key_inv_fewer [OF assms(1)])
    fix j t'
    assume j: "holds v j t'"
    then have "holds w j t'" "j \<noteq> i" by (auto simp: holds_def v_def split: if_splits)
    then have "t' \<noteq> t" using d(3) by blast
    then show "dc_creatingKeys (kw_dc v) t' = dc_creatingKeys (kw_dc w) t'
        \<and> (dc_temporaryKeys (kw_dc v) t' = dc_temporaryKeys (kw_dc w) t' \<or> dc_temporaryKeys (kw_dc v) t' = None)"
      by (simp add: v_def)
  qed (simp_all add: v_def)
  with e show ?thesis by (rule that)
qed

lemma destroy_facts:
  "dc_creatingKeys (snd (dc_destroyTemporaryKey ids k d)) = dc_creatingKeys d"
  "dc_creatingKeys (snd (destroyConfirmedForgottenKey ids k d)) = dc_creatingKeys d"
  "dc_temporaryKeys (snd (dc_destroyTemporaryKey ids k d)) t \<in> {dc_temporaryKeys d t, None}"
  "dc_temporaryKeys (snd (destroyConfirmedForgottenKey ids k d)) t \<in> {dc_temporaryKeys d t, None}"
  by (auto simp: dc_destroyTemporaryKey_def destroyConfirmedForgottenKey_def)

lemma key_do_ok:
  assumes "key_inv w" "key_allowed ev w"
  obtains v where "key_do ids ev w = Some v" "key_inv v"
proof -
  have same: "key_inv (w\<lparr>kw_dc := d\<rparr>)"
    if "dc_creatingKeys d = dc_creatingKeys (kw_dc w)" "\<And>t. dc_temporaryKeys d t \<in> {dc_temporaryKeys (kw_dc w) t, None}" for d
    by (rule key_inv_fewer [OF assms(1)]) (use that in auto)
  have "\<exists>v. key_do ids ev w = Some v \<and> key_inv v"
  proof (cases ev)
    case (Acquire i type)
    then have "kw_mine w i = CreatingNone" using assms(2) by simp
    then obtain c v where "acquireKeyCreation i type w = Some (c, v)" by (simp add: acquireKeyCreation_def split_beta)
    then show ?thesis using acquire_inv [OF assms(1)] Acquire by auto
  next
    case (BindDone i temp pers)
    then have i: "kw_mine w i \<noteq> CreatingNone" "kw_type w i \<noteq> DcCdn" using assms(2) by simp_all
    from done_ok [OF assms(1) i(1), of temp "Some pers"] obtain b v
      where "releaseGenericKeyCreationOnDone i (Some temp) (Some pers) w = Some (b, v)" "key_inv v" by metis
    then show ?thesis using i BindDone by (simp add: releaseKeyCreationOnDone_def)
  next
    case (CdnDone i temp)
    then have i: "kw_mine w i \<noteq> CreatingNone" "kw_type w i = DcCdn" using assms(2) by simp_all
    then have "kw_mine w i = CreatingTemporaryRegular" using assms(1) unfolding key_inv_def by blast
    moreover from done_ok [OF assms(1) i(1), of temp None] obtain b v
      where "releaseGenericKeyCreationOnDone i (Some temp) None w = Some (b, v)" "key_inv v" by metis
    ultimately show ?thesis using i CdnDone by (simp add: releaseCdnKeyCreationOnDone_def)
  next
    case (CreationFailed i)
    then show ?thesis using fail_ok [OF assms(1)] assms(2) by (metis key_allowed.simps(4) key_do.simps(4))
  qed (use same destroy_facts in \<open>auto simp: setConnectionInited_def\<close>)
  then show ?thesis using that by blast
qed

lemma key_do_keeps:
  assumes "key_inv w" "key_allowed ev w" "key_do ids ev w = Some v"
  shows "key_inv v"
  using key_do_ok [OF assms(1,2), of ids] assms(3) by (metis option.inject)

lemma key_run_inv: "key_run ids w v \<Longrightarrow> key_inv w \<Longrightarrow> key_inv v"
  by (induction rule: key_run.induct) (use key_do_keeps in blast)+

lemma new_key_inv: "key_inv (new_key_world key)"
  by (simp add: key_inv_def holds_def new_key_world_def)

text \<open>
  C13. One session at a time creates a temporary key. In every run of any number of sessions on one data
  centre, however their requests, successes and failures and the destruction of keys interleave, no
  assertion of \<open>Dcenter\<close> or \<open>Session\<close> fails for what the sessions may do next, and a temporary key
  is created by at most one session, while that key does not exist yet.
\<close>
theorem key_creation_exclusive:
  assumes "key_run ids (new_key_world key) w"
  shows "(key_allowed ev w \<longrightarrow> key_do ids ev w \<noteq> None)
    \<and> (holds w i t \<longrightarrow> holds w j t \<longrightarrow> i = j) \<and> (holds w i t \<longrightarrow> getTemporaryKey t (kw_dc w) = None)"
proof -
  have w: "key_inv w" using key_run_inv [OF assms new_key_inv] .
  then have "key_allowed ev w \<longrightarrow> key_do ids ev w \<noteq> None" by (metis key_do_ok option.distinct(1))
  moreover have "holds w i t \<longrightarrow> holds w j t \<longrightarrow> i = j" using key_invD(3) [OF w] by blast
  moreover have "holds w i t \<longrightarrow> getTemporaryKey t (kw_dc w) = None" using key_invD(2) [OF w] by (simp add: getTemporaryKey_def)
  ultimately show ?thesis by blast
qed

theorem key_creation_exclusive_witness:
  "\<exists>w. key_run (\<lambda>k. 7) (new_key_world (Some 1)) w \<and> holds w 3 TempRegular
    \<and> getTemporaryKey TempRegular (kw_dc w) = None \<and> key_do (\<lambda>k. 7) (BindDone 3 5 2) w \<noteq> None"
proof -
  define w where "w = the (key_do (\<lambda>k. 7) (Acquire 3 DcRegular) (new_key_world (Some 1)))"
  have w: "key_do (\<lambda>k. 7) (Acquire 3 DcRegular) (new_key_world (Some 1)) = Some w"
    "kw_mine w 3 = CreatingTemporaryRegular" "kw_type w 3 = DcRegular"
    by (simp_all add: w_def acquireKeyCreation_def new_key_world_def new_Dcenter_def dc_acquireKeyCreation_def
        TemporaryKeyTypeByDcType_def exchange_def Let_def)
  have r: "key_run (\<lambda>k. 7) (new_key_world (Some 1)) w"
    by (rule key_run.event [OF key_run.start _ w(1)]) (simp add: new_key_world_def)
  have "holds w 3 TempRegular" by (simp add: holds_def w)
  then show ?thesis using key_creation_exclusive [OF r, of "BindDone 3 5 2" 3 TempRegular 3] r w by auto
qed

subsection \<open>A lock that is lost\<close>

definition lost :: "temporary_type \<Rightarrow> key_world \<Rightarrow> bool" where
  "lost t w \<longleftrightarrow> dc_creatingKeys (kw_dc w) t \<and> dc_temporaryKeys (kw_dc w) t = None \<and> (\<forall>i. \<not> holds w i t)"

lemma lost_do:
  assumes "key_inv w" "lost t w" "key_allowed ev w" "key_do ids ev w = Some v"
  shows "lost t v"
proof -
  have rel: "lost t (w\<lparr>kw_dc := d, kw_mine := (kw_mine w)(i := CreatingNone)\<rparr>)"
    if "\<And>t'. t' \<noteq> t \<or> dc_creatingKeys d t = dc_creatingKeys (kw_dc w) t \<and> dc_temporaryKeys d t = dc_temporaryKeys (kw_dc w) t" for d i
    using assms(2) that [of t] by (auto simp: lost_def holds_def)
  have slot: "IndexByType (kw_mine w i) \<noteq> Some t" for i using assms(2) by (simp add: lost_def holds_def)
  show ?thesis
  proof (cases ev)
    case (Acquire i type)
    then obtain c where v: "acquireKeyCreation i type w = Some (c, v)" "kw_mine w i = CreatingNone"
      using assms(3,4) by auto
    from acquire_cases [of type "kw_dc w"] show ?thesis
    proof (elim disjE exE conjE)
      assume "dc_acquireKeyCreation type (kw_dc w) = (CreatingNone, kw_dc w)"
      then have "v = w\<lparr>kw_mine := (kw_mine w)(i := CreatingNone), kw_type := (kw_type w)(i := type)\<rparr>"
        using v Acquire assms(4) by (auto simp: acquireKeyCreation_def)
      then show ?thesis using assms(2) by (auto simp: lost_def holds_def)
    next
      fix c' t'
      assume a: "dc_acquireKeyCreation type (kw_dc w) = (c', (kw_dc w)\<lparr>dc_creatingKeys := (dc_creatingKeys (kw_dc w))(t' := True)\<rparr>)"
        "IndexByType c' = Some t'" "\<not> dc_creatingKeys (kw_dc w) t'"
      then have "v = w\<lparr>kw_dc := (kw_dc w)\<lparr>dc_creatingKeys := (dc_creatingKeys (kw_dc w))(t' := True)\<rparr>,
          kw_mine := (kw_mine w)(i := c'), kw_type := (kw_type w)(i := type)\<rparr>"
        using v Acquire assms(4) by (auto simp: acquireKeyCreation_def)
      moreover have "t' \<noteq> t" using a(3) assms(2) by (auto simp: lost_def)
      ultimately show ?thesis using assms(2) a(2) by (auto simp: lost_def holds_def)
    qed
  next
    case (BindDone i temp pers)
    then show ?thesis using assms(3,4) slot [of i]
      by (auto simp: releaseKeyCreationOnDone_def releaseGenericKeyCreationOnDone_def dc_releaseKeyCreationOnDone_def Let_def
          split: option.splits if_splits intro!: rel)
  next
    case (CdnDone i temp)
    then show ?thesis using assms(3,4) slot [of i]
      by (auto simp: releaseCdnKeyCreationOnDone_def releaseGenericKeyCreationOnDone_def dc_releaseKeyCreationOnDone_def Let_def
          split: option.splits if_splits intro!: rel)
  next
    case (CreationFailed i)
    then show ?thesis using assms(3,4) slot [of i]
      by (auto simp: releaseKeyCreationOnFail_def dc_releaseKeyCreationOnFail_def split: option.splits if_splits intro!: rel)
  next
    case (TemporaryDestroyed k)
    then show ?thesis using assms(2,4) by (auto simp: lost_def holds_def dc_destroyTemporaryKey_def)
  next
    case (PersistentDestroyed k)
    then show ?thesis using assms(2,4) by (auto simp: lost_def holds_def destroyConfirmedForgottenKey_def)
  next
    case Inited
    then show ?thesis using assms(2,4) by (auto simp: lost_def holds_def setConnectionInited_def)
  qed
qed

lemma lost_run: "key_run ids w v \<Longrightarrow> key_inv w \<Longrightarrow> lost t w \<Longrightarrow> lost t v \<and> key_inv v"
  by (induction rule: key_run.induct) (use key_do_keeps lost_do in blast)+

text \<open>
  C35. A defect. When a temporary key was bound to a persistent key that is no longer the one of the data
  centre, \<open>releaseKeyCreationOnDone\<close> returns \<open>false\<close> and leaves the slot marked as being created,
  although the session forgets that it was creating. From then on, whatever happens, the slot stays
  marked and its key null: the data centre never lets a session create that temporary key again, and
  a session of the regular type can never get one.
\<close>
theorem key_creation_lost:
  assumes "key_run ids (new_key_world key) w" "kw_mine w i \<in> {CreatingTemporaryRegular, CreatingTemporaryMediaCluster}"
    "dc_persistentKey (kw_dc w) \<noteq> Some pers" "releaseKeyCreationOnDone i (Some temp) (Some pers) w = Some (ok, v)"
    "key_run ids v u" "IndexByType (kw_mine w i) = Some t"
  shows "\<not> ok \<and> getTemporaryKey t (kw_dc u) = None \<and> \<not> holds u j t
    \<and> (t = TempRegular \<longrightarrow> type \<noteq> DcMediaCluster \<longrightarrow> fst (dc_acquireKeyCreation type (kw_dc u)) = CreatingNone)"
proof -
  have w: "key_inv w" using key_run_inv [OF assms(1) new_key_inv] .
  have i: "kw_mine w i \<noteq> CreatingNone" "kw_mine w i \<noteq> CreatingPersistent" using assms(2) by auto
  have h: "holds w i t" using assms(6) by (simp add: holds_def)
  obtain b v' where v': "releaseGenericKeyCreationOnDone i (Some temp) (Some pers) w = Some (b, v')" "key_inv v'"
    "b \<longleftrightarrow> kw_mine w i = CreatingPersistent \<or> dc_persistentKey (kw_dc w) = Some pers"
    "kw_mine v' = (kw_mine w)(i := CreatingNone)" "\<not> b \<Longrightarrow> kw_dc v' = kw_dc w"
    using done_ok [OF w i(1), of temp "Some pers"] by metis
  have v: "v' = v" "\<not> ok" "kw_dc v = kw_dc w"
    using v' assms(3,4) i by (auto simp: releaseKeyCreationOnDone_def)
  have "lost t v"
    using key_invD [OF w h] v'(4) unfolding lost_def v(1,3) holds_def by (auto simp: v(1) [symmetric] holds_def)
  then have u: "lost t u" using lost_run [OF assms(5)] v'(2) v(1) by blast
  have "fst (dc_acquireKeyCreation type (kw_dc u)) = CreatingNone" if "t = TempRegular" "type \<noteq> DcMediaCluster"
    using u that by (simp add: lost_def dc_acquireKeyCreation_def TemporaryKeyTypeByDcType_def exchange_def)
  then show ?thesis using u v(2) by (auto simp: lost_def getTemporaryKey_def)
qed

text \<open>The persistent key is destroyed on the server while a session binds to it.\<close>

theorem key_creation_lost_witness:
  "\<exists>w v. key_run (\<lambda>k. 7) (new_key_world (Some 1)) w
    \<and> releaseKeyCreationOnDone 3 (Some 5) (Some 1) w = Some (False, v) \<and> getTemporaryKey TempRegular (kw_dc v) = None
    \<and> fst (dc_acquireKeyCreation DcRegular (kw_dc v)) = CreatingNone"
proof -
  define w where "w = the (key_do (\<lambda>k. 7) (Acquire 3 DcRegular) (new_key_world (Some 1)))"
  have w: "key_do (\<lambda>k. 7) (Acquire 3 DcRegular) (new_key_world (Some 1)) = Some w"
    by (simp add: w_def acquireKeyCreation_def)
      (simp add: new_key_world_def split_beta)
  define u where "u = the (key_do (\<lambda>k. 7) (PersistentDestroyed 7) w)"
  have u: "key_do (\<lambda>k. 7) (PersistentDestroyed 7) w = Some u" by (simp add: u_def)
  have "key_run (\<lambda>k. 7) (new_key_world (Some 1)) w"
    by (rule key_run.event [OF key_run.start _ w]) (simp add: new_key_world_def)
  then have r: "key_run (\<lambda>k. 7) (new_key_world (Some 1)) u" by (rule key_run.event [OF _ _ u]) simp
  have f: "kw_mine u 3 = CreatingTemporaryRegular" "dc_persistentKey (kw_dc u) = None"
    by (simp_all add: u_def w_def acquireKeyCreation_def new_key_world_def new_Dcenter_def dc_acquireKeyCreation_def
        TemporaryKeyTypeByDcType_def exchange_def destroyConfirmedForgottenKey_def has_id_def Let_def)
  from done_ok [OF key_run_inv [OF r new_key_inv], of 3 5 "Some 1"] f(1) obtain ok v
    where "releaseGenericKeyCreationOnDone 3 (Some 5) (Some 1) u = Some (ok, v)" by (metis creating_type.distinct(3))
  then have v: "releaseKeyCreationOnDone 3 (Some 5) (Some 1) u = Some (ok, v)" using f(1) by (simp add: releaseKeyCreationOnDone_def)
  show ?thesis
    using key_creation_lost [OF r _ _ v key_run.start, of TempRegular 3 DcRegular] r v f by auto
qed

end
