(* ===== verification/Dc_Options.thy ===== *)
theory Dc_Options
  imports Data_Stream Dc_Keys "HOL-Library.Signed_Division"
begin

text \<open>
  The addresses of the data centres (\<open>DcOptions\<close>, \<open>mtproto/mtproto_dc_options.{h,cpp}\<close>) and the
  shifted identifiers of data centres (\<open>mtproto/core_types.h\<close>, \<open>mtproto/facade.h\<close>). The type \<open>'k\<close> of
  RSA keys and its operations, which OpenSSL does, are a parameter. An \<open>MTPDcOption\<close> of the wrong type
  is \<open>None\<close>; a \<open>std::string\<close> is a \<open>string\<close>. The lock is left out: every operation is one step. The ids
  an operation announces through \<open>changed\<close> are a result. A failed \<open>Assert\<close>, reading behind the end
  of a container and signed overflow are \<open>None\<close>.
\<close>

unbundle bit_operations_syntax

subsection \<open>Shifted identifiers\<close>

definition kDcShift :: int where "kDcShift = 10000"
definition kUpdaterDcShift :: int where "kUpdaterDcShift = 0x03"
definition kExportMediaDcShift :: int where "kExportMediaDcShift = 0x05"
definition kGroupCallStreamDcShift :: int where "kGroupCallStreamDcShift = 0x06"
definition kMaxMediaDcCount :: int where "kMaxMediaDcCount = 0x10"
definition kBaseDownloadDcShift :: int where "kBaseDownloadDcShift = 0x10"
definition kBaseUploadDcShift :: int where "kBaseUploadDcShift = 0x20"
definition kDestroyKeyStartDcShift :: int where "kDestroyKeyStartDcShift = 0x100"
definition kTemporaryMainDc :: int where "kTemporaryMainDc = 1000"

lemmas dc_consts = kDcShift_def kUpdaterDcShift_def kExportMediaDcShift_def kGroupCallStreamDcShift_def
  kMaxMediaDcCount_def kBaseDownloadDcShift_def kBaseUploadDcShift_def kDestroyKeyStartDcShift_def kTemporaryMainDc_def

text \<open>The remainder and quotient of C++ have the sign of the dividend.\<close>

definition BareDcId :: "int \<Rightarrow> int" where "BareDcId shiftedDcId = shiftedDcId smod kDcShift"
definition ShiftDcId :: "int \<Rightarrow> int \<Rightarrow> int" where "ShiftDcId dcId v = dcId + kDcShift * v"
definition GetDcIdShift :: "int \<Rightarrow> int" where "GetDcIdShift shiftedDcId = shiftedDcId sdiv kDcShift"

definition downloadDcId :: "int \<Rightarrow> int \<Rightarrow> int option" where
  "downloadDcId dcId index =
     (if index < kMaxMediaDcCount then Some (ShiftDcId dcId (kBaseDownloadDcShift + index)) else None)"

definition details_uploadDcId :: "int \<Rightarrow> int \<Rightarrow> int" where
  "details_uploadDcId dcId index = ShiftDcId dcId (kBaseUploadDcShift + index)"

definition uploadDcId :: "int \<Rightarrow> int option" where
  "uploadDcId index = (if 0 \<le> index \<and> index < kMaxMediaDcCount then Some (details_uploadDcId 0 index) else None)"

definition isDownloadDcId :: "int \<Rightarrow> bool" where
  "isDownloadDcId shiftedDcId \<longleftrightarrow>
     shiftedDcId \<ge> the (downloadDcId 0 0) \<and> shiftedDcId < the (downloadDcId 0 (kMaxMediaDcCount - 1)) + kDcShift"

definition isUploadDcId :: "int \<Rightarrow> bool" where
  "isUploadDcId shiftedDcId \<longleftrightarrow>
     shiftedDcId \<ge> details_uploadDcId 0 0 \<and> shiftedDcId < details_uploadDcId 0 (kMaxMediaDcCount - 1) + kDcShift"

definition isMediaClusterDcId :: "int \<Rightarrow> bool" where
  "isMediaClusterDcId shiftedDcId \<longleftrightarrow>
     (let shift = GetDcIdShift shiftedDcId
      in isDownloadDcId shiftedDcId \<or> shift = kGroupCallStreamDcShift \<or> shift = kExportMediaDcShift \<or> shift = kUpdaterDcShift)"

definition isTemporaryDcId :: "int \<Rightarrow> bool" where
  "isTemporaryDcId shiftedDcId \<longleftrightarrow> BareDcId shiftedDcId \<ge> kTemporaryMainDc"

definition getRealIdFromTemporaryDcId :: "int \<Rightarrow> int" where
  "getRealIdFromTemporaryDcId shiftedDcId =
     (let dcId = BareDcId shiftedDcId in if dcId \<ge> kTemporaryMainDc then dcId - kTemporaryMainDc else 0)"

definition getTemporaryIdFromRealDcId :: "int \<Rightarrow> int" where
  "getTemporaryIdFromRealDcId shiftedDcId =
     (let dcId = BareDcId shiftedDcId in if dcId < kTemporaryMainDc then dcId + kTemporaryMainDc else 0)"

definition destroyKeyNextDcId :: "int \<Rightarrow> int" where
  "destroyKeyNextDcId shiftedDcId =
     (let shift = GetDcIdShift shiftedDcId
      in ShiftDcId (BareDcId shiftedDcId) (if shift \<noteq> 0 then shift + 1 else kDestroyKeyStartDcShift))"

subsection \<open>Endpoints\<close>

datatype environment = Production | Test

definition f_ipv6 :: "32 word" where "f_ipv6 = 1"
definition f_media_only :: "32 word" where "f_media_only = 2"
definition f_tcpo_only :: "32 word" where "f_tcpo_only = 4"
definition f_cdn :: "32 word" where "f_cdn = 8"
definition f_static :: "32 word" where "f_static = 16"
definition f_secret :: "32 word" where "f_secret = 1024"

record endpoint =
  ep_id :: int
  ep_flags :: "32 word"
  ep_ip :: string
  ep_port :: int
  ep_secret :: "byte list"

definition has_flag :: "32 word \<Rightarrow> endpoint \<Rightarrow> bool" where
  "has_flag flag e \<longleftrightarrow> ep_flags e AND flag \<noteq> 0"

definition same_address :: "endpoint \<Rightarrow> endpoint \<Rightarrow> bool" where
  "same_address e e' \<longleftrightarrow> ep_ip e = ep_ip e' \<and> ep_port e = ep_port e'"

definition ValidateSecret :: "byte list \<Rightarrow> bool" where
  "ValidateSecret secret \<longleftrightarrow> length secret \<ge> 21 \<and> hd secret = 0xEE \<or> length secret = 17 \<and> hd secret = 0xDD
     \<or> length secret = 16 \<or> secret = []"

type_synonym dc_data = "(int, endpoint list) flat_map"

text \<open>The entry of a key, changed in place.\<close>

definition fm_change :: "'k \<Rightarrow> ('v \<Rightarrow> 'v) \<Rightarrow> ('k, 'v) flat_map \<Rightarrow> ('k, 'v) flat_map" where
  "fm_change k f m = map (\<lambda>e. if fst e = k then (k, f (snd e)) else e) m"

definition ApplyOneOption :: "endpoint \<Rightarrow> dc_data \<Rightarrow> bool \<times> dc_data" where
  "ApplyOneOption e data =
     (case map_of data (ep_id e) of
        Some es \<Rightarrow> (if list_ex (same_address e) es then (False, data)
                    else (True, fm_change (ep_id e) (\<lambda>es. es @ [e]) data))
      | None \<Rightarrow> (True, fm_emplace (ep_id e) [e] data))"

definition equal_endpoints :: "endpoint list \<Rightarrow> endpoint list \<Rightarrow> bool" where
  "equal_endpoints m n \<longleftrightarrow> length m = length n \<and> list_all (\<lambda>e. list_ex (same_address e) n) m"

text \<open>The largest id stands for the end of a map: one that is there is read behind the end of the other.\<close>

definition max_dc :: int where "max_dc = 2 ^ 31 - 1"

fun CountOptionsDifference :: "dc_data \<Rightarrow> dc_data \<Rightarrow> int list option" where
  "CountOptionsDifference [] [] = Some []"
| "CountOptionsDifference (x # a) [] =
     (if fst x < max_dc then map_option (Cons (fst x)) (CountOptionsDifference a []) else None)"
| "CountOptionsDifference [] (y # b) =
     (if fst y < max_dc then map_option (Cons (fst y)) (CountOptionsDifference [] b) else None)"
| "CountOptionsDifference (x # a) (y # b) =
     (if fst x < fst y then map_option (Cons (fst x)) (CountOptionsDifference a (y # b))
      else if fst y < fst x then map_option (Cons (fst y)) (CountOptionsDifference (x # a) b)
      else if \<not> equal_endpoints (snd x) (snd y) then map_option (Cons (fst x)) (CountOptionsDifference a b)
      else CountOptionsDifference a b)"

subsection \<open>The state\<close>

record 'k rsa =
  rs_parse :: "string \<Rightarrow> 'k"
  rs_make :: "byte list \<Rightarrow> byte list \<Rightarrow> 'k"
  rs_valid :: "'k \<Rightarrow> bool"
  rs_fingerprint :: "'k \<Rightarrow> 64 word"
  rs_n :: "'k \<Rightarrow> byte list"
  rs_e :: "'k \<Rightarrow> byte list"

record 'k dc_options =
  do_environment :: environment
  do_data :: dc_data
  do_cdnDcIds :: "int list"
  do_publicKeys :: "(64 word, 'k) flat_map"
  do_cdnPublicKeys :: "(int, (64 word, 'k) flat_map) flat_map"
  do_immutable :: bool

definition isTestMode :: "'k dc_options \<Rightarrow> bool" where
  "isTestMode d \<longleftrightarrow> do_environment d \<noteq> Production"

definition computeCdnDcIds :: "'k dc_options \<Rightarrow> 'k dc_options option" where
  "computeCdnDcIds d =
     (if list_ex (\<lambda>item. snd item = []) (do_data d) then None
      else Some (d\<lparr>do_cdnDcIds :=
        fold (\<lambda>item ids. if has_flag f_cdn (hd (snd item)) then flat_insert (BareDcId (fst item)) ids else ids) (do_data d) []\<rparr>))"

definition applyOneGuarded :: "endpoint \<Rightarrow> 'k dc_options \<Rightarrow> bool \<times> 'k dc_options" where
  "applyOneGuarded e d = (let (added, data) = ApplyOneOption e (do_data d) in (added, d\<lparr>do_data := data\<rparr>))"

text \<open>\<open>_cdnPublicKeys[dcId].emplace(fingerprint, key)\<close>; \<open>[]\<close> makes an empty map first.\<close>

definition add_cdn_key :: "int \<Rightarrow> 64 word \<Rightarrow> 'k \<Rightarrow> (int, (64 word, 'k) flat_map) flat_map
    \<Rightarrow> (int, (64 word, 'k) flat_map) flat_map" where
  "add_cdn_key dcId fingerprint key keys = fm_change dcId (fm_emplace fingerprint key) (fm_emplace dcId [] keys)"

subsection \<open>What is built in\<close>

definition kBuiltInDcs :: "(int \<times> string \<times> int) list" where
  "kBuiltInDcs = [(1, ''149.154.175.50'', 443), (2, ''149.154.167.51'', 443), (2, ''95.161.76.100'', 443),
     (3, ''149.154.175.100'', 443), (4, ''149.154.167.91'', 443), (5, ''149.154.171.5'', 443)]"

definition kBuiltInDcsIPv6 :: "(int \<times> string \<times> int) list" where
  "kBuiltInDcsIPv6 = [(1, ''2001:0b28:f23d:f001:0000:0000:0000:000a'', 443), (2, ''2001:067c:04e8:f002:0000:0000:0000:000a'', 443),
     (3, ''2001:0b28:f23d:f003:0000:0000:0000:000a'', 443), (4, ''2001:067c:04e8:f004:0000:0000:0000:000a'', 443),
     (5, ''2001:0b28:f23f:f005:0000:0000:0000:000a'', 443)]"

definition kBuiltInDcsTest :: "(int \<times> string \<times> int) list" where
  "kBuiltInDcsTest = [(1, ''149.154.175.10'', 443), (2, ''149.154.167.40'', 443), (3, ''149.154.175.117'', 443)]"

definition kBuiltInDcsIPv6Test :: "(int \<times> string \<times> int) list" where
  "kBuiltInDcsIPv6Test = [(1, ''2001:0b28:f23d:f001:0000:0000:0000:000e'', 443), (2, ''2001:067c:04e8:f002:0000:0000:0000:000e'', 443),
     (3, ''2001:0b28:f23d:f003:0000:0000:0000:000e'', 443)]"

definition pem :: "string list \<Rightarrow> string" where
  "pem ls = ''-----BEGIN RSA PUBLIC KEY-----'' @ concat (map (\<lambda>l. CHR 0x0A # l) ls) @ CHR 0x0A # ''-----END RSA PUBLIC KEY-----''"

definition kTestPublicRSAKeys :: "string list" where
  "kTestPublicRSAKeys = [pem [
     ''MIIBCgKCAQEAyMEdY1aR+sCR3ZSJrtztKTKqigvO/vBfqACJLZtS7QMgCGXJ6XIR'',
     ''yy7mx66W0/sOFa7/1mAZtEoIokDP3ShoqF4fVNb6XeqgQfaUHd8wJpDWHcR2OFwv'',
     ''plUUI1PLTktZ9uW2WE23b+ixNwJjJGwBDJPQEQFBE+vfmH0JP503wr5INS1poWg/'',
     ''j25sIWeYPHYeOrFp/eXaqhISP6G+q2IeTaWTXpwZj4LzXq5YOpk4bYEQ6mvRq7D1'',
     ''aHWfYmlEGepfaYR8Q0YqvvhYtMte3ITnuSJs171+GDqpdKcSwHnd6FudwGO4pcCO'',
     ''j4WcDuXc2CTHgH8gFTNhp/Y8/SpDOhvn9QIDAQAB'']]"

definition kPublicRSAKeys :: "string list" where
  "kPublicRSAKeys = [pem [
     ''MIIBCgKCAQEA6LszBcC1LGzyr992NzE0ieY+BSaOW622Aa9Bd4ZHLl+TuFQ4lo4g'',
     ''5nKaMBwK/BIb9xUfg0Q29/2mgIR6Zr9krM7HjuIcCzFvDtr+L0GQjae9H0pRB2OO'',
     ''62cECs5HKhT5DZ98K33vmWiLowc621dQuwKWSQKjWf50XYFw42h21P2KXUGyp2y/'',
     ''+aEyZ+uVgLLQbRA1dEjSDZ2iGRy12Mk5gpYc397aYp438fsJoHIgJ2lgMv5h7WY9'',
     ''t6N/byY9Nw9p21Og3AoXSL2q/2IJ1WRUhebgAdGVMlV1fkuOQoEzR7EdpqtQD9Cs'',
     ''5+bfo3Nhmcyvk5ftB0WkJ9z6bNZ7yxrP8wIDAQAB'']]"

definition readBuiltInPublicKeys :: "'k rsa \<Rightarrow> 'k dc_options \<Rightarrow> 'k dc_options" where
  "readBuiltInPublicKeys rs d =
     fold (\<lambda>key d. let parsed = rs_parse rs key
                   in if rs_valid rs parsed
                      then d\<lparr>do_publicKeys := fm_emplace (rs_fingerprint rs parsed) parsed (do_publicKeys d)\<rparr> else d)
       (if do_environment d = Test then kTestPublicRSAKeys else kPublicRSAKeys) d"

definition built_in :: "32 word \<Rightarrow> int \<times> string \<times> int \<Rightarrow> endpoint" where
  "built_in flags = (\<lambda>(i, ip, port). \<lparr>ep_id = i, ep_flags = flags, ep_ip = ip, ep_port = port, ep_secret = []\<rparr>)"

definition constructFromBuiltIn :: "'k rsa \<Rightarrow> 'k dc_options \<Rightarrow> 'k dc_options option" where
  "constructFromBuiltIn rs d =
     (let d = readBuiltInPublicKeys rs (d\<lparr>do_data := []\<rparr>);
          d = fold (\<lambda>x d. snd (applyOneGuarded (built_in f_static x) d)) (if isTestMode d then kBuiltInDcsTest else kBuiltInDcs) d;
          d = fold (\<lambda>x d. snd (applyOneGuarded (built_in (f_static OR f_ipv6) x) d))
                (if isTestMode d then kBuiltInDcsIPv6Test else kBuiltInDcsIPv6) d
      in computeCdnDcIds d)"

definition new_DcOptions :: "'k rsa \<Rightarrow> environment \<Rightarrow> 'k dc_options option" where
  "new_DcOptions rs env = constructFromBuiltIn rs
     \<lparr>do_environment = env, do_data = [], do_cdnDcIds = [], do_publicKeys = [], do_cdnPublicKeys = [], do_immutable = False\<rparr>"

definition constructAddOne :: "endpoint \<Rightarrow> 'k dc_options \<Rightarrow> 'k dc_options option" where
  "constructAddOne e d = computeCdnDcIds (snd (applyOneGuarded (e\<lparr>ep_id := BareDcId (ep_id e)\<rparr>) d))"

subsection \<open>Lists from the server\<close>

definition processFromList :: "endpoint option list \<Rightarrow> bool \<Rightarrow> 'k dc_options \<Rightarrow> (int list \<times> 'k dc_options) option" where
  "processFromList options overwrite d =
     (if options = [] \<or> do_immutable d then Some ([], d)
      else let data = fold (\<lambda>x data. case x of None \<Rightarrow> data | Some e \<Rightarrow> snd (ApplyOneOption e data)) options
                        (if overwrite then [] else do_data d)
           in case CountOptionsDifference (do_data d) data of
                None \<Rightarrow> None
              | Some difference \<Rightarrow>
                  map_option (Pair difference) (computeCdnDcIds (if difference \<noteq> [] then d\<lparr>do_data := data\<rparr> else d)))"

definition setFromList :: "endpoint option list \<Rightarrow> 'k dc_options \<Rightarrow> (int list \<times> 'k dc_options) option" where
  "setFromList options d = processFromList options True d"

definition addFromList :: "endpoint option list \<Rightarrow> 'k dc_options \<Rightarrow> (int list \<times> 'k dc_options) option" where
  "addFromList options d = processFromList options False d"

text \<open>\<open>changed(list)\<close> for one data centre of the other object.\<close>

definition apply_list :: "endpoint list \<Rightarrow> 'k dc_options \<Rightarrow> bool \<times> 'k dc_options" where
  "apply_list es d = fold (\<lambda>e (result, d). let (added, d) = applyOneGuarded e d in (result \<or> added, d)) es (False, d)"

definition addFromOther :: "'k dc_options \<Rightarrow> 'k dc_options \<Rightarrow> (int list \<times> 'k dc_options) option" where
  "addFromOther other d =
     (if do_immutable d \<or> do_data other = [] then Some ([], d)
      else let (idsChanged, d) =
                 fold (\<lambda>item (ids, d). let (result, d) = apply_list (snd item) d
                                       in (if result then ids @ [fst item] else ids, d)) (do_data other) ([], d);
               keys = fold (\<lambda>item keys. fold (\<lambda>entry. add_cdn_key (fst item) (fst entry) (snd entry)) (snd item) keys)
                        (do_cdnPublicKeys other) (do_cdnPublicKeys d)
           in map_option (Pair idsChanged) (computeCdnDcIds (d\<lparr>do_cdnPublicKeys := keys\<rparr>)))"

subsection \<open>Storing\<close>

definition kVersion :: int where "kVersion = 2"
definition kMaxIpSize :: int where "kMaxIpSize = 45"
definition kMaxSecretSize :: int where "kMaxSecretSize = 32"

definition text_bytes :: "string \<Rightarrow> byte list" where
  "text_bytes t = map (\<lambda>c. word_of_nat (of_char c)) t"

definition bytes_text :: "byte list \<Rightarrow> string" where
  "bytes_text bs = map (\<lambda>b. char_of (unat b)) bs"

definition put_endpoint :: "endpoint \<Rightarrow> byte list" where
  "put_endpoint e = put_int32 (ep_id e) @ put_uint32 (ep_flags e) @ put_int32 (ep_port e)
     @ put_int32 (int (length (ep_ip e))) @ text_bytes (ep_ip e)
     @ put_int32 (int (length (ep_secret e))) @ ep_secret e"

definition put_public_key :: "int \<times> byte list \<times> byte list \<Rightarrow> byte list" where
  "put_public_key = (\<lambda>(dcId, n, e). put_int32 dcId @ put_bytes n @ put_bytes e)"

definition stored_endpoints :: "'k dc_options \<Rightarrow> endpoint list" where
  "stored_endpoints d = concat (map snd (filter (\<lambda>item. \<not> isTemporaryDcId (fst item)) (do_data d)))"

definition stored_keys :: "'k dc_options \<Rightarrow> (int \<times> 'k) list" where
  "stored_keys d = concat (map (\<lambda>item. map (\<lambda>entry. (fst item, snd entry)) (snd item)) (do_cdnPublicKeys d))"

definition dc_stored :: "'k rsa \<Rightarrow> 'k dc_options \<Rightarrow> byte list" where
  "dc_stored rs d =
     put_int32 (- kVersion) @ put_int32 (int (length (stored_endpoints d))) @ concat (map put_endpoint (stored_endpoints d))
     @ put_int32 (int (length (stored_keys d)))
     @ concat (map (\<lambda>(dcId, k). put_public_key (dcId, rs_n rs k, rs_e rs k)) (stored_keys d))"

definition dc_serialize :: "'k rsa \<Rightarrow> 'k dc_options \<Rightarrow> byte list option" where
  "dc_serialize rs d =
     (if do_immutable d then map_option (dc_stored rs) (new_DcOptions rs (do_environment d)) else Some (dc_stored rs d))"

text \<open>One endpoint; \<open>None\<close> when it is refused. A string that is cut short keeps its blanks.\<close>

definition get_text :: "nat \<Rightarrow> in_stream \<Rightarrow> string \<times> in_stream" where
  "get_text n s = (let (bs, s) = readRawData n s in (bytes_text bs @ replicate (n - length bs) CHR '' '', s))"

definition get_secret :: "int \<Rightarrow> in_stream \<Rightarrow> byte list option \<times> in_stream" where
  "get_secret version s =
     (if version > 0
      then let (secretSize, s) = get_int32 s
           in if secretSize < 0 \<or> secretSize > kMaxSecretSize then (None, s)
              else let (bs, s) = readRawData (nat secretSize) s in (Some (bs @ replicate (nat secretSize - length bs) 0), s)
      else (Some [], s))"

definition get_endpoint :: "int \<Rightarrow> in_stream \<Rightarrow> endpoint option \<times> in_stream" where
  "get_endpoint version s =
     (let (i, s) = get_int32 s; (flags, s) = get_uint32 s; (port, s) = get_int32 s; (ipSize, s) = get_int32 s
      in if ipSize \<le> 0 \<or> ipSize > kMaxIpSize then (None, s)
         else let (ip, s) = get_text (nat ipSize) s; (secret, s) = get_secret version s
              in (case secret of
                    None \<Rightarrow> None
                  | Some sec \<Rightarrow> if st_ok s then Some \<lparr>ep_id = i, ep_flags = flags, ep_ip = ip, ep_port = port, ep_secret = sec\<rparr>
                               else None, s))"

lemma readRawData_shorter: "readRawData n s = (bs, s') \<Longrightarrow> length (st_rest s') = length (st_rest s) - n"
  by (auto simp: readRawData_def)

lemma uint32_shorter: "get_uint32 s = (w, s') \<Longrightarrow> length (st_rest s') = length (st_rest s) - 4"
  by (auto simp: get_uint32_def readRawData_shorter split: prod.splits)

lemma int32_shorter: "get_int32 s = (x, s') \<Longrightarrow> length (st_rest s') = length (st_rest s) - 4"
  by (auto simp: get_int32_def uint32_shorter split: prod.splits)

lemma read_ok: "st_ok s' \<Longrightarrow> readRawData n s = (bs, s') \<Longrightarrow> n \<le> length (st_rest s) \<and> st_ok s"
  "st_ok s' \<Longrightarrow> get_uint32 s = (w, s') \<Longrightarrow> 4 \<le> length (st_rest s) \<and> st_ok s"
  "st_ok s' \<Longrightarrow> get_int32 s = (x, s') \<Longrightarrow> 4 \<le> length (st_rest s) \<and> st_ok s"
  by (auto simp: readRawData_def get_int32_def get_uint32_def split: prod.splits)

lemma get_endpoint_shorter:
  assumes "get_endpoint version s = (Some e, s')"
  shows "length (st_rest s') < length (st_rest s)"
proof -
  obtain i s1 flags s2 port s3 ipSize s4 where h: "get_int32 s = (i, s1)" "get_uint32 s1 = (flags, s2)"
    "get_int32 s2 = (port, s3)" "get_int32 s3 = (ipSize, s4)" by (meson surj_pair)
  obtain ip s5 where t: "get_text (nat ipSize) s4 = (ip, s5)" by (meson surj_pair)
  obtain sec s6 where c: "get_secret version s5 = (sec, s6)" by (meson surj_pair)
  have e: "s' = s6" "st_ok s6" using assms by (auto simp: get_endpoint_def h t c split: if_splits option.splits)
  have "length (st_rest s6) \<le> length (st_rest s5)" "st_ok s5"
    using c e(2) by (auto simp: get_secret_def readRawData_def get_int32_def get_uint32_def split: if_splits prod.splits)
  moreover have "length (st_rest s5) \<le> length (st_rest s4)" "st_ok s5 \<longrightarrow> st_ok s4"
    using t by (auto simp: get_text_def readRawData_def split: prod.splits)
  ultimately show ?thesis
    using h e int32_shorter [OF h(1)] int32_shorter [OF h(3)] int32_shorter [OF h(4)] uint32_shorter [OF h(2)]
      read_ok(3) [OF _ h(4)] by auto
qed

text \<open>The loop counts up to \<open>count\<close>; a negative one is never reached, so it ends with the stream.\<close>

function read_endpoints :: "int \<Rightarrow> int \<Rightarrow> in_stream \<Rightarrow> 'k dc_options \<Rightarrow> bool \<times> in_stream \<times> 'k dc_options" where
  "read_endpoints version left s d =
     (if left = 0 then (True, s, d)
      else case get_endpoint version s of
             (None, s) \<Rightarrow> (False, s, d)
           | (Some e, s) \<Rightarrow> read_endpoints version (left - 1) s (snd (applyOneGuarded e d)))"
  by pat_completeness auto
termination
  by (relation "measure (\<lambda>(version, left, s, d). length (st_rest s))") (auto dest!: sym [THEN get_endpoint_shorter])

declare read_endpoints.simps [simp del]

definition get_public_key :: "'k rsa \<Rightarrow> in_stream \<Rightarrow> (int \<times> 'k) option \<times> in_stream" where
  "get_public_key rs s =
     (let (dcId, s) = get_int32 s; (n, s) = get_bytes s; (e, s) = get_bytes s
      in (if st_ok s \<and> rs_valid rs (rs_make rs n e) then Some (dcId, rs_make rs n e) else None, s))"

lemma read_blocks_shorter: "read_blocks len bs s = (r, s') \<Longrightarrow> length (st_rest s') \<le> length (st_rest s) \<and> (st_ok s' \<longrightarrow> st_ok s)"
proof (induction len bs s arbitrary: r s' rule: read_blocks.induct)
  case (1 len bs s)
  show ?case
  proof (cases "length bs \<ge> len")
    case True
    then show ?thesis using "1.prems" by (subst (asm) read_blocks.simps) simp
  next
    case False
    obtain block t where b: "readRawData (min kStep (len - length bs)) s = (block, t)" by (meson surj_pair)
    then have t: "length (st_rest t) \<le> length (st_rest s)" "st_ok t \<longrightarrow> st_ok s" by (auto simp: readRawData_def)
    show ?thesis
    proof (cases "length block = min kStep (len - length bs)")
      case True
      then have "read_blocks len (bs @ block) t = (r, s')"
        using "1.prems" False b by (subst (asm) read_blocks.simps) (simp add: Let_def)
      then show ?thesis using "1.IH" [OF False refl b [symmetric] refl] True t by fastforce
    next
      case False': False
      then show ?thesis using "1.prems" False b t by (subst (asm) read_blocks.simps) (auto simp: Let_def)
    qed
  qed
qed

lemma get_bytes_shorter: "get_bytes s = (bs, s') \<Longrightarrow> length (st_rest s') \<le> length (st_rest s) \<and> (st_ok s' \<longrightarrow> st_ok s)"
  using uint32_shorter [of s] read_ok(2) [of _ s]
  by (fastforce simp: get_bytes_def split: prod.splits if_splits dest: read_blocks_shorter)

lemma get_public_key_shorter:
  assumes "get_public_key rs s = (Some x, s')"
  shows "length (st_rest s') < length (st_rest s)"
proof -
  obtain i s1 n s2 e s3 where h: "get_int32 s = (i, s1)" "get_bytes s1 = (n, s2)" "get_bytes s2 = (e, s3)" by (meson surj_pair)
  have "s' = s3" "st_ok s3" using assms by (auto simp: get_public_key_def h split: if_splits)
  then show ?thesis
    using int32_shorter [OF h(1)] read_ok(3) [OF _ h(1)] get_bytes_shorter [OF h(2)] get_bytes_shorter [OF h(3)] by auto
qed

function read_keys :: "'k rsa \<Rightarrow> int \<Rightarrow> in_stream \<Rightarrow> 'k dc_options \<Rightarrow> bool \<times> 'k dc_options" where
  "read_keys rs left s d =
     (if left = 0 then (True, d)
      else case get_public_key rs s of
             (None, s) \<Rightarrow> (False, d)
           | (Some (dcId, k), s) \<Rightarrow>
               read_keys rs (left - 1) s (d\<lparr>do_cdnPublicKeys := add_cdn_key dcId (rs_fingerprint rs k) k (do_cdnPublicKeys d)\<rparr>))"
  by pat_completeness auto
termination
  by (relation "measure (\<lambda>(rs, left, s, d). length (st_rest s))") (auto dest!: sym [THEN get_public_key_shorter])

declare read_keys.simps [simp del]

definition read_cdn_config :: "'k rsa \<Rightarrow> int \<Rightarrow> in_stream \<Rightarrow> 'k dc_options \<Rightarrow> bool \<times> 'k dc_options" where
  "read_cdn_config rs version s d =
     (if \<not> atEnd s \<and> version > 1
      then let (count, s) = get_int32 s in if st_ok s then read_keys rs count s d else (False, d)
      else (True, d))"

text \<open>The lock computes the ids of CDNs when it is released, also after a failure.\<close>

definition dc_constructFromSerialized :: "'k rsa \<Rightarrow> byte list \<Rightarrow> 'k dc_options \<Rightarrow> (bool \<times> 'k dc_options) option" where
  "dc_constructFromSerialized rs serialized d =
     (let (minusVersion, s) = get_int32 (reading serialized)
      in if minusVersion = - (2 ^ 31) then None
         else let version = (if minusVersion < 0 then - minusVersion else 0);
                  (count, s) = (if version > 0 then get_int32 s else (minusVersion, s))
              in if \<not> st_ok s then Some (False, d)
                 else let (ok, s, d) = read_endpoints version count s (d\<lparr>do_data := []\<rparr>);
                          (ok, d) = (if ok then read_cdn_config rs version s d else (False, d))
                      in map_option (Pair ok) (computeCdnDcIds d))"

subsection \<open>Queries\<close>

definition configEnumDcIds :: "'k dc_options \<Rightarrow> int list option" where
  "configEnumDcIds d =
     (if list_ex (\<lambda>item. snd item = []) (do_data d) then None
      else Some (sort (map fst (filter (\<lambda>item. \<not> has_flag f_cdn (hd (snd item)) \<and> \<not> isTemporaryDcId (fst item)) (do_data d)))))"

definition hasMediaOnlyOptionsFor :: "int \<Rightarrow> 'k dc_options \<Rightarrow> bool" where
  "hasMediaOnlyOptionsFor dcId d =
     (case map_of (do_data d) dcId of None \<Rightarrow> False | Some es \<Rightarrow> list_ex (has_flag f_media_only) es)"

definition dcType :: "int \<Rightarrow> 'k dc_options \<Rightarrow> dc_type" where
  "dcType shiftedDcId d =
     (if isTemporaryDcId shiftedDcId then DcTemporary
      else if BareDcId shiftedDcId \<in> set (do_cdnDcIds d) then DcCdn
      else if isMediaClusterDcId shiftedDcId \<and> hasMediaOnlyOptionsFor (BareDcId shiftedDcId) d then DcMediaCluster
      else DcRegular)"

definition setCDNConfig :: "'k rsa \<Rightarrow> (int \<times> string) list \<Rightarrow> 'k dc_options \<Rightarrow> 'k dc_options option" where
  "setCDNConfig rs config d =
     computeCdnDcIds (fold (\<lambda>(dcId, text) d.
         let key = rs_parse rs text
         in if rs_valid rs key
            then d\<lparr>do_cdnPublicKeys := add_cdn_key dcId (rs_fingerprint rs key) key (do_cdnPublicKeys d)\<rparr> else d)
       config (d\<lparr>do_cdnPublicKeys := []\<rparr>))"

definition hasCDNKeysForDc :: "int \<Rightarrow> 'k dc_options \<Rightarrow> bool" where
  "hasCDNKeysForDc dcId d \<longleftrightarrow> map_of (do_cdnPublicKeys d) dcId \<noteq> None"

text \<open>\<open>None\<close> is the empty key.\<close>

fun find_key :: "64 word list \<Rightarrow> (64 word, 'k) flat_map \<Rightarrow> 'k option" where
  "find_key [] keys = None"
| "find_key (f # fs) keys = (case map_of keys f of Some k \<Rightarrow> Some k | None \<Rightarrow> find_key fs keys)"

definition getDcRSAKey :: "int \<Rightarrow> 64 word list \<Rightarrow> 'k dc_options \<Rightarrow> 'k option" where
  "getDcRSAKey dcId fingerprints d =
     (case map_of (do_cdnPublicKeys d) dcId of
        Some keys \<Rightarrow> find_key fingerprints keys | None \<Rightarrow> find_key fingerprints (do_publicKeys d))"

datatype address = IPv4 | IPv6
datatype protocol = TcpProtocol | HttpProtocol
type_synonym variants = "address \<Rightarrow> protocol \<Rightarrow> endpoint list"

definition push_variant :: "address \<Rightarrow> protocol \<Rightarrow> endpoint \<Rightarrow> variants \<Rightarrow> variants" where
  "push_variant a p e v = v(a := (v a)(p := v a p @ [e]))"

definition lookup_one :: "dc_type \<Rightarrow> endpoint \<Rightarrow> variants \<Rightarrow> variants" where
  "lookup_one type e v =
     (if type = DcCdn \<and> \<not> has_flag f_cdn e then v
      else if type \<noteq> DcMediaCluster \<and> has_flag f_media_only e then v
      else if \<not> ValidateSecret (ep_secret e) then v
      else let a = (if has_flag f_ipv6 e then IPv6 else IPv4);
               v = push_variant a TcpProtocol e v
           in if \<not> has_flag (f_tcpo_only OR f_secret) e then push_variant a HttpProtocol e v else v)"

definition FilterIfHasWithFlag :: "32 word \<Rightarrow> variants \<Rightarrow> variants" where
  "FilterIfHasWithFlag flag v = (\<lambda>a p. if list_ex (has_flag flag) (v a p) then filter (has_flag flag) (v a p) else v a p)"

definition dc_lookup :: "int \<Rightarrow> dc_type \<Rightarrow> bool \<Rightarrow> 'k dc_options \<Rightarrow> variants" where
  "dc_lookup dcId type throughProxy d =
     (case map_of (do_data d) dcId of
        None \<Rightarrow> (\<lambda>a p. [])
      | Some es \<Rightarrow>
          (let v = fold (lookup_one type) es (\<lambda>a p. []);
               v = (if type = DcMediaCluster then FilterIfHasWithFlag f_media_only v else v)
           in if throughProxy then FilterIfHasWithFlag f_static v else v))"

subsection \<open>The file of endpoints\<close>

text \<open>
  \<open>.tdesktop-endpoints\<close>: its lines, each split at white space; \<open>QString::toInt\<close> and
  \<open>QHostAddress::setAddress\<close> are arguments.
\<close>

fun load_flags :: "string list \<Rightarrow> 32 word \<Rightarrow> 32 word option" where
  "load_flags [] flags = Some flags"
| "load_flags (x # xs) flags =
     (if take 1 x = ''#'' then Some flags
      else if x = ''tcpo_only'' then load_flags xs (flags OR f_tcpo_only)
      else if x = ''media_only'' then load_flags xs (flags OR f_media_only)
      else None)"

definition load_endpoint :: "(string \<Rightarrow> address option) \<Rightarrow> (string \<Rightarrow> int) \<Rightarrow> string list \<Rightarrow> endpoint option" where
  "load_endpoint setAddress toInt components =
     (if length components < 3 then None
      else let dcId = toInt (components ! 0); ip = components ! 1; port = toInt (components ! 2)
           in if dcId \<le> 0 \<or> dcId \<ge> kDcShift \<or> setAddress ip = None \<or> port \<le> 0 then None
              else map_option (\<lambda>flags. \<lparr>ep_id = dcId, ep_flags = flags, ep_ip = ip, ep_port = port, ep_secret = []\<rparr>)
                     (load_flags (drop 3 components) (if setAddress ip = Some IPv6 then f_ipv6 else 0)))"

fun load_lines :: "(string \<Rightarrow> address option) \<Rightarrow> (string \<Rightarrow> int) \<Rightarrow> string list list \<Rightarrow> endpoint list option" where
  "load_lines setAddress toInt [] = Some []"
| "load_lines setAddress toInt (components # ls) =
     (if components = [] \<or> take 1 (hd components) = ''#'' then load_lines setAddress toInt ls
      else case load_endpoint setAddress toInt components of
             None \<Rightarrow> None
           | Some e \<Rightarrow> map_option (Cons e) (load_lines setAddress toInt ls))"

definition loadFromFile :: "(string \<Rightarrow> address option) \<Rightarrow> (string \<Rightarrow> int) \<Rightarrow> string list list option \<Rightarrow> 'k dc_options
    \<Rightarrow> (bool \<times> int list \<times> 'k dc_options) option" where
  "loadFromFile setAddress toInt file d =
     (case file of
        None \<Rightarrow> Some (False, [], d)
      | Some ls \<Rightarrow>
          (case load_lines setAddress toInt ls of
             None \<Rightarrow> Some (False, [], d)
           | Some options \<Rightarrow>
               (if options = [] then Some (False, [], d)
                else map_option (\<lambda>(ids, d). (True, ids, d\<lparr>do_immutable := True\<rparr>))
                       (setFromList (map Some options) (d\<lparr>do_immutable := False\<rparr>)))))"

text \<open>The words of each line written; \<open>dec\<close> writes a number.\<close>

definition writeToFile :: "(int \<Rightarrow> string) \<Rightarrow> 'k dc_options \<Rightarrow> string list list" where
  "writeToFile dec d =
     concat (map (\<lambda>item. map (\<lambda>e. [dec (ep_id e), ep_ip e, dec (ep_port e)]
          @ (if has_flag f_tcpo_only e then [''tcpo_only''] else []) @ (if has_flag f_media_only e then [''media_only''] else []))
        (snd item)) (do_data d))"

end
