(* ===== verification/Dc_Options_Laws.thy ===== *)
theory Dc_Options_Laws
  imports Dc_Options
begin

text \<open>
  What \<open>DcOptions\<close> promises: the data stay in normal form, so no assertion fails; a list from the
  server replaces the addresses and the changed ids are exactly those announced; a lookup is a filter;
  what is stored is read back. Data are seen as the list of endpoints of every data centre.
\<close>

definition endpoints_of :: "dc_data \<Rightarrow> int \<Rightarrow> endpoint list" where
  "endpoints_of data i = (case map_of data i of None \<Rightarrow> [] | Some es \<Rightarrow> es)"

definition address_of :: "endpoint \<Rightarrow> string \<times> int" where
  "address_of e = (ep_ip e, ep_port e)"

definition list_ok :: "int \<Rightarrow> endpoint list \<Rightarrow> bool" where
  "list_ok i es \<longleftrightarrow> es \<noteq> [] \<and> (\<forall>e \<in> set es. ep_id e = i) \<and> distinct (map address_of es)"

definition data_ok :: "dc_data \<Rightarrow> bool" where
  "data_ok data \<longleftrightarrow> fm_ok data \<and> (\<forall>item \<in> set data. list_ok (fst item) (snd item))"

lemma same_address_iff: "same_address e e' \<longleftrightarrow> address_of e = address_of e'"
  by (auto simp: same_address_def address_of_def)

lemma list_ex_same: "list_ex (same_address e) es \<longleftrightarrow> address_of e \<in> address_of ` set es"
  by (auto simp: list_ex_iff same_address_iff)

lemma data_okD: "data_ok data \<Longrightarrow> map_of data i = Some es \<Longrightarrow> list_ok i es"
  unfolding data_ok_def by (metis fst_conv map_of_SomeD snd_conv)

lemma data_ok_empty [simp]: "data_ok []"
  by (simp add: data_ok_def)

lemma endpoints_of_empty: "data_ok data \<Longrightarrow> endpoints_of data i = [] \<longleftrightarrow> map_of data i = None"
  using data_okD [of data i] by (auto simp: endpoints_of_def list_ok_def split: option.splits)

lemma flat_map_eqI:
  assumes "fm_ok a" "fm_ok b" "map_of a = map_of b"
  shows "a = b"
proof -
  have s: "set a = set b" using assms fm_ok_distinct map_of_inject_set by metis
  have "inj_on fst (set a)" using assms(1) by (metis distinct_map fm_ok_distinct)
  then show ?thesis
    using map_sorted_distinct_set_unique [of fst a b] assms(1,2) s by (simp add: strictly_sorted_iff)
qed

lemma data_eqI: "data_ok a \<Longrightarrow> data_ok b \<Longrightarrow> (\<And>i. endpoints_of a i = endpoints_of b i) \<Longrightarrow> a = b"
proof (rule flat_map_eqI)
  assume d: "data_ok a" "data_ok b" and e: "\<And>i. endpoints_of a i = endpoints_of b i"
  show "map_of a = map_of b"
  proof
    fix i
    show "map_of a i = map_of b i"
      using e [of i] endpoints_of_empty [OF d(1), of i] endpoints_of_empty [OF d(2), of i]
      by (auto simp: endpoints_of_def split: option.splits)
  qed
qed (simp_all add: data_ok_def)

lemma map_of_change [simp]: "map_of (fm_change k f m) i = (if i = k then map_option f (map_of m i) else map_of m i)"
  by (induction m) (auto simp: fm_change_def)

lemma fst_change [simp]: "map fst (fm_change k f m) = map fst m"
  by (simp add: fm_change_def comp_def if_distrib cong: if_cong)

subsection \<open>Adding an endpoint\<close>

definition add_new :: "endpoint \<Rightarrow> endpoint list \<Rightarrow> endpoint list" where
  "add_new e es = (if address_of e \<in> address_of ` set es then es else es @ [e])"

lemma apply_endpoints:
  assumes "data_ok data"
  shows "endpoints_of (snd (ApplyOneOption e data)) i = (if i = ep_id e then add_new e (endpoints_of data i) else endpoints_of data i)"
  using assms map_of_emplace [of data "ep_id e" "[e]"]
  by (auto simp: ApplyOneOption_def endpoints_of_def add_new_def list_ex_same data_ok_def split: option.splits)

lemma list_ok_new: "list_ok i es \<Longrightarrow> ep_id e = i \<Longrightarrow> list_ok i (add_new e es)"
  by (auto simp: list_ok_def add_new_def)

lemma apply_ok:
  assumes "data_ok data"
  shows "data_ok (snd (ApplyOneOption e data))"
proof (cases "map_of data (ep_id e)")
  case None
  then have "ep_id e \<notin> fm_keys data" by (simp add: map_of_eq_None_iff)
  then have "set (fm_emplace (ep_id e) [e] data) = insert (ep_id e, [e]) (set data)" by (rule set_emplace)
  then show ?thesis using assms None by (simp add: ApplyOneOption_def data_ok_def list_ok_def)
next
  case (Some es)
  have l: "list_ok (ep_id e) es" using data_okD [OF assms Some] .
  have "list_ok (ep_id e) (es @ [e])" if "\<not> list_ex (same_address e) es"
    using list_ok_new [OF l refl] that by (simp add: add_new_def list_ex_same)
  moreover have "fst x = ep_id e \<Longrightarrow> x \<in> set data \<Longrightarrow> snd x = es" for x
    using assms Some map_of_iff [of data] unfolding data_ok_def by (metis option.inject prod.collapse)
  ultimately show ?thesis
    using assms Some by (auto simp: ApplyOneOption_def data_ok_def fm_change_def comp_def if_distrib cong: if_cong)
qed

lemma fold_apply_ok: "data_ok data \<Longrightarrow> data_ok (fold (\<lambda>e data. snd (ApplyOneOption e data)) es data)"
  by (induction es arbitrary: data) (simp_all add: apply_ok)

lemma fold_apply_endpoints:
  "data_ok data \<Longrightarrow> endpoints_of (fold (\<lambda>e data. snd (ApplyOneOption e data)) es data) i
    = fold add_new (filter (\<lambda>e. ep_id e = i) es) (endpoints_of data i)"
  by (induction es arbitrary: data) (auto simp: apply_ok apply_endpoints)

lemma fold_new_distinct: "distinct (map address_of (ys @ xs)) \<Longrightarrow> fold add_new xs ys = ys @ xs"
proof (induction xs arbitrary: ys)
  case (Cons x xs)
  then have "address_of x \<notin> address_of ` set ys" by auto
  then show ?case using Cons.IH [of "ys @ [x]"] Cons.prems by (simp add: add_new_def)
qed simp

lemma fold_new_addresses: "address_of ` set (fold add_new xs ys) = address_of ` set ys \<union> address_of ` set xs"
  by (induction xs arbitrary: ys) (auto simp: add_new_def)

subsection \<open>Differences\<close>

definition addresses_of :: "dc_data \<Rightarrow> int \<Rightarrow> (string \<times> int) set" where
  "addresses_of data i = address_of ` set (endpoints_of data i)"

definition ids_below :: "dc_data \<Rightarrow> bool" where
  "ids_below data \<longleftrightarrow> (\<forall>i \<in> fm_keys data. i < max_dc)"

lemma equal_endpoints_iff:
  assumes "list_ok i m" "list_ok j n"
  shows "equal_endpoints m n \<longleftrightarrow> address_of ` set m = address_of ` set n"
proof -
  have l: "list_all (\<lambda>e. list_ex (same_address e) n) m \<longleftrightarrow> set (map address_of m) \<subseteq> set (map address_of n)"
    by (auto simp: list_all_iff list_ex_same)
  have c: "card (set (map address_of m)) = length m" "card (set (map address_of n)) = length n"
    using assms distinct_card [of "map address_of m"] distinct_card [of "map address_of n"] by (simp_all add: list_ok_def)
  show ?thesis
  proof
    assume "equal_endpoints m n"
    then have "set (map address_of m) \<subseteq> set (map address_of n)" "length m = length n"
      using l by (simp_all add: equal_endpoints_def)
    then have "set (map address_of m) = set (map address_of n)" using c by (intro card_subset_eq) simp_all
    then show "address_of ` set m = address_of ` set n" by simp
  next
    assume "address_of ` set m = address_of ` set n"
    then have "set (map address_of m) = set (map address_of n)" by simp
    then show "equal_endpoints m n" using c l by (metis equal_endpoints_def subset_refl)
  qed
qed

lemma data_ok_tail: "data_ok (x # a) \<Longrightarrow> data_ok a" "data_ok (x # a) \<Longrightarrow> list_ok (fst x) (snd x)"
  "data_ok (x # a) \<Longrightarrow> k \<in> fm_keys a \<Longrightarrow> fst x < k"
  by (auto simp: data_ok_def)

lemma addresses_empty: "i \<notin> fm_keys data \<Longrightarrow> addresses_of data i = {}"
  using map_of_eq_None_iff [of data i] by (simp add: addresses_of_def endpoints_of_def)

lemma addresses_cons: "addresses_of (x # a) i = (if i = fst x then address_of ` set (snd x) else addresses_of a i)"
  by (cases x) (simp add: addresses_of_def endpoints_of_def)

lemma addresses_some: "list_ok i es \<Longrightarrow> address_of ` set es \<noteq> {}"
  by (simp add: list_ok_def)

lemma difference_of_data:
  assumes "data_ok a" "data_ok b" "ids_below a" "ids_below b"
  obtains ids where "CountOptionsDifference a b = Some ids" "set ids = {i. addresses_of a i \<noteq> addresses_of b i}"
proof -
  have "\<exists>ids. CountOptionsDifference a b = Some ids \<and> set ids = {i. addresses_of a i \<noteq> addresses_of b i}"
    using assms
  proof (induction a b rule: CountOptionsDifference.induct)
    case 1
    then show ?case by simp
  next
    case (2 x a)
    then obtain ids where ids: "CountOptionsDifference a [] = Some ids" "set ids = {i. addresses_of a i \<noteq> addresses_of [] i}"
      using data_ok_tail(1) by (fastforce simp: ids_below_def)
    have "fst x \<notin> fm_keys a" using data_ok_tail(3) [OF "2.prems"(1)] by blast
    then show ?case
      using "2.prems" ids addresses_some [OF data_ok_tail(2) [OF "2.prems"(1)]]
      by (auto simp: ids_below_def addresses_cons addresses_empty)
  next
    case (3 y b)
    then obtain ids where ids: "CountOptionsDifference [] b = Some ids" "set ids = {i. addresses_of [] i \<noteq> addresses_of b i}"
      using data_ok_tail(1) by (fastforce simp: ids_below_def)
    have "fst y \<notin> fm_keys b" using data_ok_tail(3) [OF "3.prems"(2)] by blast
    then show ?case
      using "3.prems" ids addresses_some [OF data_ok_tail(2) [OF "3.prems"(2)]]
      by (auto simp: ids_below_def addresses_cons addresses_empty)
  next
    case (4 x a y b)
    note t = data_ok_tail [OF "4.prems"(1)] and u = data_ok_tail [OF "4.prems"(2)]
    have below: "ids_below a" "ids_below b" using "4.prems" by (simp_all add: ids_below_def)
    have out: "fst x \<notin> fm_keys a" "fst y \<notin> fm_keys b" using t(3) u(3) by blast+
    consider "fst x < fst y" | "fst y < fst x" | "fst x = fst y" by force
    then show ?case
    proof cases
      case 1
      obtain ids where ids: "CountOptionsDifference a (y # b) = Some ids"
        "set ids = {i. addresses_of a i \<noteq> addresses_of (y # b) i}"
        using "4.IH"(1) [OF 1 t(1) "4.prems"(2) below(1) "4.prems"(4)] by blast
      have "fst x \<notin> fm_keys (y # b)" using 1 u(3) by fastforce
      then have "addresses_of (y # b) (fst x) = {}" by (rule addresses_empty)
      then show ?thesis
        using 1 ids addresses_some [OF t(2)] addresses_empty [OF out(1)] by (auto simp: addresses_cons [of x])
    next
      case 2
      obtain ids where ids: "CountOptionsDifference (x # a) b = Some ids"
        "set ids = {i. addresses_of (x # a) i \<noteq> addresses_of b i}"
        using "4.IH"(2) [OF _ 2 "4.prems"(1) u(1) "4.prems"(3) below(2)] 2 by auto
      have "fst y \<notin> fm_keys (x # a)" using 2 t(3) by fastforce
      then have "addresses_of (x # a) (fst y) = {}" by (rule addresses_empty)
      then show ?thesis
        using 2 ids addresses_some [OF u(2)] addresses_empty [OF out(2)] by (auto simp: addresses_cons [of y])
    next
      case 3
      obtain ids where ids: "CountOptionsDifference a b = Some ids" "set ids = {i. addresses_of a i \<noteq> addresses_of b i}"
        using "4.IH"(3,4) 3 t(1) u(1) below by (cases "equal_endpoints (snd x) (snd y)") auto
      then show ?thesis
        using 3 out equal_endpoints_iff [OF t(2) u(2)] by (auto simp: addresses_cons addresses_empty)
    qed
  qed
  then show ?thesis using that by blast
qed

subsection \<open>The state\<close>

definition cdn_ids :: "dc_data \<Rightarrow> int list" where
  "cdn_ids data = fold (\<lambda>item ids. if has_flag f_cdn (hd (snd item)) then flat_insert (BareDcId (fst item)) ids else ids) data []"

definition options_ok :: "'k dc_options \<Rightarrow> bool" where
  "options_ok d \<longleftrightarrow> data_ok (do_data d) \<and> ids_below (do_data d) \<and> do_cdnDcIds d = cdn_ids (do_data d)"

lemma compute_ok: "data_ok (do_data d) \<Longrightarrow> computeCdnDcIds d = Some (d\<lparr>do_cdnDcIds := cdn_ids (do_data d)\<rparr>)"
  by (auto simp: computeCdnDcIds_def cdn_ids_def list_ex_iff data_ok_def list_ok_def)

lemma options_ok_compute:
  "data_ok (do_data d) \<Longrightarrow> ids_below (do_data d) \<Longrightarrow> options_ok (d\<lparr>do_cdnDcIds := cdn_ids (do_data d)\<rparr>)"
  by (simp add: options_ok_def)

lemma apply_keys: "fm_keys (snd (ApplyOneOption e data)) = insert (ep_id e) (fm_keys data)"
proof (cases "map_of data (ep_id e)")
  case (Some es)
  then have "ep_id e \<in> fm_keys data" by (metis map_of_eq_None_iff option.distinct(1))
  moreover have "fm_keys (fm_change (ep_id e) (\<lambda>es. es @ [e]) data) = fm_keys data"
    using arg_cong [OF fst_change, of set] by (metis list.set_map)
  ultimately show ?thesis using Some by (auto simp: ApplyOneOption_def)
qed (simp add: ApplyOneOption_def)

lemma apply_below: "ids_below data \<Longrightarrow> ep_id e < max_dc \<Longrightarrow> ids_below (snd (ApplyOneOption e data))"
  by (simp add: ids_below_def apply_keys)

lemma fold_apply_below:
  "ids_below data \<Longrightarrow> \<forall>e \<in> set es. ep_id e < max_dc \<Longrightarrow> ids_below (fold (\<lambda>e data. snd (ApplyOneOption e data)) es data)"
  by (induction es arbitrary: data) (simp_all add: apply_below)

lemma guarded_fields [simp]:
  "snd (applyOneGuarded e d) = d\<lparr>do_data := snd (ApplyOneOption e (do_data d))\<rparr>"
  "fst (applyOneGuarded e d) = fst (ApplyOneOption e (do_data d))"
  by (simp_all add: applyOneGuarded_def split_beta)

lemma fold_guarded:
  "fold (\<lambda>e d. snd (applyOneGuarded e d)) es d = d\<lparr>do_data := fold (\<lambda>e data. snd (ApplyOneOption e data)) es (do_data d)\<rparr>"
  by (induction es arbitrary: d) simp_all

text \<open>\<open>wanted\<close> are the data a list from the server describes.\<close>

abbreviation apply_all :: "endpoint list \<Rightarrow> dc_data \<Rightarrow> dc_data" where
  "apply_all es data \<equiv> fold (\<lambda>e data. snd (ApplyOneOption e data)) es data"

lemma fold_options: "fold (\<lambda>x data. case x of None \<Rightarrow> data | Some e \<Rightarrow> snd (ApplyOneOption e data)) xs data
  = apply_all (List.map_filter id xs) data"
  by (induction xs arbitrary: data) (auto simp: List.map_filter_simps split: option.splits)

lemma set_given: "set (List.map_filter id xs) = {e. Some e \<in> set xs}"
  by (induction xs) (auto simp: List.map_filter_simps split: option.splits)

lemma process_ok:
  assumes "options_ok d" "\<forall>e. Some e \<in> set xs \<longrightarrow> ep_id e < max_dc"
  obtains ids d' where "processFromList xs overwrite d = Some (ids, d')" "options_ok d'"
    "\<not> do_immutable d \<Longrightarrow> xs \<noteq> [] \<Longrightarrow> set ids = {i. addresses_of (do_data d) i
      \<noteq> addresses_of (apply_all (List.map_filter id xs) (if overwrite then [] else do_data d)) i}"
    "\<not> do_immutable d \<Longrightarrow> xs \<noteq> [] \<Longrightarrow> do_data d' = (if ids = [] then do_data d
      else apply_all (List.map_filter id xs) (if overwrite then [] else do_data d))"
    "do_immutable d' = do_immutable d" "do_cdnPublicKeys d' = do_cdnPublicKeys d"
proof (cases "xs = [] \<or> do_immutable d")
  case True
  then show ?thesis by (intro that [of "[]" d]) (use assms in \<open>auto simp: processFromList_def\<close>)
next
  case False
  define data where "data = apply_all (List.map_filter id xs) (if overwrite then [] else do_data d)"
  have d: "data_ok (do_data d)" "ids_below (do_data d)" using assms(1) by (simp_all add: options_ok_def)
  have start: "data_ok (if overwrite then [] else do_data d)" "ids_below (if overwrite then [] else do_data d)"
    using d by (simp_all add: ids_below_def)
  have "\<forall>e \<in> set (List.map_filter id xs). ep_id e < max_dc"
    using assms(2) by (simp add: set_given)
  then have data: "data_ok data" "ids_below data"
    unfolding data_def using fold_apply_ok [OF start(1)] fold_apply_below [OF start(2)] by blast+
  obtain ids where ids: "CountOptionsDifference (do_data d) data = Some ids"
    "set ids = {i. addresses_of (do_data d) i \<noteq> addresses_of data i}"
    using difference_of_data [OF d(1) data(1) d(2) data(2)] by blast
  define d' where "d' = (if ids \<noteq> [] then d\<lparr>do_data := data\<rparr> else d)"
  have d': "data_ok (do_data d')" "ids_below (do_data d')" using d data by (simp_all add: d'_def)
  have "processFromList xs overwrite d = Some (ids, d'\<lparr>do_cdnDcIds := cdn_ids (do_data d')\<rparr>)"
    using False ids(1) compute_ok [OF d'(1)]
    unfolding processFromList_def fold_options Let_def data_def [symmetric] by (simp add: d'_def)
  then show ?thesis
    by (rule that) (use ids(2) options_ok_compute [OF d'] False in \<open>auto simp: d'_def data_def\<close>)
qed

text \<open>
  C37. A list from the server, with ids below \<open>2^31 - 1\<close>. When it is empty, or the options were overridden
  by a file, everything stays as it is. Otherwise it is taken over without an assertion failing: endpoints
  with an address that is already listed are dropped, the data centres announced as changed are exactly
  those whose set of addresses changes, and the addresses are then those of the list. But only
  addresses are compared: when all stay the same, so do all endpoints, whatever flags and secrets the
  new list gives to them.
\<close>
theorem set_from_list:
  assumes "options_ok d" "\<forall>e. Some e \<in> set xs \<longrightarrow> ep_id e < max_dc"
  shows "if xs = [] \<or> do_immutable d then setFromList xs d = Some ([], d)
    else \<exists>ids d'. setFromList xs d = Some (ids, d') \<and> options_ok d'
    \<and> (\<forall>i. i \<in> set ids \<longleftrightarrow> addresses_of (do_data d') i \<noteq> addresses_of (do_data d) i)
    \<and> (\<forall>i. addresses_of (do_data d') i = address_of ` {e. Some e \<in> set xs \<and> ep_id e = i})
    \<and> (ids \<noteq> [] \<longrightarrow> (\<forall>i. endpoints_of (do_data d') i = fold add_new (filter (\<lambda>e. ep_id e = i) (List.map_filter id xs)) []))
    \<and> (ids = [] \<longrightarrow> do_data d' = do_data d)"
proof (cases "xs = [] \<or> do_immutable d")
  case True
  then show ?thesis by (simp add: setFromList_def processFromList_def)
next
  case False
  let ?data = "apply_all (List.map_filter id xs) []"
  obtain ids d' where p: "processFromList xs True d = Some (ids, d')" "options_ok d'"
    "set ids = {i. addresses_of (do_data d) i \<noteq> addresses_of ?data i}"
    "do_data d' = (if ids = [] then do_data d else ?data)"
    using process_ok [OF assms, of True] False by (metis (no_types, lifting))
  have e: "endpoints_of ?data i = fold add_new (filter (\<lambda>e. ep_id e = i) (List.map_filter id xs)) []" for i
    using fold_apply_endpoints [OF data_ok_empty] by (simp add: endpoints_of_def [of "[]"])
  have a: "addresses_of ?data i = address_of ` {e. Some e \<in> set xs \<and> ep_id e = i}" for i
    unfolding addresses_of_def e fold_new_addresses by (auto simp: set_given)
  have "addresses_of (do_data d') i = addresses_of ?data i" for i using p(3,4) by (cases "ids = []") auto
  then show ?thesis
    using p a e False by (simp only: if_False) (intro exI [of _ ids] exI [of _ d'], auto simp: setFromList_def)
qed

definition ex_endpoint :: endpoint where
  "ex_endpoint = \<lparr>ep_id = 2, ep_flags = 0, ep_ip = ''95.161.76.100'', ep_port = 443, ep_secret = replicate 16 1\<rparr>"

definition ex_options :: "nat dc_options" where
  "ex_options = \<lparr>do_environment = Production, do_data = [(2, [ex_endpoint])], do_cdnDcIds = [], do_publicKeys = [],
     do_cdnPublicKeys = [(2, [(7, 9)])], do_immutable = False\<rparr>"

lemma ex_options_ok: "options_ok ex_options"
  by (simp add: options_ok_def ex_options_def data_ok_def list_ok_def ids_below_def max_dc_def cdn_ids_def
      ex_endpoint_def has_flag_def)

text \<open>The server gives the endpoint a new secret, and the client keeps the old one.\<close>

theorem set_from_list_witness:
  "\<exists>d'. setFromList [Some (ex_endpoint\<lparr>ep_secret := replicate 16 2\<rparr>)] ex_options = Some ([], d')
    \<and> do_data d' = [(2, [ex_endpoint])]"
proof -
  let ?xs = "[Some (ex_endpoint\<lparr>ep_secret := replicate 16 2\<rparr>)]"
  have h: "\<not> do_immutable ex_options" "\<forall>e. Some e \<in> set ?xs \<longrightarrow> ep_id e < max_dc"
    by (simp_all add: ex_options_def ex_endpoint_def max_dc_def)
  have "\<not> (?xs = [] \<or> do_immutable ex_options)" using h(1) by simp
  from set_from_list [OF ex_options_ok h(2), unfolded if_not_P [OF this]] obtain ids d'
    where d': "setFromList ?xs ex_options = Some (ids, d')"
      "\<forall>i. i \<in> set ids \<longleftrightarrow> addresses_of (do_data d') i \<noteq> addresses_of (do_data ex_options) i"
      "\<forall>i. addresses_of (do_data d') i = address_of ` {e. Some e \<in> set ?xs \<and> ep_id e = i}"
      "ids = [] \<longrightarrow> do_data d' = do_data ex_options" by blast
  have "addresses_of (do_data d') i = addresses_of (do_data ex_options) i" for i
    using d'(3) by (auto simp: addresses_of_def endpoints_of_def ex_options_def ex_endpoint_def address_of_def)
  then have "ids = []" using d'(2) by (metis empty_iff empty_set list.set_intros(1) neq_Nil_conv)
  then show ?thesis using d'(1,4) by (simp add: ex_options_def)
qed

subsection \<open>Storing and loading\<close>

lemma text_bytes_roundtrip [simp]: "bytes_text (text_bytes t) = t" "length (text_bytes t) = length t"
proof -
  have "char_of (unat (word_of_nat (of_char c) :: byte)) = c" for c
    by (simp add: unat_of_nat take_bit_nat_eq_self)
  then show "bytes_text (text_bytes t) = t" by (induction t) (simp_all add: bytes_text_def text_bytes_def)
qed (simp add: text_bytes_def)

definition fits_endpoint :: "endpoint \<Rightarrow> bool" where
  "fits_endpoint e \<longleftrightarrow> is_int32 (ep_id e) \<and> is_int32 (ep_port e) \<and> 0 < length (ep_ip e)
     \<and> int (length (ep_ip e)) \<le> kMaxIpSize \<and> int (length (ep_secret e)) \<le> kMaxSecretSize"

text \<open>Numbers that the format cannot hold are excluded; a text or a secret may still be refused.\<close>

definition storable :: "endpoint \<Rightarrow> bool" where
  "storable e \<longleftrightarrow> is_int32 (ep_id e) \<and> is_int32 (ep_port e) \<and> is_int32 (int (length (ep_ip e)))
     \<and> is_int32 (int (length (ep_secret e)))"

lemma fits_storable: "fits_endpoint e \<Longrightarrow> storable e"
  by (simp add: fits_endpoint_def storable_def is_int32_def kMaxIpSize_def kMaxSecretSize_def)

lemma get_put_endpoint:
  assumes "fits_endpoint e" "version > 0"
  shows "get_endpoint version (reading (put_endpoint e @ rest)) = (Some e, reading rest)"
  using assms fits_storable [OF assms(1)]
  by (simp add: get_endpoint_def put_endpoint_def int32.get_put uint32.get_put get_text_def get_secret_def
      fits_endpoint_def storable_def)

lemma get_bad_endpoint:
  assumes "storable e" "\<not> fits_endpoint e" "version > 0"
  shows "fst (get_endpoint version (reading (put_endpoint e @ rest))) = None"
  using assms
  by (auto simp: get_endpoint_def put_endpoint_def int32.get_put uint32.get_put get_text_def get_secret_def
      fits_endpoint_def storable_def Let_def split_beta)

lemma read_endpoints_stored:
  assumes "\<forall>e \<in> set es. fits_endpoint e" "version > 0"
  shows "read_endpoints version (int (length es)) (reading (concat (map put_endpoint es) @ rest)) d
    = (True, reading rest, d\<lparr>do_data := apply_all es (do_data d)\<rparr>)"
  using assms(1)
proof (induction es arbitrary: d)
  case Nil
  then show ?case by (subst read_endpoints.simps) simp
next
  case (Cons e es)
  then show ?case using assms(2) by (subst read_endpoints.simps) (simp add: get_put_endpoint)
qed

lemma read_endpoints_bad:
  assumes "\<forall>e \<in> set es. storable e" "\<exists>e \<in> set es. \<not> fits_endpoint e" "version > 0"
  shows "fst (read_endpoints version (int (length es)) (reading (concat (map put_endpoint es) @ rest)) d) = False
    \<and> (\<exists>xs. do_data (snd (snd (read_endpoints version (int (length es)) (reading (concat (map put_endpoint es) @ rest)) d)))
          = apply_all xs (do_data d))"
  using assms(1,2)
proof (induction es arbitrary: d)
  case (Cons e es)
  show ?case
  proof (cases "fits_endpoint e")
    case True
    then obtain xs where "do_data (snd (snd (read_endpoints version (int (length es)) (reading (concat (map put_endpoint es) @ rest))
          (snd (applyOneGuarded e d))))) = apply_all xs (do_data (snd (applyOneGuarded e d)))"
      "fst (read_endpoints version (int (length es)) (reading (concat (map put_endpoint es) @ rest)) (snd (applyOneGuarded e d))) = False"
      using Cons by (metis list.set_intros(2) set_ConsD)
    then show ?thesis
      using True assms(3) by (subst (1 2) read_endpoints.simps) (auto simp: get_put_endpoint intro: exI [of _ "e # xs"])
  next
    case False
    then obtain s where "get_endpoint version (reading (put_endpoint e @ concat (map put_endpoint es) @ rest)) = (None, s)"
      using get_bad_endpoint [of e version] Cons.prems(1) assms(3) by (metis list.set_intros(1) prod.collapse)
    then show ?thesis by (subst (1 2) read_endpoints.simps) (auto intro: exI [of _ "[]"])
  qed
qed simp

text \<open>What is stored of the data, read into empty data, is those data without the temporary centres.\<close>

definition lasting :: "dc_data \<Rightarrow> dc_data" where
  "lasting data = filter (\<lambda>item. \<not> isTemporaryDcId (fst item)) data"

lemma data_ok_filter: "data_ok data \<Longrightarrow> data_ok (filter P data)"
  by (simp add: data_ok_def sorted_wrt_map sorted_wrt_filter)

lemma filter_ids: "data_ok data \<Longrightarrow> filter (\<lambda>e. ep_id e = i) (concat (map snd data)) = endpoints_of data i"
proof (induction data)
  case (Cons x data)
  note t = data_ok_tail [OF Cons.prems]
  have "filter (\<lambda>e. ep_id e = i) (snd x) = (if i = fst x then snd x else [])"
    using t(2) by (auto simp: list_ok_def filter_empty_conv intro: filter_True)
  moreover have "fst x \<notin> fm_keys data" using t(3) by blast
  then have "endpoints_of data (fst x) = []" using map_of_eq_None_iff [of data "fst x"] by (simp add: endpoints_of_def)
  ultimately show ?case using Cons.IH [OF t(1)] by (cases x) (auto simp: endpoints_of_def)
qed (simp add: endpoints_of_def)

lemma apply_stored:
  assumes "data_ok data"
  shows "apply_all (concat (map snd data)) [] = data"
proof (rule data_eqI [OF fold_apply_ok [OF data_ok_empty] assms])
  fix i
  have "distinct (map address_of ([] @ endpoints_of data i))"
    using data_okD [OF assms, of i] by (auto simp: endpoints_of_def list_ok_def split: option.splits)
  then have "fold add_new (endpoints_of data i) [] = [] @ endpoints_of data i" by (rule fold_new_distinct)
  then show "endpoints_of (apply_all (concat (map snd data)) []) i = endpoints_of data i"
    using fold_apply_endpoints [OF data_ok_empty, of "concat (map snd data)" i] filter_ids [OF assms, of i]
    by (simp add: endpoints_of_def [of "[]"])
qed

subsubsection \<open>Keys\<close>

definition key_fits :: "'k rsa \<Rightarrow> int \<Rightarrow> 64 word \<Rightarrow> 'k \<Rightarrow> bool" where
  "key_fits rs dcId fingerprint k \<longleftrightarrow> is_int32 dcId \<and> short (rs_n rs k) \<and> short (rs_e rs k)
     \<and> rs_make rs (rs_n rs k) (rs_e rs k) = k \<and> rs_valid rs k \<and> rs_fingerprint rs k = fingerprint"

definition keys_ok :: "'k rsa \<Rightarrow> (int, (64 word, 'k) flat_map) flat_map \<Rightarrow> bool" where
  "keys_ok rs keys \<longleftrightarrow> fm_ok keys \<and> (\<forall>item \<in> set keys. snd item \<noteq> [] \<and> fm_ok (snd item)
     \<and> (\<forall>entry \<in> set (snd item). key_fits rs (fst item) (fst entry) (snd entry)))"

lemma get_put_key:
  "key_fits rs dcId (rs_fingerprint rs k) k \<Longrightarrow> get_public_key rs (reading (put_public_key (dcId, rs_n rs k, rs_e rs k) @ rest)) = (Some (dcId, k), reading rest)"
  by (simp add: get_public_key_def put_public_key_def key_fits_def int32.get_put bytes.get_put)

lemma read_keys_stored:
  assumes "\<forall>(dcId, k) \<in> set ks. key_fits rs dcId (rs_fingerprint rs k) k"
  shows "read_keys rs (int (length ks)) (reading (concat (map (\<lambda>(dcId, k). put_public_key (dcId, rs_n rs k, rs_e rs k)) ks))) d
    = (True, d\<lparr>do_cdnPublicKeys := fold (\<lambda>(dcId, k). add_cdn_key dcId (rs_fingerprint rs k) k) ks (do_cdnPublicKeys d)\<rparr>)"
  using assms
proof (induction ks arbitrary: d)
  case Nil
  then show ?case by (subst read_keys.simps) simp
next
  case (Cons x ks)
  obtain dcId k where x: "x = (dcId, k)" by (cases x)
  show ?case using Cons by (subst read_keys.simps) (simp add: x get_put_key)
qed

lemma emplace_above: "\<forall>x \<in> fm_keys m. x < k \<Longrightarrow> fm_emplace k v m = m @ [(k, v)]"
  by (induction m) auto

lemma emplace_there: "fm_ok m \<Longrightarrow> k \<in> fm_keys m \<Longrightarrow> fm_emplace k v m = m"
proof (induction m)
  case (Cons e m)
  then have "k \<noteq> fst e \<Longrightarrow> fst e < k" by auto
  then show ?case using Cons by auto
qed simp

lemma change_last: "k \<notin> fm_keys m \<Longrightarrow> fm_change k f (m @ [(k, v)]) = m @ [(k, f v)]"
  by (force simp: fm_change_def intro!: map_idI)

lemma add_keys_of_one:
  assumes "fm_ok (acc @ [(dcId, inner)])" "fm_ok (inner @ entries)" "\<forall>entry \<in> set entries. rs_fingerprint rs (snd entry) = fst entry"
  shows "fold (\<lambda>(dcId, k). add_cdn_key dcId (rs_fingerprint rs k) k) (map (\<lambda>entry. (dcId, snd entry)) entries)
      (acc @ [(dcId, inner)]) = acc @ [(dcId, inner @ entries)]"
  using assms
proof (induction entries arbitrary: inner)
  case (Cons x entries)
  obtain f k where x: "x = (f, k)" by (cases x)
  have out: "dcId \<notin> fm_keys acc" using Cons.prems(1) by (auto simp: sorted_wrt_append)
  have above: "\<forall>y \<in> fm_keys inner. y < f" using Cons.prems(2) by (auto simp: sorted_wrt_append x)
  have "add_cdn_key dcId f k (acc @ [(dcId, inner)]) = acc @ [(dcId, inner @ [x])]"
    using emplace_there [OF Cons.prems(1)] change_last [OF out] emplace_above [OF above] by (simp add: add_cdn_key_def x)
  moreover have "fm_ok (acc @ [(dcId, inner @ [x])])" using Cons.prems(1) by simp
  ultimately show ?case using Cons.IH [of "inner @ [x]"] Cons.prems by (simp add: x)
qed simp

lemma add_stored_keys:
  assumes "fm_ok (acc @ keys)" "keys_ok rs keys"
  shows "fold (\<lambda>(dcId, k). add_cdn_key dcId (rs_fingerprint rs k) k)
      (concat (map (\<lambda>item. map (\<lambda>entry. (fst item, snd entry)) (snd item)) keys)) acc = acc @ keys"
  using assms
proof (induction keys arbitrary: acc)
  case (Cons item keys)
  obtain dcId entries where item: "item = (dcId, entries)" by (cases item)
  obtain f k rest where e: "entries = (f, k) # rest" using Cons.prems(2) by (cases entries) (auto simp: keys_ok_def item)
  have ok: "fm_ok ([] @ entries)" "\<forall>entry \<in> set entries. rs_fingerprint rs (snd entry) = fst entry"
    using Cons.prems(2) by (auto simp: keys_ok_def item key_fits_def)
  have above: "\<forall>x \<in> fm_keys acc. x < dcId" using Cons.prems(1) by (auto simp: sorted_wrt_append item)
  have acc: "fm_ok (acc @ [(dcId, [])])" "fm_ok (acc @ [(dcId, entries)])"
    using Cons.prems(1) by (auto simp: sorted_wrt_append item)
  have "dcId \<notin> fm_keys acc" using above by blast
  then have "add_cdn_key dcId f k acc = add_cdn_key dcId f k (acc @ [(dcId, [])])"
    using emplace_above [OF above] emplace_there [OF acc(1)] by (simp add: add_cdn_key_def)
  then have "fold (\<lambda>(dcId, k). add_cdn_key dcId (rs_fingerprint rs k) k) (map (\<lambda>entry. (dcId, snd entry)) entries) acc
      = fold (\<lambda>(dcId, k). add_cdn_key dcId (rs_fingerprint rs k) k) (map (\<lambda>entry. (dcId, snd entry)) entries) (acc @ [(dcId, [])])"
    using ok(2) by (simp add: e)
  then have "fold (\<lambda>(dcId, k). add_cdn_key dcId (rs_fingerprint rs k) k) (map (\<lambda>entry. (dcId, snd entry)) entries) acc = acc @ [item]"
    using add_keys_of_one [OF acc(1) ok] by (simp add: item)
  then show ?case using Cons.IH [of "acc @ [item]"] Cons.prems by (simp add: item keys_ok_def)
qed simp

subsubsection \<open>Round trip\<close>

definition countable_in_file :: "'k dc_options \<Rightarrow> bool" where
  "countable_in_file d \<longleftrightarrow> is_int32 (int (length (stored_endpoints d))) \<and> is_int32 (int (length (stored_keys d)))"

lemma stored_lasting: "stored_endpoints d = concat (map snd (lasting (do_data d)))"
  by (simp add: stored_endpoints_def lasting_def)

lemma version_number [simp]: "is_int32 (- kVersion)" "kVersion \<noteq> 2147483648" "0 < kVersion" "kVersion > 1"
  by (simp_all add: kVersion_def is_int32_def)

lemma construct_stored:
  assumes "countable_in_file d"
  shows "dc_constructFromSerialized rs (dc_stored rs d) e =
    (let (ok, s, d') = read_endpoints kVersion (int (length (stored_endpoints d)))
           (reading (concat (map put_endpoint (stored_endpoints d)) @ put_int32 (int (length (stored_keys d)))
             @ concat (map (\<lambda>(dcId, k). put_public_key (dcId, rs_n rs k, rs_e rs k)) (stored_keys d)))) (e\<lparr>do_data := []\<rparr>);
         (ok, d') = (if ok then read_cdn_config rs kVersion s d' else (False, d'))
     in map_option (Pair ok) (computeCdnDcIds d'))"
  using assms by (simp add: dc_constructFromSerialized_def dc_stored_def int32.get_put countable_in_file_def)

text \<open>What is written is read back into a fresh object, in the same order.\<close>

lemma dc_read_back:
  assumes "options_ok d" "\<not> do_immutable d" "keys_ok rs (do_cdnPublicKeys d)" "countable_in_file d"
    "\<forall>e \<in> set (stored_endpoints d). fits_endpoint e" "do_cdnPublicKeys e = []"
  shows "\<exists>bytes. dc_serialize rs d = Some bytes \<and> dc_constructFromSerialized rs bytes e =
    Some (True, e\<lparr>do_data := lasting (do_data d), do_cdnDcIds := cdn_ids (lasting (do_data d)), do_cdnPublicKeys := do_cdnPublicKeys d\<rparr>)"
proof -
  define keys where "keys = concat (map (\<lambda>(dcId, k). put_public_key (dcId, rs_n rs k, rs_e rs k)) (stored_keys d))"
  have data: "data_ok (lasting (do_data d))" using assms(1) by (simp add: options_ok_def lasting_def data_ok_filter)
  have "\<forall>(dcId, k) \<in> set (stored_keys d). key_fits rs dcId (rs_fingerprint rs k) k"
    using assms(3) by (fastforce simp: stored_keys_def keys_ok_def key_fits_def)
  note keys = read_keys_stored [OF this, folded keys_def]
  have "apply_all (stored_endpoints d) [] = lasting (do_data d)" using apply_stored [OF data] by (simp only: stored_lasting)
  then have endpoints: "read_endpoints kVersion (int (length (stored_endpoints d)))
      (reading (concat (map put_endpoint (stored_endpoints d)) @ put_int32 (int (length (stored_keys d))) @ keys)) (e\<lparr>do_data := []\<rparr>)
    = (True, reading (put_int32 (int (length (stored_keys d))) @ keys), e\<lparr>do_data := lasting (do_data d)\<rparr>)"
    by (simp add: read_endpoints_stored [OF assms(5)])
  have "put_int32 (int (length (stored_keys d))) @ keys \<noteq> []" by (metis append_is_Nil_conv length_put_int32 list.size(3) zero_neq_numeral)
  moreover have "fm_ok ([] @ do_cdnPublicKeys d)" using assms(3) by (simp add: keys_ok_def)
  from add_stored_keys [OF this assms(3)]
  have "fold (\<lambda>(dcId, k). add_cdn_key dcId (rs_fingerprint rs k) k) (stored_keys d) [] = do_cdnPublicKeys d"
    by (simp add: stored_keys_def)
  ultimately have "read_cdn_config rs kVersion (reading (put_int32 (int (length (stored_keys d))) @ keys)) (e\<lparr>do_data := lasting (do_data d)\<rparr>)
    = (True, e\<lparr>do_data := lasting (do_data d), do_cdnPublicKeys := do_cdnPublicKeys d\<rparr>)"
    using assms(4,6) by (simp add: read_cdn_config_def countable_in_file_def int32.get_put keys)
  then have "dc_constructFromSerialized rs (dc_stored rs d) e =
    map_option (Pair True) (computeCdnDcIds (e\<lparr>do_data := lasting (do_data d), do_cdnPublicKeys := do_cdnPublicKeys d\<rparr>))"
    unfolding construct_stored [OF assms(4)] keys_def [symmetric] endpoints by simp
  then show ?thesis using assms(2) data by (simp add: dc_serialize_def compute_ok)
qed

definition ex_rsa :: "nat rsa" where
  "ex_rsa = \<lparr>rs_parse = (\<lambda>_. 9), rs_make = (\<lambda>n e. 9), rs_valid = (\<lambda>k. k = 9), rs_fingerprint = (\<lambda>k. 7),
     rs_n = (\<lambda>k. [1, 2]), rs_e = (\<lambda>k. [3])\<rparr>"

definition ex_long :: "nat dc_options" where
  "ex_long = ex_options\<lparr>do_data := [(2, [ex_endpoint\<lparr>ep_secret := 0xEE # replicate 32 1\<rparr>])]\<rparr>"

lemma ex_stored:
  "stored_endpoints ex_options = [ex_endpoint]" "stored_keys ex_options = [(2, 9)]"
  "lasting (do_data ex_options) = [(2, [ex_endpoint])]"
  "stored_endpoints ex_long = [ex_endpoint\<lparr>ep_secret := 0xEE # replicate 32 1\<rparr>]" "stored_keys ex_long = [(2, 9)]"
  by (simp_all add: stored_endpoints_def stored_keys_def lasting_def ex_long_def ex_options_def isTemporaryDcId_def BareDcId_def
      dc_consts signed_modulo_int_def signed_divide_int_def)

text \<open>An address or a secret that is too long is refused when it is read.\<close>

lemma dc_unreadable:
  assumes "options_ok d" "\<not> do_immutable d" "countable_in_file d" "\<forall>e \<in> set (stored_endpoints d). storable e"
    "\<exists>e \<in> set (stored_endpoints d). \<not> fits_endpoint e"
  shows "\<exists>bytes e'. dc_serialize rs d = Some bytes \<and> dc_constructFromSerialized rs bytes e = Some (False, e')"
proof -
  define rest where "rest = put_int32 (int (length (stored_keys d)))
    @ concat (map (\<lambda>(dcId, k). put_public_key (dcId, rs_n rs k, rs_e rs k)) (stored_keys d))"
  obtain s d' xs where r: "read_endpoints kVersion (int (length (stored_endpoints d)))
      (reading (concat (map put_endpoint (stored_endpoints d)) @ rest)) (e\<lparr>do_data := []\<rparr>) = (False, s, d')"
      "do_data d' = apply_all xs []"
    using read_endpoints_bad [OF assms(4,5), of kVersion rest "e\<lparr>do_data := []\<rparr>"]
    by (cases "read_endpoints kVersion (int (length (stored_endpoints d)))
      (reading (concat (map put_endpoint (stored_endpoints d)) @ rest)) (e\<lparr>do_data := []\<rparr>)") auto
  have "data_ok (do_data d')" unfolding r(2) by (rule fold_apply_ok) simp
  then show ?thesis
    using assms(2) r(1) by (auto simp: dc_serialize_def construct_stored [OF assms(3)] compute_ok simp flip: rest_def)
qed

subsection \<open>Lookup\<close>

definition usable :: "dc_type \<Rightarrow> endpoint \<Rightarrow> bool" where
  "usable type e \<longleftrightarrow> (type = DcCdn \<longrightarrow> has_flag f_cdn e) \<and> (type \<noteq> DcMediaCluster \<longrightarrow> \<not> has_flag f_media_only e)
     \<and> ValidateSecret (ep_secret e)"

definition speaks :: "address \<Rightarrow> protocol \<Rightarrow> endpoint \<Rightarrow> bool" where
  "speaks a p e \<longleftrightarrow> (a = IPv6 \<longleftrightarrow> has_flag f_ipv6 e)
     \<and> (p = HttpProtocol \<longrightarrow> \<not> has_flag f_tcpo_only e \<and> \<not> has_flag f_secret e)"

definition preferring :: "bool \<Rightarrow> 32 word \<Rightarrow> endpoint list \<Rightarrow> endpoint list" where
  "preferring wished flag es = (if wished \<and> list_ex (has_flag flag) es then filter (has_flag flag) es else es)"

lemma has_flag_or: "has_flag (f OR g) e \<longleftrightarrow> has_flag f e \<or> has_flag g e"
proof -
  have "ep_flags e AND (f OR g) = (ep_flags e AND f) OR (ep_flags e AND g)" by (rule bit.conj_disj_distrib)
  then show ?thesis by (simp add: has_flag_def or_eq_0_iff)
qed

lemma fold_lookup: "fold (lookup_one type) es v a p = v a p @ filter (\<lambda>e. usable type e \<and> speaks a p e) es"
proof (induction es arbitrary: v)
  case (Cons e es)
  have "lookup_one type e v a p = v a p @ (if usable type e \<and> speaks a p e then [e] else [])"
    by (cases a; cases p) (auto simp: lookup_one_def usable_def speaks_def push_variant_def has_flag_or Let_def)
  then show ?case using Cons by simp
qed simp

lemma preferring_set: "set (preferring b f es) \<subseteq> set es" "preferring b f es = [] \<longleftrightarrow> es = []"
  by (auto simp: preferring_def list_ex_iff filter_empty_conv)

text \<open>
  C39. What \<open>lookup\<close> finds. For each address type and protocol it gives the endpoints of the data
  centre, in their order, that may be used for that type of data centre and speak that protocol; of
  these, when a media cluster is asked for, only those for media if there are any, and then behind a
  proxy only the static ones if there are any. Preferring never empties the choice: nothing is found
  exactly when no endpoint is usable.
\<close>
theorem dc_lookup_correct:
  "dc_lookup i type proxy d a p = preferring proxy f_static (preferring (type = DcMediaCluster) f_media_only
      (filter (\<lambda>e. usable type e \<and> speaks a p e) (endpoints_of (do_data d) i)))
    \<and> (dc_lookup i type proxy d a p = [] \<longleftrightarrow> (\<forall>e \<in> set (endpoints_of (do_data d) i). \<not> (usable type e \<and> speaks a p e)))"
proof -
  have l: "dc_lookup i type proxy d a p = preferring proxy f_static (preferring (type = DcMediaCluster) f_media_only
      (filter (\<lambda>e. usable type e \<and> speaks a p e) (endpoints_of (do_data d) i)))"
    by (auto simp: dc_lookup_def endpoints_of_def fold_lookup preferring_def FilterIfHasWithFlag_def Let_def split: option.splits)
  show ?thesis unfolding l by (simp add: preferring_set(2) filter_empty_conv)
qed

theorem dc_lookup_correct_witness:
  "dc_lookup 2 DcRegular True ex_options IPv4 HttpProtocol = [ex_endpoint]
    \<and> dc_lookup 2 DcCdn False ex_options IPv4 TcpProtocol = []"
proof -
  have e: "endpoints_of (do_data ex_options) 2 = [ex_endpoint]" by (simp add: endpoints_of_def ex_options_def)
  show ?thesis
    using dc_lookup_correct [of 2 DcRegular True ex_options IPv4 HttpProtocol]
      dc_lookup_correct [of 2 DcCdn False ex_options IPv4 TcpProtocol]
    by (simp add: e preferring_def usable_def speaks_def has_flag_def ex_endpoint_def ValidateSecret_def)
qed

subsection \<open>Runs\<close>

datatype 'k dc_event =
    OneAdded endpoint
  | ListSet "endpoint option list"
  | ListAdded "endpoint option list"
  | OtherAdded "'k dc_options"
  | Loaded "byte list"
  | CdnSet "(int \<times> string) list"
  | FileLoaded "string \<Rightarrow> address option" "string \<Rightarrow> int" "string list list option"

definition dc_do :: "'k rsa \<Rightarrow> 'k dc_event \<Rightarrow> 'k dc_options \<Rightarrow> 'k dc_options option" where
  "dc_do rs ev d = (case ev of
       OneAdded e \<Rightarrow> constructAddOne e d
     | ListSet xs \<Rightarrow> map_option snd (setFromList xs d)
     | ListAdded xs \<Rightarrow> map_option snd (addFromList xs d)
     | OtherAdded other \<Rightarrow> map_option snd (addFromOther other d)
     | Loaded bs \<Rightarrow> map_option snd (dc_constructFromSerialized rs bs d)
     | CdnSet config \<Rightarrow> setCDNConfig rs config d
     | FileLoaded setAddress toInt file \<Rightarrow> map_option (snd \<circ> snd) (loadFromFile setAddress toInt file d))"

text \<open>Identifiers stay below the largest \<open>int32\<close>, which \<open>CountOptionsDifference\<close> uses as a mark.\<close>

definition dc_sane :: "'k rsa \<Rightarrow> 'k dc_event \<Rightarrow> 'k dc_options \<Rightarrow> bool" where
  "dc_sane rs ev d \<longleftrightarrow> (case ev of
       OneAdded e \<Rightarrow> True
     | ListSet xs \<Rightarrow> \<forall>e. Some e \<in> set xs \<longrightarrow> ep_id e < max_dc
     | ListAdded xs \<Rightarrow> \<forall>e. Some e \<in> set xs \<longrightarrow> ep_id e < max_dc
     | OtherAdded other \<Rightarrow> options_ok other
     | Loaded bs \<Rightarrow> fst (get_int32 (reading bs)) \<noteq> - (2 ^ 31)
         \<and> (\<forall>ok d'. dc_constructFromSerialized rs bs d = Some (ok, d') \<longrightarrow> ids_below (do_data d'))
     | CdnSet config \<Rightarrow> True
     | FileLoaded setAddress toInt file \<Rightarrow> True)"

inductive dc_run :: "'k rsa \<Rightarrow> 'k dc_options \<Rightarrow> 'k dc_options \<Rightarrow> bool" for rs d where
  start: "dc_run rs d d"
| event: "dc_run rs d u \<Longrightarrow> dc_sane rs ev u \<Longrightarrow> dc_do rs ev u = Some v \<Longrightarrow> dc_run rs d v"

lemma apply_list_data: "snd (apply_list es d) = d\<lparr>do_data := apply_all es (do_data d)\<rparr>"
proof -
  have "snd (fold (\<lambda>e (result, d). let (added, d) = applyOneGuarded e d in (result \<or> added, d)) es (b, d))
      = d\<lparr>do_data := apply_all es (do_data d)\<rparr>" for b
    by (induction es arbitrary: b d) (simp_all add: split_beta)
  then show ?thesis by (simp add: apply_list_def)
qed

lemma fold_other_data:
  "snd (fold (\<lambda>item (ids, d). let (result, d) = apply_list (snd item) d in (if result then ids @ [fst item] else ids, d)) items (ids, d))
    = d\<lparr>do_data := apply_all (concat (map snd items)) (do_data d)\<rparr>"
  by (induction items arbitrary: ids d) (simp_all add: split_beta apply_list_data)

lemma read_endpoints_data: "\<exists>es. snd (snd (read_endpoints version left s d)) = d\<lparr>do_data := apply_all es (do_data d)\<rparr>"
proof (induction version left s d rule: read_endpoints.induct)
  case (1 version left s d)
  show ?case
  proof (cases "get_endpoint version s")
    case (Pair e t)
    show ?thesis
    proof (cases "left = 0 \<or> e = None")
      case True
      then have "snd (snd (read_endpoints version left s d)) = d\<lparr>do_data := apply_all [] (do_data d)\<rparr>"
        by (subst read_endpoints.simps) (auto simp: Pair)
      then show ?thesis ..
    next
      case False
      then obtain x where x: "e = Some x" by blast
      then obtain es where "snd (snd (read_endpoints version (left - 1) t (snd (applyOneGuarded x d))))
          = snd (applyOneGuarded x d)\<lparr>do_data := apply_all es (do_data (snd (applyOneGuarded x d)))\<rparr>"
        using "1.IH" [OF _ Pair [symmetric] x] False by blast
      then have "snd (snd (read_endpoints version left s d)) = d\<lparr>do_data := apply_all (x # es) (do_data d)\<rparr>"
        using False x by (subst read_endpoints.simps) (simp add: Pair)
      then show ?thesis ..
    qed
  qed
qed

lemma read_keys_data: "do_data (snd (read_keys rs left s d)) = do_data d"
proof (induction rs left s d rule: read_keys.induct)
  case (1 rs left s d)
  show ?case
  proof (cases "get_public_key rs s")
    case (Pair x t)
    show ?thesis
    proof (cases "left = 0 \<or> x = None")
      case False
      then obtain dcId k where "x = Some (dcId, k)" by auto
      then show ?thesis using "1.IH" [OF _ Pair [symmetric], of "(dcId, k)"] False by (subst read_keys.simps) (auto simp: Pair)
    qed (subst read_keys.simps, auto simp: Pair)
  qed
qed

lemma construct_ok:
  assumes "fst (get_int32 (reading bs)) \<noteq> - (2 ^ 31)" "options_ok d"
  obtains ok d' where "dc_constructFromSerialized rs bs d = Some (ok, d')" "ids_below (do_data d') \<Longrightarrow> options_ok d'"
proof -
  obtain m s where m: "get_int32 (reading bs) = (m, s)" by (meson surj_pair)
  define version where "version = (if m < 0 then - m else 0)"
  obtain count t where c: "(if version > 0 then get_int32 s else (m, s)) = (count, t)" by (meson surj_pair)
  show ?thesis
  proof (cases "st_ok t")
    case False
    then have "dc_constructFromSerialized rs bs d = Some (False, d)"
      using assms(1) c by (simp add: dc_constructFromSerialized_def m Let_def flip: version_def)
    then show ?thesis using that assms(2) by blast
  next
    case True
    obtain ok u d1 where r: "read_endpoints version count t (d\<lparr>do_data := []\<rparr>) = (ok, u, d1)" by (metis prod_cases3)
    obtain ok2 d2 where k: "(if ok then read_cdn_config rs version u d1 else (False, d1)) = (ok2, d2)" by (meson surj_pair)
    obtain es where "do_data d1 = apply_all es []"
      using read_endpoints_data [of version count t "d\<lparr>do_data := []\<rparr>"] r by auto
    then have d1: "data_ok (do_data d1)" using fold_apply_ok [OF data_ok_empty] by simp
    have "do_data (snd (read_cdn_config rs version u d1)) = do_data d1"
      by (auto simp: read_cdn_config_def read_keys_data split_beta)
    then have d2: "data_ok (do_data d2)" using d1 k by (auto split: if_splits)
    have "dc_constructFromSerialized rs bs d = Some (ok2, d2\<lparr>do_cdnDcIds := cdn_ids (do_data d2)\<rparr>)"
      using assms(1) c True r k compute_ok [OF d2]
      by (simp add: dc_constructFromSerialized_def m Let_def flip: version_def)
    then show ?thesis using that d2 options_ok_compute by fastforce
  qed
qed

lemma concat_below:
  assumes "options_ok other"
  shows "\<forall>e \<in> set (concat (map snd (do_data other))). ep_id e < max_dc"
  using assms by (fastforce simp: options_ok_def data_ok_def list_ok_def ids_below_def)

lemma other_ok:
  fixes d other :: "'k dc_options"
  assumes "options_ok d" "options_ok other"
  obtains ids d' where "addFromOther other d = Some (ids, d')" "options_ok d'"
proof (cases "do_immutable d \<or> do_data other = []")
  case True
  then have "addFromOther other d = Some ([], d)" by (simp add: addFromOther_def)
  then show ?thesis by (rule that) (rule assms(1))
next
  case False
  define step :: "int \<times> endpoint list \<Rightarrow> int list \<times> 'k dc_options \<Rightarrow> int list \<times> 'k dc_options" where "step = (\<lambda>item (ids, d). let (result, d) = apply_list (snd item) d in (if result then ids @ [fst item] else ids, d))"
  obtain ids d1 where f: "fold step (do_data other) ([], d) = (ids, d1)" by (meson surj_pair)
  have d1: "d1 = d\<lparr>do_data := apply_all (concat (map snd (do_data other))) (do_data d)\<rparr>"
    using fold_other_data [of "do_data other" "[]" d] f unfolding step_def by simp
  have ok: "data_ok (do_data d1)" "ids_below (do_data d1)"
    using assms(1) fold_apply_ok fold_apply_below [OF _ concat_below [OF assms(2)]] by (simp_all add: d1 options_ok_def)
  define keys where "keys = fold (\<lambda>item keys. fold (\<lambda>entry. add_cdn_key (fst item) (fst entry) (snd entry)) (snd item) keys)
    (do_cdnPublicKeys other) (do_cdnPublicKeys d1)"
  have "addFromOther other d =
    (let (idsChanged, d') = fold step (do_data other) ([], d);
         keys = fold (\<lambda>item keys. fold (\<lambda>entry. add_cdn_key (fst item) (fst entry) (snd entry)) (snd item) keys)
           (do_cdnPublicKeys other) (do_cdnPublicKeys d')
     in map_option (Pair idsChanged) (computeCdnDcIds (d'\<lparr>do_cdnPublicKeys := keys\<rparr>)))"
    using False by (simp add: addFromOther_def step_def)
  then have "addFromOther other d = map_option (Pair ids) (computeCdnDcIds (d1\<lparr>do_cdnPublicKeys := keys\<rparr>))"
    by (simp add: f keys_def)
  also have "\<dots> = Some (ids, d1\<lparr>do_cdnPublicKeys := keys, do_cdnDcIds := cdn_ids (do_data d1)\<rparr>)"
    using compute_ok [of "d1\<lparr>do_cdnPublicKeys := keys\<rparr>"] ok(1) by simp
  finally show ?thesis by (rule that) (use ok in \<open>simp add: options_ok_def\<close>)
qed

lemma bare_below: "BareDcId x < max_dc"
proof (cases "0 \<le> x")
  case True
  then show ?thesis
    by (simp add: BareDcId_def dc_consts max_dc_def signed_modulo_int_def signed_divide_int_def sgn_if minus_div_mult_eq_mod
        less_le_trans [OF pos_mod_bound])
next
  case False
  have "\<bar>x\<bar> div 10000 * 10000 \<le> \<bar>x\<bar>" using minus_mod_eq_div_mult [of "\<bar>x\<bar>" 10000] pos_mod_sign [of 10000 "\<bar>x\<bar>"] by linarith
  then have "x smod 10000 \<le> 0" using False by (simp add: signed_modulo_int_def signed_divide_int_def sgn_if)
  then show ?thesis by (simp add: BareDcId_def dc_consts max_dc_def)
qed

lemma process_some:
  assumes "options_ok d" "\<forall>e. Some e \<in> set xs \<longrightarrow> ep_id e < max_dc"
  shows "\<exists>ids d'. processFromList xs overwrite d = Some (ids, d') \<and> options_ok d'"
  by (rule process_ok [OF assms, of overwrite]) blast

lemma load_below: "load_lines setAddress toInt ls = Some es \<Longrightarrow> \<forall>e \<in> set es. ep_id e < max_dc"
proof (induction ls arbitrary: es)
  case (Cons x ls)
  have "ep_id e < max_dc" if "load_endpoint setAddress toInt x = Some e" for e
    using that by (auto simp: load_endpoint_def Let_def max_dc_def kDcShift_def split: if_splits)
  with Cons show ?case by (fastforce split: if_splits option.splits)
qed simp

lemma file_ok:
  assumes "options_ok d"
  shows "\<exists>ok ids d'. loadFromFile setAddress toInt file d = Some (ok, ids, d') \<and> options_ok d'"
proof (cases "\<exists>ls es. file = Some ls \<and> load_lines setAddress toInt ls = Some es \<and> es \<noteq> []")
  case True
  then obtain ls es where f: "file = Some ls" "load_lines setAddress toInt ls = Some es" "es \<noteq> []" by blast
  have "options_ok (d\<lparr>do_immutable := False\<rparr>)" using assms by (simp add: options_ok_def)
  then obtain ids d' where "processFromList (map Some es) True (d\<lparr>do_immutable := False\<rparr>) = Some (ids, d')" "options_ok d'"
    using process_some [of "d\<lparr>do_immutable := False\<rparr>" "map Some es" True] load_below [OF f(2)] by auto
  then show ?thesis using f by (auto simp: loadFromFile_def setFromList_def options_ok_def)
qed (use assms in \<open>auto simp: loadFromFile_def split: option.splits\<close>)

lemma dc_do_ok:
  fixes d :: "'k dc_options"
  assumes "options_ok d" "dc_sane rs ev d"
  obtains d' where "dc_do rs ev d = Some d'" "options_ok d'"
proof (cases ev)
  case (OneAdded e)
  let ?d = "snd (applyOneGuarded (e\<lparr>ep_id := BareDcId (ep_id e)\<rparr>) d)"
  have d: "data_ok (do_data ?d)" "ids_below (do_data ?d)"
    using assms(1) apply_ok apply_below [of "do_data d" "e\<lparr>ep_id := BareDcId (ep_id e)\<rparr>"] bare_below by (simp_all add: options_ok_def)
  then show ?thesis using that [OF _ options_ok_compute [OF d]] OneAdded compute_ok [OF d(1)] by (simp add: dc_do_def constructAddOne_def)
next
  case (ListSet xs)
  then obtain ids d' where "processFromList xs True d = Some (ids, d')" "options_ok d'"
    using process_some [OF assms(1), of xs True] assms(2) by (auto simp: dc_sane_def)
  then show ?thesis using that ListSet by (simp add: dc_do_def setFromList_def)
next
  case (ListAdded xs)
  then obtain ids d' where "processFromList xs False d = Some (ids, d')" "options_ok d'"
    using process_some [OF assms(1), of xs False] assms(2) by (auto simp: dc_sane_def)
  then show ?thesis using that ListAdded by (simp add: dc_do_def addFromList_def)
next
  case (OtherAdded other)
  then obtain ids d' where "addFromOther other d = Some (ids, d')" "options_ok d'"
    using other_ok [OF assms(1), of other] assms(2) by (auto simp: dc_sane_def)
  then show ?thesis using that OtherAdded by (simp add: dc_do_def)
next
  case (Loaded bs)
  then have "fst (get_int32 (reading bs)) \<noteq> - (2 ^ 31)"
    "\<And>ok d'. dc_constructFromSerialized rs bs d = Some (ok, d') \<Longrightarrow> ids_below (do_data d')"
    using assms(2) by (auto simp: dc_sane_def)
  then obtain ok d' where "dc_constructFromSerialized rs bs d = Some (ok, d')" "options_ok d'"
    using construct_ok [OF _ assms(1), of bs rs] by metis
  then show ?thesis using that Loaded by (simp add: dc_do_def)
next
  case (FileLoaded setAddress toInt f)
  then show ?thesis using that file_ok [OF assms(1), of setAddress toInt f] by (auto simp: dc_do_def)
next
  case (CdnSet config)
  define f :: "int \<times> string \<Rightarrow> 'k dc_options \<Rightarrow> 'k dc_options" where "f = (\<lambda>(dcId, text) d. let key = rs_parse rs text
      in if rs_valid rs key then d\<lparr>do_cdnPublicKeys := add_cdn_key dcId (rs_fingerprint rs key) key (do_cdnPublicKeys d)\<rparr> else d)"
  define d1 where "d1 = fold f config (d\<lparr>do_cdnPublicKeys := []\<rparr>)"
  have "do_data (fold f config e) = do_data e" for e
    by (induction config arbitrary: e) (auto simp: f_def Let_def)
  then have "do_data d1 = do_data d" by (simp add: d1_def)
  then have d: "data_ok (do_data d1)" "ids_below (do_data d1)" using assms(1) by (simp_all add: options_ok_def)
  then show ?thesis
    using that [OF _ options_ok_compute [OF d]] CdnSet compute_ok [OF d(1)] by (simp add: dc_do_def setCDNConfig_def d1_def f_def)
qed

lemma dc_run_ok: "dc_run rs d u \<Longrightarrow> options_ok d \<Longrightarrow> options_ok u"
proof (induction rule: dc_run.induct)
  case (event u ev v)
  then show ?case by (metis dc_do_ok option.inject)
qed simp

lemma read_public_keys_fields: "do_data (readBuiltInPublicKeys rs d) = do_data d"
  "do_environment (readBuiltInPublicKeys rs d) = do_environment d"
  "do_cdnPublicKeys (readBuiltInPublicKeys rs d) = do_cdnPublicKeys d"
  "do_immutable (readBuiltInPublicKeys rs d) = do_immutable d"
  by (simp_all add: readBuiltInPublicKeys_def kTestPublicRSAKeys_def kPublicRSAKeys_def Let_def)

lemma fold_built_in:
  "fold (\<lambda>x d. snd (applyOneGuarded (built_in flags x) d)) xs d = d\<lparr>do_data := apply_all (map (built_in flags) xs) (do_data d)\<rparr>"
  by (induction xs arbitrary: d) simp_all

lemma built_in_below: "\<forall>x \<in> set xs. fst x < max_dc \<Longrightarrow> \<forall>e \<in> set (map (built_in flags) xs). ep_id e < max_dc"
  by (auto simp: built_in_def)

lemma new_options_ok:
  obtains d where "new_DcOptions rs env = Some d" "options_ok d" "do_cdnPublicKeys d = []" "do_environment d = env"
    "\<not> do_immutable d"
proof -
  define d0 where "d0 = readBuiltInPublicKeys rs \<lparr>do_environment = env, do_data = [], do_cdnDcIds = [], do_publicKeys = [],
    do_cdnPublicKeys = [], do_immutable = False\<rparr>"
  define xs where "xs = (if isTestMode d0 then kBuiltInDcsTest else kBuiltInDcs)"
  define ys where "ys = (if isTestMode d0 then kBuiltInDcsIPv6Test else kBuiltInDcsIPv6)"
  define data where "data = apply_all (map (built_in (f_static OR f_ipv6)) ys) (apply_all (map (built_in f_static) xs) [])"
  have d0: "do_data d0 = []" by (simp add: d0_def read_public_keys_fields)
  have "\<forall>x \<in> set xs. fst x < max_dc" "\<forall>y \<in> set ys. fst y < max_dc"
    by (auto simp: xs_def ys_def kBuiltInDcs_def kBuiltInDcsTest_def kBuiltInDcsIPv6_def kBuiltInDcsIPv6Test_def max_dc_def)
  then have data: "data_ok data" "ids_below data"
    unfolding data_def by (intro fold_apply_ok fold_apply_below built_in_below; simp add: ids_below_def)+
  have "new_DcOptions rs env = computeCdnDcIds (d0\<lparr>do_data := data\<rparr>)"
    unfolding new_DcOptions_def constructFromBuiltIn_def fold_built_in
    by (simp add: d0 data_def xs_def ys_def isTestMode_def flip: d0_def)
  also have "\<dots> = Some (d0\<lparr>do_data := data, do_cdnDcIds := cdn_ids data\<rparr>)" using compute_ok [of "d0\<lparr>do_data := data\<rparr>"] data(1) by simp
  finally show ?thesis by (rule that) (use data in \<open>simp_all add: options_ok_def d0_def read_public_keys_fields\<close>)
qed

text \<open>
  C38. \<open>DcOptions\<close> keeps its data in order. From the built in addresses on, in every run of additions,
  lists from the server, other options taken over, settings and files loaded (also when they are broken)
  and keys set, no assertion of the class fails in the next operation, no data centre is left without an
  endpoint, and the enumeration of data centres is in order and gives exactly those that are neither
  CDNs nor temporary; data centres numbered \<open>2^31 - 1\<close> and stored versions of \<open>-2^31\<close> are left out.
\<close>
theorem dc_options_safe:
  assumes "new_DcOptions rs env = Some d" "dc_run rs d u"
  shows "(dc_sane rs ev u \<longrightarrow> dc_do rs ev u \<noteq> None) \<and> (\<forall>item \<in> set (do_data u). snd item \<noteq> [])
    \<and> (\<exists>ids. configEnumDcIds u = Some ids \<and> strictly_sorted ids
        \<and> (\<forall>i. i \<in> set ids \<longleftrightarrow> endpoints_of (do_data u) i \<noteq> [] \<and> \<not> has_flag f_cdn (hd (endpoints_of (do_data u) i)) \<and> \<not> isTemporaryDcId i))"
proof -
  have "options_ok d" by (rule new_options_ok [of rs env]) (use assms(1) in simp)
  then have u: "options_ok u" using dc_run_ok [OF assms(2)] by blast
  then have data: "data_ok (do_data u)" by (simp add: options_ok_def)
  then have full: "\<forall>item \<in> set (do_data u). snd item \<noteq> []" by (simp add: data_ok_def list_ok_def)
  define xs where "xs = map fst (filter (\<lambda>item. \<not> has_flag f_cdn (hd (snd item)) \<and> \<not> isTemporaryDcId (fst item)) (do_data u))"
  have "fm_ok (filter (\<lambda>item. \<not> has_flag f_cdn (hd (snd item)) \<and> \<not> isTemporaryDcId (fst item)) (do_data u))"
    using data_ok_filter [OF data] by (simp add: data_ok_def)
  then have s: "strictly_sorted xs" by (simp add: xs_def)
  then have "sort xs = xs" by (simp add: sorted_sort_id strictly_sorted_iff)
  then have c: "configEnumDcIds u = Some xs" using full by (auto simp: configEnumDcIds_def xs_def list_ex_iff)
  have m: "(i, es) \<in> set (do_data u) \<longleftrightarrow> map_of (do_data u) i = Some es" for i es
    using map_of_iff data unfolding data_ok_def by metis
  have "i \<in> set xs \<longleftrightarrow> endpoints_of (do_data u) i \<noteq> [] \<and> \<not> has_flag f_cdn (hd (endpoints_of (do_data u) i)) \<and> \<not> isTemporaryDcId i" for i
  proof -
    have "i \<in> set xs \<longleftrightarrow> (\<exists>es. map_of (do_data u) i = Some es \<and> \<not> has_flag f_cdn (hd es) \<and> \<not> isTemporaryDcId i)"
      unfolding xs_def using m by force
    then show ?thesis using data_okD [OF data, of i] by (auto simp: endpoints_of_def list_ok_def split: option.splits)
  qed
  then show ?thesis using dc_do_ok [OF u] full c s by (metis option.distinct(1))
qed

theorem dc_options_safe_witness:
  "\<exists>d u. new_DcOptions ex_rsa Production = Some d \<and> dc_run ex_rsa d u \<and> (\<forall>item \<in> set (do_data u). snd item \<noteq> [])
    \<and> dc_do ex_rsa (CdnSet []) u \<noteq> None"
proof -
  obtain d where d: "new_DcOptions ex_rsa Production = Some d" "options_ok d"
    using new_options_ok [of ex_rsa Production] by metis
  have sane: "dc_sane ex_rsa (OneAdded ex_endpoint) d" "dc_sane ex_rsa (CdnSet []) u" for u by (simp_all add: dc_sane_def)
  obtain u where u: "dc_do ex_rsa (OneAdded ex_endpoint) d = Some u" using dc_do_ok [OF d(2) sane(1)] by blast
  have r: "dc_run ex_rsa d u" by (rule dc_run.event [OF dc_run.start sane(1) u])
  show ?thesis using dc_options_safe [OF d(1) r, of "CdnSet []"] d(1) r sane(2) by blast
qed

subsection \<open>Identifiers\<close>

lemma smod_nonneg: "0 \<le> x \<Longrightarrow> x smod 10000 = x mod (10000 :: int)" "0 \<le> x \<Longrightarrow> x sdiv 10000 = x div (10000 :: int)"
  by (simp_all add: signed_modulo_int_def signed_divide_int_def sgn_if minus_mult_div_eq_mod mult.commute)

text \<open>
  Shifted identifiers. A data centre and a shift are found again in the shifted identifier; those
  of downloads and uploads are exactly the sixteen shifts reserved for each, so they never meet;
  temporary and real identifiers are turned into each other; and the identifiers through which keys are
  destroyed move on to a shift of their own, above all others, each time.
\<close>
theorem shifted_dc_ids:
  assumes "0 \<le> d" "d < kDcShift" "0 \<le> v"
  shows "BareDcId (ShiftDcId d v) = d \<and> GetDcIdShift (ShiftDcId d v) = v
    \<and> (isDownloadDcId (ShiftDcId d v) \<longleftrightarrow> 0x10 \<le> v \<and> v < 0x20) \<and> (isUploadDcId (ShiftDcId d v) \<longleftrightarrow> 0x20 \<le> v \<and> v < 0x30)
    \<and> (d < kTemporaryMainDc \<longrightarrow> isTemporaryDcId (getTemporaryIdFromRealDcId (ShiftDcId d v))
        \<and> getRealIdFromTemporaryDcId (getTemporaryIdFromRealDcId (ShiftDcId d v)) = d)
    \<and> BareDcId (destroyKeyNextDcId (ShiftDcId d v)) = d
    \<and> GetDcIdShift (destroyKeyNextDcId (ShiftDcId d v)) = (if v = 0 then 0x100 else v + 1)"
proof -
  have b: "BareDcId (ShiftDcId d' v') = d'" "GetDcIdShift (ShiftDcId d' v') = v'" if "0 \<le> d'" "d' < 10000" "0 \<le> v'" for d' v'
    using that by (simp_all add: BareDcId_def GetDcIdShift_def ShiftDcId_def dc_consts smod_nonneg)
  have t: "BareDcId d' = d'" if "0 \<le> d'" "d' < 10000" for d'
    using that by (simp add: BareDcId_def dc_consts smod_nonneg)
  have d: "d < 10000" using assms(2) by (simp add: dc_consts)
  have "isDownloadDcId (ShiftDcId d v) \<longleftrightarrow> 0x10 \<le> v \<and> v < 0x20" "isUploadDcId (ShiftDcId d v) \<longleftrightarrow> 0x20 \<le> v \<and> v < 0x30"
    using assms(1) d by (auto simp: isDownloadDcId_def isUploadDcId_def downloadDcId_def details_uploadDcId_def ShiftDcId_def dc_consts)
  moreover have "isTemporaryDcId (getTemporaryIdFromRealDcId (ShiftDcId d v))
      \<and> getRealIdFromTemporaryDcId (getTemporaryIdFromRealDcId (ShiftDcId d v)) = d" if "d < kTemporaryMainDc"
  proof -
    have "getTemporaryIdFromRealDcId (ShiftDcId d v) = d + 1000"
      using that by (simp add: getTemporaryIdFromRealDcId_def b assms d dc_consts)
    then show ?thesis
      using that assms(1) t [of "d + 1000"] by (simp add: isTemporaryDcId_def getRealIdFromTemporaryDcId_def dc_consts)
  qed
  ultimately show ?thesis using assms d b by (auto simp: destroyKeyNextDcId_def dc_consts)
qed

theorem shifted_dc_ids_witness: "isDownloadDcId (ShiftDcId 4 0x1F) \<and> \<not> isUploadDcId (ShiftDcId 4 0x1F)"
  using shifted_dc_ids [of 4 "0x1F"] by (simp add: dc_consts)

end
