(* ===== verification/Mtp_Config.thy ===== *)
theory Mtp_Config
  imports Dc_Options_Laws "HOL-Library.State_Monad"
begin

text \<open>
  The configuration of the server (\<open>mtproto/mtproto_config.{h,cpp}\<close>): its fields, the configuration the
  server sends and the form in which it is kept between two starts, together with the addresses of the
  data centres. Strings of the server are given as \<open>QString\<close>s, an absent one as what \<open>qs\<close> makes of
  an empty one. Reading threads the stream through some forty fields, so it is written in the state
  monad.
\<close>

record ConfigFields =
  cf_chatSizeMax :: int
  cf_megagroupSizeMax :: int
  cf_forwardedCountMax :: int
  cf_onlineUpdatePeriod :: int
  cf_offlineBlurTimeout :: int
  cf_offlineIdleTimeout :: int
  cf_onlineFocusTimeout :: int
  cf_onlineCloudTimeout :: int
  cf_notifyCloudDelay :: int
  cf_notifyDefaultDelay :: int
  cf_editTimeLimit :: int
  cf_revokeTimeLimit :: int
  cf_revokePrivateTimeLimit :: int
  cf_revokePrivateInbox :: bool
  cf_stickersRecentLimit :: int
  cf_internalLinksDomain :: qstring
  cf_channelsReadMediaPeriod :: int
  cf_callReceiveTimeoutMs :: int
  cf_callRingTimeoutMs :: int
  cf_callConnectTimeoutMs :: int
  cf_callPacketTimeoutMs :: int
  cf_webFileDcId :: int
  cf_txtDomainString :: qstring
  cf_blockedMode :: bool
  cf_captionLengthMax :: int
  cf_ratingDecay :: int
  cf_reactionDefaultEmoji :: qstring
  cf_reactionDefaultCustom :: "64 word"
  cf_autologinToken :: qstring
  cf_gifSearchUsername :: qstring
  cf_venueSearchUsername :: qstring

definition utf16 :: "string \<Rightarrow> qstring" where
  "utf16 t = Some (map (\<lambda>c. word_of_nat (of_char c)) t)"

definition ConfigDefaultReactionEmoji :: qstring where
  "ConfigDefaultReactionEmoji = Some [0xD83D, 0xDC4D]"

definition new_ConfigFields :: "environment \<Rightarrow> ConfigFields" where
  "new_ConfigFields env =
     \<lparr>cf_chatSizeMax = 200, cf_megagroupSizeMax = 10000, cf_forwardedCountMax = 100, cf_onlineUpdatePeriod = 120000,
      cf_offlineBlurTimeout = 5000, cf_offlineIdleTimeout = 30000, cf_onlineFocusTimeout = 1000,
      cf_onlineCloudTimeout = 300000, cf_notifyCloudDelay = 30000, cf_notifyDefaultDelay = 1500,
      cf_editTimeLimit = 172800, cf_revokeTimeLimit = 172800, cf_revokePrivateTimeLimit = 172800,
      cf_revokePrivateInbox = False, cf_stickersRecentLimit = 30, cf_internalLinksDomain = utf16 ''https://t.me/'',
      cf_channelsReadMediaPeriod = 86400 * 7, cf_callReceiveTimeoutMs = 20000, cf_callRingTimeoutMs = 90000,
      cf_callConnectTimeoutMs = 30000, cf_callPacketTimeoutMs = 10000, cf_webFileDcId = (if env = Test then 2 else 4),
      cf_txtDomainString = utf16 (if env = Test then ''tapv3.stel.com'' else ''apv3.stel.com''),
      cf_blockedMode = False, cf_captionLengthMax = 1024, cf_ratingDecay = 2419200,
      cf_reactionDefaultEmoji = ConfigDefaultReactionEmoji, cf_reactionDefaultCustom = 0, cf_autologinToken = None,
      cf_gifSearchUsername = utf16 (if env = Test then ''izgifbot'' else ''gif''),
      cf_venueSearchUsername = utf16 (if env = Test then ''foursquarebot'' else ''foursquare'')\<rparr>"

record 'k mtp_config =
  cg_dcOptions :: "'k dc_options"
  cg_fields :: ConfigFields

definition new_Config :: "'k rsa \<Rightarrow> environment \<Rightarrow> 'k mtp_config option" where
  "new_Config rs env = map_option (\<lambda>d. \<lparr>cg_dcOptions = d, cg_fields = new_ConfigFields env\<rparr>) (new_DcOptions rs env)"

definition kConfigVersion :: int where "kConfigVersion = 1"

definition environment_number :: "environment \<Rightarrow> int" where
  "environment_number env = (if env = Test then 1 else 0)"

definition put_bool :: "bool \<Rightarrow> byte list" where
  "put_bool b = put_int32 (if b then 1 else 0)"

definition put_fields :: "ConfigFields \<Rightarrow> byte list" where
  "put_fields f =
     put_int32 (cf_chatSizeMax f) @ put_int32 (cf_megagroupSizeMax f) @ put_int32 (cf_forwardedCountMax f)
     @ put_int32 (cf_onlineUpdatePeriod f) @ put_int32 (cf_offlineBlurTimeout f) @ put_int32 (cf_offlineIdleTimeout f)
     @ put_int32 (cf_onlineFocusTimeout f) @ put_int32 (cf_onlineCloudTimeout f) @ put_int32 (cf_notifyCloudDelay f)
     @ put_int32 (cf_notifyDefaultDelay f) @ put_int32 0 @ put_int32 (cf_editTimeLimit f) @ put_int32 (cf_revokeTimeLimit f)
     @ put_int32 (cf_revokePrivateTimeLimit f) @ put_bool (cf_revokePrivateInbox f) @ put_int32 (cf_stickersRecentLimit f)
     @ put_int32 0 @ put_int32 0 @ put_int32 0 @ put_string (cf_internalLinksDomain f)
     @ put_int32 (cf_channelsReadMediaPeriod f) @ put_int32 (cf_callReceiveTimeoutMs f) @ put_int32 (cf_callRingTimeoutMs f)
     @ put_int32 (cf_callConnectTimeoutMs f) @ put_int32 (cf_callPacketTimeoutMs f) @ put_int32 (cf_webFileDcId f)
     @ put_string (cf_txtDomainString f) @ put_int32 1 @ put_bool (cf_blockedMode f) @ put_int32 (cf_captionLengthMax f)
     @ put_string (cf_reactionDefaultEmoji f) @ put_uint64 (cf_reactionDefaultCustom f) @ put_int32 (cf_ratingDecay f)
     @ put_string (cf_gifSearchUsername f) @ put_string (cf_venueSearchUsername f)"

definition config_serialize :: "'k rsa \<Rightarrow> 'k mtp_config \<Rightarrow> byte list option" where
  "config_serialize rs c =
     (case dc_serialize rs (cg_dcOptions c) of
        None \<Rightarrow> None
      | Some options \<Rightarrow>
          Some (put_int32 kConfigVersion
            @ put_int32 (environment_number (if isTestMode (cg_dcOptions c) then Test else Production))
            @ put_bytearray (Some options) @ put_fields (cg_fields c)))"

subsection \<open>Reading\<close>

definition read_int :: "(in_stream, int) state" where "read_int = State get_int32"
definition read_bool :: "(in_stream, bool) state" where "read_bool = State (\<lambda>s. let (x, s) = get_int32 s in (x = 1, s))"
definition read_uint64 :: "(in_stream, 64 word) state" where "read_uint64 = State get_uint64"
definition read_string :: "(in_stream, qstring) state" where "read_string = State get_string"
definition read_bytearray :: "(in_stream, byte list option) state" where "read_bytearray = State get_bytearray"

text \<open>\<open>if (!stream.atEnd()) read(...)\<close>, with what stands there otherwise.\<close>

definition unless_end :: "'a \<Rightarrow> (in_stream, 'a) state \<Rightarrow> (in_stream, 'a) state" where
  "unless_end x m = State (\<lambda>s. if atEnd s then (x, s) else run_state m s)"

definition read_fields :: "ConfigFields \<Rightarrow> (in_stream, ConfigFields) state" where
  "read_fields f = do {
     chatSizeMax \<leftarrow> read_int; megagroupSizeMax \<leftarrow> read_int; forwardedCountMax \<leftarrow> read_int;
     onlineUpdatePeriod \<leftarrow> read_int; offlineBlurTimeout \<leftarrow> read_int; offlineIdleTimeout \<leftarrow> read_int;
     onlineFocusTimeout \<leftarrow> read_int; onlineCloudTimeout \<leftarrow> read_int; notifyCloudDelay \<leftarrow> read_int;
     notifyDefaultDelay \<leftarrow> read_int; legacySavedGifsLimit \<leftarrow> read_int; editTimeLimit \<leftarrow> read_int;
     revokeTimeLimit \<leftarrow> read_int; revokePrivateTimeLimit \<leftarrow> read_int; revokePrivateInbox \<leftarrow> read_bool;
     stickersRecentLimit \<leftarrow> read_int; legacyStickersFavedLimit \<leftarrow> read_int; legacyPinnedDialogsCountMax \<leftarrow> read_int;
     legacyPinnedDialogsInFolderMax \<leftarrow> read_int; internalLinksDomain \<leftarrow> read_string;
     channelsReadMediaPeriod \<leftarrow> read_int; callReceiveTimeoutMs \<leftarrow> read_int; callRingTimeoutMs \<leftarrow> read_int;
     callConnectTimeoutMs \<leftarrow> read_int; callPacketTimeoutMs \<leftarrow> read_int; webFileDcId \<leftarrow> read_int;
     txtDomainString \<leftarrow> read_string; legacyPhoneCallsEnabled \<leftarrow> read_bool; blockedMode \<leftarrow> read_bool;
     captionLengthMax \<leftarrow> read_int;
     (emoji, custom) \<leftarrow> unless_end (cf_reactionDefaultEmoji f, cf_reactionDefaultCustom f)
       (do { emoji \<leftarrow> read_string; custom \<leftarrow> read_uint64; State_Monad.return (emoji, custom) });
     ratingDecay \<leftarrow> unless_end (cf_ratingDecay f) read_int;
     (gif, venue) \<leftarrow> unless_end (cf_gifSearchUsername f, cf_venueSearchUsername f)
       (do { gif \<leftarrow> read_string; venue \<leftarrow> read_string; State_Monad.return (gif, venue) });
     State_Monad.return \<lparr>cf_chatSizeMax = chatSizeMax, cf_megagroupSizeMax = megagroupSizeMax,
      cf_forwardedCountMax = forwardedCountMax, cf_onlineUpdatePeriod = onlineUpdatePeriod,
      cf_offlineBlurTimeout = offlineBlurTimeout, cf_offlineIdleTimeout = offlineIdleTimeout,
      cf_onlineFocusTimeout = onlineFocusTimeout, cf_onlineCloudTimeout = onlineCloudTimeout,
      cf_notifyCloudDelay = notifyCloudDelay, cf_notifyDefaultDelay = notifyDefaultDelay,
      cf_editTimeLimit = editTimeLimit, cf_revokeTimeLimit = revokeTimeLimit,
      cf_revokePrivateTimeLimit = revokePrivateTimeLimit, cf_revokePrivateInbox = revokePrivateInbox,
      cf_stickersRecentLimit = stickersRecentLimit, cf_internalLinksDomain = internalLinksDomain,
      cf_channelsReadMediaPeriod = channelsReadMediaPeriod, cf_callReceiveTimeoutMs = callReceiveTimeoutMs,
      cf_callRingTimeoutMs = callRingTimeoutMs, cf_callConnectTimeoutMs = callConnectTimeoutMs,
      cf_callPacketTimeoutMs = callPacketTimeoutMs, cf_webFileDcId = webFileDcId,
      cf_txtDomainString = txtDomainString, cf_blockedMode = blockedMode, cf_captionLengthMax = captionLengthMax,
      cf_ratingDecay = ratingDecay, cf_reactionDefaultEmoji = emoji, cf_reactionDefaultCustom = custom,
      cf_autologinToken = cf_autologinToken f, cf_gifSearchUsername = gif, cf_venueSearchUsername = venue\<rparr>
   }"

definition FromSerialized :: "'k rsa \<Rightarrow> byte list \<Rightarrow> 'k mtp_config option" where
  "FromSerialized rs serialized =
     (let (version, s) = get_int32 (reading serialized)
      in if version \<noteq> kConfigVersion then None
         else let (env, s) = get_int32 s
              in case (if env = environment_number Test then new_Config rs Test
                       else if env = environment_number Production then new_Config rs Production else None) of
                   None \<Rightarrow> None
                 | Some raw \<Rightarrow>
                     (let (options, s) = get_bytearray s;
                          (fields, s) = run_state (read_fields (cg_fields raw)) s
                      in if \<not> st_ok s then None
                         else case dc_constructFromSerialized rs (case options of None \<Rightarrow> [] | Some bs \<Rightarrow> bs) (cg_dcOptions raw) of
                                Some (True, d) \<Rightarrow> Some \<lparr>cg_dcOptions = d, cg_fields = fields\<rparr>
                              | _ \<Rightarrow> None))"

subsection \<open>The configuration of the server\<close>

datatype tl_reaction = ReactionEmpty | ReactionEmoji qstring | ReactionCustomEmoji "64 word" | ReactionPaid

record tl_config =
  tc_test_mode :: bool
  tc_chat_size_max :: int
  tc_megagroup_size_max :: int
  tc_forwarded_count_max :: int
  tc_online_update_period_ms :: int
  tc_offline_blur_timeout_ms :: int
  tc_offline_idle_timeout_ms :: int
  tc_online_cloud_timeout_ms :: int
  tc_notify_cloud_delay_ms :: int
  tc_notify_default_delay_ms :: int
  tc_edit_time_limit :: int
  tc_revoke_time_limit :: int
  tc_revoke_pm_time_limit :: int
  tc_revoke_pm_inbox :: bool
  tc_stickers_recent_limit :: int
  tc_me_url_prefix :: qstring
  tc_channels_read_media_period :: int
  tc_webfile_dc_id :: int
  tc_call_receive_timeout_ms :: int
  tc_call_ring_timeout_ms :: int
  tc_call_connect_timeout_ms :: int
  tc_call_packet_timeout_ms :: int
  tc_blocked_mode :: bool
  tc_caption_length_max :: int
  tc_reactions_default :: "tl_reaction option"
  tc_autologin_token :: qstring
  tc_rating_e_decay :: int
  tc_gif_search_username :: qstring
  tc_venue_search_username :: qstring
  tc_dc_options :: "endpoint option list"

definition apply_reaction :: "tl_reaction option \<Rightarrow> ConfigFields \<Rightarrow> ConfigFields" where
  "apply_reaction r f =
     (let f = f\<lparr>cf_reactionDefaultEmoji := ConfigDefaultReactionEmoji, cf_reactionDefaultCustom := 0\<rparr>
      in case r of
           Some (ReactionEmoji q) \<Rightarrow> f\<lparr>cf_reactionDefaultEmoji := q\<rparr>
         | Some (ReactionCustomEmoji i) \<Rightarrow> f\<lparr>cf_reactionDefaultCustom := i\<rparr>
         | Some ReactionPaid \<Rightarrow> f\<lparr>cf_reactionDefaultEmoji := utf16 ''*''\<rparr>
         | _ \<Rightarrow> f)"

definition apply_fields :: "environment \<Rightarrow> tl_config \<Rightarrow> ConfigFields \<Rightarrow> ConfigFields" where
  "apply_fields env t f =
     (let f = f\<lparr>cf_chatSizeMax := tc_chat_size_max t, cf_megagroupSizeMax := tc_megagroup_size_max t,
        cf_forwardedCountMax := tc_forwarded_count_max t, cf_onlineUpdatePeriod := tc_online_update_period_ms t,
        cf_offlineBlurTimeout := tc_offline_blur_timeout_ms t, cf_offlineIdleTimeout := tc_offline_idle_timeout_ms t,
        cf_onlineCloudTimeout := tc_online_cloud_timeout_ms t, cf_notifyCloudDelay := tc_notify_cloud_delay_ms t,
        cf_notifyDefaultDelay := tc_notify_default_delay_ms t, cf_editTimeLimit := tc_edit_time_limit t,
        cf_revokeTimeLimit := tc_revoke_time_limit t, cf_revokePrivateTimeLimit := tc_revoke_pm_time_limit t,
        cf_revokePrivateInbox := tc_revoke_pm_inbox t, cf_stickersRecentLimit := tc_stickers_recent_limit t,
        cf_internalLinksDomain := tc_me_url_prefix t, cf_channelsReadMediaPeriod := tc_channels_read_media_period t,
        cf_webFileDcId := tc_webfile_dc_id t, cf_callReceiveTimeoutMs := tc_call_receive_timeout_ms t,
        cf_callRingTimeoutMs := tc_call_ring_timeout_ms t, cf_callConnectTimeoutMs := tc_call_connect_timeout_ms t,
        cf_callPacketTimeoutMs := tc_call_packet_timeout_ms t, cf_blockedMode := tc_blocked_mode t,
        cf_captionLengthMax := tc_caption_length_max t\<rparr>;
          f = apply_reaction (tc_reactions_default t) f;
          f = f\<lparr>cf_autologinToken := tc_autologin_token t, cf_ratingDecay := tc_rating_e_decay t\<rparr>;
          f = (if cf_ratingDecay f \<le> 0 then f\<lparr>cf_ratingDecay := cf_ratingDecay (new_ConfigFields env)\<rparr> else f)
      in f\<lparr>cf_gifSearchUsername := tc_gif_search_username t, cf_venueSearchUsername := tc_venue_search_username t\<rparr>)"

text \<open>The result holds the ids of the data centres whose addresses changed.\<close>

definition config_apply :: "tl_config \<Rightarrow> 'k mtp_config \<Rightarrow> (int list \<times> 'k mtp_config) option" where
  "config_apply t c =
     (if tc_test_mode t \<noteq> isTestMode (cg_dcOptions c) then Some ([], c)
      else let c = c\<lparr>cg_fields := apply_fields (do_environment (cg_dcOptions c)) t (cg_fields c)\<rparr>
           in if tc_dc_options t = [] then Some ([], c)
              else map_option (\<lambda>(ids, d). (ids, c\<lparr>cg_dcOptions := d\<rparr>)) (setFromList (tc_dc_options t) (cg_dcOptions c)))"

definition setChatSizeMax :: "int \<Rightarrow> 'k mtp_config \<Rightarrow> 'k mtp_config" where
  "setChatSizeMax x c = c\<lparr>cg_fields := (cg_fields c)\<lparr>cf_chatSizeMax := x\<rparr>\<rparr>"
definition setStickersRecentLimit :: "int \<Rightarrow> 'k mtp_config \<Rightarrow> 'k mtp_config" where
  "setStickersRecentLimit x c = c\<lparr>cg_fields := (cg_fields c)\<lparr>cf_stickersRecentLimit := x\<rparr>\<rparr>"
definition setMegagroupSizeMax :: "int \<Rightarrow> 'k mtp_config \<Rightarrow> 'k mtp_config" where
  "setMegagroupSizeMax x c = c\<lparr>cg_fields := (cg_fields c)\<lparr>cf_megagroupSizeMax := x\<rparr>\<rparr>"
definition setTxtDomainString :: "qstring \<Rightarrow> 'k mtp_config \<Rightarrow> 'k mtp_config" where
  "setTxtDomainString x c = c\<lparr>cg_fields := (cg_fields c)\<lparr>cf_txtDomainString := x\<rparr>\<rparr>"

subsection \<open>Round trip\<close>

definition fields_fit :: "ConfigFields \<Rightarrow> bool" where
  "fields_fit f \<longleftrightarrow>
     list_all is_int32 [cf_chatSizeMax f, cf_megagroupSizeMax f, cf_forwardedCountMax f, cf_onlineUpdatePeriod f,
       cf_offlineBlurTimeout f, cf_offlineIdleTimeout f, cf_onlineFocusTimeout f, cf_onlineCloudTimeout f,
       cf_notifyCloudDelay f, cf_notifyDefaultDelay f, cf_editTimeLimit f, cf_revokeTimeLimit f,
       cf_revokePrivateTimeLimit f, cf_stickersRecentLimit f, cf_channelsReadMediaPeriod f, cf_callReceiveTimeoutMs f,
       cf_callRingTimeoutMs f, cf_callConnectTimeoutMs f, cf_callPacketTimeoutMs f, cf_webFileDcId f,
       cf_captionLengthMax f, cf_ratingDecay f]
     \<and> list_all fits_string [cf_internalLinksDomain f, cf_txtDomainString f, cf_reactionDefaultEmoji f,
       cf_gifSearchUsername f, cf_venueSearchUsername f]"

lemma small_int32 [simp]: "is_int32 0" "is_int32 1"
  by (simp_all add: is_int32_def)

lemma read_back [simp]:
  "is_int32 x \<Longrightarrow> run_state read_int (reading (put_int32 x @ rest)) = (x, reading rest)"
  "run_state read_bool (reading (put_bool b @ rest)) = (b, reading rest)"
  "run_state read_bool (reading (put_int32 1 @ rest)) = (True, reading rest)"
  "fits_string q \<Longrightarrow> run_state read_string (reading (put_string q @ rest)) = (q, reading rest)"
  "fits_string q \<Longrightarrow> run_state read_string (reading (put_string q)) = (q, reading [])"
  "run_state read_uint64 (reading (put_uint64 w @ rest)) = (w, reading rest)"
  by (simp_all add: read_int_def read_bool_def read_string_def read_uint64_def put_bool_def int32.get_put
      qstrings.get_put qstrings.get_put_end uint64.get_put)

lemma put_not_empty [simp]: "put_string q \<noteq> []" "put_int32 x @ rest \<noteq> []"
proof -
  show "put_int32 x @ rest \<noteq> []" by (metis append_is_Nil_conv length_put_int32 list.size(3) zero_neq_numeral)
  have "put_uint32 w \<noteq> []" for w by (metis length_put_uint32 list.size(3) zero_neq_numeral)
  then show "put_string q \<noteq> []" by (simp add: put_string_def put_bytearray_def split: option.split)
qed

lemma read_unless_end [simp]:
  "bs \<noteq> [] \<Longrightarrow> run_state (unless_end x m) (reading bs) = run_state m (reading bs)"
  by (simp add: unless_end_def)

lemma read_put_fields:
  assumes "fields_fit f"
  shows "run_state (read_fields f0) (reading (put_fields f)) = (f\<lparr>cf_autologinToken := cf_autologinToken f0\<rparr>, reading [])"
  using assms by (simp add: read_fields_def put_fields_def fields_fit_def)

lemma environment_fits: "is_int32 (environment_number env)" "environment_number Test \<noteq> environment_number Production"
  by (simp_all add: environment_number_def)

lemma read_config:
  assumes "dc_serialize rs (cg_dcOptions c) = Some bs" "short bs" "fields_fit (cg_fields c)"
    "new_Config rs (do_environment (cg_dcOptions c)) = Some raw"
  obtains bytes where "config_serialize rs c = Some bytes"
    "FromSerialized rs bytes = (case dc_constructFromSerialized rs bs (cg_dcOptions raw) of
       Some (True, d) \<Rightarrow> Some \<lparr>cg_dcOptions = d, cg_fields = (cg_fields c)\<lparr>cf_autologinToken := None\<rparr>\<rparr> | _ \<Rightarrow> None)"
proof -
  define bytes where "bytes = put_int32 kConfigVersion @ put_int32 (environment_number (do_environment (cg_dcOptions c)))
    @ put_bytearray (Some bs) @ put_fields (cg_fields c)"
  have env: "(if isTestMode (cg_dcOptions c) then Test else Production) = do_environment (cg_dcOptions c)"
    by (cases "do_environment (cg_dcOptions c)") (simp_all add: isTestMode_def)
  have w: "config_serialize rs c = Some bytes" using assms(1) by (simp add: config_serialize_def bytes_def env)
  have raw: "cf_autologinToken (cg_fields raw) = None"
    using assms(4) by (auto simp: new_Config_def new_ConfigFields_def)
  have new: "(if environment_number (do_environment (cg_dcOptions c)) = environment_number Test then new_Config rs Test
      else if environment_number (do_environment (cg_dcOptions c)) = environment_number Production then new_Config rs Production
      else None) = Some raw"
    using assms(4) environment_fits(2) by (cases "do_environment (cg_dcOptions c)") simp_all
  have "is_int32 kConfigVersion" by (simp add: kConfigVersion_def)
  then have "FromSerialized rs bytes = (case dc_constructFromSerialized rs bs (cg_dcOptions raw) of
       Some (True, d) \<Rightarrow> Some \<lparr>cg_dcOptions = d, cg_fields = (cg_fields c)\<lparr>cf_autologinToken := None\<rparr>\<rparr> | _ \<Rightarrow> None)"
    unfolding FromSerialized_def bytes_def
    by (simp add: int32.get_put environment_fits(1) new bytearray.get_put fits_bytearray_def assms(2)
        read_put_fields [OF assms(3)] raw)
  with w show ?thesis by (rule that)
qed

text \<open>What \<open>DcOptions::serialize\<close> writes: options that a file overrode are not kept.\<close>

definition kept_options :: "'k rsa \<Rightarrow> 'k dc_options \<Rightarrow> 'k dc_options" where
  "kept_options rs d = (if do_immutable d then the (new_DcOptions rs (do_environment d)) else d)"

lemma kept_options_ok:
  assumes "options_ok d"
  shows "options_ok (kept_options rs d)" "\<not> do_immutable (kept_options rs d)"
    "do_environment (kept_options rs d) = do_environment d" "dc_serialize rs (kept_options rs d) = dc_serialize rs d"
proof -
  obtain b where "new_DcOptions rs (do_environment d) = Some b" "options_ok b" "\<not> do_immutable b"
    "do_environment b = do_environment d" using new_options_ok [of rs "do_environment d"] by metis
  then show "options_ok (kept_options rs d)" "\<not> do_immutable (kept_options rs d)"
    "do_environment (kept_options rs d) = do_environment d" "dc_serialize rs (kept_options rs d) = dc_serialize rs d"
    using assms by (simp_all add: kept_options_def dc_serialize_def)
qed

text \<open>
  C14. The configuration survives a restart. What \<open>serialize\<close> writes, \<open>FromSerialized\<close> reads back: all
  fields of the configuration except the token for automatic logins, which is not kept, the
  environment, and the addresses of the data centres, in the same order with their flags, ports and
  secrets and the public keys of CDNs, without the temporary centres. When a file had overridden the
  options, the built in addresses and keys are written and come back in their place. All this holds
  provided that of what is written numbers and lengths fit their format, each address has 1 to 45
  characters, each secret at most 32 bytes and the keys are what their own numbers make.
\<close>
theorem config_roundtrip:
  assumes "options_ok (cg_dcOptions c)" "kept = kept_options rs (cg_dcOptions c)" "keys_ok rs (do_cdnPublicKeys kept)"
    "countable_in_file kept" "\<forall>e \<in> set (stored_endpoints kept). fits_endpoint e" "short (dc_stored rs kept)"
    "fields_fit (cg_fields c)"
  shows "\<exists>bytes c'. config_serialize rs c = Some bytes \<and> FromSerialized rs bytes = Some c'
    \<and> cg_fields c' = (cg_fields c)\<lparr>cf_autologinToken := None\<rparr>
    \<and> do_environment (cg_dcOptions c') = do_environment (cg_dcOptions c)
    \<and> do_data (cg_dcOptions c') = lasting (do_data kept)
    \<and> do_cdnPublicKeys (cg_dcOptions c') = do_cdnPublicKeys kept \<and> options_ok (cg_dcOptions c')
    \<and> (\<not> do_immutable (cg_dcOptions c) \<longrightarrow> kept = cg_dcOptions c)
    \<and> (do_immutable (cg_dcOptions c) \<longrightarrow> new_DcOptions rs (do_environment (cg_dcOptions c)) = Some kept)"
proof -
  let ?d = "cg_dcOptions c"
  note kept = kept_options_ok [OF assms(1), of rs, folded assms(2)]
  obtain raw where d: "new_DcOptions rs (do_environment ?d) = Some raw" "do_cdnPublicKeys raw = []" "do_environment raw = do_environment ?d"
    by (rule new_options_ok)
  have new: "new_Config rs (do_environment ?d) = Some \<lparr>cg_dcOptions = raw, cg_fields = new_ConfigFields (do_environment ?d)\<rparr>"
    using d(1) by (simp add: new_Config_def)
  obtain bs where bs: "dc_serialize rs kept = Some bs"
    "dc_constructFromSerialized rs bs raw = Some (True, raw\<lparr>do_data := lasting (do_data kept),
      do_cdnDcIds := cdn_ids (lasting (do_data kept)), do_cdnPublicKeys := do_cdnPublicKeys kept\<rparr>)"
    using dc_read_back [OF kept(1,2) assms(3-5) d(2)] by blast
  have short: "short bs" using bs(1) kept(2) assms(6) by (simp add: dc_serialize_def)
  have "data_ok (lasting (do_data kept))" "ids_below (lasting (do_data kept))"
    using kept(1) by (auto simp: options_ok_def lasting_def data_ok_filter ids_below_def)
  then show ?thesis
    using read_config [OF bs(1) [unfolded kept(4)] short assms(7) new] bs(2) d assms(2)
    by (fastforce simp: options_ok_def kept_options_def)
qed

text \<open>
  C36. A defect. Nothing bounds the secret an endpoint gets from the server, and \<open>lookup\<close> accepts a
  secret of any length from 21 bytes on that begins with \<open>0xEE\<close>; but a stored secret of more than 32
  bytes, like an address that is empty or longer than 45 characters, makes \<open>constructFromSerialized\<close>
  give up, and with it \<open>FromSerialized\<close>: the client does not accept the configuration it has written
  itself and loses all of it at the next start.
\<close>
theorem config_lost:
  assumes "options_ok (cg_dcOptions c)" "\<not> do_immutable (cg_dcOptions c)" "countable_in_file (cg_dcOptions c)"
    "\<forall>e \<in> set (stored_endpoints (cg_dcOptions c)). storable e" "\<exists>e \<in> set (stored_endpoints (cg_dcOptions c)). \<not> fits_endpoint e"
    "short (dc_stored rs (cg_dcOptions c))" "fields_fit (cg_fields c)"
  shows "\<exists>bytes. config_serialize rs c = Some bytes \<and> FromSerialized rs bytes = None"
proof -
  let ?d = "cg_dcOptions c"
  obtain raw where d: "new_DcOptions rs (do_environment ?d) = Some raw" by (rule new_options_ok)
  have new: "new_Config rs (do_environment ?d) = Some \<lparr>cg_dcOptions = raw, cg_fields = new_ConfigFields (do_environment ?d)\<rparr>"
    using d by (simp add: new_Config_def)
  obtain bs e where bs: "dc_serialize rs ?d = Some bs" "dc_constructFromSerialized rs bs raw = Some (False, e)"
    using dc_unreadable [OF assms(1-5), of rs raw] by blast
  have short: "short bs" using bs(1) assms(2,6) by (simp add: dc_serialize_def)
  show ?thesis using read_config [OF bs(1) short assms(7) new] bs(2) by fastforce
qed

subsection \<open>An example\<close>

definition ex_config :: "nat dc_options \<Rightarrow> nat mtp_config" where
  "ex_config d = \<lparr>cg_dcOptions = d, cg_fields = (new_ConfigFields Production)\<lparr>cf_autologinToken := utf16 ''t''\<rparr>\<rparr>"

lemma ex_fields: "fields_fit (cg_fields (ex_config d))"
  by (simp add: ex_config_def new_ConfigFields_def fields_fit_def is_int32_def fits_string_def fits_bytearray_def utf16_def
      short_def ConfigDefaultReactionEmoji_def)

lemma ex_short: "short (dc_stored ex_rsa ex_options)" "short (dc_stored ex_rsa ex_long)"
  by (simp_all add: short_def dc_stored_def ex_stored put_endpoint_def put_public_key_def put_bytes_def ex_endpoint_def ex_rsa_def)

theorem config_roundtrip_witness:
  "\<exists>bytes c. config_serialize ex_rsa (ex_config ex_options) = Some bytes \<and> FromSerialized ex_rsa bytes = Some c
    \<and> cf_autologinToken (cg_fields c) = None \<and> cf_chatSizeMax (cg_fields c) = 200
    \<and> do_data (cg_dcOptions c) = [(2, [ex_endpoint])] \<and> do_cdnPublicKeys (cg_dcOptions c) = [(2, [(7, 9)])]"
proof -
  have h: "options_ok (cg_dcOptions (ex_config ex_options))" "\<not> do_immutable (cg_dcOptions (ex_config ex_options))"
    "keys_ok ex_rsa (do_cdnPublicKeys (cg_dcOptions (ex_config ex_options)))" "countable_in_file (cg_dcOptions (ex_config ex_options))"
    "\<forall>e \<in> set (stored_endpoints (cg_dcOptions (ex_config ex_options))). fits_endpoint e"
    "short (dc_stored ex_rsa (cg_dcOptions (ex_config ex_options)))"
    using ex_options_ok ex_short ex_stored by (simp_all add: ex_config_def countable_in_file_def)
      (simp_all add: ex_options_def keys_ok_def key_fits_def ex_rsa_def is_int32_def short_def
        fits_endpoint_def ex_endpoint_def kMaxIpSize_def kMaxSecretSize_def)
  have kept: "kept_options ex_rsa (cg_dcOptions (ex_config ex_options)) = cg_dcOptions (ex_config ex_options)"
    using h(2) by (simp add: kept_options_def)
  show ?thesis
    using config_roundtrip [OF h(1) kept [symmetric] h(3-6) ex_fields] ex_stored(3)
    by (auto simp: ex_config_def new_ConfigFields_def) (auto simp: ex_options_def)
qed

theorem config_lost_witness:
  "ValidateSecret (0xEE # replicate 32 1) \<and> (\<exists>bytes. config_serialize ex_rsa (ex_config ex_long) = Some bytes
    \<and> FromSerialized ex_rsa bytes = None)"
proof -
  have h: "options_ok (cg_dcOptions (ex_config ex_long))" "\<not> do_immutable (cg_dcOptions (ex_config ex_long))"
    "countable_in_file (cg_dcOptions (ex_config ex_long))"
    "\<forall>e \<in> set (stored_endpoints (cg_dcOptions (ex_config ex_long))). storable e"
    "\<exists>e \<in> set (stored_endpoints (cg_dcOptions (ex_config ex_long))). \<not> fits_endpoint e"
    "short (dc_stored ex_rsa (cg_dcOptions (ex_config ex_long)))"
    using ex_short by (simp_all add: ex_config_def countable_in_file_def ex_stored)
      (simp_all add: ex_long_def ex_options_def options_ok_def data_ok_def list_ok_def ids_below_def max_dc_def cdn_ids_def
        ex_endpoint_def has_flag_def is_int32_def storable_def fits_endpoint_def kMaxSecretSize_def)
  have "ValidateSecret (0xEE # replicate 32 1)" by (simp add: ValidateSecret_def)
  then show ?thesis using config_lost [OF h ex_fields] by blast
qed

end
