(* ===== verification/Session_Connection.thy ===== *)
theory Session_Connection
  imports Session_Runs Dc_Options Proxy_Data
begin

text \<open>
  The supervision of the connection of an MTProto session (\<open>mtproto/session_private.{h,cpp}\<close>): test
  connections of several priorities are tried at once and the best one is kept, timers watch over
  connecting and answers, and keys are created with the data centre. A connection is its number in
  the order of creation. The clock, the connections (\<open>isConnected\<close>, \<open>fullConnectTimeout\<close>), the options,
  the ids of keys and random values come with each event in \<open>link_env\<close>. A timer is the time it was
  started with, \<open>None\<close> while it is not active; one that fires is no longer active. What is asked of the
  instance, and the addresses given to connections, are appended to \<open>sp_calls\<close>. The requests live in
  \<open>sp_session\<close>; the timers of pings, sent requests and containers are left out, so their events may
  come at any time. A failed \<open>Expects\<close> or \<open>Assert\<close> is \<open>None\<close>.
\<close>

record session_options =
  so_proxy :: proxy_type
  so_useIPv4 :: bool
  so_useIPv6 :: bool
  so_useHttp :: bool
  so_useTcp :: bool

text \<open>The options of a \<open>Session\<close> from the settings, \<open>Session::refreshOptions\<close>.\<close>

definition refreshOptions :: "bool \<Rightarrow> proxy_type \<Rightarrow> bool \<Rightarrow> session_options" where
  "refreshOptions isEnabled type tryIPv6 =
     (let proxyType = (if isEnabled then type else NoProxy)
      in \<lparr>so_proxy = proxyType, so_useIPv4 = True, so_useIPv6 = tryIPv6, so_useHttp = (proxyType \<noteq> Mtproto),
          so_useTcp = (proxyType \<noteq> Http)\<rparr>)"

record test_connection =
  tested :: nat
  test_priority :: int

text \<open>A \<open>BoundKeyCreator\<close>: whether a creator is at work, and the key its binder binds to.\<close>

record key_creator =
  kc_persistentNeeded :: bool
  kc_started :: bool
  kc_binder :: "auth_key option"

datatype instance_call =
    RequestConfig
  | RequestConfigIfOld
  | RequestCDNConfig
  | RestartedByTimeout
  | BadConfigurationError
  | KeyWasPossiblyDestroyed
  | KeyDestroyedOnServer "64 word"
  | DcPersistentKeyChanged "auth_key option"
  | DcTemporaryKeyChanged
  | LinkConnect nat string int "byte list" int bool

record supervisor =
  sp_session :: mtp_session
  sp_realDcType :: dc_type
  sp_currentDcType :: dc_type
  sp_needSessionReset :: bool
  sp_connection :: "nat option"
  sp_sentEncryptedWithKeyId :: "64 word"
  sp_receivers :: nat
  sp_testConnections :: "test_connection list"
  sp_created :: nat
  sp_listening :: "nat list"
  sp_startedConnectingAt :: int
  sp_retryTimer :: "int option"
  sp_retryTimeout :: int
  sp_retryWillFinish :: int
  sp_oldConnectionTimer :: "int option"
  sp_oldConnection :: bool
  sp_waitForConnectedTimer :: "int option"
  sp_waitForReceivedTimer :: "int option"
  sp_waitForBetterTimer :: "int option"
  sp_waitForReceived :: int
  sp_waitForConnected :: int
  sp_firstSentAt :: int
  sp_options :: "session_options option"
  sp_encryptionKey :: "auth_key option"
  sp_keyId :: "64 word"
  sp_keyCreator :: "key_creator option"
  sp_keys :: key_world
  sp_queued :: nat
  sp_calls :: "instance_call list"

record 'k link_env =
  le_me :: nat
  le_shiftedDcId :: int
  le_isKeysDestroyer :: bool
  le_keyIdOf :: "auth_key \<Rightarrow> 64 word"
  le_creationTime :: "auth_key \<Rightarrow> int"
  le_now :: int
  le_random :: "64 word"
  le_options :: session_options
  le_dcOptions :: "'k dc_options"
  le_isConnected :: "nat \<Rightarrow> bool"
  le_fullConnectTimeout :: "nat \<Rightarrow> int"
  le_is_ipv6 :: "string \<Rightarrow> bool"
  le_preferIPv6 :: bool

definition kWaitForBetterTimeout :: int where "kWaitForBetterTimeout = 2000"
definition kMinConnectedTimeout :: int where "kMinConnectedTimeout = 1000"
definition kMaxConnectedTimeout :: int where "kMaxConnectedTimeout = 8000"
definition kMinReceiveTimeout :: int where "kMinReceiveTimeout = 4000"
definition kMaxReceiveTimeout :: int where "kMaxReceiveTimeout = 64000"
definition kMarkConnectionOldTimeout :: int where "kMarkConnectionOldTimeout = 192000"
definition kPingSendAfterForce :: int where "kPingSendAfterForce = 45 * 1000"
definition kKeyOldEnoughForDestroy :: int where "kKeyOldEnoughForDestroy = 60 * 1000"
definition kRequestConfigTimeout :: int where "kRequestConfigTimeout = 8 * 1000"
definition kTestModeDcIdShift :: int where "kTestModeDcIdShift = 10000"

lemmas timeout_defs = kWaitForBetterTimeout_def kMinConnectedTimeout_def kMaxConnectedTimeout_def
  kMinReceiveTimeout_def kMaxReceiveTimeout_def

definition call :: "instance_call \<Rightarrow> supervisor \<Rightarrow> supervisor" where
  "call c sp = sp\<lparr>sp_calls := sp_calls sp @ [c]\<rparr>"

definition on_session :: "(mtp_session \<Rightarrow> mtp_session) \<Rightarrow> supervisor \<Rightarrow> supervisor" where
  "on_session f sp = sp\<lparr>sp_session := f (sp_session sp)\<rparr>"

definition new_supervisor :: "(nat \<Rightarrow> request_data) \<Rightarrow> dc_type \<Rightarrow> key_world \<Rightarrow> supervisor" where
  "new_supervisor os type keys =
     \<lparr>sp_session = new_mtp_session os, sp_realDcType = type, sp_currentDcType = type, sp_needSessionReset = False,
      sp_connection = None, sp_sentEncryptedWithKeyId = 0, sp_receivers = 0, sp_testConnections = [], sp_created = 0, sp_listening = [],
      sp_startedConnectingAt = 0, sp_retryTimer = None, sp_retryTimeout = 1, sp_retryWillFinish = 0,
      sp_oldConnectionTimer = None, sp_oldConnection = True, sp_waitForConnectedTimer = None, sp_waitForReceivedTimer = None,
      sp_waitForBetterTimer = None, sp_waitForReceived = kMinReceiveTimeout, sp_waitForConnected = kMinConnectedTimeout,
      sp_firstSentAt = -1, sp_options = None, sp_encryptionKey = None, sp_keyId = 0, sp_keyCreator = None,
      sp_keys = keys, sp_queued = 1, sp_calls = []\<rparr>"

subsection \<open>Coming apart\<close>

definition clearUnboundKeyCreator :: "supervisor \<Rightarrow> supervisor" where
  "clearUnboundKeyCreator sp = sp\<lparr>sp_keyCreator := map_option (\<lambda>k. k\<lparr>kc_started := False\<rparr>) (sp_keyCreator sp)\<rparr>"

text \<open>A connection that is destroyed no longer signals.\<close>

definition destroyAllConnections :: "supervisor \<Rightarrow> supervisor" where
  "destroyAllConnections sp =
     (clearUnboundKeyCreator sp)\<lparr>sp_waitForBetterTimer := None, sp_waitForReceivedTimer := None,
       sp_waitForConnectedTimer := None, sp_testConnections := [], sp_connection := None,
       sp_sentEncryptedWithKeyId := 0, sp_receivers := 0, sp_listening := []\<rparr>"

definition sp_setState :: "'k link_env \<Rightarrow> int \<Rightarrow> int option \<Rightarrow> supervisor \<Rightarrow> bool \<times> supervisor" where
  "sp_setState e new ifState sp =
     (let (changed, s) = setState new ifState (sp_session sp); sp = sp\<lparr>sp_session := s\<rparr>
      in (changed, if changed \<and> new < 0
          then sp\<lparr>sp_retryTimeout := - new, sp_retryTimer := Some (- new), sp_retryWillFinish := le_now e + - new\<rparr>
          else sp))"

definition sp_getState :: "'k link_env \<Rightarrow> supervisor \<Rightarrow> int" where
  "sp_getState e sp =
     (if st_state (sp_session sp) < 0 \<and> sp_retryTimer sp \<noteq> None
      then (if le_now e - sp_retryWillFinish sp \<ge> 0 then -1 else le_now e - sp_retryWillFinish sp)
      else st_state (sp_session sp))"

definition doDisconnect :: "'k link_env \<Rightarrow> supervisor \<Rightarrow> supervisor" where
  "doDisconnect e sp = snd (sp_setState e kDisconnectedState None (destroyAllConnections sp))"

definition sp_resetSession :: "'k link_env \<Rightarrow> supervisor \<Rightarrow> supervisor" where
  "sp_resetSession e sp = on_session (resetSession (le_random e)) (sp\<lparr>sp_needSessionReset := False\<rparr>)"

definition restart :: "'k link_env \<Rightarrow> supervisor \<Rightarrow> supervisor" where
  "restart e sp =
     (let sp = doDisconnect e (sp\<lparr>sp_waitForReceivedTimer := None, sp_waitForConnectedTimer := None\<rparr>);
          sp = (if sp_needSessionReset sp then sp_resetSession e sp else sp)
      in if sp_retryTimer sp \<noteq> None then sp else snd (sp_setState e (- sp_retryTimeout sp) None sp))"

definition restartNow :: "'k link_env \<Rightarrow> supervisor \<Rightarrow> supervisor" where
  "restartNow e sp = restart e (sp\<lparr>sp_retryTimeout := 1, sp_retryTimer := None\<rparr>)"

subsection \<open>Keys\<close>

definition sp_releaseKeyCreationOnFail :: "'k link_env \<Rightarrow> supervisor \<Rightarrow> supervisor option" where
  "sp_releaseKeyCreationOnFail e sp =
     (if sp_keyCreator sp = None then Some sp
      else map_option (\<lambda>w. sp\<lparr>sp_keyCreator := None, sp_keys := w\<rparr>) (releaseKeyCreationOnFail (le_me e) (sp_keys sp)))"

definition tryAcquireKeyCreation :: "'k link_env \<Rightarrow> supervisor \<Rightarrow> (dc_type \<times> supervisor) option" where
  "tryAcquireKeyCreation e sp =
     (if sp_keyCreator sp \<noteq> None then Some (sp_currentDcType sp, sp)
      else if le_isKeysDestroyer e then Some (sp_realDcType sp, sp)
      else case acquireKeyCreation (le_me e) (sp_realDcType sp) (sp_keys sp) of
             None \<Rightarrow> None
           | Some (acquired, w) \<Rightarrow>
               (let sp = sp\<lparr>sp_keys := w\<rparr>
                in if acquired = CreatingNone then Some (sp_realDcType sp, sp)
                   else Some (if sp_realDcType sp = DcMediaCluster \<and> acquired \<noteq> CreatingTemporaryMediaCluster
                              then DcRegular else sp_realDcType sp,
                         sp\<lparr>sp_keyCreator := Some \<lparr>kc_persistentNeeded = (acquired = CreatingPersistent),
                              kc_started = False, kc_binder = None\<rparr>\<rparr>)))"

definition setCurrentKeyId :: "'k link_env \<Rightarrow> 64 word \<Rightarrow> supervisor \<Rightarrow> supervisor" where
  "setCurrentKeyId e newKeyId sp =
     (if sp_keyId sp = newKeyId then sp
      else on_session (changeSessionId (le_random e)) (sp\<lparr>sp_keyId := newKeyId\<rparr>))"

text \<open>\<open>sp_receivers\<close> counts how often \<open>receivedData\<close> of the connection is connected to \<open>handleReceived\<close>.\<close>

definition sp_authKeyChecked :: "'k link_env \<Rightarrow> supervisor \<Rightarrow> supervisor" where
  "sp_authKeyChecked e sp =
     on_session (authKeyChecked (le_now e) (le_random e)) (sp\<lparr>sp_receivers := Suc (sp_receivers sp)\<rparr>)"

definition noMediaKeyWithExistingRegularKey :: "supervisor \<Rightarrow> bool" where
  "noMediaKeyWithExistingRegularKey sp \<longleftrightarrow> TemporaryKeyTypeByDcType (sp_currentDcType sp) = TempMediaCluster
     \<and> getTemporaryKey TempRegular (kw_dc (sp_keys sp)) \<noteq> None"

definition start_creator :: "supervisor \<Rightarrow> supervisor option" where
  "start_creator sp =
     (case sp_keyCreator sp of
        None \<Rightarrow> Some sp
      | Some k \<Rightarrow> (if kc_started k then None else Some (sp\<lparr>sp_keyCreator := Some (k\<lparr>kc_started := True\<rparr>)\<rparr>)))"

text \<open>The part of \<open>applyAuthKey\<close> for a connection that has no key yet.\<close>

definition create_key :: "'k link_env \<Rightarrow> supervisor \<Rightarrow> supervisor option" where
  "create_key e sp =
     (if le_isKeysDestroyer e then start_creator (call KeyWasPossiblyDestroyed sp)
      else if noMediaKeyWithExistingRegularKey sp then
        (case tryAcquireKeyCreation e sp of
           None \<Rightarrow> None
         | Some (type, sp) \<Rightarrow>
             (if sp_keyCreator sp \<noteq> None \<and> type \<noteq> sp_currentDcType sp then Some (restart e sp) else start_creator sp))
      else start_creator sp)"

definition key_id :: "'k link_env \<Rightarrow> auth_key option \<Rightarrow> 64 word" where
  "key_id e key = (case key of None \<Rightarrow> 0 | Some k \<Rightarrow> le_keyIdOf e k)"

definition applyAuthKey :: "'k link_env \<Rightarrow> auth_key option \<Rightarrow> supervisor \<Rightarrow> supervisor option" where
  "applyAuthKey e key sp =
     (let sp = sp\<lparr>sp_encryptionKey := key\<rparr>; newKeyId = key_id e key
      in if sp_keyId sp \<noteq> 0 then
           (if sp_keyId sp = newKeyId then Some sp
            else let sp = setCurrentKeyId e 0 sp in Some (if sp_connection sp \<noteq> None then restart e sp else sp))
         else if sp_connection sp = None then Some sp
         else let sp = setCurrentKeyId e newKeyId sp
              in if sp_sentEncryptedWithKeyId sp \<noteq> 0 then None
                 else if sp_keyId sp \<noteq> 0 then Some (sp_authKeyChecked e sp)
                 else create_key e sp)"

definition session_destroyTemporaryKey :: "'k link_env \<Rightarrow> 64 word \<Rightarrow> supervisor \<Rightarrow> supervisor" where
  "session_destroyTemporaryKey e keyId sp =
     (let (destroyed, d) = dc_destroyTemporaryKey (le_keyIdOf e) keyId (kw_dc (sp_keys sp));
          sp = sp\<lparr>sp_keys := (sp_keys sp)\<lparr>kw_dc := d\<rparr>\<rparr>
      in if destroyed then call DcTemporaryKeyChanged sp else sp)"

definition destroyTemporaryKey :: "'k link_env \<Rightarrow> supervisor \<Rightarrow> supervisor option" where
  "destroyTemporaryKey e sp =
     (if le_isKeysDestroyer e then Some (call KeyWasPossiblyDestroyed sp)
      else case sp_releaseKeyCreationOnFail e sp of
             None \<Rightarrow> None
           | Some sp \<Rightarrow>
               map_option (restart e) (applyAuthKey e None
                 (case sp_encryptionKey sp of
                    None \<Rightarrow> sp | Some k \<Rightarrow> session_destroyTemporaryKey e (le_keyIdOf e k) sp)))"

definition checkAuthKey :: "'k link_env \<Rightarrow> supervisor \<Rightarrow> supervisor option" where
  "checkAuthKey e sp =
     (if sp_keyId sp \<noteq> 0 then Some (sp_authKeyChecked e sp)
      else if le_isKeysDestroyer e then applyAuthKey e (getPersistentKey (kw_dc (sp_keys sp))) sp
      else applyAuthKey e (getTemporaryKey (TemporaryKeyTypeByDcType (sp_currentDcType sp)) (kw_dc (sp_keys sp))) sp)"

definition updateAuthKey :: "'k link_env \<Rightarrow> supervisor \<Rightarrow> supervisor option" where
  "updateAuthKey e sp =
     (if le_isKeysDestroyer e \<or> sp_keyCreator sp \<noteq> None \<or> sp_connection sp = None then Some sp
      else applyAuthKey e (getTemporaryKey (TemporaryKeyTypeByDcType (sp_currentDcType sp)) (kw_dc (sp_keys sp))) sp)"

subsection \<open>Test connections\<close>

definition alive :: "supervisor \<Rightarrow> nat list" where
  "alive sp = map tested (sp_testConnections sp) @ (case sp_connection sp of None \<Rightarrow> [] | Some k \<Rightarrow> [k])"

text \<open>The result is an \<open>int16\<close>.\<close>

definition getProtocolDcId :: "'k link_env \<Rightarrow> supervisor \<Rightarrow> int" where
  "getProtocolDcId e sp =
     (let dcId = BareDcId (le_shiftedDcId e);
          simpleDcId = (if isTemporaryDcId dcId then getRealIdFromTemporaryDcId dcId else dcId);
          testedDcId = (if isTestMode (le_dcOptions e) then kTestModeDcIdShift + simpleDcId else simpleDcId)
      in signed_take_bit 15 (if sp_currentDcType sp = DcMediaCluster then - testedDcId else testedDcId))"

definition link_priority :: "'k link_env \<Rightarrow> protocol \<Rightarrow> string \<Rightarrow> byte list \<Rightarrow> int" where
  "link_priority e protocol ip secret =
     (if le_is_ipv6 e ip then (if le_preferIPv6 e then 2 else 0) else 1)
     + (if protocol = TcpProtocol then 1 else 0) + (if secret = [] then 0 else 1)"

definition appendTestConnection :: "'k link_env \<Rightarrow> protocol \<times> string \<times> int \<times> byte list \<Rightarrow> supervisor \<Rightarrow> supervisor" where
  "appendTestConnection e = (\<lambda>(protocol, ip, port, secret) sp.
     let k = sp_created sp;
         protocolForFiles = (isMediaClusterDcId (le_shiftedDcId e) \<or> sp_realDcType sp = DcCdn)
     in call (LinkConnect k ip port secret (getProtocolDcId e sp) protocolForFiles)
          (sp\<lparr>sp_testConnections := sp_testConnections sp @ [\<lparr>tested = k, test_priority = link_priority e protocol ip secret\<rparr>],
             sp_created := Suc k, sp_listening := sp_listening sp @ [k], sp_firstSentAt := 0, sp_oldConnection := False,
             sp_oldConnectionTimer := Some kMarkConnectionOldTimeout\<rparr>))"

definition skips :: "bool \<Rightarrow> bool \<Rightarrow> 'a \<Rightarrow> 'a \<Rightarrow> 'a \<Rightarrow> bool" where
  "skips use_first use_second x first second \<longleftrightarrow>
     (if \<not> use_first then x = first else if \<not> use_second then x = second else False)"

text \<open>The endpoints that are tried, in order; an MTProto proxy has its own.\<close>

definition wanted_links :: "'k link_env \<Rightarrow> dc_type \<Rightarrow> (protocol \<times> string \<times> int \<times> byte list) list" where
  "wanted_links e type =
     (let opts = le_options e; special = (type = DcTemporary);
          variants = dc_lookup (BareDcId (le_shiftedDcId e)) type (so_proxy opts \<noteq> NoProxy) (le_dcOptions e)
      in if so_proxy opts = Mtproto then [(TcpProtocol, [], 0, [])]
         else [(p, ep_ip x, ep_port x, ep_secret x).
            a \<leftarrow> [IPv4, IPv6], \<not> skips (special \<or> so_useIPv4 opts) (\<not> special \<and> so_useIPv6 opts) a IPv4 IPv6,
            p \<leftarrow> [TcpProtocol, HttpProtocol],
            \<not> skips (special \<or> so_useTcp opts) (\<not> special \<and> so_useHttp opts) p TcpProtocol HttpProtocol,
            x \<leftarrow> variants a p])"

definition begin_connecting :: "'k link_env \<Rightarrow> supervisor \<Rightarrow> supervisor" where
  "begin_connecting e sp =
     (let sp = (if sp_startedConnectingAt sp = 0 then sp\<lparr>sp_startedConnectingAt := le_now e\<rparr>
                else if le_now e - sp_startedConnectingAt sp > kRequestConfigTimeout then call RequestConfigIfOld sp
                else sp);
          sp = snd (sp_setState e kConnectingState None (sp\<lparr>sp_retryTimer := None, sp_waitForConnectedTimer := None\<rparr>))
      in (on_session forget_pings sp)\<lparr>sp_waitForConnectedTimer := Some (sp_waitForConnected sp)\<rparr>)"

definition sp_connectToServer :: "'k link_env \<Rightarrow> bool \<Rightarrow> supervisor \<Rightarrow> supervisor option" where
  "sp_connectToServer e afterConfig sp =
     (if afterConfig \<and> (sp_testConnections sp \<noteq> [] \<or> sp_connection sp \<noteq> None) then Some sp
      else let sp = destroyAllConnections sp;
               newType = dcType (le_shiftedDcId e) (le_dcOptions e);
               realDcTypeChanged = (sp_realDcType sp \<noteq> newType);
               sp = sp\<lparr>sp_realDcType := newType\<rparr>
           in if realDcTypeChanged \<and> sp_keyCreator sp \<noteq> None then destroyTemporaryKey e sp
              else case tryAcquireKeyCreation e (sp\<lparr>sp_options := Some (le_options e)\<rparr>) of
                None \<Rightarrow> None
              | Some (type, sp) \<Rightarrow>
                  (let sp = sp\<lparr>sp_currentDcType := type\<rparr>;
                       connecting = fold (appendTestConnection e) (wanted_links e type) sp
                   in if type = DcCdn \<and> \<not> le_isKeysDestroyer e
                         \<and> \<not> hasCDNKeysForDc (BareDcId (le_shiftedDcId e)) (le_dcOptions e)
                      then Some (call RequestCDNConfig sp)
                      else if sp_testConnections connecting \<noteq> [] then Some (begin_connecting e connecting)
                      else if le_isKeysDestroyer e then Some (call KeyWasPossiblyDestroyed connecting)
                      else if afterConfig then Some (restart e connecting)
                      else Some (call RequestConfig connecting)))"

definition next_retry :: "int \<Rightarrow> int" where
  "next_retry timeout =
     (if timeout < 3 then timeout + 1 else if timeout = 3 then 1000 else if timeout < 64000 then timeout * 2 else timeout)"

definition retryByTimer :: "'k link_env \<Rightarrow> supervisor \<Rightarrow> supervisor option" where
  "retryByTimer e sp = sp_connectToServer e False (sp\<lparr>sp_retryTimeout := next_retry (sp_retryTimeout sp)\<rparr>)"

definition dcOptionsChanged :: "'k link_env \<Rightarrow> supervisor \<Rightarrow> supervisor option" where
  "dcOptionsChanged e sp = sp_connectToServer e True (sp\<lparr>sp_retryTimeout := 1\<rparr>)"

definition cdnConfigChanged :: "'k link_env \<Rightarrow> supervisor \<Rightarrow> supervisor option" where
  "cdnConfigChanged e sp = sp_connectToServer e True sp"

subsection \<open>Choosing a connection\<close>

text \<open>The first of the greatest ones, by \<open>ranges::max_element\<close>.\<close>

definition test_value :: "'k link_env \<Rightarrow> test_connection \<Rightarrow> int" where
  "test_value e t = (if le_isConnected e (tested t) then test_priority t else -1)"

fun max_test :: "(test_connection \<Rightarrow> int) \<Rightarrow> test_connection list \<Rightarrow> test_connection option" where
  "max_test value [] = None"
| "max_test value (t # ts) =
     Some (fold (\<lambda>x best. if value best < value x then x else best) ts t)"

definition take_connection :: "nat \<Rightarrow> supervisor \<Rightarrow> supervisor" where
  "take_connection k sp = sp\<lparr>sp_connection := Some k, sp_sentEncryptedWithKeyId := 0, sp_receivers := 0,
     sp_testConnections := [], sp_listening := filter (\<lambda>i. i = k) (sp_listening sp)\<rparr>"

definition confirmBestConnection :: "'k link_env \<Rightarrow> supervisor \<Rightarrow> supervisor option" where
  "confirmBestConnection e sp =
     (if sp_waitForBetterTimer sp \<noteq> None then Some sp
      else case max_test (test_value e) (sp_testConnections sp) of
        None \<Rightarrow> None
      | Some t \<Rightarrow>
          (if \<not> le_isConnected e (tested t) then Some sp else checkAuthKey e (take_connection (tested t) sp)))"

definition sp_onConnected :: "'k link_env \<Rightarrow> nat \<Rightarrow> supervisor \<Rightarrow> supervisor option" where
  "sp_onConnected e k sp =
     (let sp = sp\<lparr>sp_listening := removeAll k (sp_listening sp)\<rparr>
      in if \<not> le_isConnected e k then Some (restart e sp)
         else let sp = sp\<lparr>sp_waitForConnected := kMinConnectedTimeout, sp_waitForConnectedTimer := None\<rparr>
              in case find (\<lambda>t. tested t = k) (sp_testConnections sp) of
                None \<Rightarrow> None
              | Some i \<Rightarrow>
                  (if list_ex (\<lambda>t. test_priority t > test_priority i) (sp_testConnections sp)
                   then Some (sp\<lparr>sp_waitForBetterTimer := Some kWaitForBetterTimeout\<rparr>)
                   else checkAuthKey e (take_connection k (sp\<lparr>sp_waitForBetterTimer := None\<rparr>))))"

definition removeTestConnection :: "nat \<Rightarrow> supervisor \<Rightarrow> supervisor" where
  "removeTestConnection k sp =
     (if k \<in> tested ` set (sp_testConnections sp)
      then sp\<lparr>sp_testConnections := filter (\<lambda>t. tested t \<noteq> k) (sp_testConnections sp),
              sp_listening := removeAll k (sp_listening sp)\<rparr>
      else sp)"

definition sp_onDisconnected :: "'k link_env \<Rightarrow> nat \<Rightarrow> supervisor \<Rightarrow> supervisor option" where
  "sp_onDisconnected e k sp =
     (let sp = removeTestConnection k sp
      in if sp_testConnections sp = [] then Some (restart e (destroyAllConnections sp)) else confirmBestConnection e sp)"

definition sp_handleError :: "'k link_env \<Rightarrow> int \<Rightarrow> supervisor \<Rightarrow> supervisor option" where
  "sp_handleError e errorCode sp =
     (let sp = (destroyAllConnections sp)\<lparr>sp_waitForConnectedTimer := None\<rparr>
      in if errorCode = -404 then destroyTemporaryKey e sp else Some (restart e sp))"

definition sp_onError :: "'k link_env \<Rightarrow> nat \<Rightarrow> int \<Rightarrow> supervisor \<Rightarrow> supervisor option" where
  "sp_onError e k errorCode sp =
     (let sp = (if errorCode = -444 then call BadConfigurationError sp else sp);
          sp = removeTestConnection k sp
      in if sp_testConnections sp = [] then sp_handleError e errorCode sp else confirmBestConnection e sp)"

subsection \<open>Timers\<close>

text \<open>The size is an \<open>uint64\<close>.\<close>

definition onSentSome :: "'k link_env \<Rightarrow> nat \<Rightarrow> supervisor \<Rightarrow> supervisor option" where
  "onSentSome e size_sent sp =
     (let sent = (\<lambda>sp. if sp_firstSentAt sp = 0 then sp\<lparr>sp_firstSentAt := le_now e\<rparr> else sp);
          remain = sp_waitForReceived sp;
          bySize = (int size_sent * remain) mod 2 ^ 64 div 8192
      in if sp_waitForReceivedTimer sp \<noteq> None then Some (sent sp)
         else if sp_oldConnection sp then Some (sent (sp\<lparr>sp_waitForReceivedTimer := Some remain\<rparr>))
         else if remain > kMaxReceiveTimeout then None
         else Some (sent (sp\<lparr>sp_waitForReceivedTimer := Some (max remain (min bySize kMaxReceiveTimeout))\<rparr>)))"

definition onReceivedSome :: "'k link_env \<Rightarrow> supervisor \<Rightarrow> supervisor" where
  "onReceivedSome e sp =
     (let sp = sp\<lparr>sp_oldConnection := False, sp_oldConnectionTimer := Some kMarkConnectionOldTimeout,
                  sp_waitForReceivedTimer := None\<rparr>
      in if sp_firstSentAt sp > 0
         then let ms = le_now e - sp_firstSentAt sp
              in sp\<lparr>sp_waitForReceived := (if ms > 0 \<and> ms * 2 < sp_waitForReceived sp
                                           then max (ms * 2) kMinReceiveTimeout else sp_waitForReceived sp),
                    sp_firstSentAt := -1\<rparr>
         else sp)"

definition markConnectionOld :: "supervisor \<Rightarrow> supervisor" where
  "markConnectionOld sp = sp\<lparr>sp_oldConnection := True, sp_waitForReceived := kMinReceiveTimeout\<rparr>"

definition sendPingByTimer :: "'k link_env \<Rightarrow> supervisor \<Rightarrow> supervisor" where
  "sendPingByTimer e sp =
     (if pingId (sp_session sp) \<noteq> 0
      then if pingSendAt (sp_session sp) + kPingSendAfterForce - kPingSendAfter < le_now e + 1000 then restart e sp else sp
      else on_session (ask NeedToResumeAndSend) sp)"

definition waitReceivedFailed :: "'k link_env \<Rightarrow> supervisor \<Rightarrow> supervisor option" where
  "waitReceivedFailed e sp =
     (if sp_options sp = None then None
      else let sp = (if sp_waitForReceived sp < kMaxReceiveTimeout
                     then sp\<lparr>sp_waitForReceived := min (sp_waitForReceived sp * 2) kMaxReceiveTimeout\<rparr> else sp);
               sp = doDisconnect e sp
           in if sp_retryTimer sp \<noteq> None then Some sp
              else Some (call RestartedByTimeout (sp\<lparr>sp_queued := Suc (sp_queued sp)\<rparr>)))"

definition waitConnectedFailed :: "'k link_env \<Rightarrow> supervisor \<Rightarrow> supervisor" where
  "waitConnectedFailed e sp =
     (let maxTimeout = fold max (map (le_fullConnectTimeout e \<circ> tested) (sp_testConnections sp)) kMaxConnectedTimeout;
          sp = (if sp_waitForConnected sp < maxTimeout
                then sp\<lparr>sp_waitForConnected := min maxTimeout (2 * sp_waitForConnected sp)\<rparr> else sp)
      in (doDisconnect e sp)\<lparr>sp_queued := Suc (sp_queued sp)\<rparr>)"

definition sp_checkSentRequests :: "'k link_env \<Rightarrow> supervisor \<Rightarrow> supervisor" where
  "sp_checkSentRequests e sp =
     (if bindMsgId (sp_session sp) \<noteq> 0 \<and> bindMessageSent (sp_session sp) < le_now e - kCheckSentRequestTimeout
      then restart e sp else on_session (checkSentRequests (le_now e)) sp)"

subsection \<open>A key is ready\<close>

text \<open>The result of \<open>DcKeyCreator\<close>; when the temporary key expires is left out.\<close>

datatype unbound_result = UnboundFailed bool | Unbound auth_key "auth_key option" "64 word"

definition fail_creation :: "'k link_env \<Rightarrow> bool \<Rightarrow> supervisor \<Rightarrow> supervisor option" where
  "fail_creation e unknownPublicKey sp =
     map_option (\<lambda>sp. if unknownPublicKey \<and> sp_realDcType sp = DcCdn then call RequestCDNConfig sp else restart e sp)
       (sp_releaseKeyCreationOnFail e sp)"

definition bound_call :: "creating_type \<Rightarrow> auth_key option \<Rightarrow> instance_call" where
  "bound_call was key = (if was = CreatingPersistent then DcPersistentKeyChanged key else DcTemporaryKeyChanged)"

definition bind_creator :: "auth_key \<Rightarrow> supervisor \<Rightarrow> supervisor option" where
  "bind_creator key sp =
     map_option (\<lambda>k. sp\<lparr>sp_keyCreator := Some (k\<lparr>kc_started := False, kc_binder := Some key\<rparr>)\<rparr>) (sp_keyCreator sp)"

definition finish_cdn :: "'k link_env \<Rightarrow> supervisor \<Rightarrow> supervisor option" where
  "finish_cdn e sp =
     (case releaseCdnKeyCreationOnDone (le_me e) (sp_encryptionKey sp) (sp_keys sp) of
        None \<Rightarrow> None
      | Some (ok, w) \<Rightarrow>
          (let was = kw_mine (sp_keys sp) (le_me e); sp = sp\<lparr>sp_keyCreator := None, sp_keys := w\<rparr>
           in Some (if ok then call (bound_call was None) (on_session (ask NeedToResumeAndSend) sp) else restart e sp)))"

fun unboundReady :: "'k link_env \<Rightarrow> unbound_result \<Rightarrow> supervisor \<Rightarrow> supervisor option" where
  "unboundReady e (UnboundFailed unknownPublicKey) sp = fail_creation e unknownPublicKey sp"
| "unboundReady e (Unbound temporaryKey persistentKey salt) sp =
     (let sp = on_session (\<lambda>s. s\<lparr>sessionSalt := salt\<rparr>) sp
      in if sp_realDcType sp = DcCdn
         then (case applyAuthKey e (Some temporaryKey) sp of None \<Rightarrow> None | Some sp \<Rightarrow> finish_cdn e sp)
         else case (if persistentKey \<noteq> None then persistentKey else getPersistentKey (kw_dc (sp_keys sp))) of
           None \<Rightarrow> fail_creation e False sp
         | Some key \<Rightarrow>
             (case bind_creator key sp of None \<Rightarrow> None | Some sp \<Rightarrow> applyAuthKey e (Some temporaryKey) sp))"

subsection \<open>The key is bound\<close>

datatype bind_state = BindSuccess | BindFailed | BindDefinitelyDestroyed

definition destroyOldEnoughPersistentKey :: "'k link_env \<Rightarrow> auth_key \<Rightarrow> supervisor \<Rightarrow> bool \<times> supervisor" where
  "destroyOldEnoughPersistentKey e key sp =
     (if le_creationTime e key > 0 \<and> le_now e - le_creationTime e key < kKeyOldEnoughForDestroy then (False, sp)
      else (True, call (KeyDestroyedOnServer (le_keyIdOf e key)) sp))"

text \<open>What an answer to the binding does to the keys, and its result.\<close>

definition bind_outcome :: "'k link_env \<Rightarrow> bind_state \<Rightarrow> supervisor \<Rightarrow> (handle_result \<times> supervisor) option" where
  "bind_outcome e state sp =
     (case sp_keyCreator sp of
        None \<Rightarrow> None
      | Some k \<Rightarrow>
          (case kc_binder k of
             None \<Rightarrow> None
           | Some key \<Rightarrow>
               (case state of
                  BindSuccess \<Rightarrow>
                    (case releaseKeyCreationOnDone (le_me e) (sp_encryptionKey sp) (Some key) (sp_keys sp) of
                       None \<Rightarrow> None
                     | Some (ok, w) \<Rightarrow>
                         (let was = kw_mine (sp_keys sp) (le_me e); sp = sp\<lparr>sp_keyCreator := None, sp_keys := w\<rparr>
                          in Some (if ok then (HSuccess, call (bound_call was (Some key)) sp)
                                   else (HDestroyTemporaryKey, sp))))
                | BindDefinitelyDestroyed \<Rightarrow>
                    (let (destroyed, sp) = destroyOldEnoughPersistentKey e key sp
                     in Some (if destroyed then HDestroyTemporaryKey else HSuccess, sp))
                | BindFailed \<Rightarrow> Some (HSuccess, sp))))"

definition binder_of :: "'k link_env \<Rightarrow> (prime list \<Rightarrow> bind_state) \<Rightarrow> supervisor \<Rightarrow> (prime list \<Rightarrow> handle_result) option" where
  "binder_of e states sp =
     (if sp_keyCreator sp = None then None
      else Some (\<lambda>response. case bind_outcome e (states response) sp of None \<Rightarrow> HSuccess | Some (r, _) \<Rightarrow> r))"

text \<open>The answer among the new questions of a session, if there is one.\<close>

fun bind_answers :: "asked list \<Rightarrow> prime list list" where
  "bind_answers [] = []"
| "bind_answers (BindAnswered r # as) = r # bind_answers as"
| "bind_answers (_ # as) = bind_answers as"

definition new_bind_answers :: "mtp_session \<Rightarrow> mtp_session \<Rightarrow> prime list list" where
  "new_bind_answers s s' = bind_answers (drop (length (asks s)) (asks s'))"

definition after_binding :: "'k link_env \<Rightarrow> (prime list \<Rightarrow> bind_state) \<Rightarrow> prime list list \<Rightarrow> supervisor \<Rightarrow> supervisor option" where
  "after_binding e states answers sp =
     (case answers of [] \<Rightarrow> Some sp | response # _ \<Rightarrow> map_option snd (bind_outcome e (states response) sp))"

subsection \<open>Packets\<close>

datatype crash = AssertionFailed | MessageRefused

definition asserted :: "'a option \<Rightarrow> crash + 'a" where
  "asserted x = (case x of None \<Rightarrow> Inl AssertionFailed | Some y \<Rightarrow> Inr y)"

definition receive_now :: "'k link_env \<Rightarrow> receive_env \<Rightarrow> (prime list \<Rightarrow> bind_state) \<Rightarrow> supervisor \<Rightarrow> receive_env" where
  "receive_now e re states sp = re\<lparr>re_bind := binder_of e states sp, re_now := le_now e,
     re_regularDc := (sp_currentDcType sp = DcRegular)\<rparr>"

text \<open>The end of the loop for one packet: whether the loop goes on.\<close>

definition after_packet :: "'k link_env \<Rightarrow> handle_result \<Rightarrow> supervisor \<Rightarrow> (bool \<times> supervisor) option" where
  "after_packet e r sp =
     (if r \<in> {HSuccess, HIgnored} then Some (True, sp\<lparr>sp_retryTimeout := 1, sp_startedConnectingAt := 0\<rparr>)
      else if r = HDestroyTemporaryKey then map_option (\<lambda>sp. (False, restart e sp)) (destroyTemporaryKey e sp)
      else Some (False, restart e (if r = HResetSession then sp\<lparr>sp_needSessionReset := True\<rparr> else sp)))"

text \<open>
  One packet, \<open>None\<close> where its checks or its decryption refuse it (\<open>open_secure\<close>). \<open>MessageRefused\<close>:
  the message is empty or nested deeper than the fuel.
\<close>

definition sp_packet :: "'k link_env \<Rightarrow> nat \<Rightarrow> receive_env \<Rightarrow> (prime list \<Rightarrow> bind_state) \<Rightarrow> int
    \<Rightarrow> secure_message option \<Rightarrow> supervisor \<Rightarrow> crash + bool \<times> supervisor" where
  "sp_packet e depth re states clientTime packet sp =
     (case packet of
        None \<Rightarrow> Inr (False, restart e sp)
      | Some m \<Rightarrow>
          (case handleReceived depth (receive_now e re states sp) clientTime m (sp_session sp) of
             None \<Rightarrow> Inl MessageRefused
           | Some (r, s) \<Rightarrow>
               asserted (case after_binding e states (new_bind_answers (sp_session sp) s) (sp\<lparr>sp_session := s\<rparr>) of
                 None \<Rightarrow> None | Some sp \<Rightarrow> after_packet e r sp)))"

primrec sp_packets :: "'k link_env \<Rightarrow> nat \<Rightarrow> receive_env \<Rightarrow> (prime list \<Rightarrow> bind_state) \<Rightarrow> int
    \<Rightarrow> secure_message option list \<Rightarrow> supervisor \<Rightarrow> crash + bool \<times> supervisor" where
  "sp_packets e depth re states clientTime [] sp = Inr (True, sp)"
| "sp_packets e depth re states clientTime (packet # packets) sp =
     (case sp_packet e depth re states clientTime packet sp of
        Inl c \<Rightarrow> Inl c
      | Inr (goes_on, sp) \<Rightarrow>
          (if goes_on then sp_packets e depth re states clientTime packets sp else Inr (False, sp)))"

definition sp_handleReceived :: "'k link_env \<Rightarrow> nat \<Rightarrow> receive_env \<Rightarrow> (prime list \<Rightarrow> bind_state) \<Rightarrow> int \<Rightarrow> bool
    \<Rightarrow> secure_message option list \<Rightarrow> supervisor \<Rightarrow> crash + supervisor" where
  "sp_handleReceived e depth re states clientTime needHttpWait packets sp =
     (if sp_encryptionKey sp = None \<or> sp_connection sp = None then Inl AssertionFailed
      else case sp_packets e depth re states clientTime packets (onReceivedSome e sp) of
        Inl c \<Rightarrow> Inl c
      | Inr (goes_on, sp) \<Rightarrow> Inr (if goes_on \<and> needHttpWait then on_session (ask (SendAnything 0)) sp else sp))"

subsection \<open>Sending\<close>

text \<open>What of \<open>send_env\<close> the state decides.\<close>

definition sending_env :: "'k link_env \<Rightarrow> send_env \<Rightarrow> supervisor \<Rightarrow> send_env" where
  "sending_env e env sp = env\<lparr>en_connection := (sp_connection sp \<noteq> None), en_key := (sp_keyId sp \<noteq> 0),
     en_connectionInited := dc_connectionInited (kw_dc (sp_keys sp)),
     en_keyCreator := map_option (\<lambda>k. kc_binder k \<noteq> None) (sp_keyCreator sp),
     en_isMainSession := (GetDcIdShift (le_shiftedDcId e) = 0), en_now := le_now e\<rparr>"

definition needs_options :: "send_env \<Rightarrow> mtp_session \<Rightarrow> bool" where
  "needs_options env s \<longleftrightarrow> en_connection env \<and> en_key env \<and> \<not> en_connectionInited env
     \<and> (st_state s = kConnectedState \<or> pingIdToSend s \<noteq> 0)"

definition sent_packet :: "'k link_env \<Rightarrow> sending \<Rightarrow> nat \<Rightarrow> supervisor \<Rightarrow> supervisor option" where
  "sent_packet e r fullSize sp =
     (let sp = sp\<lparr>sp_sentEncryptedWithKeyId := sp_keyId sp\<rparr>
      in if sn_needAnyResponse r then onSentSome e ((8 + fullSize) * 4) sp else Some sp)"

definition sp_tryToSend :: "(nat \<Rightarrow> mtpMsgId) \<Rightarrow> 'k link_env \<Rightarrow> scheme \<Rightarrow> send_env \<Rightarrow> byte \<Rightarrow> (nat \<Rightarrow> prime)
    \<Rightarrow> supervisor \<Rightarrow> supervisor option" where
  "sp_tryToSend draw e sch env random fill sp =
     (let env = sending_env e env sp; s = sp_session sp; (r, t) = tryToSend draw sch env s;
          sp = sp\<lparr>sp_session := sendSecureRequest random fill r t\<rparr>
      in if needs_options env s \<and> sp_options sp = None then None
         else case sn_packet r of
           None \<Rightarrow> Some sp
         | Some d \<Rightarrow>
             (case secure_ints random fill (sessionSalt t) (sessionId t) d of
                None \<Rightarrow> Some sp
              | Some packet \<Rightarrow> sent_packet e r (length (rd_ints packet)) sp))"

text \<open>The destructor, up to what it expects.\<close>

definition end_supervision :: "'k link_env \<Rightarrow> supervisor \<Rightarrow> supervisor option" where
  "end_supervision e sp =
     (case sp_releaseKeyCreationOnFail e sp of
        None \<Rightarrow> None
      | Some sp \<Rightarrow>
          (let sp = doDisconnect e sp
           in if sp_connection sp \<noteq> None \<or> sp_testConnections sp \<noteq> [] then None else Some sp))"

end
