(* ===== verification/Session_Binding.thy ===== *)
theory Session_Binding
  imports Session_Connection
begin

text \<open>
  When a session binds a key (\<open>_bindMsgId\<close> of \<open>mtproto/session_private.cpp\<close>): receiving forgets the
  request or answers it, once, and only if there is a key creator; only sending makes a new one, and
  only if a creator is ready to bind.
\<close>

subsection \<open>Receiving\<close>

lemma bind_answers_append [simp]: "bind_answers (xs @ ys) = bind_answers xs @ bind_answers ys"
  by (induction xs rule: bind_answers.induct) simp_all

definition answering :: "bool \<Rightarrow> mtp_session \<Rightarrow> mtp_session \<Rightarrow> bool" where
  "answering b s s' \<longleftrightarrow> (\<exists>xs. asks s' = asks s @ xs
     \<and> (bind_answers xs = [] \<and> bindMsgId s' \<in> {bindMsgId s, 0}
        \<or> b \<and> (\<exists>r. bind_answers xs = [r]) \<and> bindMsgId s \<noteq> 0 \<and> bindMsgId s' = 0))"

lemma answering_same: "asks s' = asks s \<Longrightarrow> bindMsgId s' \<in> {bindMsgId s, 0} \<Longrightarrow> answering b s s'"
  unfolding answering_def by (intro exI [of _ "[]"]) simp

lemma answering_asked: "asks s' = asks s @ [a] \<Longrightarrow> bind_answers [a] = [] \<Longrightarrow> bindMsgId s' \<in> {bindMsgId s, 0} \<Longrightarrow> answering b s s'"
  unfolding answering_def by (intro exI [of _ "[a]"]) simp

lemma answering_trans: "answering b s t \<Longrightarrow> answering b t u \<Longrightarrow> answering b s u"
  unfolding answering_def by (elim exE conjE, rule_tac x = "xs @ xsa" in exI) auto

interpretation answers: promise "answering b" for b
  by unfold_locales (rule answering_same, simp_all, rule answering_trans)

lemmas answers_next = answers.in_turn [OF _ answering_same] answers.in_turn [OF _ answering_asked]

lemma answering_ask [simp]: "answering b s s' \<Longrightarrow> bind_answers [a] = [] \<Longrightarrow> answering b s (ask a s')"
  by (erule answers_next(2)) (simp_all add: ask_def)

lemma answering_resend_request: "answering b s (resend_request now m s)"
  by (rule answering_same) (simp_all add: resend_request_def Let_def split: option.split)

lemma answering_resend_fuel: "answering b s (resend_fuel fuel now w m s)"
proof (induction fuel arbitrary: w m s)
  case (Suc fuel)
  define t where "t = (case map_of (sentContainers s) m of
      Some c \<Rightarrow> fold (resend_fuel fuel now (-1)) (sc_messages c) (s\<lparr>sentContainers := fm_erase m (sentContainers s)\<rparr>)
    | None \<Rightarrow> resend_request now m s)"
  have "answering b u (fold (resend_fuel fuel now (-1)) ms u)" for ms u by (rule answers.along) (rule Suc.IH)
  moreover have "answering b s (s\<lparr>sentContainers := c\<rparr>)" for c by (rule answering_same) simp_all
  ultimately have "answering b s t"
    unfolding t_def by (auto intro: answering_resend_request answering_trans split: option.split)
  then have "answering b s (clearSpecialMsgId m t)"
    by (rule answers_next(1)) (simp_all add: clearSpecialMsgId_def)
  then show ?case by (simp add: t_def Let_def answering_ask)
qed (simp add: answers.at_rest)

lemma answering_resend: "answering b s (resend now w m s)"
  unfolding resend_def by (rule answering_resend_fuel)

lemma answering_resendAll: "answering b s (resendAll now s)"
proof -
  have "answering b u (resend_taken now e u)" for e u
    by (rule answering_same) (simp_all add: resend_taken_def split_beta Let_def)
  then have "answering b u (fold (resend_taken now) es u)" for es u by (rule answers.along)
  moreover have "answering b s (s\<lparr>haveSent := []\<rparr>)" by (rule answering_same) simp_all
  ultimately have "answering b s (fold (resend_taken now) (haveSent s) (s\<lparr>haveSent := []\<rparr>))" using answering_trans by blast
  then show ?thesis by (simp add: resendAll_def answering_ask)
qed

lemma answering_ack_pass: "answering b s (fst (ack_pass hc r ids s))"
proof (induction ids arbitrary: s)
  case (Cons i ids)
  have "answering b s (fst (ack_one hc r i s))"
    by (rule answering_same) (simp_all add: ack_one_def Let_def split: option.split)
  then show ?case using answering_trans [OF _ Cons.IH] by (simp add: Let_def)
qed (simp add: answers.at_rest)

lemma answering_acked: "answering b s (requestsAcked hc r ids s)"
proof (induction hc r ids s rule: requestsAcked.induct)
  case (1 hc r ids s)
  define t where "t = trim_acked (fst (ack_pass hc r ids s))"
  have "answering b (fst (ack_pass hc r ids s)) t" by (rule answering_same) (simp_all add: t_def trim_acked_def)
  then have t: "answering b s t" using answering_ack_pass answering_trans by blast
  have "requestsAcked hc r ids s = (if snd (ack_pass hc r ids s) \<noteq> [] then requestsAcked hc False (snd (ack_pass hc r ids s)) t else t)"
    by (subst requestsAcked.simps) (simp add: t_def Let_def)
  then show ?case using t 1 answering_trans by (simp add: t_def)
qed

lemma answering_states: "answering b s (handleMsgsStates hc now ids states s)"
proof -
  have "answering b t (snd (state_of_one now e (acked, t)))" for e acked t
    by (cases e) (simp add: state_of_one_def answering_resend answers.at_rest)
  then have "answering b (snd ([] :: mtpMsgId list, s)) (snd (fold (state_of_one now) (zip ids states) ([], s)))"
    by (rule answers.along_pairs)
  then have "answering b s (requestsAcked hc False acked (snd (fold (state_of_one now) (zip ids states) ([], s))))" for acked
    using answering_trans answering_acked by (metis snd_conv)
  then show ?thesis by (simp add: handleMsgsStates_def split_beta answers.at_rest)
qed

text \<open>The handlers.\<close>

lemma answering_fields [simp]:
  "answering b s (s\<lparr>sessionSalt := salt\<rparr>)" "answering b s (s\<lparr>pingId := m\<rparr>)"
  "answering b s (s\<lparr>receivedMessageIds := received\<rparr>)" "answering b s (s\<lparr>st_state := x\<rparr>)" "answering b s (queue_response r o' i s)"
  "answering b s (ask_for_answer m s)" "answering b s (need_ack a m s)"
  by (rule answering_same; simp add: queue_response_def ask_for_answer_def need_ack_def)+

lemma answering_rest [simp]: "answering b s s"
  by (rule answers.at_rest)

lemma answering_salt [simp]: "answering b s (use_salt info s)"
  by (simp add: use_salt_def)

lemma answering_fix [simp]: "answering b s (snd (requestsFixTimeSalt ids info s))"
  by (simp add: requestsFixTimeSalt_def)

lemma answering_register [simp]: "answering b s (snd (register m a s))"
  by (simp add: register_def split_beta)

lemma answering_setState [simp]: "answering b s (snd (setState x y s))"
  by (simp add: setState_def)

lemmas answering_intros = answering_resend answering_resendAll answering_acked answering_states

lemma answering_with_time:
  assumes "\<And>s. answering b s (snd (go s))"
  shows "answering b s (snd (with_time ms go info s))"
proof -
  have "answering b s (snd (go (snd (requestsFixTimeSalt ms info s))))" by (rule answering_trans [OF answering_fix assms])
  then show ?thesis by (simp add: with_time_def split_beta assms)
qed

lemma answering_connected:
  "answering b s (if fst (setState x y s) then resendAll now (snd (setState x y s)) else snd (setState x y s))"
proof -
  have "answering b s (resendAll now (snd (setState x y s)))" by (rule answering_trans [OF answering_setState answering_resendAll])
  then show ?thesis by simp
qed

lemma answering_bind: "answering (re_bind e \<noteq> None) s (snd (handleBindResponse e m response s))"
proof (cases "re_bind e = None \<or> bindMsgId s = 0 \<or> bindMsgId s \<noteq> m")
  case True
  then show ?thesis by (auto simp: handleBindResponse_def split: option.split)
next
  case False
  define t where "t = ask (BindAnswered response) (s\<lparr>bindMsgId := 0\<rparr>)"
  have "answering (re_bind e \<noteq> None) s t"
    unfolding answering_def by (rule exI [of _ "[BindAnswered response]"]) (use False in \<open>auto simp: t_def ask_def\<close>)
  then show ?thesis using False by (auto simp: handleBindResponse_def Let_def simp flip: t_def)
qed

lemma answering_deliver: "answering (re_bind e \<noteq> None) s (snd (deliver_result e m result info s))"
proof -
  define typeId where "typeId = hd (result @ [re_past e])"
  define packed where "packed = (typeId = mtpc_gzip_packed)"
  define response where "response = (if packed then re_ungzip e (tl result) else result)"
  define inner where "inner = (if packed then hd response else typeId)"
  define s' where "s' = (if inner = mtpc_rpc_error then s else ask ConnectionInited s)"
  define b where "b = handleBindResponse e m response (requestsAcked (re_hasCallback e) True [m] s')"
  have "answering (re_bind e \<noteq> None) s s'" by (simp add: s'_def answering_ask)
  then have b: "answering (re_bind e \<noteq> None) s (snd b)"
    unfolding b_def using answering_trans answering_bind answering_acked by blast
  then have "answering (re_bind e \<noteq> None) s (queue_response response o' r (snd b))" for o' r
    using answering_trans by simp
  then show ?thesis
    unfolding deliver_result_def Let_def typeId_def [symmetric] packed_def [symmetric] response_def [symmetric]
      inner_def [symmetric] s'_def [symmetric] b_def [symmetric] split_beta
    using b by (cases "fst b") simp_all
qed

lemma answering_new_session: "answering b s (snd (handle_new_session_created e ints m salt used info s))"
proof -
  have "answering b u (queue_response r o' i (fold (resend now 10) ms (u\<lparr>sessionSalt := salt\<rparr>)))" for u now ms r o' i
    by (rule answering_trans [OF answering_trans [OF answering_fields(1) answers.along [OF answering_resend]] answering_fields(5)])
  then show ?thesis unfolding handle_new_session_created_def Let_def by (intro answering_with_time) simp
qed

lemma answering_bad_salt: "answering b s (snd (handle_bad_server_salt e m salt info s))"
proof -
  define t where "t = s\<lparr>sessionSalt := salt\<rparr>"
  have t: "answering b s t" by (simp add: t_def)
  have "answering b t (resend now 0 m (if fst (setState x y t) then resendAll now (snd (setState x y t)) else snd (setState x y t)))"
    for now x y using answering_trans [OF answering_connected answering_resend] by simp
  then have "answering b s (resend now 0 m (if fst (setState x y t) then resendAll now (snd (setState x y t)) else snd (setState x y t)))"
    for now x y using answering_trans [OF t] by blast
  then show ?thesis unfolding handle_bad_server_salt_def Let_def split_beta t_def [symmetric] using t by simp
qed

lemma answering_simple: "answering (re_bind e \<noteq> None) s (snd (handle_simple e ints info s))"
proof -
  define b where "b = (re_bind e \<noteq> None)"
  let ?b = b
  note answering_deliver = answering_deliver [of e, folded b_def]
  have result: "answering ?b s (snd (handle_rpc_result e ints info s))"
    by (auto simp: handle_rpc_result_def answering_with_time answering_deliver split: list.split)
  have detailed: "answering ?b s (snd (handle_msg_detailed_info e m a info s))" for m a
    unfolding handle_msg_detailed_info_def
    by (intro answering_with_time) (simp add: answering_trans [OF answering_acked answering_fields(6)])
  have pong: "answering ?b s (snd (handle_pong e m ping info s))" for m ping
  proof -
    have "answering ?b s (snd (with_time [m] (\<lambda>s. (HSuccess, requestsAcked (re_hasCallback e) True [m] s)) info
        (if ping = pingId s then s\<lparr>pingId := 0\<rparr> else s)))"
      by (rule answering_trans [OF _ answering_with_time]) (simp_all add: answering_acked)
    then show ?thesis unfolding handle_pong_def Let_def by simp
  qed
  have "answering ?b s (resend now 0 m (use_salt info s))" for now m
    by (rule answering_trans [OF answering_salt answering_resend])
  then have bad: "answering ?b s (snd (handle_bad_msg_notification e m c info s))" for m c
    by (simp add: handle_bad_msg_notification_def Let_def)
  have state: "answering ?b s (snd (handle_msgs_state_info e m states info s))" for m states
  proof -
    define t where "t = (if oi_badTime info then use_salt info s else s)"
    have "answering ?b s t" by (simp add: t_def)
    then have "answering ?b s (requestsAcked (re_hasCallback e) True [m] t)" using answering_trans answering_acked by blast
    then show ?thesis using answering_trans answering_states
      by (auto simp: handle_msgs_state_info_def t_def Let_def split: option.split)
  qed
  show ?thesis unfolding b_def [symmetric]
    by (auto simp: handle_simple_def result detailed pong bad state answering_new_session answering_bad_salt
        handle_msgs_ack_def answering_with_time answering_acked handle_msgs_all_info_def answering_states
        handle_msg_new_detailed_info_def handle_updates_def split: tl_message.split)
qed

lemma answering_loop:
  assumes "\<And>ints info s r s'. go ints info s = Some (r, s') \<Longrightarrow> answering b s s'"
    and "container_loop go xs info s = Some (r, s')"
  shows "answering b s s'"
  using assms(2)
proof (induction xs arbitrary: info s)
  case (Cons x xs)
  show ?case
  proof (cases x)
    case (Broken q i)
    then show ?thesis using Cons.prems by (auto split: option.splits)
  next
    case (Item i ack ints)
    obtain g t where t: "register i ack (need_ack ack i s) = (g, t)" by (cases "register i ack (need_ack ack i s)")
    have "answering b s (snd (register i ack (need_ack ack i s)))"
      by (rule answering_trans [OF answering_fields(7) answering_register])
    then have st: "answering b s t" using t by simp
    show ?thesis
    proof (cases g)
      case Registered
      then obtain q u where u: "go ints info t = Some (q, u)"
        and loop: "if q = HSuccess then container_loop go xs (info\<lparr>oi_badTime := False\<rparr>) u = Some (r, s') else s' = u"
        using Cons.prems t by (auto simp: Item split: option.splits if_splits)
      have "answering b s u" using st assms(1) [OF u] by (rule answering_trans)
      then show ?thesis using loop Cons.IH answering_trans by (auto split: if_splits)
    next
      case Duplicate
      then show ?thesis using Cons.prems t answering_trans [OF st Cons.IH] by (simp add: Item)
    next
      case TooOld
      then show ?thesis using Cons.prems t st by (simp add: Item)
    qed
  qed
qed simp

lemma answering_one:
  "handleOneReceived depth e ints info s = Some (r, s') \<Longrightarrow> answering (re_bind e \<noteq> None) s s'"
proof (induction depth arbitrary: ints info s r s')
  case (Suc depth)
  have i: "ints \<noteq> []" using Suc.prems by auto
  show ?case
  proof (cases "hd ints = mtpc_gzip_packed")
    case True
    then show ?thesis using Suc i by (auto simp: Let_def split: if_splits)
  next
    case packed: False
    show ?thesis
    proof (cases "hd ints = mtpc_msg_container")
      case False
      then have "s' = snd (handle_simple e ints info s)" using Suc.prems i packed by auto
      then show ?thesis using answering_simple by blast
    next
      case True
      show ?thesis
      proof (cases "tl ints")
        case Nil
        then show ?thesis using Suc.prems i packed True by simp
      next
        case (Cons n rest)
        then have l: "container_loop (handleOneReceived depth e) (container_items (unat n) rest) info s = Some (r, s')"
          using Suc.prems i packed True by simp
        show ?thesis by (rule answering_loop [OF _ l]) (rule Suc.IH)
      qed
    qed
  qed
qed simp

lemma answering_received:
  assumes "handleReceived depth e now m s = Some (r, s')"
  shows "answering (re_bind e \<noteq> None) s s'"
proof -
  let ?b = "re_bind e \<noteq> None" and ?bad = "bad_time now (sm_msgId m)" and ?ack = "sm_seqNo m AND 1 \<noteq> 0"
  define t where "t = take_salt e ?bad (sm_salt m) s"
  define u where "u = register (sm_msgId m) ?ack (need_ack ?ack (sm_msgId m) (snd t))"
  have "answering ?b s (snd t)"
    using answering_trans [OF answering_fields(1) answering_connected] by (simp add: t_def take_salt_def split_beta)
  then have u: "answering ?b s (snd u)" unfolding u_def using answering_trans answering_fields(7) answering_register by blast
  define x where "x = (case fst u of
      Registered \<Rightarrow> handleOneReceived depth e (sm_ints m)
        \<lparr>oi_outerMsgId = sm_msgId m, oi_serverSalt = fst t, oi_badTime = ?bad\<rparr> (snd u)
    | TooOld \<Rightarrow> Some (HResetSession, snd u)
    | Duplicate \<Rightarrow> Some (HSuccess, snd u))"
  obtain q v where v: "x = Some (q, v)"
  proof (cases x)
    case None
    then show ?thesis using assms
      unfolding handleReceived_def Let_def t_def [symmetric] u_def [symmetric] split_beta x_def [symmetric] by simp
  qed auto
  have "answering ?b (snd u) v"
    using v answering_one unfolding x_def by (cases "fst u") auto
  then have "answering ?b s v" by (rule answering_trans [OF u])
  moreover have "answering ?b v s'"
  proof -
    define v1 where "v1 = v\<lparr>receivedMessageIds := ids_shrink (receivedMessageIds v)\<rparr>"
    define v2 where "v2 = (if ackRequestData v1 \<noteq> [] then ask (SendAnything kAckSendWaiting) v1 else v1)"
    define v3 where "v3 = (if haveReceived v2 \<noteq> [] then ask TryToReceive v2 else v2)"
    have s': "s' = (if q \<in> {HSuccess, HIgnored} \<and> \<not> st_state s = kConnectedState \<and> st_state v3 = kConnectedState
        then ask NeedToResumeAndSend v3 else v3)"
      using assms v unfolding handleReceived_def Let_def t_def [symmetric] u_def [symmetric] split_beta x_def [symmetric] v option.case
        fst_conv snd_conv v1_def [symmetric] v2_def [symmetric] v3_def [symmetric] by auto
    have "answering ?b v v2" by (simp add: v2_def v1_def answering_ask)
    then have "answering ?b v v3" by (simp add: v3_def answering_ask)
    then show ?thesis unfolding s' by (simp add: answering_ask)
  qed
  ultimately show ?thesis by (rule answering_trans)
qed

subsection \<open>Sending\<close>

lemma prepare_bind [simp]: "bindMsgId (snd (snd (prepareToSend draw d cur force s))) = bindMsgId s"
  by (simp add: prepareToSend_def replaceMsgId_def nextRequestSeqNumber_def Let_def split_beta del: unused_id.simps)

lemma next_big_bind [simp]: "bindMsgId (snd (next_big draw m cs)) = bindMsgId (snd cs)"
  by (cases cs) (simp add: next_big_def mtproto_msg_id_def)

lemma place_service_bind [simp]:
  "bindMsgId (snd (place_service draw f d note_ping cs)) = bindMsgId (snd cs)"
  "bindMsgId (snd (place_service draw f d note_state cs)) = bindMsgId (snd cs)"
  "bindMsgId (snd (place_service draw f d note_nothing cs)) = bindMsgId (snd cs)"
  by (cases cs; cases d; simp add: place_service_def placeToContainer_def note_ping_def note_state_def note_nothing_def
      split_beta Let_def)+

lemma place_request_bind [simp]: "bindMsgId (snd (place_request draw env force e cs)) = bindMsgId (snd cs)"
  by (cases e; cases cs) (simp add: place_request_def split_beta Let_def)

lemma place_requests_bind [simp]: "bindMsgId (snd (fold (place_request draw env force) es cs)) = bindMsgId (snd cs)"
  by (induction es arbitrary: cs) simp_all

lemma send_prepared_bind:
  assumes "sv_bind v = None"
  shows "bindMsgId (snd (send_prepared_range draw env v all force s)) = bindMsgId s"
proof -
  have "bindMsgId (snd (send_container draw env v f n m u)) = bindMsgId u" for f n m u
    by (simp add: send_container_def assms place_service_def [where req = None] mtproto_msg_id_def split_beta Let_def)
  moreover have "bindMsgId (snd (send_service draw env v f d u)) = bindMsgId u" for f d u
    by (simp add: send_service_def assms mtproto_msg_id_def split_beta Let_def)
  moreover have "bindMsgId (snd (send_single draw env f a u)) = bindMsgId u" for f a u
    by (simp add: send_single_def mtproto_msg_id_def split_beta Let_def)
  ultimately show ?thesis by (simp add: send_prepared_range_def split_beta Let_def split: option.split)
qed

lemma tryToSend_bind:
  assumes "en_keyCreator env \<noteq> Some True \<or> \<not> en_connection env \<or> \<not> en_key env"
  shows "bindMsgId (snd (tryToSend draw sch env s)) = bindMsgId s"
proof (cases "en_connection env \<and> en_key env")
  case False
  then show ?thesis by (auto simp: tryToSend_def)
next
  case True
  then have k: "en_keyCreator env \<noteq> Some True" using assms by simp
  have "sv_bind (fst (collect_service draw sch env first u)) = None
      \<and> bindMsgId (snd (collect_service draw sch env first u)) = bindMsgId u" for first u
    using k by (simp add: collect_service_def take_bind_def take_http_wait_def take_state_def take_resend_def take_ack_def
        take_ping_def no_service_def split_beta Let_def)
  then show ?thesis
    using send_prepared_bind by (simp add: tryToSend_def split_beta Let_def markSessionAsStarted_def)
qed

lemma sendSecure_bind [simp]: "bindMsgId (sendSecureRequest random fill r s) = bindMsgId s"
  by (simp add: sendSecureRequest_def Let_def split: option.split)

end
