(* ===== verification/Session_Supervised.thy ===== *)
theory Session_Supervised
  imports Session_Binding
begin

text \<open>
  Runs of the supervision of a connection and their invariant (\<open>mtproto/session_private.cpp\<close>,
  \<open>mtproto/session.cpp\<close>): timers, signals of connections and of the key creator, packets, calls
  from the main thread and what other sessions of the data centre do with its keys come in any
  order. A connection emits \<open>connected\<close> when it becomes connected, so while the signal is waited for
  it is not.
\<close>

subsection \<open>Events\<close>

datatype sup_event =
    QueuedConnect
  | RetryFired
  | OldFired
  | ConnectedFired
  | ReceivedFired
  | BetterFired
  | PingFired
  | RequestsFired
  | LinkConnected nat
  | LinkDisconnected nat
  | LinkError nat int
  | LinkReceivedSome nat
  | KeyReady unbound_result
  | KeySentSome nat
  | KeyReceivedSome
  | Packets nat receive_env "prime list \<Rightarrow> bind_state" int bool "secure_message option list"
  | SendNow scheme send_env byte "nat \<Rightarrow> prime"
  | ConfigChanged
  | CdnConfigChanged
  | RestartAsked
  | KeyUpdated
  | MainThread session_event
  | OtherSession key_event

definition main_allowed :: "session_event \<Rightarrow> mtp_session \<Rightarrow> bool" where
  "main_allowed ev s = (case ev of
       Submitted a w \<Rightarrow> request_ok (objects s a) \<and> needAck (objects s a) \<and> rd_requestId (objects s a) \<noteq> 0
         \<and> rd_requestId (objects s a) \<notin> pending s
     | Cancelled a \<Rightarrow> a \<in> addresses s
     | ContainersCleared now \<Rightarrow> True
     | PingForced \<Rightarrow> True
     | Taken \<Rightarrow> True
     | _ \<Rightarrow> False)"

definition main_do :: "session_event \<Rightarrow> mtp_session \<Rightarrow> mtp_session" where
  "main_do ev s = (case ev of
       Submitted a w \<Rightarrow> sendPrepared a w s
     | Cancelled a \<Rightarrow> cancel (rd_requestId (objects s a)) (getMsgId (objects s a)) s
     | ContainersCleared now \<Rightarrow> clearOldContainers now s
     | PingForced \<Rightarrow> force_ping s
     | Taken \<Rightarrow> snd (take_received s)
     | _ \<Rightarrow> s)"

definition creating :: "supervisor \<Rightarrow> bool" where
  "creating sp \<longleftrightarrow> (case sp_keyCreator sp of None \<Rightarrow> False | Some k \<Rightarrow> kc_started k)"

lemma creating_iff: "creating sp \<longleftrightarrow> (\<exists>k. sp_keyCreator sp = Some k \<and> kc_started k)"
  by (simp add: creating_def split: option.split)

fun key_session :: "key_event \<Rightarrow> nat option" where
  "key_session (Acquire i type) = Some i"
| "key_session (BindDone i temp pers) = Some i"
| "key_session (CdnDone i temp) = Some i"
| "key_session (CreationFailed i) = Some i"
| "key_session _ = None"

fun sup_possible :: "'k link_env \<Rightarrow> sup_event \<Rightarrow> supervisor \<Rightarrow> bool" where
  "sup_possible e QueuedConnect sp = (sp_queued sp > 0)"
| "sup_possible e RetryFired sp = (sp_retryTimer sp \<noteq> None)"
| "sup_possible e OldFired sp = (sp_oldConnectionTimer sp \<noteq> None)"
| "sup_possible e ConnectedFired sp = (sp_waitForConnectedTimer sp \<noteq> None)"
| "sup_possible e ReceivedFired sp = (sp_waitForReceivedTimer sp \<noteq> None)"
| "sup_possible e BetterFired sp = (sp_waitForBetterTimer sp \<noteq> None)"
| "sup_possible e (LinkConnected k) sp = (k \<in> set (sp_listening sp))"
| "sup_possible e (LinkDisconnected k) sp = (k \<in> set (alive sp))"
| "sup_possible e (LinkError k errorCode) sp = (k \<in> set (alive sp))"
| "sup_possible e (LinkReceivedSome k) sp = (k \<in> set (alive sp))"
| "sup_possible e (KeyReady r) sp = creating sp"
| "sup_possible e (KeySentSome n) sp = creating sp"
| "sup_possible e KeyReceivedSome sp = creating sp"
| "sup_possible e (Packets depth re states clientTime wait packets) sp = (sp_receivers sp > 0)"
| "sup_possible e (MainThread ev) sp = main_allowed ev (sp_session sp)"
| "sup_possible e (OtherSession ev) sp = (key_allowed ev (sp_keys sp) \<and> key_session ev \<noteq> Some (le_me e))"
| "sup_possible e _ sp = True"

definition silent_links :: "'k link_env \<Rightarrow> sup_event \<Rightarrow> supervisor \<Rightarrow> bool" where
  "silent_links e ev sp \<longleftrightarrow> (\<forall>k \<in> set (sp_listening sp). le_isConnected e k
     \<longrightarrow> (case ev of LinkConnected i \<Rightarrow> i = k | _ \<Rightarrow> False))"

fun sup_do :: "(nat \<Rightarrow> mtpMsgId) \<Rightarrow> 'k link_env \<Rightarrow> sup_event \<Rightarrow> supervisor \<Rightarrow> crash + supervisor" where
  "sup_do draw e QueuedConnect sp = asserted (sp_connectToServer e False (sp\<lparr>sp_queued := sp_queued sp - 1\<rparr>))"
| "sup_do draw e RetryFired sp = asserted (retryByTimer e (sp\<lparr>sp_retryTimer := None\<rparr>))"
| "sup_do draw e OldFired sp = Inr (markConnectionOld (sp\<lparr>sp_oldConnectionTimer := None\<rparr>))"
| "sup_do draw e ConnectedFired sp = Inr (waitConnectedFailed e (sp\<lparr>sp_waitForConnectedTimer := None\<rparr>))"
| "sup_do draw e ReceivedFired sp = asserted (waitReceivedFailed e (sp\<lparr>sp_waitForReceivedTimer := None\<rparr>))"
| "sup_do draw e BetterFired sp = asserted (confirmBestConnection e (sp\<lparr>sp_waitForBetterTimer := None\<rparr>))"
| "sup_do draw e PingFired sp = Inr (sendPingByTimer e sp)"
| "sup_do draw e RequestsFired sp = Inr (sp_checkSentRequests e sp)"
| "sup_do draw e (LinkConnected k) sp = asserted (sp_onConnected e k sp)"
| "sup_do draw e (LinkDisconnected k) sp = asserted (sp_onDisconnected e k sp)"
| "sup_do draw e (LinkError k errorCode) sp = asserted (sp_onError e k errorCode sp)"
| "sup_do draw e (LinkReceivedSome k) sp = Inr (onReceivedSome e sp)"
| "sup_do draw e (KeyReady r) sp = asserted (unboundReady e r sp)"
| "sup_do draw e (KeySentSome n) sp = asserted (onSentSome e n sp)"
| "sup_do draw e KeyReceivedSome sp = Inr (onReceivedSome e sp)"
| "sup_do draw e (Packets depth re states clientTime wait packets) sp =
     sp_handleReceived e depth re states clientTime wait packets sp"
| "sup_do draw e (SendNow sch env random fill) sp = asserted (sp_tryToSend draw e sch env random fill sp)"
| "sup_do draw e ConfigChanged sp = asserted (dcOptionsChanged e sp)"
| "sup_do draw e CdnConfigChanged sp = asserted (cdnConfigChanged e sp)"
| "sup_do draw e RestartAsked sp = Inr (restartNow e sp)"
| "sup_do draw e KeyUpdated sp = asserted (updateAuthKey e sp)"
| "sup_do draw e (MainThread ev) sp = Inr (on_session (main_do ev) sp)"
| "sup_do draw e (OtherSession ev) sp =
     asserted (map_option (\<lambda>w. sp\<lparr>sp_keys := w\<rparr>) (key_do (le_keyIdOf e) ev (sp_keys sp)))"

text \<open>What does not change for a session, and that no key has the id zero, which stands for none.\<close>

definition same_session :: "'k link_env \<Rightarrow> 'k link_env \<Rightarrow> bool" where
  "same_session c e \<longleftrightarrow> le_me e = le_me c \<and> le_shiftedDcId e = le_shiftedDcId c \<and> le_keyIdOf e = le_keyIdOf c
     \<and> le_isKeysDestroyer e = le_isKeysDestroyer c"

definition proper_ids :: "'k link_env \<Rightarrow> bool" where
  "proper_ids c \<longleftrightarrow> (\<forall>k. le_keyIdOf c k \<noteq> 0)"

definition sup_allowed :: "'k link_env \<Rightarrow> 'k link_env \<Rightarrow> sup_event \<Rightarrow> supervisor \<Rightarrow> bool" where
  "sup_allowed c e ev sp \<longleftrightarrow> same_session c e \<and> silent_links e ev sp \<and> sup_possible e ev sp"

text \<open>The events of a run with the states they met.\<close>

inductive sup_run :: "(nat \<Rightarrow> mtpMsgId) \<Rightarrow> 'k link_env \<Rightarrow> supervisor \<Rightarrow> (supervisor \<times> sup_event) list \<Rightarrow> supervisor \<Rightarrow> bool"
  for draw c sp where
  rest: "sup_run draw c sp [] sp"
| event: "sup_run draw c sp evs t \<Longrightarrow> sup_allowed c e ev t \<Longrightarrow> sup_do draw e ev t = Inr u
    \<Longrightarrow> sup_run draw c sp (evs @ [(t, ev)]) u"

subsection \<open>The invariant\<close>

text \<open>The keys: this session may create one exactly while it has a creator.\<close>

definition keys_ok :: "'k link_env \<Rightarrow> supervisor \<Rightarrow> bool" where
  "keys_ok c sp \<longleftrightarrow> key_inv (sp_keys sp)
     \<and> (sp_keyCreator sp \<noteq> None \<longleftrightarrow> kw_mine (sp_keys sp) (le_me c) \<noteq> CreatingNone)
     \<and> (le_isKeysDestroyer c \<longrightarrow> sp_keyCreator sp = None)
     \<and> (sp_keyId sp \<noteq> 0 \<longrightarrow> (\<exists>k. sp_encryptionKey sp = Some k \<and> le_keyIdOf c k = sp_keyId sp))
     \<and> kMinReceiveTimeout \<le> sp_waitForReceived sp \<and> sp_waitForReceived sp \<le> kMaxReceiveTimeout"

definition typed_ok :: "'k link_env \<Rightarrow> supervisor \<Rightarrow> bool" where
  "typed_ok c sp \<longleftrightarrow> (sp_keyCreator sp \<noteq> None \<longrightarrow> kw_type (sp_keys sp) (le_me c) = sp_realDcType sp)"

text \<open>The connection and the ones that are tried.\<close>

definition links_ok :: "supervisor \<Rightarrow> bool" where
  "links_ok sp \<longleftrightarrow> (sp_testConnections sp \<noteq> [] \<longrightarrow> sp_connection sp = None \<and> bindMsgId (sp_session sp) = 0)
     \<and> (sp_waitForBetterTimer sp \<noteq> None \<longrightarrow> sp_testConnections sp \<noteq> [])
     \<and> (sp_connection sp = None \<longrightarrow> sp_sentEncryptedWithKeyId sp = 0 \<and> sp_receivers sp = 0)
     \<and> (sp_connection sp \<noteq> None \<longrightarrow> sp_receivers sp = (if sp_keyId sp \<noteq> 0 then 1 else 0)
          \<and> sp_sentEncryptedWithKeyId sp \<in> {0, sp_keyId sp})
     \<and> (sp_connection sp \<noteq> None \<or> sp_testConnections sp \<noteq> [] \<or> sp_waitForReceivedTimer sp \<noteq> None \<longrightarrow> sp_options sp \<noteq> None)
     \<and> set (sp_listening sp) \<subseteq> tested ` set (sp_testConnections sp)"

definition creator_ok :: "supervisor \<Rightarrow> bool" where
  "creator_ok sp \<longleftrightarrow> (creating sp \<longrightarrow> sp_connection sp \<noteq> None \<and> sp_keyId sp = 0)
     \<and> (sp_connection sp \<noteq> None \<longrightarrow> bindMsgId (sp_session sp) \<noteq> 0
          \<longrightarrow> sp_keyId sp \<noteq> 0 \<and> (\<forall>k. sp_keyCreator sp = Some k \<longrightarrow> kc_binder k \<noteq> None))"

definition sup_ok :: "'k link_env \<Rightarrow> supervisor \<Rightarrow> bool" where
  "sup_ok c sp \<longleftrightarrow> keys_ok c sp \<and> typed_ok c sp \<and> links_ok sp \<and> creator_ok sp"

text \<open>The invariant sees only a part of the state.\<close>

definition essence :: "supervisor \<Rightarrow> _" where
  "essence sp = (sp_connection sp, sp_sentEncryptedWithKeyId sp, sp_receivers sp, sp_testConnections sp, sp_listening sp,
     sp_waitForBetterTimer sp, sp_waitForReceivedTimer sp = None, sp_waitForReceived sp, sp_options sp = None,
     sp_encryptionKey sp, sp_keyId sp, sp_keyCreator sp, sp_keys sp, sp_realDcType sp, bindMsgId (sp_session sp))"

lemmas sup_defs = keys_ok_def typed_ok_def links_ok_def creator_ok_def creating_iff

lemma essence_ok: "essence sp' = essence sp \<Longrightarrow> sup_ok c sp' = sup_ok c sp"
  by (simp add: essence_def sup_ok_def sup_defs)

lemma setState_bind [simp]: "bindMsgId (snd (setState x y s)) = bindMsgId s"
  by (simp add: setState_def ask_def)

lemma essence_simps [simp]:
  "essence (call q sp) = essence sp" "essence (snd (sp_setState e x y sp)) = essence sp"
  "essence (on_session (ask a) sp) = essence sp" "essence (sp\<lparr>sp_retryTimer := t\<rparr>) = essence sp"
  "essence (sp\<lparr>sp_retryTimeout := i\<rparr>) = essence sp" "essence (sp\<lparr>sp_startedConnectingAt := i\<rparr>) = essence sp"
  "essence (sp\<lparr>sp_waitForConnectedTimer := t\<rparr>) = essence sp" "essence (sp\<lparr>sp_queued := n\<rparr>) = essence sp"
  "essence (sp\<lparr>sp_oldConnectionTimer := t\<rparr>) = essence sp" "essence (sp\<lparr>sp_waitForConnected := i\<rparr>) = essence sp"
  "essence (sp\<lparr>sp_needSessionReset := b\<rparr>) = essence sp" "essence (sp\<lparr>sp_currentDcType := ty\<rparr>) = essence sp"
  "essence (sp\<lparr>sp_firstSentAt := i\<rparr>) = essence sp" "essence (sp\<lparr>sp_oldConnection := b\<rparr>) = essence sp"
  by (simp_all add: essence_def call_def sp_setState_def on_session_def ask_def split_beta Let_def setState_def)

lemmas essence_oks [simp] = essence_simps [THEN essence_ok]

lemma new_supervisor_ok:
  assumes "key_inv keys" "kw_mine keys (le_me c) = CreatingNone"
  shows "sup_ok c (new_supervisor os type keys)"
  using assms by (simp add: sup_ok_def sup_defs new_supervisor_def timeout_defs new_mtp_session_def)

subsection \<open>Coming apart\<close>

lemma destroyAll_fields [simp]:
  "sp_connection (destroyAllConnections sp) = None" "sp_testConnections (destroyAllConnections sp) = []"
  "sp_sentEncryptedWithKeyId (destroyAllConnections sp) = 0" "sp_receivers (destroyAllConnections sp) = 0"
  "sp_listening (destroyAllConnections sp) = []" "sp_waitForBetterTimer (destroyAllConnections sp) = None"
  "sp_waitForReceivedTimer (destroyAllConnections sp) = None" "sp_keys (destroyAllConnections sp) = sp_keys sp"
  "sp_keyCreator (destroyAllConnections sp) = map_option (\<lambda>k. k\<lparr>kc_started := False\<rparr>) (sp_keyCreator sp)"
  "sp_encryptionKey (destroyAllConnections sp) = sp_encryptionKey sp" "sp_keyId (destroyAllConnections sp) = sp_keyId sp"
  "sp_waitForReceived (destroyAllConnections sp) = sp_waitForReceived sp"
  "sp_realDcType (destroyAllConnections sp) = sp_realDcType sp" "sp_session (destroyAllConnections sp) = sp_session sp"
  by (simp_all add: destroyAllConnections_def clearUnboundKeyCreator_def)

lemma destroyAll_ok:
  assumes "keys_ok c sp" "typed_ok c sp"
  shows "sup_ok c (destroyAllConnections sp)"
proof -
  have "keys_ok c (destroyAllConnections sp)" "typed_ok c (destroyAllConnections sp)"
    using assms by (simp_all add: keys_ok_def typed_ok_def)
  moreover have "links_ok (destroyAllConnections sp)" by (simp add: links_ok_def)
  moreover have "creator_ok (destroyAllConnections sp)" by (auto simp: creator_ok_def creating_iff)
  ultimately show ?thesis by (simp add: sup_ok_def)
qed

lemma sup_okD:
  assumes "sup_ok c sp"
  shows "keys_ok c sp" "typed_ok c sp" "links_ok sp" "creator_ok sp"
  using assms by (simp_all add: sup_ok_def)

lemma on_session_ok:
  assumes "bindMsgId (f (sp_session sp)) \<in> {bindMsgId (sp_session sp), 0}" "sup_ok c sp"
  shows "sup_ok c (on_session f sp)"
proof -
  have "keys_ok c (on_session f sp)" "typed_ok c (on_session f sp)"
    using assms(2) by (simp_all add: sup_ok_def keys_ok_def typed_ok_def on_session_def)
  moreover have "links_ok (on_session f sp)"
    using assms(1) sup_okD(3) [OF assms(2)] by (cases "sp_testConnections sp = []") (simp_all add: links_ok_def on_session_def)
  moreover have "creator_ok (on_session f sp)"
    using assms(1) sup_okD(4) [OF assms(2)]
    by (cases "bindMsgId (f (sp_session sp)) = 0") (simp_all add: creator_ok_def creating_iff on_session_def)
  ultimately show ?thesis by (simp add: sup_ok_def)
qed

lemma change_bind [simp]: "bindMsgId (changeSessionId r s) = bindMsgId s" "bindMsgId (resetSession r s) = bindMsgId s"
  by (simp_all add: changeSessionId_def resetSession_def ask_def)

lemma doDisconnect_ok: "keys_ok c sp \<Longrightarrow> typed_ok c sp \<Longrightarrow> sup_ok c (doDisconnect e sp)"
  by (simp add: doDisconnect_def destroyAll_ok)

lemma restart_ok:
  assumes "keys_ok c sp" "typed_ok c sp"
  shows "sup_ok c (restart e sp)"
proof -
  define t where "t = doDisconnect e (sp\<lparr>sp_waitForReceivedTimer := None, sp_waitForConnectedTimer := None\<rparr>)"
  have "sup_ok c t" unfolding t_def by (rule doDisconnect_ok) (use assms in \<open>simp_all add: keys_ok_def typed_ok_def\<close>)
  moreover define u where "u = (if sp_needSessionReset t then sp_resetSession e t else t)"
  moreover have "sup_ok c (sp_resetSession e t)" if "sup_ok c t"
    unfolding sp_resetSession_def by (rule on_session_ok) (use that in simp_all)
  ultimately have "sup_ok c u" by simp
  then show ?thesis
    unfolding restart_def Let_def t_def [symmetric] u_def [symmetric] by simp
qed

subsection \<open>Keys\<close>

lemma sup_restart: "sup_ok c sp \<Longrightarrow> sup_ok c (restart e sp)"
  by (rule restart_ok) (simp_all add: sup_okD)

text \<open>A session that has no creator any more.\<close>

lemma release_ok:
  assumes "keys_ok c sp" "same_session c e"
  obtains w where "sp_releaseKeyCreationOnFail e sp = Some (sp\<lparr>sp_keyCreator := None, sp_keys := w\<rparr>)"
    "keys_ok c (sp\<lparr>sp_keyCreator := None, sp_keys := w\<rparr>)" "kw_dc w = kw_dc (sp_keys sp) \<or> True"
proof (cases "sp_keyCreator sp")
  case None
  then have "sp_releaseKeyCreationOnFail e sp = Some (sp\<lparr>sp_keyCreator := None, sp_keys := sp_keys sp\<rparr>)"
    by (simp add: sp_releaseKeyCreationOnFail_def)
  moreover have "keys_ok c (sp\<lparr>sp_keyCreator := None, sp_keys := sp_keys sp\<rparr>)"
    using assms(1) None by (simp add: keys_ok_def)
  ultimately show ?thesis by (rule that) simp
next
  case (Some k)
  then have k: "kw_mine (sp_keys sp) (le_me e) \<noteq> CreatingNone" "key_inv (sp_keys sp)"
    using assms by (simp_all add: keys_ok_def same_session_def)
  obtain v where v: "releaseKeyCreationOnFail (le_me e) (sp_keys sp) = Some v" "key_inv v" by (rule fail_ok [OF k(2,1)])
  have m: "kw_mine v (le_me e) = CreatingNone" using v(1) k(1) by (auto simp: releaseKeyCreationOnFail_def)
  show ?thesis
  proof (rule that)
    show "sp_releaseKeyCreationOnFail e sp = Some (sp\<lparr>sp_keyCreator := None, sp_keys := v\<rparr>)"
      using Some v(1) by (simp add: sp_releaseKeyCreationOnFail_def)
    show "keys_ok c (sp\<lparr>sp_keyCreator := None, sp_keys := v\<rparr>)"
      using assms v(2) m by (simp add: keys_ok_def same_session_def)
  qed simp
qed

lemma no_creator:
  assumes "links_ok sp" "creator_ok sp" "keys_ok c (sp\<lparr>sp_keyCreator := None, sp_keys := w\<rparr>)"
  shows "sup_ok c (sp\<lparr>sp_keyCreator := None, sp_keys := w\<rparr>)"
  using assms by (auto simp: sup_ok_def typed_ok_def links_ok_def creator_ok_def creating_iff)

text \<open>A session that tries to create a key.\<close>

lemma tryAcquire_ok:
  assumes "keys_ok c sp" "typed_ok c sp" "same_session c e"
  obtains type w k where "tryAcquireKeyCreation e sp = Some (type, sp\<lparr>sp_keys := w, sp_keyCreator := k\<rparr>)"
    "keys_ok c (sp\<lparr>sp_keys := w, sp_keyCreator := k\<rparr>)" "typed_ok c (sp\<lparr>sp_keys := w, sp_keyCreator := k\<rparr>)"
    "k = sp_keyCreator sp \<or> sp_keyCreator sp = None \<and> (\<exists>p. k = Some \<lparr>kc_persistentNeeded = p, kc_started = False, kc_binder = None\<rparr>)"
proof -
  have same: "sp\<lparr>sp_keys := sp_keys sp, sp_keyCreator := sp_keyCreator sp\<rparr> = sp" by simp
  consider (old) "sp_keyCreator sp \<noteq> None" | (destroyer) "sp_keyCreator sp = None" "le_isKeysDestroyer e"
    | (fresh) "sp_keyCreator sp = None" "\<not> le_isKeysDestroyer e" by blast
  then show ?thesis
  proof cases
    case old
    then show ?thesis using that [of "sp_currentDcType sp" "sp_keyCreator sp" "sp_keys sp"] assms
      by (simp add: tryAcquireKeyCreation_def same)
  next
    case destroyer
    have n: "sp\<lparr>sp_keyCreator := None\<rparr> = sp" by (rule supervisor.equality) (use destroyer in simp_all)
    show ?thesis using that [of "sp_realDcType sp" None "sp_keys sp"] assms destroyer n
      by (simp add: tryAcquireKeyCreation_def)
  next
    case fresh
    let ?me = "le_me e"
    have m: "kw_mine (sp_keys sp) ?me = CreatingNone" "key_inv (sp_keys sp)" "le_me c = ?me"
      "\<not> le_isKeysDestroyer c" using assms fresh by (simp_all add: keys_ok_def same_session_def)
    obtain x v where v: "acquireKeyCreation ?me (sp_realDcType sp) (sp_keys sp) = Some (x, v)"
      using m(1) by (cases "dc_acquireKeyCreation (sp_realDcType sp) (kw_dc (sp_keys sp))") (simp add: acquireKeyCreation_def)
    have i: "key_inv v" by (rule acquire_inv [OF m(2) v])
    have x: "kw_mine v ?me = x" "kw_type v ?me = sp_realDcType sp"
      using v m(1) by (auto simp: acquireKeyCreation_def split_beta)
    let ?k = "\<lparr>kc_persistentNeeded = (x = CreatingPersistent), kc_started = False, kc_binder = None\<rparr>"
    show ?thesis
    proof (cases "x = CreatingNone")
      case True
      show ?thesis
      proof (rule that)
        show "tryAcquireKeyCreation e sp = Some (sp_realDcType sp, sp\<lparr>sp_keys := v, sp_keyCreator := None\<rparr>)"
          using fresh v True by (simp add: tryAcquireKeyCreation_def)
      qed (use assms(1,2) fresh True i x m in \<open>auto simp: keys_ok_def typed_ok_def\<close>)
    next
      case False
      let ?type = "if sp_realDcType sp = DcMediaCluster \<and> x \<noteq> CreatingTemporaryMediaCluster then DcRegular else sp_realDcType sp"
      show ?thesis
      proof (rule that)
        show "tryAcquireKeyCreation e sp = Some (?type, sp\<lparr>sp_keys := v, sp_keyCreator := Some ?k\<rparr>)"
          using fresh v False by (simp add: tryAcquireKeyCreation_def Let_def)
      qed (use assms(1,2) fresh False i x m in \<open>auto simp: keys_ok_def typed_ok_def\<close>)
    qed
  qed
qed

lemma authKeyChecked_bind: "bindMsgId (authKeyChecked now r s) \<in> {bindMsgId s, 0}"
proof -
  define c where "c = (if sessionSalt s \<noteq> 0 then setState kConnectedState None s else (False, s))"
  have "answering False s (snd c)" by (simp add: c_def)
  then have "answering False s (if fst c then resendAll now (snd c) else snd c)"
    using answering_trans [OF _ answering_resendAll] by simp
  then have "bindMsgId (if fst c then resendAll now (snd c) else snd c) \<in> {bindMsgId s, 0}" by (auto simp: answering_def)
  then show ?thesis unfolding authKeyChecked_def Let_def c_def [symmetric] split_beta by (simp add: ask_def)
qed

text \<open>A connection gets to work: there is a key, and nothing was received on the connection so far.\<close>

definition unkeyed :: "supervisor \<Rightarrow> bool" where
  "unkeyed sp \<longleftrightarrow> sp_connection sp \<noteq> None \<and> sp_sentEncryptedWithKeyId sp = 0 \<and> sp_receivers sp = 0
     \<and> sp_testConnections sp = [] \<and> sp_waitForBetterTimer sp = None \<and> sp_options sp \<noteq> None \<and> sp_listening sp = []
     \<and> bindMsgId (sp_session sp) = 0"

lemma checked_ok:
  assumes "keys_ok c sp" "typed_ok c sp" "unkeyed sp" "sp_keyId sp \<noteq> 0" "\<not> creating sp"
  shows "sup_ok c (sp_authKeyChecked e sp)"
proof -
  have "bindMsgId (authKeyChecked (le_now e) (le_random e) (sp_session sp)) = 0"
    using authKeyChecked_bind [of "le_now e" "le_random e" "sp_session sp"] assms(3) by (simp add: unkeyed_def)
  then show ?thesis
    using assms by (auto simp: sup_ok_def sup_defs unkeyed_def sp_authKeyChecked_def on_session_def)
qed

lemma start_ok:
  assumes "sup_ok c sp" "\<not> creating sp" "sp_connection sp \<noteq> None" "sp_keyId sp = 0"
  obtains sp' where "start_creator sp = Some sp'" "sup_ok c sp'"
proof (cases "sp_keyCreator sp")
  case None
  then show ?thesis using that assms(1) by (simp add: start_creator_def)
next
  case (Some k)
  have b: "bindMsgId (sp_session sp) = 0" using assms by (auto simp: sup_ok_def creator_ok_def)
  show ?thesis
  proof (rule that)
    show "start_creator sp = Some (sp\<lparr>sp_keyCreator := Some (k\<lparr>kc_started := True\<rparr>)\<rparr>)"
      using Some assms(2) by (simp add: start_creator_def creating_iff)
    show "sup_ok c (sp\<lparr>sp_keyCreator := Some (k\<lparr>kc_started := True\<rparr>)\<rparr>)"
      using assms Some b by (auto simp: sup_ok_def sup_defs)
  qed
qed

lemma call_creating [simp]: "creating (call x sp) = creating sp" "sp_connection (call x sp) = sp_connection sp"
  "sp_keyId (call x sp) = sp_keyId sp"
  by (simp_all add: call_def creating_iff)

lemma create_ok:
  assumes "sup_ok c sp" "\<not> creating sp" "sp_connection sp \<noteq> None" "sp_keyId sp = 0" "same_session c e"
  obtains sp' where "create_key e sp = Some sp'" "sup_ok c sp'"
proof -
  note start = start_ok [OF assms(1-4)]
  have called: "\<exists>sp'. start_creator (call x sp) = Some sp' \<and> sup_ok c sp'" for x
    by (rule start_ok [of c "call x sp"]) (use assms in auto)
  show ?thesis
  proof (cases "\<not> le_isKeysDestroyer e \<and> noMediaKeyWithExistingRegularKey sp")
    case False
    show ?thesis
    proof (cases "le_isKeysDestroyer e")
      case True
      then show ?thesis using called [of KeyWasPossiblyDestroyed] that by (auto simp: create_key_def)
    next
      case not: False
      obtain sp' where "start_creator sp = Some sp'" "sup_ok c sp'" by (rule start)
      then show ?thesis using that False not by (simp add: create_key_def)
    qed
  next
    case True
    obtain type w k where t: "tryAcquireKeyCreation e sp = Some (type, sp\<lparr>sp_keys := w, sp_keyCreator := k\<rparr>)"
      "keys_ok c (sp\<lparr>sp_keys := w, sp_keyCreator := k\<rparr>)" "typed_ok c (sp\<lparr>sp_keys := w, sp_keyCreator := k\<rparr>)"
      "k = sp_keyCreator sp \<or> sp_keyCreator sp = None \<and> (\<exists>p. k = Some \<lparr>kc_persistentNeeded = p, kc_started = False, kc_binder = None\<rparr>)"
      by (rule tryAcquire_ok [OF sup_okD(1,2) [OF assms(1)] assms(5)])
    define t where "t = sp\<lparr>sp_keys := w, sp_keyCreator := k\<rparr>"
    have c: "\<not> creating t" using t(4) assms(2) by (auto simp: creating_iff t_def)
    have "bindMsgId (sp_session sp) = 0" using assms by (auto simp: sup_ok_def creator_ok_def)
    then have ok: "sup_ok c t"
      using assms(1) t(2,3) c unfolding t_def [symmetric] by (auto simp: sup_ok_def links_ok_def creator_ok_def t_def)
    obtain sp' where "start_creator t = Some sp'" "sup_ok c sp'"
      by (rule start_ok [OF ok c]) (use assms in \<open>simp_all add: t_def\<close>)
    moreover have "sup_ok c (restart e t)" by (rule sup_restart [OF ok])
    moreover have "create_key e sp
        = (if sp_keyCreator t \<noteq> None \<and> type \<noteq> sp_currentDcType t then Some (restart e t) else start_creator t)"
      using True t(1) by (simp add: create_key_def t_def)
    ultimately show ?thesis using that by metis
  qed
qed

subsection \<open>A key is applied\<close>

lemma setCurrent_fields [simp]:
  "sp_connection (setCurrentKeyId e i sp) = sp_connection sp" "sp_testConnections (setCurrentKeyId e i sp) = sp_testConnections sp"
  "sp_sentEncryptedWithKeyId (setCurrentKeyId e i sp) = sp_sentEncryptedWithKeyId sp"
  "sp_receivers (setCurrentKeyId e i sp) = sp_receivers sp" "sp_listening (setCurrentKeyId e i sp) = sp_listening sp"
  "sp_waitForBetterTimer (setCurrentKeyId e i sp) = sp_waitForBetterTimer sp"
  "sp_waitForReceivedTimer (setCurrentKeyId e i sp) = sp_waitForReceivedTimer sp" "sp_keys (setCurrentKeyId e i sp) = sp_keys sp"
  "sp_keyCreator (setCurrentKeyId e i sp) = sp_keyCreator sp" "sp_encryptionKey (setCurrentKeyId e i sp) = sp_encryptionKey sp"
  "sp_waitForReceived (setCurrentKeyId e i sp) = sp_waitForReceived sp" "sp_options (setCurrentKeyId e i sp) = sp_options sp"
  "sp_realDcType (setCurrentKeyId e i sp) = sp_realDcType sp" "sp_keyId (setCurrentKeyId e i sp) = i"
  "bindMsgId (sp_session (setCurrentKeyId e i sp)) = bindMsgId (sp_session sp)"
  by (simp_all add: setCurrentKeyId_def on_session_def)

lemma keyed_ok:
  assumes "keys_ok c sp" "i = 0 \<or> (\<exists>k. key = Some k \<and> le_keyIdOf c k = i)"
  shows "keys_ok c (setCurrentKeyId e i (sp\<lparr>sp_encryptionKey := key\<rparr>))"
  using assms by (auto simp: keys_ok_def)

lemma keyed_typed [simp]: "typed_ok c (setCurrentKeyId e i (sp\<lparr>sp_encryptionKey := key\<rparr>)) = typed_ok c sp"
  by (simp add: typed_ok_def)

lemma creating_keyed [simp]: "creating (setCurrentKeyId e i sp) = creating sp" "creating (sp\<lparr>sp_encryptionKey := key\<rparr>) = creating sp"
  by (simp_all add: creating_iff)

lemma connected_unkeyed:
  assumes "sup_ok c sp" "sp_connection sp \<noteq> None" "sp_keyId sp = 0"
  shows "unkeyed (setCurrentKeyId e i (sp\<lparr>sp_encryptionKey := key\<rparr>))"
  using sup_okD(3,4) [OF assms(1)] assms(2,3) unfolding links_ok_def creator_ok_def unkeyed_def
  by (cases "sp_testConnections sp") auto

lemma applyAuthKey_steps:
  "applyAuthKey e key sp =
      (if sp_keyId sp \<noteq> 0 then
         (if sp_keyId sp = key_id e key then Some (sp\<lparr>sp_encryptionKey := key\<rparr>)
          else let u = setCurrentKeyId e 0 (sp\<lparr>sp_encryptionKey := key\<rparr>)
               in Some (if sp_connection sp \<noteq> None then restart e u else u))
       else if sp_connection sp = None then Some (sp\<lparr>sp_encryptionKey := key\<rparr>)
       else let u = setCurrentKeyId e (key_id e key) (sp\<lparr>sp_encryptionKey := key\<rparr>)
            in if sp_sentEncryptedWithKeyId sp \<noteq> 0 then None
               else if key_id e key \<noteq> 0 then Some (sp_authKeyChecked e u) else create_key e u)"
proof -
  define i where "i = key_id e key"
  show ?thesis unfolding i_def [symmetric] by (simp add: applyAuthKey_def Let_def flip: i_def)
qed

lemma applied_ok:
  assumes "sup_ok c sp" "same_session c e" "proper_ids c" "\<not> creating sp"
  obtains sp' where "applyAuthKey e key sp = Some sp'" "sup_ok c sp'"
proof -
  define t where "t = sp\<lparr>sp_encryptionKey := key\<rparr>"
  define i where "i = key_id e key"
  note ok = sup_okD [OF assms(1)]
  have i: "i = 0 \<or> (\<exists>k. key = Some k \<and> le_keyIdOf c k = i)"
    using assms(2) by (simp add: i_def key_id_def same_session_def split: option.split)
  have set: "keys_ok c (setCurrentKeyId e j t)" "typed_ok c (setCurrentKeyId e j t)" if "j \<in> {0, i}" for j
    using keyed_ok [OF ok(1), of j key e] i ok(2) that by (auto simp: t_def)
  have t: "sp_keyId t = sp_keyId sp" "sp_connection t = sp_connection sp" "\<not> creating t"
    using assms(4) by (simp_all add: t_def)
  have apply_eq: "applyAuthKey e key sp =
      (if sp_keyId sp \<noteq> 0 then
         (if sp_keyId sp = i then Some t
          else let u = setCurrentKeyId e 0 t in Some (if sp_connection sp \<noteq> None then restart e u else u))
       else if sp_connection sp = None then Some t
       else let u = setCurrentKeyId e i t
            in if sp_sentEncryptedWithKeyId sp \<noteq> 0 then None
               else if i \<noteq> 0 then Some (sp_authKeyChecked e u) else create_key e u)"
    unfolding t_def i_def by (rule applyAuthKey_steps)
  have rest: "sup_ok c t" if "keys_ok c t" "typed_ok c t"
  proof -
    have "links_ok t" using ok(3) by (simp add: links_ok_def t_def)
    moreover have "creator_ok t" using ok(4) t(3) by (simp add: creator_ok_def t_def)
    ultimately show ?thesis using that by (simp add: sup_ok_def)
  qed
  have alone: "sup_ok c (setCurrentKeyId e 0 t)" if "sp_connection sp = None"
  proof -
    have "links_ok (setCurrentKeyId e 0 t)" using ok(3) that by (simp add: links_ok_def t_def)
    moreover have "creator_ok (setCurrentKeyId e 0 t)" using t(3) that by (simp add: creator_ok_def t_def)
    ultimately show ?thesis using set [of 0] by (simp add: sup_ok_def)
  qed
  have keys_t: "keys_ok c t" if "sp_keyId sp = 0 \<or> sp_keyId sp = i" using ok(1) i that by (auto simp: keys_ok_def t_def)
  have typed_t: "typed_ok c t" using ok(2) by (simp add: typed_ok_def t_def)
  consider (other) "sp_keyId sp \<noteq> 0" "sp_keyId sp \<noteq> i" | (calm) "sp_keyId sp \<noteq> 0 \<and> sp_keyId sp = i \<or> sp_keyId sp = 0 \<and> sp_connection sp = None"
    | (work) "sp_keyId sp = 0" "sp_connection sp \<noteq> None" by blast
  then show ?thesis
  proof cases
    case other
    define u where "u = setCurrentKeyId e 0 t"
    have u: "keys_ok c u" "typed_ok c u" using set [of 0] by (simp_all add: u_def)
    have "sup_ok c (if sp_connection sp \<noteq> None then restart e u else u)"
      using alone restart_ok [OF u] by (auto simp: u_def)
    then show ?thesis using that other by (simp add: apply_eq Let_def flip: u_def)
  next
    case calm
    then have "sup_ok c t" using rest keys_t typed_t by auto
    moreover have "applyAuthKey e key sp = Some t" using calm by (auto simp: apply_eq)
    ultimately show ?thesis using that by blast
  next
    case work
    define u where "u = setCurrentKeyId e i t"
    have sent: "sp_sentEncryptedWithKeyId sp = 0" using ok(3) work by (auto simp: links_ok_def)
    have u: "keys_ok c u" "typed_ok c u" using set [of i] by (simp_all add: u_def)
    have n: "unkeyed u" unfolding u_def t_def by (rule connected_unkeyed [OF assms(1) work(2,1)])
    show ?thesis
    proof (cases "i = 0")
      case False
      have "sup_ok c (sp_authKeyChecked e u)"
        by (rule checked_ok [OF u n]) (use False t(3) in \<open>simp_all add: u_def\<close>)
      then show ?thesis using that work sent False by (simp add: apply_eq u_def)
    next
      case True
      then have "u = t" using work(1) t(1) by (simp add: u_def setCurrentKeyId_def)
      then have "sup_ok c u" using rest keys_t typed_t work(1) by blast
      then obtain sp' where "create_key e u = Some sp'" "sup_ok c sp'"
        by (rule create_ok [where e = e]) (use True t work assms(2) in \<open>simp_all add: u_def\<close>)
      then show ?thesis using that work sent True by (simp add: apply_eq u_def)
    qed
  qed
qed

lemma destroyed_ok:
  assumes "keys_ok c sp" "links_ok sp" "creator_ok sp" "same_session c e" "proper_ids c"
  obtains sp' where "destroyTemporaryKey e sp = Some sp'" "sup_ok c sp'"
proof (cases "le_isKeysDestroyer e")
  case True
  then have "sp_keyCreator sp = None" using assms by (simp add: keys_ok_def same_session_def)
  then have "sup_ok c sp" using assms by (simp add: sup_ok_def typed_ok_def)
  then show ?thesis using that [of "call KeyWasPossiblyDestroyed sp"] True by (simp add: destroyTemporaryKey_def)
next
  case False
  obtain w where w: "sp_releaseKeyCreationOnFail e sp = Some (sp\<lparr>sp_keyCreator := None, sp_keys := w\<rparr>)"
    "keys_ok c (sp\<lparr>sp_keyCreator := None, sp_keys := w\<rparr>)" by (rule release_ok [OF assms(1,4)])
  define t where "t = sp\<lparr>sp_keyCreator := None, sp_keys := w\<rparr>"
  have t: "sup_ok c t" unfolding t_def by (rule no_creator [OF assms(2,3) w(2)])
  define u where "u = (case sp_encryptionKey t of None \<Rightarrow> t | Some k \<Rightarrow> session_destroyTemporaryKey e (le_keyIdOf e k) t)"
  have n: "sp_keyCreator t = None" by (simp add: t_def)
  have d: "sup_ok c (session_destroyTemporaryKey e i t)" "\<not> creating (session_destroyTemporaryKey e i t)" for i
  proof -
    have "key_inv (sp_keys t)" using t by (simp add: sup_ok_def keys_ok_def)
    then obtain v where v: "key_do (le_keyIdOf e) (TemporaryDestroyed i) (sp_keys t) = Some v" "key_inv v"
      by (rule key_do_ok [where ev = "TemporaryDestroyed i" and ids = "le_keyIdOf e"]) simp
    have "sup_ok c (t\<lparr>sp_keys := v\<rparr>)" "\<not> creating (t\<lparr>sp_keys := v\<rparr>)"
      using t v n by (auto simp: sup_ok_def keys_ok_def typed_ok_def links_ok_def creator_ok_def creating_iff)
    then show "sup_ok c (session_destroyTemporaryKey e i t)" "\<not> creating (session_destroyTemporaryKey e i t)"
      using v(1) by (auto simp: session_destroyTemporaryKey_def split_beta Let_def)
  qed
  have u: "sup_ok c u" "\<not> creating u" using t d n by (simp_all add: u_def creating_iff split: option.split)
  obtain sp' where s: "applyAuthKey e None u = Some sp'" "sup_ok c sp'" by (rule applied_ok [OF u(1) assms(4,5) u(2)])
  show ?thesis using that [of "restart e sp'"] sup_restart [OF s(2), of e] False w(1) s(1)
    by (simp add: destroyTemporaryKey_def u_def flip: t_def)
qed

lemma sup_destroyed_ok:
  assumes "sup_ok c sp" "same_session c e" "proper_ids c"
  obtains sp' where "destroyTemporaryKey e sp = Some sp'" "sup_ok c sp'"
  by (rule destroyed_ok [OF sup_okD(1,3,4) [OF assms(1)] assms(2,3)])

subsection \<open>A connection is chosen\<close>

lemma take_ok:
  assumes "sup_ok c sp" "sp_testConnections sp \<noteq> []" "k \<notin> set (sp_listening sp)" "sp_waitForBetterTimer sp = None"
  shows "unkeyed (take_connection k sp)" "keys_ok c (take_connection k sp)" "typed_ok c (take_connection k sp)"
    "\<not> creating (take_connection k sp)" "sp_keyId sp = 0 \<Longrightarrow> sup_ok c (take_connection k sp)"
proof -
  note ok = sup_okD [OF assms(1)]
  have l: "filter (\<lambda>i. i = k) (sp_listening sp) = []" using assms(3) by (auto simp: filter_empty_conv)
  have n: "sp_connection sp = None" using ok(3) assms(2) by (auto simp: links_ok_def)
  show un: "unkeyed (take_connection k sp)"
    using ok(3) assms(2,4) l by (simp add: links_ok_def unkeyed_def take_connection_def)
  show keys: "keys_ok c (take_connection k sp)" "typed_ok c (take_connection k sp)"
    using ok(1,2) by (simp_all add: keys_ok_def typed_ok_def take_connection_def)
  show cr: "\<not> creating (take_connection k sp)" using ok(4) n by (auto simp: creator_ok_def creating_iff take_connection_def)
  show "sup_ok c (take_connection k sp)" if "sp_keyId sp = 0"
  proof -
    have "sp_keyId (take_connection k sp) = 0" using that by (simp add: take_connection_def)
    then have "links_ok (take_connection k sp)" "creator_ok (take_connection k sp)"
      using un cr by (simp_all add: unkeyed_def links_ok_def creator_ok_def)
    then show ?thesis using keys by (simp add: sup_ok_def)
  qed
qed

lemma chosen_ok:
  assumes "sup_ok c sp" "sp_testConnections sp \<noteq> []" "k \<notin> set (sp_listening sp)" "sp_waitForBetterTimer sp = None"
    and c: "same_session c e" "proper_ids c"
  obtains sp' where "checkAuthKey e (take_connection k sp) = Some sp'" "sup_ok c sp'"
proof -
  note t = take_ok [OF assms(1-4)]
  have i: "sp_keyId (take_connection k sp) = sp_keyId sp" by (simp add: take_connection_def)
  show ?thesis
  proof (cases "sp_keyId sp = 0")
    case True
    define u where "u = take_connection k sp"
    define key where "key = (if le_isKeysDestroyer e then getPersistentKey (kw_dc (sp_keys u))
        else getTemporaryKey (TemporaryKeyTypeByDcType (sp_currentDcType u)) (kw_dc (sp_keys u)))"
    obtain sp' where s: "applyAuthKey e key u = Some sp'" "sup_ok c sp'"
      unfolding u_def by (rule applied_ok [OF t(5) [OF True] c t(4)])
    have "checkAuthKey e u = applyAuthKey e key u" using True i by (simp add: checkAuthKey_def key_def u_def)
    then show ?thesis using that [of sp'] s by (simp add: u_def)
  next
    case False
    have "sup_ok c (sp_authKeyChecked e (take_connection k sp))"
      by (rule checked_ok [OF t(2,3,1) _ t(4)]) (use False i in simp)
    then show ?thesis using that False i by (simp add: checkAuthKey_def)
  qed
qed

lemma max_test_in: "max_test f ts = Some t \<Longrightarrow> t \<in> set ts"
proof -
  have "fold (\<lambda>x best. if f best < f x then x else best) us u \<in> insert u (set us)" for us u
    by (induction us arbitrary: u) auto
  then show "max_test f ts = Some t \<Longrightarrow> t \<in> set ts" by (cases ts) auto
qed

lemma max_test_none: "max_test f ts = None \<longleftrightarrow> ts = []"
  by (cases ts) simp_all

lemma confirm_ok:
  assumes "sup_ok c sp" "sp_testConnections sp \<noteq> []" "same_session c e" "proper_ids c"
    and "\<forall>k \<in> set (sp_listening sp). \<not> le_isConnected e k"
  obtains sp' where "confirmBestConnection e sp = Some sp'" "sup_ok c sp'"
proof (cases "sp_waitForBetterTimer sp")
  case (Some t)
  then show ?thesis using that assms(1) by (simp add: confirmBestConnection_def)
next
  case None
  obtain t where t: "max_test (test_value e) (sp_testConnections sp) = Some t"
    using max_test_none [of "test_value e"] assms(2) by (cases "max_test (test_value e) (sp_testConnections sp)") auto
  show ?thesis
  proof (cases "le_isConnected e (tested t)")
    case False
    then show ?thesis using that assms(1) None t by (simp add: confirmBestConnection_def)
  next
    case True
    then have "tested t \<notin> set (sp_listening sp)" using assms(5) by blast
    from chosen_ok [OF assms(1,2) this None assms(3,4)] obtain sp'
      where "checkAuthKey e (take_connection (tested t) sp) = Some sp'" "sup_ok c sp'" .
    then show ?thesis using that True None t by (simp add: confirmBestConnection_def)
  qed
qed

subsection \<open>Connecting\<close>

definition joining :: "'k link_env \<Rightarrow> supervisor \<Rightarrow> bool" where
  "joining c sp \<longleftrightarrow> keys_ok c sp \<and> typed_ok c sp \<and> sp_connection sp = None \<and> sp_sentEncryptedWithKeyId sp = 0
     \<and> sp_receivers sp = 0 \<and> sp_waitForBetterTimer sp = None \<and> sp_options sp \<noteq> None \<and> \<not> creating sp
     \<and> set (sp_listening sp) \<subseteq> tested ` set (sp_testConnections sp)"

lemma joining_ok: "joining c sp \<Longrightarrow> sp_testConnections sp = [] \<or> bindMsgId (sp_session sp) = 0 \<Longrightarrow> sup_ok c sp"
  by (auto simp: joining_def sup_ok_def links_ok_def creator_ok_def)

lemma joining_append: "joining c sp \<Longrightarrow> joining c (appendTestConnection e x sp)"
  by (cases x) (auto simp: joining_def keys_ok_def typed_ok_def creating_iff appendTestConnection_def call_def Let_def)

lemma joining_all: "joining c sp \<Longrightarrow> joining c (fold (appendTestConnection e) xs sp)"
  by (induction xs arbitrary: sp) (simp_all add: joining_append)

lemma joining_fields [simp]:
  "joining c (call x sp) = joining c sp" "joining c (sp\<lparr>sp_startedConnectingAt := i\<rparr>) = joining c sp"
  "joining c (sp\<lparr>sp_retryTimer := t\<rparr>) = joining c sp" "joining c (sp\<lparr>sp_waitForConnectedTimer := t\<rparr>) = joining c sp"
  "joining c (sp\<lparr>sp_currentDcType := ty\<rparr>) = joining c sp"
  "joining c (snd (sp_setState e a b sp)) = joining c sp" "joining c (on_session f sp) = joining c sp"
  by (simp_all add: joining_def keys_ok_def typed_ok_def creating_iff call_def on_session_def sp_setState_def split_beta Let_def)

lemma begin_ok:
  assumes "joining c sp"
  shows "sup_ok c (begin_connecting e sp)"
proof (rule joining_ok)
  show "joining c (begin_connecting e sp)" using assms by (simp add: begin_connecting_def Let_def)
  show "sp_testConnections (begin_connecting e sp) = [] \<or> bindMsgId (sp_session (begin_connecting e sp)) = 0"
    by (simp add: begin_connecting_def Let_def on_session_def forget_pings_def)
qed

lemma connect_ok:
  assumes "sup_ok c sp" "same_session c e" "proper_ids c"
  obtains sp' where "sp_connectToServer e afterConfig sp = Some sp'" "sup_ok c sp'"
proof (cases "afterConfig \<and> (sp_testConnections sp \<noteq> [] \<or> sp_connection sp \<noteq> None)")
  case True
  then show ?thesis using that assms(1) by (auto simp: sp_connectToServer_def)
next
  case False
  define new where "new = dcType (le_shiftedDcId e) (le_dcOptions e)"
  define d where "d = (destroyAllConnections sp)\<lparr>sp_realDcType := new\<rparr>"
  have ok: "sup_ok c (destroyAllConnections sp)" by (rule destroyAll_ok [OF sup_okD(1,2) [OF assms(1)]])
  have d: "keys_ok c d" "links_ok d" "creator_ok d"
    using sup_okD [OF ok] by (simp_all add: d_def keys_ok_def links_ok_def creator_ok_def creating_iff)
  show ?thesis
  proof (cases "sp_realDcType sp \<noteq> new \<and> sp_keyCreator d \<noteq> None")
    case True
    obtain sp' where "destroyTemporaryKey e d = Some sp'" "sup_ok c sp'" by (rule destroyed_ok [OF d assms(2,3)])
    then show ?thesis using that False True by (auto simp: sp_connectToServer_def Let_def d_def simp flip: new_def)
  next
    case same: False
    define t where "t = d\<lparr>sp_options := Some (le_options e)\<rparr>"
    have t: "keys_ok c t" "typed_ok c t"
      using d(1) same sup_okD(2) [OF assms(1)] by (auto simp: t_def keys_ok_def typed_ok_def d_def)
    have free: "\<not> creating d" by (auto simp: creating_iff d_def)
    obtain type w k where q: "tryAcquireKeyCreation e t = Some (type, t\<lparr>sp_keys := w, sp_keyCreator := k\<rparr>)"
      "keys_ok c (t\<lparr>sp_keys := w, sp_keyCreator := k\<rparr>)" "typed_ok c (t\<lparr>sp_keys := w, sp_keyCreator := k\<rparr>)"
      "k = sp_keyCreator t \<or> sp_keyCreator t = None \<and> (\<exists>p. k = Some \<lparr>kc_persistentNeeded = p, kc_started = False, kc_binder = None\<rparr>)"
      by (rule tryAcquire_ok [OF t assms(2)])
    define u where "u = t\<lparr>sp_keys := w, sp_keyCreator := k, sp_currentDcType := type\<rparr>"
    have "\<not> creating u" using q(4) free by (auto simp: u_def t_def creating_iff)
    then have u: "joining c u"
      using q(2,3) by (simp add: joining_def u_def t_def d_def keys_ok_def typed_ok_def)
    define v where "v = fold (appendTestConnection e) (wanted_links e type) u"
    have v: "joining c v" unfolding v_def by (rule joining_all [OF u])
    have tu: "sup_ok c u" by (rule joining_ok [OF u]) (simp add: u_def t_def d_def)
    have tv: "sup_ok c (begin_connecting e v)" by (rule begin_ok [OF v])
    have te: "sup_ok c v" if "sp_testConnections v = []" using joining_ok [OF v] that by simp
    have tr: "sup_ok c (restart e v)" using v by (intro restart_ok) (simp_all add: joining_def)
    have e: "sp_connectToServer e afterConfig sp =
       (if type = DcCdn \<and> \<not> le_isKeysDestroyer e \<and> \<not> hasCDNKeysForDc (BareDcId (le_shiftedDcId e)) (le_dcOptions e)
        then Some (call RequestCDNConfig u)
        else if sp_testConnections v \<noteq> [] then Some (begin_connecting e v)
        else if le_isKeysDestroyer e then Some (call KeyWasPossiblyDestroyed v)
        else if afterConfig then Some (restart e v) else Some (call RequestConfig v))"
    proof -
      have a: "(afterConfig \<and> (sp_testConnections sp \<noteq> [] \<or> sp_connection sp \<noteq> None)) = False" using False by simp
      have b: "((sp_realDcType (destroyAllConnections sp) \<noteq> new) \<and> sp_keyCreator d \<noteq> None) = False" using same by simp
      show ?thesis
        unfolding sp_connectToServer_def a Let_def new_def [symmetric] d_def [symmetric] b t_def [symmetric] q(1) if_False
        by (simp add: v_def u_def)
    qed
    have "\<exists>sp'. sp_connectToServer e afterConfig sp = Some sp' \<and> sup_ok c sp'"
      unfolding e using tu tv te tr by simp
    then show ?thesis using that by blast
  qed
qed

subsection \<open>Timers\<close>

lemma receive_timer:
  assumes "sup_ok c sp" "t = None \<or> sp_options sp \<noteq> None"
  shows "sup_ok c (sp\<lparr>sp_waitForReceivedTimer := t\<rparr>)"
proof -
  note ok = sup_okD [OF assms(1)]
  have "keys_ok c (sp\<lparr>sp_waitForReceivedTimer := t\<rparr>)" "typed_ok c (sp\<lparr>sp_waitForReceivedTimer := t\<rparr>)"
    "creator_ok (sp\<lparr>sp_waitForReceivedTimer := t\<rparr>)"
    using ok(1,2,4) by (simp_all add: keys_ok_def typed_ok_def creator_ok_def creating_iff)
  moreover have "links_ok (sp\<lparr>sp_waitForReceivedTimer := t\<rparr>)" using ok(3) assms(2) by (cases t) (simp_all add: links_ok_def)
  ultimately show ?thesis by (simp add: sup_ok_def)
qed

lemma sent_ok:
  assumes "sup_ok c sp" "sp_options sp \<noteq> None"
  obtains sp' where "onSentSome e n sp = Some sp'" "sup_ok c sp'"
proof -
  have "\<not> sp_waitForReceived sp > kMaxReceiveTimeout" using sup_okD(1) [OF assms(1)] by (simp add: keys_ok_def)
  moreover have "sup_ok c (sp\<lparr>sp_waitForReceivedTimer := t\<rparr>)" for t by (rule receive_timer [OF assms(1)]) (simp add: assms(2))
  ultimately have "\<exists>sp'. onSentSome e n sp = Some sp' \<and> sup_ok c sp'" using assms(1) by (simp add: onSentSome_def Let_def)
  then show ?thesis using that by blast
qed

lemma new_timeout:
  "sup_ok c sp \<Longrightarrow> kMinReceiveTimeout \<le> i \<Longrightarrow> i \<le> kMaxReceiveTimeout \<Longrightarrow> sup_ok c (sp\<lparr>sp_waitForReceived := i\<rparr>)"
  by (simp add: sup_ok_def keys_ok_def typed_ok_def links_ok_def creator_ok_def creating_iff)

lemma received_ok:
  assumes "sup_ok c sp"
  shows "sup_ok c (onReceivedSome e sp)"
proof -
  define t where "t = sp\<lparr>sp_oldConnection := False, sp_oldConnectionTimer := Some kMarkConnectionOldTimeout,
                  sp_waitForReceivedTimer := None\<rparr>"
  have t: "sup_ok c t" using receive_timer [of c "sp\<lparr>sp_oldConnection := False, sp_oldConnectionTimer := Some kMarkConnectionOldTimeout\<rparr>" None]
      assms by (simp add: t_def)
  define i where "i = (let ms = le_now e - sp_firstSentAt t in if ms > 0 \<and> ms * 2 < sp_waitForReceived t
      then max (ms * 2) kMinReceiveTimeout else sp_waitForReceived t)"
  have "kMinReceiveTimeout \<le> i \<and> i \<le> kMaxReceiveTimeout"
    using sup_okD(1) [OF t] by (auto simp: i_def keys_ok_def Let_def)
  then have "sup_ok c (t\<lparr>sp_waitForReceived := i\<rparr>)" using new_timeout [OF t] by blast
  moreover have "onReceivedSome e sp = (if sp_firstSentAt t > 0 then t\<lparr>sp_waitForReceived := i, sp_firstSentAt := -1\<rparr> else t)"
    by (simp add: onReceivedSome_def i_def Let_def flip: t_def)
  ultimately show ?thesis using t by simp
qed

lemma old_ok: "sup_ok c sp \<Longrightarrow> sup_ok c (markConnectionOld sp)"
  unfolding markConnectionOld_def by (rule new_timeout) (simp_all add: timeout_defs)

lemma receive_failed_ok:
  assumes "sup_ok c sp" "sp_options sp \<noteq> None"
  obtains sp' where "waitReceivedFailed e sp = Some sp'" "sup_ok c sp'"
proof -
  define t where "t = (if sp_waitForReceived sp < kMaxReceiveTimeout
      then sp\<lparr>sp_waitForReceived := min (sp_waitForReceived sp * 2) kMaxReceiveTimeout\<rparr> else sp)"
  have t: "sup_ok c t"
    using new_timeout [OF assms(1)] assms(1) sup_okD(1) [OF assms(1)] by (auto simp: t_def keys_ok_def timeout_defs)
  have "sup_ok c (doDisconnect e t)" by (rule doDisconnect_ok [OF sup_okD(1,2) [OF t]])
  moreover have "waitReceivedFailed e sp = Some (if sp_retryTimer (doDisconnect e t) \<noteq> None then doDisconnect e t
      else call RestartedByTimeout ((doDisconnect e t)\<lparr>sp_queued := Suc (sp_queued (doDisconnect e t))\<rparr>))"
    using assms(2) by (simp add: waitReceivedFailed_def Let_def flip: t_def)
  ultimately show ?thesis using that by simp
qed

lemma connect_failed_ok: "sup_ok c sp \<Longrightarrow> sup_ok c (waitConnectedFailed e sp)"
proof -
  assume "sup_ok c sp"
  then have "keys_ok c (sp\<lparr>sp_waitForConnected := i\<rparr>)" "typed_ok c (sp\<lparr>sp_waitForConnected := i\<rparr>)" for i
    by (simp_all add: sup_ok_def keys_ok_def typed_ok_def)
  moreover have "keys_ok c sp" "typed_ok c sp" using sup_okD [OF \<open>sup_ok c sp\<close>] by blast+
  ultimately show ?thesis by (simp add: waitConnectedFailed_def Let_def doDisconnect_ok)
qed

subsection \<open>Signals\<close>

lemma remove_fields [simp]:
  "keys_ok c (removeTestConnection k sp) = keys_ok c sp" "typed_ok c (removeTestConnection k sp) = typed_ok c sp"
  "creator_ok (removeTestConnection k sp) = creator_ok sp"
  "set (sp_listening (removeTestConnection k sp)) \<subseteq> set (sp_listening sp)"
  by (auto simp: removeTestConnection_def keys_ok_def typed_ok_def creator_ok_def creating_iff)

lemma remove_ok:
  assumes "sup_ok c sp" "sp_testConnections (removeTestConnection k sp) \<noteq> []"
  shows "sup_ok c (removeTestConnection k sp)"
proof -
  have t: "sp_testConnections sp \<noteq> []" using assms(2) by (auto simp: removeTestConnection_def)
  have "links_ok (removeTestConnection k sp)"
  proof (cases "k \<in> tested ` set (sp_testConnections sp)")
    case True
    define ts where "ts = filter (\<lambda>t. tested t \<noteq> k) (sp_testConnections sp)"
    have ts: "ts \<noteq> []" using assms(2) True by (simp add: removeTestConnection_def ts_def)
    have "set (removeAll k (sp_listening sp)) \<subseteq> tested ` set ts"
      using sup_okD(3) [OF assms(1)] by (auto simp: links_ok_def ts_def)
    then show ?thesis
      using sup_okD(3) [OF assms(1)] t ts True by (simp add: links_ok_def removeTestConnection_def flip: ts_def)
  qed (use sup_okD(3) [OF assms(1)] in \<open>simp add: removeTestConnection_def\<close>)
  then show ?thesis using sup_okD [OF assms(1)] by (simp add: sup_ok_def)
qed

lemma removed_confirm_ok:
  assumes "sup_ok c sp" "sp_testConnections (removeTestConnection k sp) \<noteq> []" "same_session c e" "proper_ids c"
    and "\<forall>k \<in> set (sp_listening sp). \<not> le_isConnected e k"
  obtains sp' where "confirmBestConnection e (removeTestConnection k sp) = Some sp'" "sup_ok c sp'"
proof -
  have "\<forall>i \<in> set (sp_listening (removeTestConnection k sp)). \<not> le_isConnected e i"
    using assms(5) remove_fields(4) [of k sp] by blast
  then show ?thesis using confirm_ok [OF remove_ok [OF assms(1,2)] assms(2-4)] that by blast
qed

lemma disconnected_ok:
  assumes "sup_ok c sp" "same_session c e" "proper_ids c" "\<forall>k \<in> set (sp_listening sp). \<not> le_isConnected e k"
  obtains sp' where "sp_onDisconnected e k sp = Some sp'" "sup_ok c sp'"
proof (cases "sp_testConnections (removeTestConnection k sp) = []")
  case True
  have "sup_ok c (destroyAllConnections (removeTestConnection k sp))"
    by (rule destroyAll_ok) (simp_all add: sup_okD [OF assms(1)])
  then have "sup_ok c (restart e (destroyAllConnections (removeTestConnection k sp)))" by (rule sup_restart)
  then show ?thesis using that True by (simp add: sp_onDisconnected_def)
next
  case False
  obtain sp' where "confirmBestConnection e (removeTestConnection k sp) = Some sp'" "sup_ok c sp'"
    by (rule removed_confirm_ok [OF assms(1) False assms(2-4)])
  then show ?thesis using that False by (simp add: sp_onDisconnected_def)
qed

lemma handleError_ok:
  assumes "keys_ok c sp" "typed_ok c sp" "same_session c e" "proper_ids c"
  obtains sp' where "sp_handleError e n sp = Some sp'" "sup_ok c sp'"
proof -
  define t where "t = (destroyAllConnections sp)\<lparr>sp_waitForConnectedTimer := None\<rparr>"
  have t: "sup_ok c t" using destroyAll_ok [OF assms(1,2)] by (simp add: t_def)
  obtain sp' where "destroyTemporaryKey e t = Some sp'" "sup_ok c sp'" by (rule sup_destroyed_ok [OF t assms(3,4)])
  then show ?thesis using that [of sp'] that [of "restart e t"] sup_restart [OF t, of e]
    by (cases "n = -404") (simp_all add: sp_handleError_def flip: t_def)
qed

lemma error_ok:
  assumes "sup_ok c sp" "same_session c e" "proper_ids c" "\<forall>k \<in> set (sp_listening sp). \<not> le_isConnected e k"
  obtains sp' where "sp_onError e k n sp = Some sp'" "sup_ok c sp'"
proof -
  define t where "t = (if n = -444 then call BadConfigurationError sp else sp)"
  have t: "sup_ok c t" using assms(1) by (simp add: t_def)
  have l: "sp_listening t = sp_listening sp" by (simp add: t_def call_def)
  show ?thesis
  proof (cases "sp_testConnections (removeTestConnection k t) = []")
    case True
    obtain sp' where "sp_handleError e n (removeTestConnection k t) = Some sp'" "sup_ok c sp'"
      by (rule handleError_ok [OF _ _ assms(2,3), of "removeTestConnection k t"]) (simp_all add: sup_okD [OF t])
    then show ?thesis using that True by (simp add: sp_onError_def flip: t_def)
  next
    case False
    obtain sp' where "confirmBestConnection e (removeTestConnection k t) = Some sp'" "sup_ok c sp'"
      by (rule removed_confirm_ok [OF t False assms(2,3)]) (simp add: l assms(4))
    then show ?thesis using that False by (simp add: sp_onError_def flip: t_def)
  qed
qed

lemma connected_ok:
  assumes "sup_ok c sp" "same_session c e" "proper_ids c" "k \<in> set (sp_listening sp)"
  obtains sp' where "sp_onConnected e k sp = Some sp'" "sup_ok c sp'"
proof -
  define t where "t = sp\<lparr>sp_listening := removeAll k (sp_listening sp)\<rparr>"
  note ok = sup_okD [OF assms(1)]
  have "links_ok t" using ok(3) by (auto simp: links_ok_def t_def)
  then have t: "sup_ok c t"
    using ok by (simp add: t_def sup_ok_def keys_ok_def typed_ok_def creator_ok_def creating_iff)
  define u where "u = t\<lparr>sp_waitForConnected := kMinConnectedTimeout, sp_waitForConnectedTimer := None\<rparr>"
  have u: "sup_ok c u" using t by (simp add: u_def)
  have "k \<in> tested ` set (sp_testConnections u)" using ok(3) assms(4) by (auto simp: links_ok_def u_def t_def)
  then have "find (\<lambda>t. tested t = k) (sp_testConnections u) \<noteq> None" "sp_testConnections u \<noteq> []"
    by (auto simp: find_None_iff)
  then obtain i where i: "find (\<lambda>t. tested t = k) (sp_testConnections u) = Some i" "sp_testConnections u \<noteq> []" by blast
  have better: "sup_ok c (u\<lparr>sp_waitForBetterTimer := x\<rparr>)" for x
  proof -
    have "links_ok (u\<lparr>sp_waitForBetterTimer := x\<rparr>)" using sup_okD(3) [OF u] i(2) by (simp add: links_ok_def)
    then show ?thesis using sup_okD [OF u] by (simp add: sup_ok_def keys_ok_def typed_ok_def creator_ok_def creating_iff)
  qed
  have "k \<notin> set (sp_listening (u\<lparr>sp_waitForBetterTimer := None\<rparr>))" by (simp add: u_def t_def)
  then obtain sp' where s: "checkAuthKey e (take_connection k (u\<lparr>sp_waitForBetterTimer := None\<rparr>)) = Some sp'" "sup_ok c sp'"
    by (rule chosen_ok [OF better [of None] _ _ _ assms(2,3), rotated]) (use i(2) in simp_all)
  have "sp_onConnected e k sp = Some
      (if \<not> le_isConnected e k then restart e t
       else if list_ex (\<lambda>t. test_priority t > test_priority i) (sp_testConnections u)
       then u\<lparr>sp_waitForBetterTimer := Some kWaitForBetterTimeout\<rparr> else sp')"
    using i(1) s(1) by (simp add: sp_onConnected_def Let_def flip: t_def u_def)
  moreover have "sup_ok c (if \<not> le_isConnected e k then restart e t
       else if list_ex (\<lambda>t. test_priority t > test_priority i) (sp_testConnections u)
       then u\<lparr>sp_waitForBetterTimer := Some kWaitForBetterTimeout\<rparr> else sp')"
    using better t s(2) by (simp add: sup_restart)
  ultimately show ?thesis by (rule that)
qed

subsection \<open>A key is ready\<close>

lemma fail_creation_ok:
  assumes "sup_ok c sp" "same_session c e"
  obtains sp' where "fail_creation e b sp = Some sp'" "sup_ok c sp'"
proof -
  obtain w where w: "sp_releaseKeyCreationOnFail e sp = Some (sp\<lparr>sp_keyCreator := None, sp_keys := w\<rparr>)"
    "keys_ok c (sp\<lparr>sp_keyCreator := None, sp_keys := w\<rparr>)" by (rule release_ok [OF sup_okD(1) [OF assms(1)] assms(2)])
  define t where "t = sp\<lparr>sp_keyCreator := None, sp_keys := w\<rparr>"
  have t: "sup_ok c t" unfolding t_def by (rule no_creator [OF sup_okD(3,4) [OF assms(1)] w(2)])
  have "fail_creation e b sp = Some (if b \<and> sp_realDcType t = DcCdn then call RequestCDNConfig t else restart e t)"
    using w(1) by (simp add: fail_creation_def flip: t_def)
  moreover have "sup_ok c (if b \<and> sp_realDcType t = DcCdn then call RequestCDNConfig t else restart e t)"
    using t by (simp add: sup_restart)
  ultimately show ?thesis by (rule that)
qed

lemma cdn_ok:
  assumes "sup_ok c sp" "creating sp" "same_session c e" "proper_ids c" "sp_realDcType sp = DcCdn"
  obtains t sp' where "applyAuthKey e (Some temp) sp = Some t" "finish_cdn e t = Some sp'" "sup_ok c sp'"
proof -
  note ok = sup_okD [OF assms(1)]
  let ?me = "le_me e"
  have me: "le_me c = ?me" using assms(3) by (simp add: same_session_def)
  have at: "sp_connection sp \<noteq> None" "sp_keyId sp = 0" using ok(4) assms(2) by (auto simp: creator_ok_def)
  have sent: "sp_sentEncryptedWithKeyId sp = 0" using ok(3) at by (auto simp: links_ok_def)
  have k: "sp_keyCreator sp \<noteq> None" using assms(2) by (auto simp: creating_iff)
  have keys: "key_inv (sp_keys sp)" "kw_mine (sp_keys sp) ?me \<noteq> CreatingNone" "kw_type (sp_keys sp) ?me = DcCdn"
    using ok(1,2) k assms(5) me by (simp_all add: keys_ok_def typed_ok_def)
  then have mine: "kw_mine (sp_keys sp) ?me = CreatingTemporaryRegular" unfolding key_inv_def by blast
  define i where "i = le_keyIdOf e temp"
  have i: "i \<noteq> 0" "le_keyIdOf c temp = i" using assms(3,4) by (auto simp: i_def proper_ids_def same_session_def)
  define u where "u = setCurrentKeyId e i (sp\<lparr>sp_encryptionKey := Some temp\<rparr>)"
  have a: "applyAuthKey e (Some temp) sp = Some (sp_authKeyChecked e u)"
    using at sent i(1) by (cases "sp_connection sp") (simp_all add: applyAuthKey_def key_id_def Let_def u_def i_def)
  from done_ok [OF keys(1,2), of temp None] obtain b v
    where v: "releaseGenericKeyCreationOnDone ?me (Some temp) None (sp_keys sp) = Some (b, v)" "key_inv v"
      "kw_mine v = (kw_mine (sp_keys sp))(?me := CreatingNone)" by metis
  define x where "x = u\<lparr>sp_keyCreator := None, sp_keys := v\<rparr>"
  have "unkeyed u" unfolding u_def by (rule connected_unkeyed [OF assms(1) at])
  then have ux: "unkeyed x" by (simp add: unkeyed_def x_def)
  have "sup_ok c (sp_authKeyChecked e x)"
  proof (rule checked_ok [OF _ _ ux])
    show "keys_ok c x"
      using ok(1) v(2,3) me i by (simp add: keys_ok_def x_def u_def)
    show "typed_ok c x" "\<not> creating x" by (simp_all add: typed_ok_def creating_iff x_def)
    show "sp_keyId x \<noteq> 0" using i by (simp add: x_def u_def)
  qed
  moreover have "(sp_authKeyChecked e u)\<lparr>sp_keyCreator := None, sp_keys := v\<rparr> = sp_authKeyChecked e x"
    by (simp add: x_def sp_authKeyChecked_def on_session_def)
  moreover have "sp_keys (sp_authKeyChecked e u) = sp_keys sp" "sp_encryptionKey (sp_authKeyChecked e u) = Some temp"
    by (simp_all add: sp_authKeyChecked_def on_session_def u_def)
  ultimately have "\<exists>sp'. finish_cdn e (sp_authKeyChecked e u) = Some sp' \<and> sup_ok c sp'"
    using v(1) mine by (simp add: finish_cdn_def releaseCdnKeyCreationOnDone_def Let_def sup_restart)
  then show ?thesis using that a by blast
qed

lemma unbound_ok:
  assumes "sup_ok c sp" "creating sp" "same_session c e" "proper_ids c"
  obtains sp' where "unboundReady e r sp = Some sp'" "sup_ok c sp'"
proof (cases r)
  case (UnboundFailed b)
  then show ?thesis using fail_creation_ok [OF assms(1,3)] that by (metis unboundReady.simps(1))
next
  case (Unbound temp pers salt)
  define t where "t = on_session (\<lambda>s. s\<lparr>sessionSalt := salt\<rparr>) sp"
  have t: "sup_ok c t" unfolding t_def by (rule on_session_ok) (use assms(1) in simp_all)
  have cr: "creating t" using assms(2) by (simp add: t_def creating_iff on_session_def)
  show ?thesis
  proof (cases "sp_realDcType t = DcCdn")
    case True
    obtain u sp' where "applyAuthKey e (Some temp) t = Some u" "finish_cdn e u = Some sp'" "sup_ok c sp'"
      by (rule cdn_ok [OF t cr assms(3,4) True])
    then show ?thesis using that True by (simp add: Unbound flip: t_def)
  next
    case not: False
    define key where "key = (if pers \<noteq> None then pers else getPersistentKey (kw_dc (sp_keys t)))"
    have e: "unboundReady e r sp = (case key of None \<Rightarrow> fail_creation e False t
        | Some key \<Rightarrow> (case bind_creator key t of None \<Rightarrow> None | Some sp \<Rightarrow> applyAuthKey e (Some temp) sp))"
      using not by (simp add: Unbound key_def flip: t_def)
    show ?thesis
    proof (cases key)
      case None
      obtain sp' where "fail_creation e False t = Some sp'" "sup_ok c sp'" by (rule fail_creation_ok [OF t assms(3)])
      then show ?thesis using that e None by simp
    next
      case (Some p)
      obtain k where k: "sp_keyCreator t = Some k" using cr by (auto simp: creating_iff)
      define u where "u = t\<lparr>sp_keyCreator := Some (k\<lparr>kc_started := False, kc_binder := Some p\<rparr>)\<rparr>"
      note ok = sup_okD [OF t]
      have nc: "\<not> creating u" by (simp add: u_def creating_iff)
      have "keys_ok c u" "typed_ok c u" "links_ok u"
        using ok(1-3) k by (simp_all add: keys_ok_def typed_ok_def links_ok_def u_def)
      moreover have "creator_ok u" using ok(4) nc unfolding creator_ok_def by (simp add: u_def)
      ultimately have u: "sup_ok c u" by (simp add: sup_ok_def)
      obtain sp' where "applyAuthKey e (Some temp) u = Some sp'" "sup_ok c sp'"
        by (rule applied_ok [OF u assms(3,4) nc])
      then show ?thesis using that e Some k by (simp add: bind_creator_def u_def)
    qed
  qed
qed

subsection \<open>Packets\<close>

lemma outcome_ok:
  assumes "sup_ok c sp" "sp_keyCreator sp = Some k" "kc_binder k = Some key" "sp_keyId sp \<noteq> 0" "same_session c e"
  obtains r sp' where "bind_outcome e state sp = Some (r, sp')" "sup_ok c sp'" "sp_connection sp' = sp_connection sp"
proof (cases state)
  case BindSuccess
  note ok = sup_okD [OF assms(1)]
  let ?me = "le_me e"
  have me: "le_me c = ?me" using assms(5) by (simp add: same_session_def)
  have m: "kw_mine (sp_keys sp) ?me \<noteq> CreatingNone" "key_inv (sp_keys sp)"
    using ok(1) assms(2) me by (simp_all add: keys_ok_def)
  obtain temp where temp: "sp_encryptionKey sp = Some temp" using ok(1) assms(4) by (auto simp: keys_ok_def)
  from done_ok [OF m(2,1), of temp "Some key"] obtain b v
    where v: "releaseGenericKeyCreationOnDone ?me (Some temp) (Some key) (sp_keys sp) = Some (b, v)" "key_inv v"
      "kw_mine v = (kw_mine (sp_keys sp))(?me := CreatingNone)" by metis
  define t where "t = sp\<lparr>sp_keyCreator := None, sp_keys := v\<rparr>"
  have "keys_ok c t" using ok(1) v(2,3) me by (simp add: keys_ok_def t_def)
  then have t: "sup_ok c t" unfolding t_def by (rule no_creator [OF ok(3,4)])
  let ?sp = "if b then call (bound_call (kw_mine (sp_keys sp) ?me) (Some key)) t else t"
  have "bind_outcome e state sp = Some (if b then HSuccess else HDestroyTemporaryKey, ?sp)"
    using v(1) m(1) assms(2,3) temp
    by (cases b) (simp_all add: bind_outcome_def BindSuccess releaseKeyCreationOnDone_def Let_def t_def)
  moreover have "sup_ok c ?sp" using t by simp
  moreover have "sp_connection ?sp = sp_connection sp" by (simp add: t_def)
  ultimately show ?thesis by (rule that)
next
  case BindFailed
  then show ?thesis using that [of HSuccess sp] assms(1-3) by (simp add: bind_outcome_def)
next
  case BindDefinitelyDestroyed
  obtain b t where t: "destroyOldEnoughPersistentKey e key sp = (b, t)" by (cases "destroyOldEnoughPersistentKey e key sp")
  then have "sup_ok c t" "sp_connection t = sp_connection sp"
    using assms(1) by (auto simp: destroyOldEnoughPersistentKey_def split: if_splits)
  then show ?thesis using that t assms(2,3) BindDefinitelyDestroyed by (simp add: bind_outcome_def)
qed

lemma bound_session_ok:
  assumes "sup_ok c sp" "bindMsgId s \<in> {bindMsgId (sp_session sp), 0}"
  shows "sup_ok c (sp\<lparr>sp_session := s\<rparr>)"
  using on_session_ok [of "\<lambda>_. s" sp c] assms by (simp add: on_session_def)

lemma packet_ok:
  assumes "sup_ok c sp" "sp_connection sp \<noteq> None" "same_session c e" "proper_ids c"
  shows "sp_packet e depth re states ct packet sp = Inl MessageRefused
    \<or> (\<exists>b sp'. sp_packet e depth re states ct packet sp = Inr (b, sp') \<and> sup_ok c sp' \<and> (b \<longrightarrow> sp_connection sp' \<noteq> None))"
proof (cases packet)
  case None
  then show ?thesis using assms(1) by (auto simp: sp_packet_def sup_restart)
next
  case (Some m)
  define x where "x = receive_now e re states sp"
  have bind: "re_bind x \<noteq> None \<longleftrightarrow> sp_keyCreator sp \<noteq> None"
    by (simp add: x_def receive_now_def binder_of_def)
  show ?thesis
  proof (cases "handleReceived depth x ct m (sp_session sp)")
    case None
    then show ?thesis using Some by (simp add: sp_packet_def flip: x_def)
  next
    case (Some rs)
    obtain r s where r: "handleReceived depth x ct m (sp_session sp) = Some (r, s)" using Some by (cases rs) simp
    then have "answering (re_bind x \<noteq> None) (sp_session sp) s" by (rule answering_received)
    then obtain xs where xs: "asks s = asks (sp_session sp) @ xs"
      "bind_answers xs = [] \<and> bindMsgId s \<in> {bindMsgId (sp_session sp), 0}
        \<or> sp_keyCreator sp \<noteq> None \<and> (\<exists>r. bind_answers xs = [r]) \<and> bindMsgId (sp_session sp) \<noteq> 0 \<and> bindMsgId s = 0"
      unfolding answering_def bind by blast
    define t where "t = sp\<lparr>sp_session := s\<rparr>"
    have t: "sup_ok c t" unfolding t_def by (rule bound_session_ok [OF assms(1)]) (use xs(2) in auto)
    have new: "new_bind_answers (sp_session sp) s = bind_answers xs" by (simp add: new_bind_answers_def xs(1))
    obtain u where u: "after_binding e states (bind_answers xs) t = Some u" "sup_ok c u" "sp_connection u = sp_connection sp"
    proof (cases "bind_answers xs = []")
      case True
      then show ?thesis using that [of t] t by (simp add: after_binding_def t_def)
    next
      case False
      then obtain q where q: "bind_answers xs = [q]" "sp_keyCreator sp \<noteq> None" "bindMsgId (sp_session sp) \<noteq> 0"
        using xs(2) by blast
      then obtain k key where k: "sp_keyCreator sp = Some k" "kc_binder k = Some key" "sp_keyId sp \<noteq> 0"
        using sup_okD(4) [OF assms(1)] assms(2) unfolding creator_ok_def by blast
      obtain o' u where "bind_outcome e (states q) t = Some (o', u)" "sup_ok c u" "sp_connection u = sp_connection t"
        by (rule outcome_ok [OF t _ k(2) _ assms(3)]) (use k in \<open>simp_all add: t_def\<close>)
      then show ?thesis using that [of u] q(1) by (simp add: after_binding_def t_def)
    qed
    have p: "sp_packet e depth re states ct packet sp = asserted (after_packet e r u)"
      using \<open>packet = Some m\<close> r u(1) by (simp add: sp_packet_def new flip: x_def t_def)
    show ?thesis
    proof (cases "r = HDestroyTemporaryKey")
      case True
      obtain v where "destroyTemporaryKey e u = Some v" "sup_ok c v" by (rule sup_destroyed_ok [OF u(2) assms(3,4)])
      then show ?thesis using True by (auto simp: p after_packet_def asserted_def sup_restart)
    next
      case False
      then show ?thesis using u(2,3) assms(2) by (auto simp: p after_packet_def asserted_def sup_restart)
    qed
  qed
qed

lemma packets_ok:
  assumes "sup_ok c sp" "sp_connection sp \<noteq> None" "same_session c e" "proper_ids c"
  shows "sp_packets e depth re states ct packets sp = Inl MessageRefused
    \<or> (\<exists>b sp'. sp_packets e depth re states ct packets sp = Inr (b, sp') \<and> sup_ok c sp')"
  using assms(1,2)
proof (induction packets arbitrary: sp)
  case (Cons p ps)
  from packet_ok [OF Cons.prems assms(3,4), of depth re states ct p] show ?case
  proof (elim disjE exE conjE)
    fix b sp'
    assume "sp_packet e depth re states ct p sp = Inr (b, sp')" "sup_ok c sp'" "b \<longrightarrow> sp_connection sp' \<noteq> None"
    then show ?thesis using Cons.IH [of sp'] by (cases b) auto
  qed simp
qed auto

lemma onReceived_fields [simp]:
  "sp_connection (onReceivedSome e sp) = sp_connection sp" "sp_session (onReceivedSome e sp) = sp_session sp"
  by (simp_all add: onReceivedSome_def Let_def)

lemma receive_ok:
  assumes "sup_ok c sp" "sp_receivers sp > 0" "same_session c e" "proper_ids c"
  shows "sp_handleReceived e depth re states ct wait packets sp = Inl MessageRefused
    \<or> (\<exists>sp'. sp_handleReceived e depth re states ct wait packets sp = Inr sp' \<and> sup_ok c sp')"
proof -
  note ok = sup_okD [OF assms(1)]
  have con: "sp_connection sp \<noteq> None" using ok(3) assms(2) by (auto simp: links_ok_def)
  then have "sp_keyId sp \<noteq> 0" using ok(3) assms(2) by (auto simp: links_ok_def)
  then have key: "sp_encryptionKey sp \<noteq> None" using ok(1) by (auto simp: keys_ok_def)
  have "sp_connection (onReceivedSome e sp) \<noteq> None" using con by simp
  from packets_ok [OF received_ok [OF assms(1)] this assms(3,4), of depth re states ct packets] show ?thesis
    using con key by (auto simp: sp_handleReceived_def)
qed

subsection \<open>Sending\<close>

lemma tryToSend_off: "\<not> en_connection env \<Longrightarrow> tryToSend draw sch env s = (no_sending, s)"
  by (simp add: tryToSend_def)

lemma bound_key_ok:
  assumes "sup_ok c sp" "sp_connection sp \<noteq> None" "sp_keyId sp \<noteq> 0" "sp_keyCreator sp = Some k" "kc_binder k \<noteq> None"
  shows "sup_ok c (sp\<lparr>sp_session := s\<rparr>)"
proof -
  note ok = sup_okD [OF assms(1)]
  have "links_ok (sp\<lparr>sp_session := s\<rparr>)" using ok(3) assms(2) by (auto simp: links_ok_def)
  moreover have "creator_ok (sp\<lparr>sp_session := s\<rparr>)" using ok(4) assms(2-5) by (auto simp: creator_ok_def creating_iff)
  ultimately show ?thesis using ok(1,2) by (simp add: sup_ok_def keys_ok_def typed_ok_def)
qed

lemma send_ok:
  assumes "sup_ok c sp"
  obtains sp' where "sp_tryToSend draw e sch env random fill sp = Some sp'" "sup_ok c sp'"
proof -
  define en where "en = sending_env e env sp"
  obtain r t where rt: "tryToSend draw sch en (sp_session sp) = (r, t)" by (cases "tryToSend draw sch en (sp_session sp)")
  define s where "s = sendSecureRequest random fill r t"
  have en: "en_connection en \<longleftrightarrow> sp_connection sp \<noteq> None" "en_key en \<longleftrightarrow> sp_keyId sp \<noteq> 0"
    "en_keyCreator en = map_option (\<lambda>k. kc_binder k \<noteq> None) (sp_keyCreator sp)"
    by (simp_all add: en_def sending_env_def)
  have s: "sup_ok c (sp\<lparr>sp_session := s\<rparr>)"
  proof (cases "en_keyCreator en \<noteq> Some True \<or> \<not> en_connection en \<or> \<not> en_key en")
    case True
    from tryToSend_bind [OF this, of draw sch "sp_session sp"] have "bindMsgId s = bindMsgId (sp_session sp)"
      by (simp add: s_def rt)
    then show ?thesis using bound_session_ok [OF assms] by simp
  next
    case False
    then obtain k where "sp_keyCreator sp = Some k" "kc_binder k \<noteq> None" using en(3) by auto
    then show ?thesis using bound_key_ok [OF assms] False en by simp
  qed
  have opts: "sp_options sp \<noteq> None" if "sp_connection sp \<noteq> None"
    using sup_okD(3) [OF assms] that unfolding links_ok_def by blast
  have need: "\<not> (needs_options en (sp_session sp) \<and> sp_options (sp\<lparr>sp_session := s\<rparr>) = None)" using opts en(1) by (auto simp: needs_options_def)
  have "\<exists>sp'. sent_packet e r n (sp\<lparr>sp_session := s\<rparr>) = Some sp' \<and> sup_ok c sp'" if con: "sp_connection sp \<noteq> None" for n
  proof -
    define u where "u = sp\<lparr>sp_session := s, sp_sentEncryptedWithKeyId := sp_keyId sp\<rparr>"
    have "links_ok u" using sup_okD(3) [OF s] con by (auto simp: links_ok_def u_def)
    then have u: "sup_ok c u" using sup_okD [OF s] by (simp add: sup_ok_def u_def keys_ok_def typed_ok_def creator_ok_def creating_iff)
    obtain sp' where "onSentSome e ((8 + n) * 4) u = Some sp'" "sup_ok c sp'"
      by (rule sent_ok [OF u]) (use opts [OF con] in \<open>simp add: u_def\<close>)
    moreover have "sent_packet e r n (sp\<lparr>sp_session := s\<rparr>) = (if sn_needAnyResponse r then onSentSome e ((8 + n) * 4) u else Some u)"
      by (simp add: sent_packet_def u_def Let_def)
    ultimately show ?thesis using u by simp
  qed
  moreover have "sn_packet r = None" if "sp_connection sp = None"
    using tryToSend_off [of en draw sch "sp_session sp"] that en(1) rt by (simp add: no_sending_def)
  moreover have e: "sp_tryToSend draw e sch env random fill sp = (case sn_packet r of None \<Rightarrow> Some (sp\<lparr>sp_session := s\<rparr>)
      | Some d \<Rightarrow> (case secure_ints random fill (sessionSalt t) (sessionId t) d of None \<Rightarrow> Some (sp\<lparr>sp_session := s\<rparr>)
                   | Some p \<Rightarrow> sent_packet e r (length (rd_ints p)) (sp\<lparr>sp_session := s\<rparr>)))"
    unfolding sp_tryToSend_def Let_def en_def [symmetric] rt prod.case s_def [symmetric] if_not_P [OF need] by (rule refl)
  ultimately have "\<exists>sp'. sp_tryToSend draw e sch env random fill sp = Some sp' \<and> sup_ok c sp'"
    using s unfolding e by (cases "sp_connection sp") (auto split: option.split)
  then show ?thesis using that by blast
qed

subsection \<open>Every event\<close>

lemma checkSent_bind [simp]: "bindMsgId (checkSentRequests now s) = bindMsgId s"
proof -
  have "bindMsgId (snd (check_sent_one now x (b, t))) = bindMsgId t" for x b t by (cases x) (simp add: check_sent_one_def)
  then have "bindMsgId (snd (fold (check_sent_one now) xs bt)) = bindMsgId (snd bt)" for xs bt
    by (induction xs arbitrary: bt) (simp_all, metis prod.collapse)
  then show ?thesis by (simp add: checkSentRequests_def split_beta ask_def)
qed

lemma clearOld_bind: "bindMsgId (clearOldContainers now s) \<in> {bindMsgId s, 0}"
proof -
  have "answering False t (fold (resend now (-1)) ms (t\<lparr>sentContainers := x\<rparr>))" for t ms x
    by (rule answering_trans [OF answering_same answers.along]) (simp_all add: answering_resend)
  then have "answering False t (snd (clear_old_one now x (b, t)))" for x b t
    by (cases x) (simp add: clear_old_one_def)
  then have "answering False (snd (False, s)) (snd (fold (clear_old_one now) (sentContainers s) (False, s)))"
    by (rule answers.along_pairs)
  then have "answering False s (clearOldContainers now s)" by (simp add: clearOldContainers_def split_beta)
  then show ?thesis by (auto simp: answering_def)
qed

lemma main_bind: "bindMsgId (main_do ev s) \<in> {bindMsgId s, 0}"
  using clearOld_bind
  by (simp add: main_do_def sendPrepared_def cancel_def force_ping_def take_received_def ask_def Let_def split: session_event.split)

lemma key_other:
  assumes "key_do ids ev w = Some v" "key_session ev \<noteq> Some i"
  shows "kw_mine v i = kw_mine w i" "kw_type v i = kw_type w i"
  using assms
  by (cases ev; auto simp: acquireKeyCreation_def releaseKeyCreationOnDone_def releaseCdnKeyCreationOnDone_def
      releaseGenericKeyCreationOnDone_def releaseKeyCreationOnFail_def split: if_splits option.splits prod.splits)+

lemma other_session_ok:
  assumes "sup_ok c sp" "key_allowed ev (sp_keys sp)" "key_session ev \<noteq> Some (le_me c)"
  obtains w where "key_do ids ev (sp_keys sp) = Some w" "sup_ok c (sp\<lparr>sp_keys := w\<rparr>)"
proof -
  note ok = sup_okD [OF assms(1)]
  have "key_inv (sp_keys sp)" using ok(1) by (simp add: keys_ok_def)
  then obtain w where w: "key_do ids ev (sp_keys sp) = Some w" "key_inv w" by (rule key_do_ok [OF _ assms(2)])
  note same = key_other [OF w(1) assms(3)]
  have "keys_ok c (sp\<lparr>sp_keys := w\<rparr>)" "typed_ok c (sp\<lparr>sp_keys := w\<rparr>)"
    using ok(1,2) w(2) same by (simp_all add: keys_ok_def typed_ok_def)
  moreover have "links_ok (sp\<lparr>sp_keys := w\<rparr>)" "creator_ok (sp\<lparr>sp_keys := w\<rparr>)"
    using ok(3,4) by (simp_all add: links_ok_def creator_ok_def creating_iff)
  ultimately show ?thesis using that w(1) by (simp add: sup_ok_def)
qed

lemma no_better_timer: "sup_ok c sp \<Longrightarrow> sup_ok c (sp\<lparr>sp_waitForBetterTimer := None\<rparr>)"
  by (simp add: sup_ok_def keys_ok_def typed_ok_def links_ok_def creator_ok_def creating_iff)

lemma restartNow_ok: "sup_ok c sp \<Longrightarrow> sup_ok c (restartNow e sp)"
  by (simp add: restartNow_def sup_restart)

definition went :: "'k link_env \<Rightarrow> crash + supervisor \<Rightarrow> bool" where
  "went c r \<longleftrightarrow> r = Inl MessageRefused \<or> (\<exists>sp. r = Inr sp \<and> sup_ok c sp)"

lemma went_Inr [simp]: "went c (Inr sp) = sup_ok c sp"
  by (simp add: went_def)

lemma went_asserted: "x = Some sp \<Longrightarrow> sup_ok c sp \<Longrightarrow> went c (asserted x)"
  by (simp add: asserted_def)

lemma step_went:
  assumes "sup_ok c sp" "sup_allowed c e ev sp" "proper_ids c"
  shows "went c (sup_do draw e ev sp)"
proof -
  have c: "same_session c e" "le_me e = le_me c" and poss: "sup_possible e ev sp" and quiet: "silent_links e ev sp"
    using assms(2) by (simp_all add: sup_allowed_def same_session_def)
  have off: "\<forall>k \<in> set (sp_listening sp). \<not> le_isConnected e k" if "\<And>k. ev \<noteq> LinkConnected k"
    using quiet that by (cases ev) (auto simp: silent_links_def)
  have connect: "went c (asserted (sp_connectToServer e b t))" if "sup_ok c t" for b t
    by (rule connect_ok [OF that c(1) assms(3)]) (rule went_asserted)
  have opts: "sp_options sp \<noteq> None" if "creating sp \<or> sp_waitForReceivedTimer sp \<noteq> None"
    using sup_okD(3,4) [OF assms(1)] that unfolding links_ok_def creator_ok_def by blast
  show ?thesis
  proof (cases ev)
    case ReceivedFired
    then have "sp_options (sp\<lparr>sp_waitForReceivedTimer := None\<rparr>) \<noteq> None" using opts poss by simp
    then show ?thesis
      by (rule receive_failed_ok [OF receive_timer [OF assms(1)], where e = e, rotated]) (simp_all add: ReceivedFired went_asserted)
  next
    case BetterFired
    define t where "t = sp\<lparr>sp_waitForBetterTimer := None\<rparr>"
    have "sp_waitForBetterTimer sp \<noteq> None" using poss BetterFired by simp
    then have n: "sp_testConnections t \<noteq> []" using sup_okD(3) [OF assms(1)] unfolding links_ok_def by (simp add: t_def)
    have l: "\<forall>k \<in> set (sp_listening t). \<not> le_isConnected e k" using off BetterFired by (simp add: t_def)
    have t: "sup_ok c t" unfolding t_def by (rule no_better_timer [OF assms(1)])
    show ?thesis
      by (rule confirm_ok [OF t n c(1) assms(3) l]) (simp add: BetterFired went_asserted flip: t_def)
  next
    case (LinkConnected k)
    then have "k \<in> set (sp_listening sp)" using poss by simp
    then show ?thesis
      by (rule connected_ok [OF assms(1) c(1) assms(3)]) (simp add: LinkConnected went_asserted)
  next
    case (LinkDisconnected k)
    show ?thesis
      by (rule disconnected_ok [OF assms(1) c(1) assms(3) off, where k = k]) (simp_all add: LinkDisconnected went_asserted)
  next
    case (LinkError k n)
    show ?thesis
      by (rule error_ok [OF assms(1) c(1) assms(3) off, where k = k and n = n]) (simp_all add: LinkError went_asserted)
  next
    case (KeyReady r)
    then have "creating sp" using poss by simp
    then show ?thesis by (rule unbound_ok [OF assms(1) _ c(1) assms(3), where r = r]) (simp add: KeyReady went_asserted)
  next
    case (KeySentSome n)
    then have "sp_options sp \<noteq> None" using opts poss by simp
    then show ?thesis by (rule sent_ok [OF assms(1), where e = e and n = n]) (simp add: KeySentSome went_asserted)
  next
    case (Packets depth re states ct wait packets)
    then show ?thesis using receive_ok [OF assms(1) _ c(1) assms(3)] poss by (simp add: went_def)
  next
    case (SendNow sch env random fill)
    show ?thesis
      by (rule send_ok [OF assms(1), where draw = draw and e = e and sch = sch and env = env and random = random and fill = fill]) (simp add: SendNow went_asserted)
  next
    case KeyUpdated
    have "went c (asserted (applyAuthKey e key sp))" if "sp_keyCreator sp = None" for key
      by (rule applied_ok [OF assms(1) c(1) assms(3), where key = key]) (use that in \<open>simp_all add: creating_iff went_asserted\<close>)
    then show ?thesis using assms(1) went_asserted [OF refl assms(1)] by (simp add: KeyUpdated updateAuthKey_def)
  next
    case (MainThread x)
    then show ?thesis using on_session_ok [of "main_do x" sp c] main_bind assms(1) by simp
  next
    case (OtherSession x)
    then have x: "key_allowed x (sp_keys sp)" "key_session x \<noteq> Some (le_me c)" using poss c(2) by simp_all
    show ?thesis by (rule other_session_ok [OF assms(1) x, of "le_keyIdOf e"]) (simp add: OtherSession asserted_def)
  qed (use assms(1) connect in \<open>simp_all add: retryByTimer_def dcOptionsChanged_def cdnConfigChanged_def old_ok connect_failed_ok
    received_ok sendPingByTimer_def sp_checkSentRequests_def sup_restart restartNow_ok on_session_ok\<close>)
qed

lemma run_ok:
  assumes "sup_run draw c sp evs sp'" "sup_ok c sp" "proper_ids c"
  shows "sup_ok c sp'"
  using assms(1)
proof (induction rule: sup_run.induct)
  case (event evs t e ev u)
  then show ?case using step_went [OF event.IH event.hyps(2) assms(3), of draw] by simp
qed (rule assms(2))

lemma end_ok:
  assumes "sup_ok c sp" "same_session c e"
  shows "end_supervision e sp \<noteq> None"
proof -
  obtain w where "sp_releaseKeyCreationOnFail e sp = Some (sp\<lparr>sp_keyCreator := None, sp_keys := w\<rparr>)"
    by (rule release_ok [OF sup_okD(1) [OF assms(1)] assms(2)])
  moreover have "sp_connection (doDisconnect e t) = None" "sp_testConnections (doDisconnect e t) = []" for t
    by (simp_all add: doDisconnect_def sp_setState_def split_beta Let_def)
  ultimately show ?thesis by (simp add: end_supervision_def Let_def)
qed

text \<open>
  C2. The supervision of a connection never fails an assertion. In every run from the start of a
  session, with timers, signals of connections and of the key creator, packets, calls of the main
  thread and the other sessions of the data centre in any order, whatever may happen next happens
  without a failed \<open>Expects\<close> or \<open>Assert\<close> (only a message that is empty or nested without end is
  refused), and so does the end of the session. There are never test connections beside a chosen
  one; \<open>receivedData\<close> is connected to \<open>handleReceived\<close> at most once, and exactly while the chosen
  connection has a key; a creation of keys is held exactly while there is a key creator; and the
  timeout for answers stays between four and sixty-four seconds.
\<close>
theorem supervision_safe:
  assumes "key_inv keys" "kw_mine keys (le_me c) = CreatingNone" "proper_ids c"
    and "sup_run draw c (new_supervisor os type keys) evs sp" "sup_allowed c e ev sp"
  shows "sup_do draw e ev sp \<noteq> Inl AssertionFailed \<and> end_supervision e sp \<noteq> None
    \<and> (sp_connection sp = None \<or> sp_testConnections sp = [])
    \<and> sp_receivers sp = (if sp_connection sp \<noteq> None \<and> sp_keyId sp \<noteq> 0 then 1 else 0)
    \<and> (sp_keyCreator sp \<noteq> None \<longleftrightarrow> kw_mine (sp_keys sp) (le_me c) \<noteq> CreatingNone)
    \<and> kMinReceiveTimeout \<le> sp_waitForReceived sp \<and> sp_waitForReceived sp \<le> kMaxReceiveTimeout"
proof -
  have ok: "sup_ok c sp" by (rule run_ok [OF assms(4) new_supervisor_ok [OF assms(1,2)] assms(3)])
  have "went c (sup_do draw e ev sp)" by (rule step_went [OF ok assms(5,3)])
  moreover have "end_supervision e sp \<noteq> None" using end_ok [OF ok] assms(5) by (simp add: sup_allowed_def)
  ultimately show ?thesis
    using sup_okD(1,3) [OF ok] by (cases "sp_connection sp") (auto simp: keys_ok_def links_ok_def went_def)
qed

end
