(* ===== verification/Supervision_Runs.thy ===== *)
theory Supervision_Runs
  imports Session_Supervised
begin

text \<open>
  What a supervised session does to its requests (\<open>mtproto/session_private.cpp\<close>): every event of the
  supervision is a run of the session in the sense of \<open>Session_Runs\<close>, so no request is lost however
  connections come and go.
\<close>

text \<open>A run of the session that leaves alone the requests of a set.\<close>

definition spares :: "mtpRequestId set \<Rightarrow> (nat \<Rightarrow> mtpMsgId) \<Rightarrow> mtp_session \<Rightarrow> mtp_session \<Rightarrow> bool" where
  "spares A draw s s' \<longleftrightarrow> (\<exists>tr. session_run draw s tr s' \<and> (\<forall>(t, ev) \<in> set tr. \<forall>r \<in> A. waits_for ev r \<and> r \<notin> ends ev t))"

lemma session_run_append:
  "session_run draw t tr' u \<Longrightarrow> session_run draw s tr t \<Longrightarrow> session_run draw s (tr @ tr') u"
  by (induction rule: session_run.induct) (simp_all, metis append_assoc session_run.step)

lemma spares_trans: "spares A draw s t \<Longrightarrow> spares A draw t u \<Longrightarrow> spares A draw s u"
  unfolding spares_def by (elim exE conjE, rule_tac x = "tr @ tra" in exI) (auto intro: session_run_append)

interpretation sparing: promise "spares A draw" for A draw
proof unfold_locales
  show "spares A draw s s" for s unfolding spares_def by (intro exI [of _ "[]"]) (simp add: session_run.stay)
qed (rule spares_trans)

lemma spares_step:
  assumes "session_step draw s ev s'" "\<forall>r \<in> A. waits_for ev r \<and> r \<notin> ends ev s"
  shows "spares A draw s s'"
  unfolding spares_def
  by (rule exI [of _ "[(s, ev)]"]) (use session_run.step [OF session_run.stay assms(1)] assms(2) in simp)

lemmas calm_step = spares_step [where A = UNIV]

text \<open>The operations of the session that the supervision uses.\<close>

lemma spares_ops [simp]:
  "spares A draw s s" "spares A draw s (snd (setState x y s))" "spares A draw s (resetSession i s)"
  "spares A draw s (changeSessionId i s)" "spares A draw s (authKeyChecked now i s)" "spares A draw s (forget_pings s)"
  "spares A draw s (ask a s)" "spares A draw s (s\<lparr>sessionSalt := salt\<rparr>)" "spares A draw s (checkSentRequests now s)"
  by (rule sparing.at_rest)
    (rule spares_step, rule session_step.intros, simp add: waits_for_def ends_def)+

lemma spares_send:
  assumes "tryToSend draw sch env s = (r, t)"
  shows "spares A draw s (sendSecureRequest random fill r t)"
  using spares_step [OF session_step.sent [of draw s sch env random fill], of A]
    assms by (simp add: send_now_def waits_for_def ends_def)

lemma session_fields [simp]:
  "sp_session (snd (sp_setState e x y sp)) = snd (setState x y (sp_session sp))"
  "sp_session (on_session f sp) = f (sp_session sp)" "sp_session (call q sp) = sp_session sp"
  "sp_session (appendTestConnection e l sp) = sp_session sp" "sp_session (take_connection k sp) = sp_session sp"
  "sp_session (removeTestConnection k sp) = sp_session sp"
  "sp_session (doDisconnect e sp) = snd (setState kDisconnectedState None (sp_session sp))"
  by (simp_all add: sp_setState_def split_beta Let_def on_session_def call_def appendTestConnection_def take_connection_def
      removeTestConnection_def doDisconnect_def)

lemma append_session [simp]: "sp_session (fold (appendTestConnection e) xs sp) = sp_session sp"
  by (induction xs arbitrary: sp) simp_all

abbreviation sure :: "mtpRequestId set \<Rightarrow> (nat \<Rightarrow> mtpMsgId) \<Rightarrow> supervisor \<Rightarrow> supervisor \<Rightarrow> bool" where
  "sure A draw sp sp' \<equiv> spares A draw (sp_session sp) (sp_session sp')"

lemma spares_setState: "spares A draw s t \<Longrightarrow> spares A draw s (snd (setState x y t))"
  by (erule spares_trans) simp

lemma spares_restart: "sure A draw sp (restart e sp)"
proof -
  define t where "t = doDisconnect e (sp\<lparr>sp_waitForReceivedTimer := None, sp_waitForConnectedTimer := None\<rparr>)"
  define u where "u = (if sp_needSessionReset t then sp_resetSession e t else t)"
  have "sure A draw sp t" by (simp add: t_def)
  moreover have "sure A draw t u" by (simp add: u_def sp_resetSession_def)
  ultimately have u: "sure A draw sp u" by (rule spares_trans)
  show ?thesis unfolding restart_def Let_def t_def [symmetric] u_def [symmetric] using u by (simp add: spares_setState)
qed

lemma spares_restarted: "sure A draw sp t \<Longrightarrow> sure A draw sp (restart e t)"
  by (erule spares_trans) (rule spares_restart)

lemma release_session: "sp_releaseKeyCreationOnFail e sp = Some sp' \<Longrightarrow> sp_session sp' = sp_session sp"
  by (auto simp: sp_releaseKeyCreationOnFail_def split: if_splits)

lemma acquire_session: "tryAcquireKeyCreation e sp = Some (type, sp') \<Longrightarrow> sp_session sp' = sp_session sp"
  by (auto simp: tryAcquireKeyCreation_def Let_def split: if_splits option.splits)

lemma start_session: "start_creator sp = Some sp' \<Longrightarrow> sp_session sp' = sp_session sp"
  by (auto simp: start_creator_def split: if_splits option.splits)

lemma spares_create:
  assumes "create_key e sp = Some sp'"
  shows "sure A draw sp sp'"
proof -
  have plain: "sure A draw sp t" if "start_creator u = Some t" "sp_session u = sp_session sp" for t u
    using start_session [OF that(1)] that(2) by simp
  show ?thesis
  proof (cases "\<not> le_isKeysDestroyer e \<and> noMediaKeyWithExistingRegularKey sp")
    case False
    then show ?thesis using assms plain [of sp sp'] plain [of "call KeyWasPossiblyDestroyed sp" sp']
      by (simp add: create_key_def split: if_splits)
  next
    case True
    then obtain type t where t: "tryAcquireKeyCreation e sp = Some (type, t)"
      and s: "(if sp_keyCreator t \<noteq> None \<and> type \<noteq> sp_currentDcType t then Some (restart e t) else start_creator t) = Some sp'"
      using assms by (auto simp: create_key_def split: option.splits)
    note same = acquire_session [OF t]
    show ?thesis
    proof (cases "sp_keyCreator t \<noteq> None \<and> type \<noteq> sp_currentDcType t")
      case True
      then show ?thesis using s spares_restart [of A draw t e] same by simp
    next
      case False
      then show ?thesis using s plain [OF _ same] by (simp only: if_False)
    qed
  qed
qed

lemma spares_current: "sure A draw sp (setCurrentKeyId e i sp)"
  by (simp add: setCurrentKeyId_def)

lemma spares_checked: "sure A draw sp t \<Longrightarrow> sure A draw sp (sp_authKeyChecked e t)"
  by (erule spares_trans) (simp add: sp_authKeyChecked_def)

lemma spares_apply:
  assumes "applyAuthKey e key sp = Some sp'"
  shows "sure A draw sp sp'"
proof -
  define t where "t = sp\<lparr>sp_encryptionKey := key\<rparr>"
  have cur: "sure A draw sp (setCurrentKeyId e i t)" for i using spares_current [of A draw t e i] by (simp add: t_def)
  have "sp' = t \<or> (\<exists>i. sp' = setCurrentKeyId e i t) \<or> (\<exists>i. sp' = restart e (setCurrentKeyId e i t))
      \<or> (\<exists>i. sp' = sp_authKeyChecked e (setCurrentKeyId e i t)) \<or> (\<exists>i. create_key e (setCurrentKeyId e i t) = Some sp')"
    using assms unfolding applyAuthKey_steps t_def [symmetric] Let_def
    by (auto split: if_split_asm)
  then show ?thesis
  proof (elim disjE exE)
    fix i
    assume "create_key e (setCurrentKeyId e i t) = Some sp'"
    then show ?thesis using cur [of i] spares_create spares_trans by blast
  qed (simp_all add: t_def [symmetric] cur spares_restarted spares_checked, simp add: t_def)
qed

lemma spares_destroyTemporary:
  assumes "destroyTemporaryKey e sp = Some sp'"
  shows "sure A draw sp sp'"
proof (cases "le_isKeysDestroyer e")
  case True
  then show ?thesis using assms by (auto simp: destroyTemporaryKey_def)
next
  case False
  then obtain t where t: "sp_releaseKeyCreationOnFail e sp = Some t"
    using assms by (auto simp: destroyTemporaryKey_def split: option.splits)
  define u where "u = (case sp_encryptionKey t of None \<Rightarrow> t | Some k \<Rightarrow> session_destroyTemporaryKey e (le_keyIdOf e k) t)"
  have u: "sp_session u = sp_session sp"
    using release_session [OF t] by (simp add: u_def session_destroyTemporaryKey_def split_beta Let_def split: option.split)
  obtain v where v: "applyAuthKey e None u = Some v" "sp' = restart e v"
    using assms False t by (auto simp: destroyTemporaryKey_def u_def)
  show ?thesis unfolding v(2) using spares_restarted [OF spares_apply [OF v(1)]] u by simp
qed

lemma spares_check: "checkAuthKey e sp = Some sp' \<Longrightarrow> sure A draw sp sp'"
  by (auto simp: checkAuthKey_def spares_checked spares_apply split: if_splits)

lemma spares_confirm: "confirmBestConnection e sp = Some sp' \<Longrightarrow> sure A draw sp sp'"
  using spares_check [of e _ sp' A draw] by (fastforce simp: confirmBestConnection_def split: if_splits option.splits)

lemma spares_begin: "sure A draw sp (begin_connecting e sp)"
proof -
  have "sp_session (begin_connecting e sp) = forget_pings (snd (setState kConnectingState None (sp_session sp)))"
    by (simp add: begin_connecting_def Let_def)
  then show ?thesis using spares_trans [OF spares_ops(2) spares_ops(6)] by simp
qed

lemma spares_connect:
  assumes "sp_connectToServer e afterConfig sp = Some sp'"
  shows "sure A draw sp sp'"
proof (cases "afterConfig \<and> (sp_testConnections sp \<noteq> [] \<or> sp_connection sp \<noteq> None)")
  case True
  then show ?thesis using assms by (auto simp: sp_connectToServer_def)
next
  case False
  define new where "new = dcType (le_shiftedDcId e) (le_dcOptions e)"
  define d where "d = (destroyAllConnections sp)\<lparr>sp_realDcType := new\<rparr>"
  have d: "sp_session d = sp_session sp" by (simp add: d_def)
  have a: "(afterConfig \<and> (sp_testConnections sp \<noteq> [] \<or> sp_connection sp \<noteq> None)) = False" using False by simp
  note step = assms [unfolded sp_connectToServer_def a Let_def new_def [symmetric] d_def [symmetric] if_False]
  show ?thesis
  proof (cases "sp_realDcType (destroyAllConnections sp) \<noteq> new \<and> sp_keyCreator d \<noteq> None")
    case True
    have "destroyTemporaryKey e d = Some sp'" by (rule step [unfolded if_P [OF True]])
    then show ?thesis using spares_destroyTemporary d by metis
  next
    case not: False
    define t where "t = d\<lparr>sp_options := Some (le_options e)\<rparr>"
    note s = step [unfolded if_not_P [OF not] t_def [symmetric]]
    obtain type u where u: "tryAcquireKeyCreation e t = Some (type, u)" using s by (auto split: option.splits)
    define v where "v = fold (appendTestConnection e) (wanted_links e type) (u\<lparr>sp_currentDcType := type\<rparr>)"
    have same: "sp_session u = sp_session sp" "sp_session v = sp_session sp"
      using acquire_session [OF u] d by (simp_all add: v_def t_def)
    have "sp' \<in> {call RequestCDNConfig (u\<lparr>sp_currentDcType := type\<rparr>), begin_connecting e v, call KeyWasPossiblyDestroyed v,
        restart e v, call RequestConfig v}"
      using s unfolding u option.case prod.case v_def [symmetric] by (auto split: if_split_asm)
    then show ?thesis
      using same spares_begin [of A draw v e] spares_restart [of A draw v e] by auto
  qed
qed

lemma spares_onConnected:
  assumes "sp_onConnected e k sp = Some sp'"
  shows "sure A draw sp sp'"
proof -
  define t where "t = sp\<lparr>sp_listening := removeAll k (sp_listening sp)\<rparr>"
  define u where "u = t\<lparr>sp_waitForConnected := kMinConnectedTimeout, sp_waitForConnectedTimer := None\<rparr>"
  have same: "sp_session t = sp_session sp" "sp_session u = sp_session sp" by (simp_all add: t_def u_def)
  have "sp' = restart e t \<or> sp' = u\<lparr>sp_waitForBetterTimer := Some kWaitForBetterTimeout\<rparr>
      \<or> checkAuthKey e (take_connection k (u\<lparr>sp_waitForBetterTimer := None\<rparr>)) = Some sp'"
    using assms unfolding sp_onConnected_def Let_def t_def [symmetric] u_def [symmetric]
    by (auto split: if_split_asm option.splits)
  then show ?thesis
  proof (elim disjE)
    assume "checkAuthKey e (take_connection k (u\<lparr>sp_waitForBetterTimer := None\<rparr>)) = Some sp'"
    then show ?thesis using spares_check [of e _ sp' A draw] same by fastforce
  qed (use spares_restart [of A draw t e] same in simp_all)
qed

lemma spares_onDisconnected: "sp_onDisconnected e k sp = Some sp' \<Longrightarrow> sure A draw sp sp'"
  using spares_restart [of A draw "destroyAllConnections (removeTestConnection k sp)" e]
    spares_confirm [of e "removeTestConnection k sp" sp' A draw]
  by (auto simp: sp_onDisconnected_def Let_def split: if_splits)

lemma spares_onError:
  assumes "sp_onError e k n sp = Some sp'"
  shows "sure A draw sp sp'"
proof -
  define t where "t = removeTestConnection k (if n = -444 then call BadConfigurationError sp else sp)"
  define u where "u = (destroyAllConnections t)\<lparr>sp_waitForConnectedTimer := None\<rparr>"
  have same: "sp_session t = sp_session sp" "sp_session u = sp_session sp" by (simp_all add: t_def u_def)
  have "destroyTemporaryKey e u = Some sp' \<or> sp' = restart e u \<or> confirmBestConnection e t = Some sp'"
    using assms unfolding sp_onError_def sp_handleError_def Let_def t_def [symmetric] u_def [symmetric]
    by (auto split: if_split_asm)
  then show ?thesis
    using spares_destroyTemporary [of e u sp' A draw] spares_restart [of A draw u e] spares_confirm [of e t sp' A draw] same
    by auto
qed

lemma sent_session: "onSentSome e n sp = Some sp' \<Longrightarrow> sp_session sp' = sp_session sp"
  by (auto simp: onSentSome_def Let_def split: if_splits)

lemma spares_fail: "fail_creation e b sp = Some sp' \<Longrightarrow> sure A draw sp sp'"
proof -
  assume f: "fail_creation e b sp = Some sp'"
  then obtain t where t: "sp_releaseKeyCreationOnFail e sp = Some t" "sp' \<in> {call RequestCDNConfig t, restart e t}"
    by (auto simp: fail_creation_def split: if_splits)
  then show ?thesis using spares_restart [of A draw t e] release_session [OF t(1)] by auto
qed

lemma spares_unbound:
  assumes "unboundReady e r sp = Some sp'"
  shows "sure A draw sp sp'"
proof (cases r)
  case (UnboundFailed b)
  then show ?thesis using assms spares_fail by simp
next
  case (Unbound temp pers salt)
  define t where "t = on_session (\<lambda>s. s\<lparr>sessionSalt := salt\<rparr>) sp"
  have st: "sure A draw sp t" by (simp add: t_def)
  have "(\<exists>u. applyAuthKey e (Some temp) t = Some u \<and> finish_cdn e u = Some sp') \<or> fail_creation e False t = Some sp'
      \<or> (\<exists>key u. bind_creator key t = Some u \<and> applyAuthKey e (Some temp) u = Some sp')"
    using assms unfolding Unbound unboundReady.simps Let_def t_def [symmetric]
    by (auto split: if_split_asm option.splits)
  then have "sure A draw t sp'"
  proof (elim disjE exE conjE)
    fix u
    assume u: "applyAuthKey e (Some temp) t = Some u" "finish_cdn e u = Some sp'"
    then obtain v w q where v: "v = u\<lparr>sp_keyCreator := None, sp_keys := w\<rparr>"
        "sp' \<in> {call q (on_session (ask NeedToResumeAndSend) v), restart e v}"
      by (auto simp: finish_cdn_def Let_def split: option.splits prod.splits if_splits)
    then have "sure A draw u sp'" using spares_restart [of A draw v e] by auto
    then show ?thesis by (rule spares_trans [OF spares_apply [OF u(1)]])
  next
    fix key u
    assume u: "bind_creator key t = Some u" "applyAuthKey e (Some temp) u = Some sp'"
    have "sp_session u = sp_session t" using u(1) by (auto simp: bind_creator_def)
    then show ?thesis using spares_apply [OF u(2)] by metis
  qed (rule spares_fail)
  then show ?thesis by (rule spares_trans [OF st])
qed

lemma spares_tryToSend:
  assumes "sp_tryToSend draw e sch env random fill sp = Some sp'"
  shows "sure A draw sp sp'"
proof -
  obtain r t where rt: "tryToSend draw sch (sending_env e env sp) (sp_session sp) = (r, t)"
    by (cases "tryToSend draw sch (sending_env e env sp) (sp_session sp)")
  have "sp_session sp' = sendSecureRequest random fill r t"
    using assms sent_session [of e _ _ sp']
    by (auto simp: sp_tryToSend_def rt sent_packet_def Let_def split: if_splits option.splits)
  then show ?thesis using spares_send [OF rt] by simp
qed

subsection \<open>Packets\<close>

lemma answer_ids_same:
  assumes "re_read x = re_read y" "re_ungzip x = re_ungzip y"
  shows "answer_ids depth x = answer_ids depth y"
proof (induction depth)
  case (Suc depth)
  show ?case
    unfolding fun_eq_iff answer_ids.simps Suc answered_by_def assms by simp
qed (simp add: fun_eq_iff)

lemma answer_ids_now [simp]: "answer_ids depth (receive_now e re states sp) = answer_ids depth re"
  by (rule answer_ids_same) (simp_all add: receive_now_def)

lemma outcome_session: "bind_outcome e state sp = Some (r, sp') \<Longrightarrow> sp_session sp' = sp_session sp"
  by (auto simp: bind_outcome_def Let_def destroyOldEnoughPersistentKey_def split: option.splits bind_state.splits if_splits prod.splits)

text \<open>No packet answers a request of the set.\<close>

definition unanswered :: "mtpRequestId set \<Rightarrow> nat \<Rightarrow> receive_env \<Rightarrow> secure_message option \<Rightarrow> mtp_session \<Rightarrow> bool" where
  "unanswered A depth re packet s \<longleftrightarrow> (\<forall>m. packet = Some m \<longrightarrow> (\<forall>r \<in> A. re_hasCallback re r
     \<and> (\<forall>i \<in> answer_ids depth re (sm_ints m). \<not> stands_for s i r)))"

lemma spares_packet:
  assumes "sp_packet e depth re states ct packet sp = Inr (b, sp')" "unanswered A depth re packet (sp_session sp)"
  shows "sure A draw sp sp'" "b \<longrightarrow> names (sp_session sp) (sp_session sp')"
proof -
  have "sure A draw sp sp' \<and> (b \<longrightarrow> names (sp_session sp) (sp_session sp'))"
  proof (cases packet)
    case None
    then show ?thesis using assms(1) spares_restart by (auto simp: sp_packet_def)
  next
    case (Some m)
    define x where "x = receive_now e re states sp"
    obtain r s where r: "handleReceived depth x ct m (sp_session sp) = Some (r, s)"
      using assms(1) Some by (auto simp: sp_packet_def x_def split: option.splits)
    have ids: "answer_ids depth x ints = answer_ids depth re ints" for ints by (simp add: x_def)
    have "spares A draw (sp_session sp) s"
      by (rule spares_step [OF session_step.received [OF r]])
        (use assms(2) Some in \<open>auto simp: unanswered_def waits_for_def ends_def ids, simp add: x_def receive_now_def\<close>)
    moreover have names: "names (sp_session sp) s" using handled_received [OF r] by (simp add: handled_def gentle_def)
    define t where "t = sp\<lparr>sp_session := s\<rparr>"
    obtain u where u: "after_binding e states (new_bind_answers (sp_session sp) s) t = Some u"
      and p: "after_packet e r u = Some (b, sp')"
      using assms(1) Some r by (auto simp: sp_packet_def asserted_def t_def simp flip: x_def split: option.splits)
    have us: "sp_session u = s"
      using u outcome_session by (fastforce simp: after_binding_def t_def split: list.splits)
    have "sure A draw u sp' \<and> (b \<longrightarrow> sp_session sp' = sp_session u)"
      using p spares_restarted [OF spares_destroyTemporary, of e u _ A draw e] spares_restart [of A draw u e]
        spares_restart [of A draw "u\<lparr>sp_needSessionReset := True\<rparr>" e]
      by (auto simp: after_packet_def split: if_splits)
    ultimately show ?thesis using us names spares_trans by metis
  qed
  then show "sure A draw sp sp'" "b \<longrightarrow> names (sp_session sp) (sp_session sp')" by blast+
qed

lemma unanswered_names: "names s t \<Longrightarrow> unanswered A depth re p s \<Longrightarrow> unanswered A depth re p t"
  unfolding names_def unanswered_def by blast

lemma spares_packets:
  assumes "sp_packets e depth re states ct packets sp = Inr (b, sp')" "\<forall>p \<in> set packets. unanswered A depth re p (sp_session sp)"
  shows "sure A draw sp sp'"
  using assms
proof (induction packets arbitrary: sp)
  case (Cons p ps)
  obtain q t where t: "sp_packet e depth re states ct p sp = Inr (q, t)"
    using Cons.prems(1) by (auto split: sum.splits)
  have p: "unanswered A depth re p (sp_session sp)" using Cons.prems(2) by simp
  note s = spares_packet [OF t p]
  show ?case
  proof (cases q)
    case True
    then have "\<forall>p \<in> set ps. unanswered A depth re p (sp_session t)" using s(2) Cons.prems(2) unanswered_names by fastforce
    then have "sure A draw t sp'" using Cons.IH Cons.prems(1) t True by simp
    then show ?thesis by (rule spares_trans [OF s(1)])
  next
    case False
    then show ?thesis using Cons.prems(1) t s(1) by simp
  qed
qed simp

subsection \<open>Every event\<close>

text \<open>The requests an event may end.\<close>

definition sup_ends :: "sup_event \<Rightarrow> supervisor \<Rightarrow> mtpRequestId set" where
  "sup_ends ev sp = (case ev of
       MainThread x \<Rightarrow> ends x (sp_session sp)
     | Packets depth re states ct wait packets \<Rightarrow>
         {r. \<exists>m i. Some m \<in> set packets \<and> i \<in> answer_ids depth re (sm_ints m) \<and> stands_for (sp_session sp) i r}
     | _ \<Rightarrow> {})"

definition sup_waits :: "sup_event \<Rightarrow> mtpRequestId \<Rightarrow> bool" where
  "sup_waits ev r = (case ev of Packets depth re states ct wait packets \<Rightarrow> re_hasCallback re r | _ \<Rightarrow> True)"

lemma asserted_iff [simp]: "asserted x = Inr y \<longleftrightarrow> x = Some y"
  by (simp add: asserted_def split: option.split)

lemma main_step: "main_allowed ev s \<Longrightarrow> session_step draw s ev (main_do ev s)"
  by (auto simp: main_allowed_def main_do_def split: session_event.splits intro: session_step.intros)

lemma spares_event:
  assumes "sup_possible e ev sp" "sup_do draw e ev sp = Inr sp'" "\<forall>r \<in> A. sup_waits ev r \<and> r \<notin> sup_ends ev sp"
  shows "sure A draw sp sp'"
proof (cases ev)
  case (Packets depth re states ct wait packets)
  have "\<forall>p \<in> set packets. unanswered A depth re p (sp_session (onReceivedSome e sp))"
    using assms(3) Packets by (auto simp: unanswered_def sup_waits_def sup_ends_def)
  then have "sure A draw (onReceivedSome e sp) t"
    if "sp_packets e depth re states ct packets (onReceivedSome e sp) = Inr (b, t)" for b t
    using spares_packets that by blast
  then have "\<exists>b t. sure A draw sp t \<and> sp' = (if b \<and> wait then on_session (ask (SendAnything 0)) t else t)"
    using assms(2) Packets by (fastforce simp: sp_handleReceived_def split: if_splits sum.splits)
  then obtain b t where t: "sure A draw sp t" "sp' = (if b \<and> wait then on_session (ask (SendAnything 0)) t else t)" by blast
  show ?thesis using spares_trans [OF t(1)] t by simp
next
  case (MainThread x)
  have "session_step draw (sp_session sp) x (main_do x (sp_session sp))"
    using assms(1) MainThread by (intro main_step) simp
  moreover have "waits_for x r" for r using assms(1) MainThread by (cases x) (simp_all add: main_allowed_def waits_for_def)
  ultimately show ?thesis using assms(2,3) MainThread by (auto simp: sup_ends_def intro: spares_step)
next
  case (LinkError k n)
  then show ?thesis using assms(2) spares_onError [of e k n sp sp' A draw] by simp
next
  case (LinkConnected k)
  then show ?thesis using assms(2) spares_onConnected [of e k sp sp' A draw] by simp
next
  case (LinkDisconnected k)
  then show ?thesis using assms(2) spares_onDisconnected [of e k sp sp' A draw] by simp
next
  case (KeyReady r)
  then show ?thesis using assms(2) spares_unbound [of e r sp sp' A draw] by (simp del: unboundReady.simps)
next
  case (KeySentSome n)
  then show ?thesis using assms(2) sent_session [of e n sp sp'] by simp
next
  case (SendNow sch env random fill)
  then show ?thesis using assms(2) spares_tryToSend [of draw e sch env random fill sp sp' A]
    by simp
next
  case BetterFired
  then show ?thesis using assms(2) spares_confirm [of e "sp\<lparr>sp_waitForBetterTimer := None\<rparr>" sp' A draw]
    by simp
next
  case QueuedConnect
  then show ?thesis using assms(2) spares_connect [of e False "sp\<lparr>sp_queued := sp_queued sp - 1\<rparr>" sp' A draw]
    by simp
next
  case RetryFired
  then show ?thesis
    using assms(2) spares_connect [of e False
        "sp\<lparr>sp_retryTimer := None, sp_retryTimeout := next_retry (sp_retryTimeout sp)\<rparr>" sp' A draw]
    by (simp add: retryByTimer_def)
next
  case ConfigChanged
  then show ?thesis using assms(2) spares_connect [of e True "sp\<lparr>sp_retryTimeout := 1\<rparr>" sp' A draw]
    by (simp add: dcOptionsChanged_def)
next
  case CdnConfigChanged
  then show ?thesis using assms(2) spares_connect [of e True sp sp' A draw]
    by (simp add: cdnConfigChanged_def)
next
  case KeyUpdated
  then show ?thesis using assms(2) spares_apply [of e _ sp sp' A draw]
    by (auto simp: updateAuthKey_def split: if_splits)
next
  case RestartAsked
  then show ?thesis
    using assms(2) spares_restart [of A draw "sp\<lparr>sp_retryTimeout := 1, sp_retryTimer := None\<rparr>" e]
    by (auto simp: restartNow_def)
qed (use assms(2) spares_restart [of A draw sp e] in
  \<open>auto simp: waitReceivedFailed_def waitConnectedFailed_def markConnectionOld_def sendPingByTimer_def
    sp_checkSentRequests_def Let_def split: option.splits if_splits\<close>)

lemma sup_run_spares:
  assumes "sup_run draw c sp evs sp'" "\<forall>(t, ev) \<in> set evs. \<forall>r \<in> A. sup_waits ev r \<and> r \<notin> sup_ends ev t"
  shows "sure A draw sp sp'"
  using assms
proof (induction rule: sup_run.induct)
  case (event evs t e ev u)
  have "sure A draw t u"
    by (rule spares_event [OF _ event.hyps(3)]) (use event in \<open>auto simp: sup_allowed_def\<close>)
  then show ?case using event spares_trans by simp
qed simp

text \<open>
  C12. However connections come and go, no request is lost. In every supervised run from the start of
  a session, whatever connections, timers, keys, packets and the main thread do, the maps of requests
  fit together; and a request that is pending at some point of the run is at every later point either
  waiting or under way, unless the main thread cancelled it or a packet answered an id that stood for
  it: restarts, new keys, new salts, resets of the session and changed addresses end none. Whenever
  packets come, somebody must wait for the request, that is, it must have a callback: a plain
  acknowledgement ends a request without one.
\<close>
theorem supervision_keeps_requests:
  assumes "fresh_ids N draw" "sup_run draw c (new_supervisor os type keys) before sp" "sup_run draw c sp after sp'"
    and "drawn (sp_session sp') \<le> N"
  shows "session_ok draw (sp_session sp) \<and> session_ok draw (sp_session sp')
    \<and> (\<forall>r \<in> pending (sp_session sp). (\<forall>(t, ev) \<in> set after. sup_waits ev r \<and> r \<notin> sup_ends ev t)
        \<longrightarrow> (r \<in> fm_keys (toSend (sp_session sp'))) \<noteq> under_way (sp_session sp') r)"
proof -
  let ?s = "sp_session sp" and ?s' = "sp_session sp'"
  have start: "sp_session (new_supervisor os type keys) = new_mtp_session os" by (simp add: new_supervisor_def)
  obtain tr where tr: "session_run draw (new_mtp_session os) tr ?s"
    using sup_run_spares [OF assms(2), of "{}"] start by (auto simp: spares_def)
  obtain tr' where tr': "session_run draw ?s tr' ?s'"
    using sup_run_spares [OF assms(3), of "{}"] by (auto simp: spares_def)
  have "drawn ?s \<le> N" using session_run_drawn [OF tr' assms(1)] assms(4) by simp
  then have s: "session_ok draw ?s" "needing ?s" using session_run_ok [OF tr assms(1) new_session_ok] by blast+
  have s': "session_ok draw ?s'" using session_run_ok [OF tr' assms(1) s assms(4)] by blast
  have "(r \<in> fm_keys (toSend ?s')) \<noteq> under_way ?s' r"
    if r: "r \<in> pending ?s" "\<forall>(t, ev) \<in> set after. sup_waits ev r \<and> r \<notin> sup_ends ev t" for r
  proof -
    obtain w where w: "session_run draw ?s w ?s'" "\<forall>(t, ev) \<in> set w. waits_for ev r \<and> r \<notin> ends ev t"
      using sup_run_spares [OF assms(3), of "{r}"] r(2) by (auto simp: spares_def)
    have "r \<in> pending ?s'" using session_run_ok [OF w(1) assms(1) s assms(4)] w(2) r(1) by blast
    then show ?thesis by (rule pending_somewhere [OF s'])
  qed
  then show ?thesis using s s' by blast
qed

subsection \<open>A run\<close>

text \<open>
  Two endpoints are tried; the one of less priority connects first and is lost again before the two
  seconds for a better one are over.
\<close>

definition ex_address :: endpoint where
  "ex_address = \<lparr>ep_id = 2, ep_flags = 0, ep_ip = ''1.2.3.4'', ep_port = 443, ep_secret = []\<rparr>"

definition ex_dc :: "unit dc_options" where
  "ex_dc = \<lparr>do_environment = Production, do_data = [(2, [ex_address])], do_cdnDcIds = [], do_publicKeys = [],
     do_cdnPublicKeys = [], do_immutable = False\<rparr>"

definition ex_link :: "nat option \<Rightarrow> unit link_env" where
  "ex_link up = \<lparr>le_me = 0, le_shiftedDcId = 2, le_isKeysDestroyer = False, le_keyIdOf = (\<lambda>k. 7), le_creationTime = (\<lambda>k. 0),
     le_now = 5, le_random = 9, le_options = refreshOptions False NoProxy False, le_dcOptions = ex_dc,
     le_isConnected = (\<lambda>k. up = Some k), le_fullConnectTimeout = (\<lambda>k. 8000), le_is_ipv6 = (\<lambda>ip. False), le_preferIPv6 = False\<rparr>"

definition ex_go :: "nat option \<Rightarrow> sup_event \<Rightarrow> supervisor \<Rightarrow> supervisor" where
  "ex_go up ev sp = projr (sup_do ex_draw (ex_link up) ev sp)"

definition ex_sup :: "nat \<Rightarrow> supervisor" where
  "ex_sup n =
     (let a = new_supervisor ex_request DcRegular (new_key_world (Some 1));
          b = ex_go None (MainThread (Submitted 0 0)) a; c = ex_go None QueuedConnect b;
          d = ex_go (Some 1) (LinkConnected 1) c; e = ex_go None (LinkDisconnected 1) d; f = ex_go None BetterFired e
      in [a, b, c, d, e, f] ! n)"

lemma ex_sup_step:
  "isl (sup_do ex_draw (ex_link None) (MainThread (Submitted 0 0)) (ex_sup 0)) = False"
  "isl (sup_do ex_draw (ex_link None) QueuedConnect (ex_sup 1)) = False"
  "isl (sup_do ex_draw (ex_link (Some 1)) (LinkConnected 1) (ex_sup 2)) = False"
  "isl (sup_do ex_draw (ex_link None) (LinkDisconnected 1) (ex_sup 3)) = False"
  "isl (sup_do ex_draw (ex_link None) BetterFired (ex_sup 4)) = False"
  by code_simp+

lemma ex_sup_possible:
  "sup_possible (ex_link None) (MainThread (Submitted 0 0)) (ex_sup 0)" "sup_possible (ex_link None) QueuedConnect (ex_sup 1)"
  "sup_possible (ex_link (Some 1)) (LinkConnected 1) (ex_sup 2)" "sup_possible (ex_link None) (LinkDisconnected 1) (ex_sup 3)"
  "sup_possible (ex_link None) BetterFired (ex_sup 4)"
  "silent_links (ex_link None) (MainThread (Submitted 0 0)) (ex_sup 0)" "silent_links (ex_link None) QueuedConnect (ex_sup 1)"
  "silent_links (ex_link (Some 1)) (LinkConnected 1) (ex_sup 2)" "silent_links (ex_link None) (LinkDisconnected 1) (ex_sup 3)"
  "silent_links (ex_link None) BetterFired (ex_sup 4)"
  by code_simp+

lemma ex_sup_next:
  assumes "sup_run ex_draw (ex_link None) s tr (ex_sup n)" "sup_possible (ex_link up) ev (ex_sup n)"
    and "silent_links (ex_link up) ev (ex_sup n)" "isl (sup_do ex_draw (ex_link up) ev (ex_sup n)) = False"
    and "ex_sup m = ex_go up ev (ex_sup n)"
  shows "sup_run ex_draw (ex_link None) s (tr @ [(ex_sup n, ev)]) (ex_sup m)"
proof (rule sup_run.event [OF assms(1)])
  show "sup_allowed (ex_link None) (ex_link up) ev (ex_sup n)"
    using assms(2,3) by (simp add: sup_allowed_def same_session_def ex_link_def)
  show "sup_do ex_draw (ex_link up) ev (ex_sup n) = Inr (ex_sup m)"
    using assms(4) unfolding assms(5) ex_go_def by (cases "sup_do ex_draw (ex_link up) ev (ex_sup n)") simp_all
qed

lemma ex_sup_all:
  "ex_sup 0 = new_supervisor ex_request DcRegular (new_key_world (Some 1))"
  "ex_sup 1 = ex_go None (MainThread (Submitted 0 0)) (ex_sup 0)" "ex_sup 2 = ex_go None QueuedConnect (ex_sup 1)"
  "ex_sup 3 = ex_go (Some 1) (LinkConnected 1) (ex_sup 2)" "ex_sup 4 = ex_go None (LinkDisconnected 1) (ex_sup 3)"
  "ex_sup 5 = ex_go None BetterFired (ex_sup 4)"
  by (simp_all add: ex_sup_def Let_def)

definition ex_before :: "(supervisor \<times> sup_event) list" where
  "ex_before = [(ex_sup 0, MainThread (Submitted 0 0))]"

definition ex_after :: "(supervisor \<times> sup_event) list" where
  "ex_after = [(ex_sup 1, QueuedConnect), (ex_sup 2, LinkConnected 1), (ex_sup 3, LinkDisconnected 1), (ex_sup 4, BetterFired)]"

lemma ex_sup_run:
  "sup_run ex_draw (ex_link None) (new_supervisor ex_request DcRegular (new_key_world (Some 1))) ex_before (ex_sup 1)"
  "sup_run ex_draw (ex_link None) (ex_sup 1) ex_after (ex_sup 5)"
proof -
  note start = sup_run.rest [of ex_draw "ex_link None"]
  have "sup_run ex_draw (ex_link None) (ex_sup 0) ([] @ [(ex_sup 0, MainThread (Submitted 0 0))]) (ex_sup 1)"
    by (rule ex_sup_next [OF start ex_sup_possible(1,6) ex_sup_step(1) ex_sup_all(2)])
  then show "sup_run ex_draw (ex_link None) (new_supervisor ex_request DcRegular (new_key_world (Some 1))) ex_before (ex_sup 1)"
    by (simp add: ex_before_def ex_sup_all(1))
  have "sup_run ex_draw (ex_link None) (ex_sup 1) (((([] @ [(ex_sup 1, QueuedConnect)]) @ [(ex_sup 2, LinkConnected 1)])
      @ [(ex_sup 3, LinkDisconnected 1)]) @ [(ex_sup 4, BetterFired)]) (ex_sup 5)"
    by (rule ex_sup_next [OF ex_sup_next [OF ex_sup_next [OF ex_sup_next [OF start ex_sup_possible(2,7) ex_sup_step(2) ex_sup_all(3)]
          ex_sup_possible(3,8) ex_sup_step(3) ex_sup_all(4)] ex_sup_possible(4,9) ex_sup_step(4) ex_sup_all(5)]
          ex_sup_possible(5,10) ex_sup_step(5) ex_sup_all(6)])
  then show "sup_run ex_draw (ex_link None) (ex_sup 1) ex_after (ex_sup 5)" by (simp add: ex_after_def)
qed

lemma ex_sup_values:
  "7 \<in> pending (sp_session (ex_sup 1))" "drawn (sp_session (ex_sup 5)) = 0"
  "sp_testConnections (ex_sup 5) = [\<lparr>tested = 0, test_priority = 2\<rparr>]" "sp_connection (ex_sup 5) = None"
  "sp_queued (ex_sup 5) = 0" "sp_retryTimer (ex_sup 5) = None" "sp_waitForConnectedTimer (ex_sup 5) = None"
  "sp_waitForReceivedTimer (ex_sup 5) = None" "sp_waitForBetterTimer (ex_sup 5) = None"
  by code_simp+

theorem supervision_keeps_requests_witness:
  "7 \<in> pending (sp_session (ex_sup 1)) \<and> session_ok ex_draw (sp_session (ex_sup 5))
    \<and> (7 \<in> fm_keys (toSend (sp_session (ex_sup 5)))) \<noteq> under_way (sp_session (ex_sup 5)) 7"
proof -
  have "\<forall>(t, ev) \<in> set ex_after. sup_waits ev 7 \<and> 7 \<notin> sup_ends ev t"
    by (simp add: ex_after_def sup_waits_def sup_ends_def)
  then show ?thesis
    using supervision_keeps_requests [OF ex_fresh ex_sup_run] ex_sup_values(1,2) by simp
qed

theorem supervision_safe_witness:
  "sup_do ex_draw (ex_link None) QueuedConnect (ex_sup 1) \<noteq> Inl AssertionFailed
    \<and> end_supervision (ex_link None) (ex_sup 1) \<noteq> None"
proof -
  have "key_inv (new_key_world (Some 1))" "kw_mine (new_key_world (Some 1)) (le_me (ex_link None)) = CreatingNone"
    by (simp_all add: new_key_world_def new_Dcenter_def key_inv_def holds_def)
  moreover have "proper_ids (ex_link None)" by (simp add: proper_ids_def ex_link_def)
  moreover have "sup_allowed (ex_link None) (ex_link None) QueuedConnect (ex_sup 1)"
    using ex_sup_possible(2,7) by (simp add: sup_allowed_def same_session_def)
  ultimately show ?thesis using supervision_safe [OF _ _ _ ex_sup_run(1)] by blast
qed

end
