(* ===== verification/Supervision_Stuck.thy ===== *)
theory Supervision_Stuck
  imports Supervision_Runs
begin

text \<open>
  Two ways in which the supervision of a connection (\<open>mtproto/session_private.cpp\<close>) stops trying: test
  connections that no timer watches any more, and a CDN whose key is not known.
\<close>

subsection \<open>What is left while connections are tried\<close>

text \<open>After an attempt to connect has begun; \<open>q\<close> attempts are queued.\<close>

definition trying :: "nat \<Rightarrow> supervisor \<Rightarrow> bool" where
  "trying q sp \<longleftrightarrow> sp_connection sp = None \<and> sp_receivers sp = 0 \<and> \<not> creating sp \<and> sp_waitForReceivedTimer sp = None
     \<and> sp_waitForBetterTimer sp = None \<and> sp_queued sp = q \<and> set (sp_listening sp) = tested ` set (sp_testConnections sp)
     \<and> distinct (map tested (sp_testConnections sp)) \<and> (\<forall>t \<in> set (sp_testConnections sp). tested t < sp_created sp)"

lemma trying_append: "trying q sp \<Longrightarrow> trying q (appendTestConnection e x sp)"
  by (cases x) (auto simp: trying_def creating_iff appendTestConnection_def call_def Let_def)

lemma trying_all: "trying q sp \<Longrightarrow> trying q (fold (appendTestConnection e) xs sp)"
  by (induction xs arbitrary: sp) (simp_all add: trying_append)

lemma trying_fields [simp]:
  "trying q (call x sp) = trying q sp" "trying q (sp\<lparr>sp_startedConnectingAt := i\<rparr>) = trying q sp"
  "trying q (sp\<lparr>sp_retryTimer := t\<rparr>) = trying q sp" "trying q (sp\<lparr>sp_waitForConnectedTimer := t\<rparr>) = trying q sp"
  "trying q (snd (sp_setState e a b sp)) = trying q sp" "trying q (on_session f sp) = trying q sp"
  by (simp_all add: trying_def creating_iff call_def on_session_def sp_setState_def split_beta Let_def)

lemma begin_connecting_state:
  assumes "trying q sp"
  shows "trying q (begin_connecting e sp)" "sp_retryTimer (begin_connecting e sp) = None"
    "bindMsgId (sp_session (begin_connecting e sp)) = 0" "pingId (sp_session (begin_connecting e sp)) = 0"
proof -
  have "kConnectingState \<ge> 0" by (simp add: kConnectingState_def)
  then show "sp_retryTimer (begin_connecting e sp) = None"
    by (simp add: begin_connecting_def Let_def on_session_def sp_setState_def split_beta)
qed (use assms in \<open>simp_all add: begin_connecting_def Let_def\<close>, simp_all add: on_session_def forget_pings_def)

lemma restart_no_tests [simp]: "sp_testConnections (restart e sp) = []"
  by (simp add: restart_def doDisconnect_def sp_resetSession_def on_session_def sp_setState_def split_beta Let_def)

lemma destroyed_no_tests: "destroyTemporaryKey e sp = Some sp' \<Longrightarrow> sp_testConnections sp = [] \<Longrightarrow> sp_testConnections sp' = []"
  by (auto simp: destroyTemporaryKey_def call_def split: if_splits option.splits)

lemma tryAcquire_state:
  assumes "tryAcquireKeyCreation e sp = Some (type, sp')" "trying q sp"
  shows "trying q sp'" "sp_testConnections sp' = sp_testConnections sp"
  using assms
  by (auto simp: tryAcquireKeyCreation_def trying_def creating_iff Let_def split: if_splits option.splits)

text \<open>The attempt that leaves something to try.\<close>

lemma attempt_begun:
  assumes "sp_connectToServer e False s = Some sp" "sp_testConnections sp \<noteq> []"
  shows "trying (sp_queued s) sp" "sp_retryTimer sp = None" "bindMsgId (sp_session sp) = 0" "pingId (sp_session sp) = 0"
proof -
  define new where "new = dcType (le_shiftedDcId e) (le_dcOptions e)"
  define d where "d = (destroyAllConnections s)\<lparr>sp_realDcType := new\<rparr>"
  have d: "trying (sp_queued s) (d\<lparr>sp_options := x\<rparr>)" "sp_testConnections d = []" for x
    by (auto simp: trying_def creating_iff d_def destroyAllConnections_def clearUnboundKeyCreator_def)
  have e: "sp_connectToServer e False s =
     (if sp_realDcType (destroyAllConnections s) \<noteq> new \<and> sp_keyCreator d \<noteq> None then destroyTemporaryKey e d
      else case tryAcquireKeyCreation e (d\<lparr>sp_options := Some (le_options e)\<rparr>) of
        None \<Rightarrow> None
      | Some (type, t) \<Rightarrow>
          (let t = t\<lparr>sp_currentDcType := type\<rparr>; v = fold (appendTestConnection e) (wanted_links e type) t
           in if type = DcCdn \<and> \<not> le_isKeysDestroyer e \<and> \<not> hasCDNKeysForDc (BareDcId (le_shiftedDcId e)) (le_dcOptions e)
              then Some (call RequestCDNConfig t)
              else if sp_testConnections v \<noteq> [] then Some (begin_connecting e v)
              else if le_isKeysDestroyer e then Some (call KeyWasPossiblyDestroyed v) else Some (call RequestConfig v)))"
    unfolding sp_connectToServer_def Let_def new_def [symmetric] d_def [symmetric] by (simp only: simp_thms if_False)
  have no: "\<not> (sp_realDcType (destroyAllConnections s) \<noteq> new \<and> sp_keyCreator d \<noteq> None)"
    using assms destroyed_no_tests [OF _ d(2)] unfolding e by (auto split: if_splits)
  obtain type t where t: "tryAcquireKeyCreation e (d\<lparr>sp_options := Some (le_options e)\<rparr>) = Some (type, t)"
    using assms(1) unfolding e if_not_P [OF no] by (auto split: option.splits)
  define u where "u = t\<lparr>sp_currentDcType := type\<rparr>"
  define v where "v = fold (appendTestConnection e) (wanted_links e type) u"
  have u: "trying (sp_queued s) u" "sp_testConnections t = []" "sp_testConnections u = []"
    using tryAcquire_state [OF t d(1)] d(2) by (simp_all add: u_def trying_def creating_iff)
  have v: "trying (sp_queued s) v" unfolding v_def by (rule trying_all [OF u(1)])
  have sp: "sp = begin_connecting e v"
    using assms u(2,3) unfolding e if_not_P [OF no] t
    by (auto simp: Let_def call_def simp flip: u_def v_def split: if_splits)
  show "trying (sp_queued s) sp" "sp_retryTimer sp = None" "bindMsgId (sp_session sp) = 0" "pingId (sp_session sp) = 0"
    unfolding sp by (rule begin_connecting_state [OF v])+
qed

subsection \<open>Without a timer\<close>

text \<open>Pings are forgotten, never begun, while nothing is sent.\<close>

definition hushed :: "mtp_session \<Rightarrow> mtp_session \<Rightarrow> bool" where
  "hushed s s' \<longleftrightarrow> pingId s' \<in> {pingId s, 0}"

interpretation hushing: promise hushed
  by unfold_locales (auto simp: hushed_def)

lemma hushed_resend: "hushed s (resend now w m s)"
proof -
  have "hushed s (resend_fuel fuel now w m s)" for fuel w m s
  proof (induction fuel arbitrary: w m s)
    case (Suc fuel)
    have "hushed u (fold (resend_fuel fuel now (-1)) ms u)" for ms u by (rule hushing.along) (rule Suc.IH)
    then have "hushed s (fold (resend_fuel fuel now (-1)) ms (s\<lparr>sentContainers := c\<rparr>))" for ms c
      by (rule hushing.in_turn [rotated]) (simp add: hushed_def)
    moreover have "hushed s (resend_request now m s)" by (simp add: hushed_def resend_request_def Let_def split: option.split)
    ultimately show ?case
      by (auto simp: hushed_def clearSpecialMsgId_def ask_def Let_def split: option.split)
  qed (simp add: hushed_def)
  then show ?thesis unfolding resend_def .
qed

lemma hushed_clearOld: "hushed s (clearOldContainers now s)"
proof -
  have "hushed t (fold (resend now (-1)) ms (t\<lparr>sentContainers := x\<rparr>))" for t ms x
    by (rule hushing.in_turn [OF _ hushing.along]) (simp_all add: hushed_resend, simp add: hushed_def)
  then have "hushed t (snd (clear_old_one now x (b, t)))" for x b t
    by (cases x) (simp add: clear_old_one_def hushing.at_rest)
  then have "hushed (snd (False, s)) (snd (fold (clear_old_one now) (sentContainers s) (False, s)))"
    by (rule hushing.along_pairs)
  then show ?thesis by (simp add: clearOldContainers_def split_beta hushed_def ask_def)
qed

lemma hushed_checkSent: "pingId (checkSentRequests now s) = pingId s"
proof -
  have "pingId (snd (check_sent_one now x (b, t))) = pingId t" for x b t by (cases x) (simp add: check_sent_one_def)
  then have "pingId (snd (fold (check_sent_one now) xs bt)) = pingId (snd bt)" for xs bt
    by (induction xs arbitrary: bt) (simp_all, metis prod.collapse)
  then show ?thesis by (simp add: checkSentRequests_def split_beta ask_def)
qed

lemma hushed_main: "pingId s = 0 \<Longrightarrow> pingId (main_do ev s) = 0"
  using hushed_clearOld [of s]
  by (simp add: main_do_def sendPrepared_def cancel_def force_ping_def take_received_def ask_def Let_def hushed_def
      split: session_event.split)

text \<open>No timer that could lead to another attempt is active, and none is queued.\<close>

definition no_timer :: "supervisor \<Rightarrow> bool" where
  "no_timer sp \<longleftrightarrow> sp_queued sp = 0 \<and> sp_retryTimer sp = None \<and> sp_waitForConnectedTimer sp = None
     \<and> sp_waitForReceivedTimer sp = None \<and> sp_waitForBetterTimer sp = None"

definition stuck :: "supervisor \<Rightarrow> bool" where
  "stuck sp \<longleftrightarrow> sp_testConnections sp \<noteq> [] \<and> sp_connection sp = None \<and> sp_receivers sp = 0 \<and> \<not> creating sp \<and> no_timer sp
     \<and> bindMsgId (sp_session sp) = 0 \<and> pingId (sp_session sp) = 0"

text \<open>What may wake it up: a signal of a connection that is tried, or a restart asked for from outside.\<close>

fun wakes :: "sup_event \<Rightarrow> bool" where
  "wakes (LinkConnected k) = True"
| "wakes (LinkDisconnected k) = True"
| "wakes (LinkError k errorCode) = True"
| "wakes RestartAsked = True"
| "wakes _ = False"

lemmas stuck_defs = stuck_def no_timer_def creating_iff

lemma stuck_step:
  assumes "stuck sp" "\<not> wakes ev" "sup_possible e ev sp" "sup_do draw e ev sp = Inr sp'"
  shows "stuck sp' \<and> sp_testConnections sp' = sp_testConnections sp \<and> sp_created sp' = sp_created sp"
proof -
  have s: "stuck (on_session f sp) \<and> sp_testConnections (on_session f sp) = sp_testConnections sp
      \<and> sp_created (on_session f sp) = sp_created sp"
    if "bindMsgId (f (sp_session sp)) = 0" "pingId (f (sp_session sp)) = 0" for f
    using that assms(1) by (simp add: stuck_defs on_session_def)
  show ?thesis
  proof (cases ev)
    case (SendNow sch env random fill)
    have "\<not> en_connection (sending_env e env sp)" using assms(1) by (simp add: sending_env_def stuck_def)
    then have "sp' = sp\<lparr>sp_session := sendSecureRequest random fill no_sending (sp_session sp)\<rparr>"
      using assms(4) SendNow by (simp add: sp_tryToSend_def tryToSend_off needs_options_def no_sending_def Let_def)
    then show ?thesis using s [of "sendSecureRequest random fill no_sending"] assms(1)
      by (simp add: on_session_def sendSecureRequest_def no_sending_def stuck_def)
  next
    case (MainThread x)
    then show ?thesis
      using assms(1,4) s [of "main_do x"] main_bind [of x "sp_session sp"] hushed_main [of "sp_session sp" x] by (simp add: stuck_def)
  next
    case (OtherSession x)
    then show ?thesis using assms(1,4) by (auto simp: stuck_defs)
  next
    case RequestsFired
    then show ?thesis
      using assms(1,4) s [of "checkSentRequests (le_now e)"]
      by (simp add: sp_checkSentRequests_def stuck_def hushed_checkSent)
  next
    case PingFired
    then show ?thesis using assms(1,4) s [of "ask NeedToResumeAndSend"] by (simp add: sendPingByTimer_def stuck_def ask_def)
  next
    case (LinkReceivedSome k)
    then show ?thesis using assms(1,4) by (simp add: stuck_defs onReceivedSome_def Let_def) (auto split: if_splits)
  next
    case OldFired
    then show ?thesis using assms(1,4) by (auto simp: stuck_defs markConnectionOld_def)
  next
    case ConfigChanged
    then show ?thesis using assms(1,4) by (auto simp: stuck_defs dcOptionsChanged_def sp_connectToServer_def asserted_def)
  next
    case CdnConfigChanged
    then show ?thesis using assms(1,4) by (auto simp: stuck_defs cdnConfigChanged_def sp_connectToServer_def asserted_def)
  next
    case KeyUpdated
    then show ?thesis using assms(1,4) by (auto simp: stuck_defs updateAuthKey_def asserted_def)
  qed (use assms in \<open>auto simp: stuck_def no_timer_def\<close>)
qed

lemma stuck_run:
  assumes "sup_run draw c sp evs v" "stuck sp" "list_all (\<lambda>(t, ev). \<not> wakes ev) evs"
  shows "stuck v \<and> sp_testConnections v = sp_testConnections sp \<and> sp_created v = sp_created sp"
  using assms
proof (induction rule: sup_run.induct)
  case (event evs t e ev u)
  then have "stuck t \<and> sp_testConnections t = sp_testConnections sp \<and> sp_created t = sp_created sp" "\<not> wakes ev" by simp_all
  with stuck_step [of t ev e draw u] event.hyps show ?case by (auto simp: sup_allowed_def)
qed simp

subsection \<open>The connection of less priority is lost\<close>

text \<open>
  C40. A connection attempt can be left without supervision. Let an attempt to connect try several
  connections while no other attempt is queued. When one that is not the best connects first, which
  stops the timer for connecting, and is lost again while a better one is still waited for, and none
  of the others has connected when these two seconds are over, then no timer that could lead to
  another attempt is active and none is queued, although connections are still tried and none is
  chosen. This stays so for ever, whatever pings, checks of requests, new requests, changes of the
  addresses or keys come, and however often connections are marked as old, unless one of the connections
  signals or a restart is asked for from outside: no attempt is
  made and no connection created.
\<close>
theorem connecting_unwatched:
  assumes "sp_connectToServer e False s = Some sp" "sp_queued s = 0"
    and "i \<in> set (sp_testConnections sp)" "j \<in> set (sp_testConnections sp)" "test_priority i < test_priority j"
    and "same_session c e1" "same_session c e2" "same_session c e3"
    and "\<forall>t \<in> set (sp_testConnections sp). (le_isConnected e1 (tested t) \<longleftrightarrow> t = i)
      \<and> \<not> le_isConnected e2 (tested t) \<and> \<not> le_isConnected e3 (tested t)"
  shows "\<exists>s1 s2 u. sup_run draw c sp [(sp, LinkConnected (tested i)), (s1, LinkDisconnected (tested i)), (s2, BetterFired)] u
    \<and> sp_testConnections u = filter (\<lambda>t. t \<noteq> i) (sp_testConnections sp)
    \<and> (\<forall>evs v. sup_run draw c u evs v \<and> list_all (\<lambda>(t, ev). \<not> wakes ev) evs
        \<longrightarrow> no_timer v \<and> sp_connection v = None \<and> sp_testConnections v = sp_testConnections u \<and> sp_testConnections v \<noteq> []
        \<and> sp_created v = sp_created u)"
proof -
  let ?k = "tested i" and ?rest = "filter (\<lambda>t. t \<noteq> i) (sp_testConnections sp)"
  have "sp_testConnections sp \<noteq> []" using assms(3) by auto
  note sp = attempt_begun [OF assms(1) this, unfolded assms(2)]
  have one: "t = i" if "t \<in> set (sp_testConnections sp)" "tested t = ?k" for t
    using sp(1) that assms(3) by (auto simp: trying_def distinct_map inj_on_def)
  have rest: "filter (\<lambda>t. tested t \<noteq> ?k) (sp_testConnections sp) = ?rest" by (rule filter_cong) (use one in auto)
  have "j \<in> set ?rest" using assms(4,5) by auto
  then have ne: "?rest \<noteq> []" by (metis empty_iff list.set(1))
  have found: "find (\<lambda>t. tested t = ?k) (sp_testConnections sp) = Some i"
  proof (cases "find (\<lambda>t. tested t = ?k) (sp_testConnections sp)")
    case (Some x)
    then have "x \<in> set (sp_testConnections sp)" "tested x = ?k" by (auto simp: find_Some_iff)
    with Some one show ?thesis by blast
  qed (use assms(3) in \<open>auto simp: find_None_iff\<close>)
  define s1 where "s1 = sp\<lparr>sp_listening := removeAll ?k (sp_listening sp), sp_waitForConnected := kMinConnectedTimeout,
    sp_waitForConnectedTimer := None, sp_waitForBetterTimer := Some kWaitForBetterTimeout\<rparr>"
  have "list_ex (\<lambda>t. test_priority t > test_priority i) (sp_testConnections sp)" using assms(4,5) by (auto simp: list_ex_iff)
  then have 1: "sup_do draw e1 (LinkConnected ?k) sp = Inr s1"
    using assms(3,9) found by (simp add: sp_onConnected_def s1_def)
  define s2 where "s2 = s1\<lparr>sp_testConnections := ?rest, sp_listening := removeAll ?k (sp_listening s1)\<rparr>"
  have "removeTestConnection ?k s1 = s2" using assms(3) by (auto simp: removeTestConnection_def s2_def s1_def rest)
  then have 2: "sup_do draw e2 (LinkDisconnected ?k) s1 = Inr s2"
    using ne by (simp add: sp_onDisconnected_def confirmBestConnection_def s2_def s1_def)
  define u where "u = s2\<lparr>sp_waitForBetterTimer := None\<rparr>"
  have "sp_testConnections u = ?rest" by (simp add: u_def s2_def)
  then have "max_test (test_value e3) (sp_testConnections u) \<noteq> None" using ne by (cases ?rest) simp_all
  then obtain t where t: "max_test (test_value e3) (sp_testConnections u) = Some t" by blast
  note t = t max_test_in [OF t]
  have "\<not> le_isConnected e3 (tested t)" using t(2) assms(9) by (simp add: u_def s2_def)
  then have 3: "sup_do draw e3 BetterFired s2 = Inr u"
    using t(1) by (simp add: confirmBestConnection_def flip: u_def)
  have l: "set (sp_listening sp) = tested ` set (sp_testConnections sp)" using sp(1) by (simp add: trying_def)
  have "sup_allowed c e1 (LinkConnected ?k) sp" "sup_allowed c e2 (LinkDisconnected ?k) s1" "sup_allowed c e3 BetterFired s2"
    using l assms(3,6-9) by (auto simp: sup_allowed_def silent_links_def s1_def s2_def alive_def)
  from sup_run.event [OF sup_run.event [OF sup_run.event [OF sup_run.rest this(1) 1] this(2) 2] this(3) 3]
  have run: "sup_run draw c sp [(sp, LinkConnected ?k), (s1, LinkDisconnected ?k), (s2, BetterFired)] u" by simp
  have "stuck u" using sp ne by (auto simp: stuck_defs trying_def u_def s2_def s1_def)
  have later: "no_timer v \<and> sp_connection v = None \<and> sp_testConnections v = sp_testConnections u \<and> sp_testConnections v \<noteq> []
        \<and> sp_created v = sp_created u"
    if "sup_run draw c u evs v \<and> list_all (\<lambda>(t, ev). \<not> wakes ev) evs" for evs v
    using stuck_run [of draw c u evs v] that \<open>stuck u\<close> unfolding stuck_def by simp
  have tests: "sp_testConnections u = ?rest" by (simp add: u_def s2_def)
  show ?thesis
    using run later tests by blast
qed

theorem connecting_unwatched_witness:
  "\<exists>s1 s2 u. sup_run ex_draw (ex_link None) (ex_sup 2)
      [(ex_sup 2, LinkConnected 1), (s1, LinkDisconnected 1), (s2, BetterFired)] u
    \<and> sp_testConnections u = [\<lparr>tested = 0, test_priority = 2\<rparr>] \<and> no_timer u"
proof -
  define i j where "i = \<lparr>tested = 1, test_priority = 1\<rparr>" and "j = \<lparr>tested = 0, test_priority = 2\<rparr>"
  have sp: "sp_testConnections (ex_sup 2) = [j, i]" unfolding i_def j_def by code_simp
  have q: "sp_queued ((ex_sup 1)\<lparr>sp_queued := sp_queued (ex_sup 1) - 1\<rparr>) = 0" by code_simp
  have "asserted (sp_connectToServer (ex_link None) False ((ex_sup 1)\<lparr>sp_queued := sp_queued (ex_sup 1) - 1\<rparr>)) = Inr (ex_sup 2)"
    using ex_sup_step(2) ex_sup_all(3) by (cases "sup_do ex_draw (ex_link None) QueuedConnect (ex_sup 1)") (simp_all add: ex_go_def)
  then have start: "sp_connectToServer (ex_link None) False ((ex_sup 1)\<lparr>sp_queued := sp_queued (ex_sup 1) - 1\<rparr>) = Some (ex_sup 2)"
    by simp
  have same: "same_session (ex_link None) (ex_link x)" for x by (simp add: same_session_def ex_link_def)
  have "\<forall>t \<in> set (sp_testConnections (ex_sup 2)). (le_isConnected (ex_link (Some 1)) (tested t) \<longleftrightarrow> t = i)
      \<and> \<not> le_isConnected (ex_link None) (tested t) \<and> \<not> le_isConnected (ex_link None) (tested t)"
    by (simp add: sp i_def j_def ex_link_def)
  from connecting_unwatched [OF start q _ _ _ same same same this, of j ex_draw]
  obtain s1 s2 u where u: "sup_run ex_draw (ex_link None) (ex_sup 2)
      [(ex_sup 2, LinkConnected (tested i)), (s1, LinkDisconnected (tested i)), (s2, BetterFired)] u"
    "sp_testConnections u = filter (\<lambda>t. t \<noteq> i) (sp_testConnections (ex_sup 2))"
    "\<forall>evs v. sup_run ex_draw (ex_link None) u evs v \<and> list_all (\<lambda>(t, ev). \<not> wakes ev) evs \<longrightarrow> no_timer v
      \<and> sp_connection v = None \<and> sp_testConnections v = sp_testConnections u \<and> sp_testConnections v \<noteq> []
        \<and> sp_created v = sp_created u"
    unfolding sp by (auto simp: i_def j_def)
  have "no_timer u" using u(3) sup_run.rest [of ex_draw "ex_link None" u] by force
  then show ?thesis using u(1,2) unfolding sp by (auto simp: i_def j_def)
qed

subsection \<open>A missing key of a CDN\<close>

text \<open>
  A CDN session whose public key is unknown does not recover by itself. When the creation of its
  key fails because the key is not known, the session asks for the configuration of the CDNs and keeps
  its connection; when that configuration has come, \<open>cdnConfigChanged\<close> does nothing, because there still
  is a connection, and neither does a change of the addresses but for the timeout of a retry. No key is
  created on that connection any more, and the timer for answers is as the answers left it.
\<close>
theorem cdn_key_unknown:
  assumes "sp_realDcType sp = DcCdn" "sp_connection sp \<noteq> None" "unboundReady e (UnboundFailed True) sp = Some sp'"
  shows "sp_connection sp' = sp_connection sp \<and> sp_keyCreator sp' = None \<and> sp_session sp' = sp_session sp
    \<and> sp_waitForReceivedTimer sp' = sp_waitForReceivedTimer sp
    \<and> cdnConfigChanged e' sp' = Some sp' \<and> dcOptionsChanged e' sp' = Some (sp'\<lparr>sp_retryTimeout := 1\<rparr>)"
proof -
  obtain t where t: "sp_releaseKeyCreationOnFail e sp = Some t" "sp' = (if sp_realDcType t = DcCdn then call RequestCDNConfig t else restart e t)"
    using assms(3) by (auto simp: fail_creation_def)
  have "\<exists>w. t = sp\<lparr>sp_keyCreator := None, sp_keys := w\<rparr> \<or> t = sp \<and> sp_keyCreator sp = None"
    using t(1) by (auto simp: sp_releaseKeyCreationOnFail_def split: if_splits)
  then have f: "sp_connection t = sp_connection sp" "sp_keyCreator t = None" "sp_session t = sp_session sp"
    "sp_waitForReceivedTimer t = sp_waitForReceivedTimer sp" "sp_realDcType t = DcCdn" using assms(1) by auto
  then have "sp' = t\<lparr>sp_calls := sp_calls t @ [RequestCDNConfig]\<rparr>" using t(2) by (simp add: call_def)
  then show ?thesis
    using f assms(2) by (simp add: cdnConfigChanged_def dcOptionsChanged_def sp_connectToServer_def)
qed

definition ex_cdn :: supervisor where
  "ex_cdn = (new_supervisor ex_request DcCdn (new_key_world None))\<lparr>sp_connection := Some 0\<rparr>"

theorem cdn_key_unknown_witness:
  "cdnConfigChanged (ex_link None) (call RequestCDNConfig ex_cdn) = Some (call RequestCDNConfig ex_cdn)"
proof -
  have "unboundReady (ex_link None) (UnboundFailed True) ex_cdn = Some (call RequestCDNConfig ex_cdn)"
    by (simp add: fail_creation_def sp_releaseKeyCreationOnFail_def ex_cdn_def new_supervisor_def)
  moreover have "sp_realDcType ex_cdn = DcCdn" "sp_connection ex_cdn \<noteq> None"
    by (simp_all add: ex_cdn_def new_supervisor_def)
  ultimately show ?thesis using cdn_key_unknown by blast
qed

end
