(* ===== verification/Spec2Isabelle.thy ===== *)
theory Spec2Isabelle
  imports Merged_Slice Pts_Waiter Business_Settings Tcp_Connection Resolving_Connection Custom_Api
    Session_Answers Mtp_Config Supervision_Stuck
begin

text \<open>
  A model of the core of a messenger client (a fork of Telegram Desktop, sources under
  \<open>src/Telegram/SourceFiles\<close>) and the theorems that make it correct.

  \<^bold>\<open>The program.\<close> The client keeps local copies of lists that live on a server and shows windows of
  them; it receives updates that carry sequence numbers and may come out of order; it talks to the
  server through TCP connections with their own framing and obfuscation, directly or through proxies
  whose domain may have to be resolved; and the fork adds a backend of its own over REST and a
  WebSocket. These parts, without their user interface, are what is modelled.

  \<^bold>\<open>Conventions.\<close> Classes are records, handlers are functions from state to state; events that the
  code fires, calls on other objects and signals are either results or appended to a field of the
  state. A failed \<open>Expects\<close>, \<open>Assert\<close> or \<open>Unexpected\<close>, signed overflow and access out of range are
  \<open>None\<close>. Machine integers are words where their width matters and \<open>int\<close> where they cannot leave
  their range, which each theory justifies. Code that is not in the repository (the TL types, Qt's
  network classes, OpenSSL) is an argument of the definitions that use it. Fuel is used in four
  places: \<open>replace_all\<close> gets the length of its text, \<open>unused_id\<close> one more than the ids in use,
  \<open>resend_fuel\<close> one more than the containers, which is enough, and
  \<open>handleOneReceived\<close> the depth to which packed messages and containers may nest. All other loops
  are total functions.

  \<^bold>\<open>Lists of messages.\<close>
  \<^item> \<open>Prelude\<close>: collections of facts, binary search and sorted vectors, bounded integers.
  \<^item> \<open>Slices\<close>: the slice operations shared by \<open>Storage::SparseIdsList\<close>
    (\<open>storage/storage_sparse_ids_list.cpp\<close>) and \<open>Data::MessagesList\<close> (\<open>data/data_messages.cpp\<close>), and
    \<open>queryFromSlice\<close>.
  \<^item> \<open>Server_View\<close>: the interface locale \<open>server_view\<close> between a cached list and the server: a legal
    operation succeeds and leaves the cache a true view, and what a query answers is true of the
    server's list. \<open>Sparse_Ids\<close> and \<open>Messages_List\<close> interpret it on the operations of the two classes;
    their theorems say that after any sequence of legal reports a query gives a gapless window with
    the right counters.
  \<^item> \<open>Message_Ids\<close>: message and peer identifiers (\<open>data/data_msg_id.h\<close>, \<open>data/data_peer_id.cpp\<close>): the
    blocks of ids are disjoint and their encodings, the one of MTProto and the serialized one round
    trip; the locale \<open>id_block\<close> is interpreted for client messages and for stories.
  \<^item> \<open>Slice_Builder\<close>: the builders of \<open>data/data_sparse_ids.cpp\<close> and \<open>data/data_messages.cpp\<close>: what a
    viewer holds after the first result and after updates and removals is a window of the list
    within its limits, and it asks for more exactly when it has too little, also when it shows nothing;
    a builder that was emptied is the exception, \<open>emptied_builder_quiet\<close>.
  \<^item> \<open>Merged_Slice\<close>: the slice of a chat that was migrated: it lists the old part before the new one,
    with consistent positions and counts.

  \<^bold>\<open>Updates.\<close> \<open>Pts_Waiter\<close> (\<open>data/data_pts_waiter.cpp\<close>): the buffer that puts updates in order. In
  every run the invariant of the counters holds and nothing is applied twice; and when all updates
  of a gapless sequence arrive, in any order, they are applied in the order of their numbers.

  \<^bold>\<open>Business settings.\<close> \<open>Working_Hours\<close> (\<open>data/business/data_business_common.cpp\<close>): the normal form of
  opening hours covers the same times and is sorted and disjoint; what extracting, removing and
  replacing a day does to the covered times. \<open>Business_Settings\<close>: recipients and permissions round
  trip through their MTP form.

  \<^bold>\<open>Transport.\<close>
  \<^item> \<open>Tcp_Framing\<close>: packet formats and the reassembly buffer of \<open>mtproto/connection_tcp.cpp\<close>. The
    locale \<open>packet_length\<close> is what the reader relies on, interpreted for both formats; the theorem
    is that any cutting of the stream gives back the packets.
  \<^item> \<open>Tcp_Connection\<close>: the obfuscated start of the stream, the unencrypted handshake packets of
    \<open>mtproto/connection_abstract.cpp\<close> and the status machine as a step relation.
  \<^item> \<open>Proxy_Data\<close>: proxy settings (\<open>mtproto/mtproto_proxy_data.cpp\<close>): a proxy is valid exactly when
    its secret is one the transport accepts.
  \<^item> \<open>Domain_Resolver\<close>, \<open>Resolving_Connection\<close>: resolving the domain of a proxy
    (\<open>mtproto/details/mtproto_domain_resolver.cpp\<close>), keeping the addresses (\<open>mtproto/mtp_instance.cpp\<close>)
    and trying them (\<open>mtproto/connection_resolving.cpp\<close>): the index stays in range in every run of
    the two together, every address is tried, cached answers live between ten seconds and five
    minutes.

  \<^bold>\<open>MTProto sessions\<close> (\<open>mtproto/session_private.cpp\<close>, \<open>mtproto/session.cpp\<close>, above the transport).
  \<^item> \<open>Flat_Map\<close>: \<open>base::flat_map\<close> by its documented behaviour, and the locale \<open>promise\<close> of relations
    that hold along loops, interpreted wherever a loop keeps something.
  \<^item> \<open>Received_Ids\<close>, \<open>Serialized_Request\<close> (\<open>mtproto/details/\<close>): no message is handled twice while its
    id is remembered; the layout of a request, its padding and the checks of a decrypted message
    agree.
  \<^item> \<open>Session_Requests\<close>, \<open>Session_Send\<close>, \<open>Session_Receive\<close>: the maps a request moves through,
    \<open>tryToSend\<close> and \<open>handleReceived\<close> with everything they call; the clock, ids drawn from it and
    random numbers are arguments.
  \<^item> \<open>Session_Invariant\<close>, \<open>Session_Acks\<close>, \<open>Session_Frames\<close>, \<open>Session_Sending\<close>, \<open>Session_Handling\<close>: the
    invariant of the maps and what each operation does to the requests that are pending.
  \<^item> \<open>Session_Runs\<close>: the session as a step relation; in no run a request that somebody waits for is
    lost. The theorem needs message ids that do not repeat; since there are only \<open>2^64\<close> it is stated
    up to a bound \<open>N\<close> of the ids drawn.
  \<^item> \<open>Session_Answers\<close>: an answer reaches the main thread, unless its request is too old; handling a
    message returns.

  \<^bold>\<open>Data centres and keys.\<close>
  \<^item> \<open>Dc_Keys\<close>: the keys of a data centre (\<open>mtproto/details/mtproto_dcenter.cpp\<close>) and the sessions that
    may create them (\<open>mtproto/session.cpp\<close>) as a step relation: a kind of key is created by at most one
    session at a time, and a finished creation that did not fit is dropped.
  \<^item> \<open>Data_Stream\<close>: what the code uses of \<open>QDataStream\<close>, by Qt's documented format; the locale
    \<open>codec\<close> of values that are read back as written is interpreted for every type.
  \<^item> \<open>Dc_Options\<close>, \<open>Dc_Options_Laws\<close>: the addresses and public keys of the data centres
    (\<open>mtproto/mtproto_dc_options.cpp\<close>): the data stay in a normal form, lookups give the endpoints
    that fit, a list of the server replaces the known data exactly when addresses differ.
  \<^item> \<open>Mtp_Config\<close>: the configuration of the server (\<open>mtproto/mtproto_config.cpp\<close>), written and read
    back; of options that may not be changed the built-in ones are written.

  \<^bold>\<open>Supervision of a connection\<close> (\<open>mtproto/session_private.cpp\<close>, the rest of \<open>SessionPrivate\<close>).
  \<^item> \<open>Session_Connection\<close>: test connections, timers, creating, binding and applying of keys, and around
    them the packets and the sending of \<open>Session_Receive\<close> and \<open>Session_Send\<close>; the state \<open>supervisor\<close>
    has the session of \<open>Session_Requests\<close> and the keys of \<open>Dc_Keys\<close> as parts.
  \<^item> \<open>Session_Binding\<close>: receiving answers a binding request at most once; only sending makes one.
  \<^item> \<open>Session_Supervised\<close>: the events of a supervised session as a step relation and its invariant:
    no assertion fails in any run.
  \<^item> \<open>Supervision_Runs\<close>: every event of the supervision is a run of \<open>Session_Runs\<close>, so what was proved
    of the requests there holds under supervision.
  \<^item> \<open>Supervision_Stuck\<close>: when the first of several test connections is lost while a better one is
    waited for, no timer watches over the others: nothing but a signal of them or a restart from outside
    leads to another attempt; and a CDN whose key is not known.

  \<^bold>\<open>The backend of the fork.\<close> \<open>Custom_Network\<close>: session manager, REST client and WebSocket client
  (\<open>custom_network/\<close>): the delay of reconnecting grows within bounds. \<open>Custom_Api\<close>: every operation
  of \<open>CustomApi\<close> with its request and callbacks, file transfers and the backend object: the token of
  the requests, the session and its file agree in every run that began without a stored session.

  \<^bold>\<open>Defects.\<close> Some theorems show what the code does against its intention: \<open>answer_delivered\<close>,
  \<open>receive_returns\<close> (its case of an empty message), \<open>key_creation_lost\<close>, \<open>set_from_list\<close>, \<open>config_lost\<close>,
  \<open>connecting_unwatched\<close>, \<open>cdn_key_unknown\<close>, \<open>emptied_builder_quiet\<close>, \<open>merged_zero_position\<close>, \<open>removeLessThan_view\<close>,
  \<open>remove_day_loses_tail\<close>, \<open>v0_largest_packet_unreadable\<close>, \<open>resolver_never_retries\<close>,
  \<open>ws_disconnect_reconnects\<close>, \<open>restart_without_token\<close> and \<open>refresh_after_logout\<close>.

  \<^bold>\<open>Not modelled.\<close> Widgets, painting, media and calls; export and local storage; the page editor; of a
  session the encryption of packets, the exchange of keys and its cryptography and the corrections
  of the clock; the instance that owns the sessions (\<open>mtproto/mtp_instance.cpp\<close>), whose calls are
  events of the supervision and which mainly starts threads and runs callbacks of other parts; HTTP
  and TLS transports, which are glue over Qt; \<open>ParseDnsResponse\<close> and the URLs of DNS requests; plural
  rules; logging. The classes of the namespace \<open>Custom\<close> (\<open>api_facade.cpp\<close> and its users) are not part
  of the build and rely on classes the repository does not have.
\<close>

end
